(* ===== verification/Kernel_Prelude.thy ===== *)
theory Kernel_Prelude
  imports Main "HOL-Library.Word"
begin

text \<open>
  The vocabulary the component theories share: names for the machine types of the C sources,
  the collections the proofs draw on, and generic facts on machine words, loops over index
  ranges and lists.
\<close>

unbundle bit_operations_syntax

section \<open>Machine types\<close>

type_synonym u8 = "8 word"
type_synonym u16 = "16 word"
type_synonym u32 = "32 word"

text \<open>A pointer is its 32-bit address; the null pointer is address 0.\<close>

type_synonym ptr = u32

abbreviation (input) NULL :: ptr where
  "NULL \<equiv> 0"

section \<open>Collections\<close>

named_theorems model_defs \<open>unfolding rules of the definitions of a component\<close>
named_theorems frame_simps \<open>what an operation leaves unchanged\<close>
named_theorems inv_intros \<open>operations keep the invariants\<close>

section \<open>Words\<close>

lemma unat_add_no_wrap:
  "unat a + unat b < 2 ^ 32 \<Longrightarrow> unat (a + b) = unat a + unat b" for a b :: u32
  by (simp add: unat_word_ariths)

lemma unat_plus_1: "unat a + 1 < 2 ^ 32 \<Longrightarrow> unat (a + 1) = unat a + 1" for a :: u32
  using unat_add_no_wrap [of a 1] by simp

lemma unat_sub_no_wrap:
  "b \<le> a \<Longrightarrow> unat (a - b) = unat a - unat b" for a b :: u32
  by (simp add: unat_sub)

lemma unat_mult_no_wrap:
  "unat a * unat b < 2 ^ 32 \<Longrightarrow> unat (a * b) = unat a * unat b" for a b :: u32
  by (simp add: unat_word_ariths)

lemma unat_of_nat32: "n < 2 ^ 32 \<Longrightarrow> unat (of_nat n :: u32) = n"
  by (simp add: unat_of_nat take_bit_nat_eq_self)

lemma unat_lt_2p32: "unat (a :: u32) < 2 ^ 32"
  using unsigned_less [of a, where ?'a = nat] by simp

lemma word32_eq_iff_unat: "a = b \<longleftrightarrow> unat a = unat b" for a b :: u32
  by (rule word_unat_eq_iff)

lemma unat_lt_256: "unat (v :: u8) < 256"
  using unsigned_less [of v, where ?'a = nat] by simp

lemma unat_ucast_8_32 [simp]: "unat (ucast (v :: u8) :: u32) = unat v"
  using unat_lt_256 [of v] by (simp add: unsigned_ucast_eq take_bit_nat_eq_self)

lemma bit_all_ones32: "n < 32 \<Longrightarrow> bit (0xFFFFFFFF :: u32) n"
proof -
  assume n: "n < 32"
  have "(0xFFFFFFFF :: u32) = - 1" by simp
  then show ?thesis using n by (simp only: bit_minus_1_iff) simp
qed

text \<open>Clearing the low bits rounds down to a multiple of a power of two.\<close>

lemma unat_and_not_mask: "unat (x AND NOT (mask n)) = unat x div 2 ^ n * 2 ^ n" for x :: u32
proof -
  have "x AND NOT (mask n) = push_bit n (drop_bit n x)"
    by (rule bit_eqI) (auto simp: bit_simps)
  also have "\<dots> = x - take_bit n x" by (metis add_diff_cancel_right' bits_ident)
  finally have "unat (x AND NOT (mask n)) = unat (x - take_bit n x)" by simp
  also have "\<dots> = unat x - unat (take_bit n x)"
    by (rule unat_sub) (simp add: word_le_nat_alt unsigned_take_bit_eq take_bit_nat_less_eq_self)
  also have "\<dots> = unat x div 2 ^ n * 2 ^ n"
    by (simp only: unsigned_take_bit_eq take_bit_nat_def) (rule minus_mod_eq_div_mult)
  finally show ?thesis .
qed

lemma unat_align4: "unat (x AND NOT 3) = unat x div 4 * 4" for x :: u32
  using unat_and_not_mask [of x 2] by (simp add: mask_eq_exp_minus_1)

lemma unat_align4K: "unat (x AND NOT 0xFFF) = unat x div 4096 * 4096" for x :: u32
  using unat_and_not_mask [of x 12] by (simp add: mask_eq_exp_minus_1)
section \<open>Lists and folds\<close>

lemma fold_invariant_set:
  assumes "P s" and "\<And>x t. x \<in> set xs \<Longrightarrow> P t \<Longrightarrow> P (f x t)"
  shows "P (fold f xs s)"
  using assms by (induction xs arbitrary: s) auto

lemma card_insert_below:
  "finite A \<Longrightarrow> x \<notin> A \<Longrightarrow> card (insert x A) = card A + 1"
  by simp

section \<open>Bytes in a buffer\<close>

text \<open>\<open>memset\<close> and \<open>memcpy\<close> into a buffer.\<close>

definition put_bytes :: "nat \<Rightarrow> u8 list \<Rightarrow> u8 list \<Rightarrow> u8 list" where
  "put_bytes offset bs buf = take offset buf @ bs @ drop (offset + length bs) buf"

lemma put_bytes_length: "off + length bs \<le> length buf \<Longrightarrow> length (put_bytes off bs buf) = length buf"
  by (simp add: put_bytes_def)

lemma put_bytes_nth:
  assumes "off + length bs \<le> length buf" "i < length buf"
  shows "put_bytes off bs buf ! i = (if off \<le> i \<and> i < off + length bs then bs ! (i - off) else buf ! i)"
  using assms by (auto simp: put_bytes_def nth_append)

end
