(* ===== verification/Utils.thy ===== *)
theory Utils
  imports Kernel_Prelude "HOL-Library.Signed_Division"
begin

text \<open>
  The string and memory helpers (src/utils.c) on a byte-addressed memory. \<open>memset\<close> and \<open>memcpy\<close> are
  modelled with their three phases, the unaligned head, the 32-bit words and the tail, and shown
  equal to the plain effect on every byte; the string functions are walks to the terminating zero
  byte; \<open>int_to_ascii\<close> produces digits from the least significant one and reverses them in place.
\<close>

section \<open>Memory\<close>

type_synonym mem = "ptr \<Rightarrow> u8"

text \<open>32-bit accesses, least significant byte first.\<close>

definition write32 :: "ptr \<Rightarrow> u32 \<Rightarrow> mem \<Rightarrow> mem" where
  "write32 p v m = m(p := ucast v, p + 1 := ucast (drop_bit 8 v),
     p + 2 := ucast (drop_bit 16 v), p + 3 := ucast (drop_bit 24 v))"

definition read32 :: "ptr \<Rightarrow> mem \<Rightarrow> u32" where
  "read32 p m = ucast (m p) OR push_bit 8 (ucast (m (p + 1))) OR
     push_bit 16 (ucast (m (p + 2))) OR push_bit 24 (ucast (m (p + 3)))"

section \<open>memset\<close>

text \<open>The head loop stops at the first word boundary; it yields the bytes left, the pointer and the memory.\<close>

fun set_head :: "nat \<Rightarrow> ptr \<Rightarrow> u8 \<Rightarrow> mem \<Rightarrow> nat \<times> ptr \<times> mem" where
  "set_head 0 p v m = (0, p, m)"
| "set_head (Suc len) p v m =
     (if p AND 3 \<noteq> 0 then set_head len (p + 1) v (m(p := v)) else (Suc len, p, m))"

fun set_words :: "nat \<Rightarrow> ptr \<Rightarrow> u32 \<Rightarrow> mem \<Rightarrow> ptr \<times> mem" where
  "set_words 0 p v m = (p, m)"
| "set_words (Suc words) p v m = set_words words (p + 4) v (write32 p v m)"

fun set_bytes :: "nat \<Rightarrow> ptr \<Rightarrow> u8 \<Rightarrow> mem \<Rightarrow> mem" where
  "set_bytes 0 p v m = m"
| "set_bytes (Suc len) p v m = set_bytes len (p + 1) v (m(p := v))"

definition memset :: "ptr \<Rightarrow> u32 \<Rightarrow> u32 \<Rightarrow> mem \<Rightarrow> ptr \<times> mem" where
  "memset dest val len m =
     (let v8 = ucast val :: u8 in
      case set_head (unat len) dest v8 m of (len1, p1, m1) \<Rightarrow>
        if len1 \<ge> 4 then
          let v32 = ucast v8 * 0x01010101;
              words = len1 div 4
          in (case set_words words p1 v32 m1 of (p2, m2) \<Rightarrow>
                (dest, set_bytes (len1 - words * 4) p2 v8 m2))
        else (dest, set_bytes len1 p1 v8 m1))"

section \<open>memcpy\<close>

fun copy_head :: "nat \<Rightarrow> ptr \<Rightarrow> ptr \<Rightarrow> mem \<Rightarrow> nat \<times> ptr \<times> ptr \<times> mem" where
  "copy_head 0 d s m = (0, d, s, m)"
| "copy_head (Suc len) d s m =
     (if d AND 3 \<noteq> 0 then copy_head len (d + 1) (s + 1) (m(d := m s)) else (Suc len, d, s, m))"

fun copy_words :: "nat \<Rightarrow> ptr \<Rightarrow> ptr \<Rightarrow> mem \<Rightarrow> ptr \<times> ptr \<times> mem" where
  "copy_words 0 d s m = (d, s, m)"
| "copy_words (Suc words) d s m = copy_words words (d + 4) (s + 4) (write32 d (read32 s m) m)"

fun copy_bytes :: "nat \<Rightarrow> ptr \<Rightarrow> ptr \<Rightarrow> mem \<Rightarrow> mem" where
  "copy_bytes 0 d s m = m"
| "copy_bytes (Suc len) d s m = copy_bytes len (d + 1) (s + 1) (m(d := m s))"

definition memcpy :: "ptr \<Rightarrow> ptr \<Rightarrow> u32 \<Rightarrow> mem \<Rightarrow> ptr \<times> mem" where
  "memcpy dest src len m =
     (case copy_head (unat len) dest src m of (len1, d1, s1, m1) \<Rightarrow>
        if len1 \<ge> 4 \<and> s1 AND 3 = 0 then
          let words = len1 div 4
          in (case copy_words words d1 s1 m1 of (d2, s2, m2) \<Rightarrow>
                (dest, copy_bytes (len1 - words * 4) d2 s2 m2))
        else (dest, copy_bytes len1 d1 s1 m1))"

section \<open>Strings\<close>

text \<open>A string without a terminating zero makes these walks run on: the result is \<open>None\<close>.\<close>

partial_function (option) strlen_loop :: "ptr \<Rightarrow> u32 \<Rightarrow> mem \<Rightarrow> u32 option" where
  "strlen_loop str len m = (if m (str + len) = 0 then Some len else strlen_loop str (len + 1) m)"

definition strlen :: "ptr \<Rightarrow> mem \<Rightarrow> u32 option" where
  "strlen str m = strlen_loop str 0 m"

partial_function (option) strcmp :: "ptr \<Rightarrow> ptr \<Rightarrow> mem \<Rightarrow> int option" where
  "strcmp s1 s2 m =
     (if m s1 \<noteq> 0 \<and> m s1 = m s2 then strcmp (s1 + 1) (s2 + 1) m
      else Some (uint (m s1) - uint (m s2)))"

partial_function (option) strcpy_loop :: "ptr \<Rightarrow> ptr \<Rightarrow> mem \<Rightarrow> mem option" where
  "strcpy_loop d src m =
     (let m' = m(d := m src) in if m src = 0 then Some m' else strcpy_loop (d + 1) (src + 1) m')"

definition strcpy :: "ptr \<Rightarrow> ptr \<Rightarrow> mem \<Rightarrow> (ptr \<times> mem) option" where
  "strcpy dest src m = map_option (\<lambda>m'. (dest, m')) (strcpy_loop dest src m)"

section \<open>Decimal output\<close>

text \<open>
  A C \<open>int\<close> is an integer in 32-bit range; the negation wraps, and \<open>/\<close> and \<open>%\<close> round towards
  zero. The characters written are given as their codes, before the final zero.
\<close>

definition wrap32 :: "int \<Rightarrow> int" where
  "wrap32 n = (n + 2 ^ 31) mod 2 ^ 32 - 2 ^ 31"

function digits_loop :: "int \<Rightarrow> int list" where
  "digits_loop n = (n smod 10 + 48) # (if n sdiv 10 > 0 then digits_loop (n sdiv 10) else [])"
  by auto
termination
  by (relation "measure nat") (auto simp: signed_divide_int_def sgn_if split: if_splits)

fun swap_loop :: "nat \<Rightarrow> nat \<Rightarrow> 'a list \<Rightarrow> 'a list" where
  "swap_loop start end1 str =
     (if start < end1
      then swap_loop (start + 1) (end1 - 1) (str[start := str ! end1, end1 := str ! start])
      else str)"

declare digits_loop.simps [simp del] swap_loop.simps [simp del]

definition int_to_ascii :: "int \<Rightarrow> int list" where
  "int_to_ascii n =
     (let is_negative = n < 0;
          str = digits_loop (if n < 0 then wrap32 (- n) else n);
          str1 = (if is_negative then str @ [45] else str)
      in swap_loop 0 (length str1 - 1) str1)"

section \<open>Lemmas on memset\<close>

lemma set_bytes_apply:
  "n \<le> 2 ^ 32 \<Longrightarrow> set_bytes n p v m x = (if unat (x - p) < n then v else m x)"
proof (induction n arbitrary: p m)
  case (Suc n)
  have "unat (x - p) < Suc n \<longleftrightarrow> x = p \<or> unat (x - (p + 1)) < n"
  proof (cases "x = p")
    case False
    then have "x - p \<noteq> 0" by simp
    then have "unat (x - p - 1) = unat (x - p) - 1" "0 < unat (x - p)"
      by (simp_all add: unat_minus_one unat_gt_0)
    moreover have eq: "x - (p + 1) = x - p - 1" by simp
    ultimately show ?thesis unfolding eq using False by auto
  qed simp
  then show ?case using Suc by (auto simp: unat_lt_2p32)
qed simp

lemma set_bytes_add: "set_bytes (a + b) p v m = set_bytes b (p + of_nat a) v (set_bytes a p v m)"
  by (induction a arbitrary: p m) (simp_all add: add.assoc)

lemma set_head_bytes:
  "set_head n p v m = (n', p', m') \<Longrightarrow> n' \<le> n \<and> p' = p + of_nat (n - n') \<and> m' = set_bytes (n - n') p v m"
proof (induction n arbitrary: p m)
  case (Suc n)
  show ?case
  proof (cases "p AND 3 = 0")
    case False
    with Suc.prems have "set_head n (p + 1) v (m(p := v)) = (n', p', m')" by simp
    from Suc.IH [OF this] show ?thesis by (auto simp: Suc_diff_le fun_upd_def)
  qed (use Suc.prems in auto)
qed auto

lemma splat_arith:
  assumes "n < (256 :: nat)"
  shows "n * 16843009 mod 256 = n" "n * 16843009 div 256 mod 256 = n" "n * 16843009 div 65536 mod 256 = n"
    "n * 16843009 div 16777216 mod 256 = n"
proof -
  have d: "n * 16843009 div 256 = n * 65793" "n * 65793 div 256 = n * 257" "n * 257 div 256 = n"
    "n * 16843009 mod 256 = n" "n * 65793 mod 256 = n" "n * 257 mod 256 = n"
    using assms by (simp_all add: div_nat_eqI mod_nat_eqI)
  have "n * 16843009 div 65536 = n * 16843009 div 256 div 256"
    "n * 16843009 div 16777216 = n * 16843009 div 256 div 256 div 256"
    by (simp_all flip: div_mult2_eq)
  with d assms show "n * 16843009 mod 256 = n" "n * 16843009 div 256 mod 256 = n"
    "n * 16843009 div 65536 mod 256 = n" "n * 16843009 div 16777216 mod 256 = n" by simp_all
qed

lemma splat_byte:
  fixes v :: u8
  assumes "k \<in> {0, 8, 16, 24}"
  shows "ucast (drop_bit k (ucast v * 0x01010101 :: u32)) = v"
proof -
  have v: "unat v < 256" by (rule unat_lt_256)
  then have "unat (ucast v * 0x01010101 :: u32) = unat v * 0x01010101"
    by (subst unat_mult_no_wrap) simp_all
  then have "unat (ucast (drop_bit k (ucast v * 0x01010101 :: u32)) :: u8) = unat v * 0x01010101 div 2 ^ k mod 256"
    using v by (simp only: unsigned_ucast_eq unsigned_drop_bit_eq) (simp add: drop_bit_eq_div take_bit_eq_mod)
  also have "\<dots> = unat v" using assms splat_arith [OF v] by auto
  finally show ?thesis by (simp add: word_unat_eq_iff)
qed

lemma write32_bytes: "write32 p (ucast (v :: u8) * 0x01010101) m = set_bytes 4 p v m"
  using splat_byte [of 0 v] splat_byte [of 8 v] splat_byte [of 16 v] splat_byte [of 24 v]
  by (simp add: write32_def eval_nat_numeral add.assoc)

lemma set_words_bytes:
  "set_words n p (ucast (v :: u8) * 0x01010101) m = (p + of_nat (4 * n), set_bytes (4 * n) p v m)"
proof (induction n arbitrary: p m)
  case (Suc n)
  have "4 * Suc n = 4 + 4 * n" by simp
  with Suc show ?case
    by (simp only: set_words.simps write32_bytes set_bytes_add) (simp add: add.assoc)
qed simp

lemma memset_bytes: "memset dest val len m = (dest, set_bytes (unat len) dest (ucast val) m)"
proof -
  obtain n p m1 where h: "set_head (unat len) dest (ucast val) m = (n, p, m1)" by (rule prod_cases3)
  have n: "n \<le> unat len" "p = dest + of_nat (unat len - n)" "m1 = set_bytes (unat len - n) dest (ucast val) m"
    using set_head_bytes [OF h] by auto
  have tail: "set_bytes n p (ucast val) m1 = set_bytes (unat len) dest (ucast val) m"
    using set_bytes_add [of "unat len - n" n dest "ucast val" m] n by simp
  have sum: "4 * (n div 4) + (n - n div 4 * 4) = n" by simp
  have words: "set_bytes n p (ucast val) m1 =
      set_bytes (n - n div 4 * 4) (p + of_nat (4 * (n div 4))) (ucast val) (set_bytes (4 * (n div 4)) p (ucast val) m1)"
    using set_bytes_add [of "4 * (n div 4)" "n - n div 4 * 4" p "ucast val" m1] unfolding sum .
  show ?thesis
    unfolding memset_def Let_def h
    by (cases "4 \<le> n") (simp_all only: prod.case if_True if_False set_words_bytes words [symmetric] tail)
qed

section \<open>Lemmas on memcpy\<close>

text \<open>Source and destination do not overlap.\<close>

definition apart :: "ptr \<Rightarrow> ptr \<Rightarrow> nat \<Rightarrow> bool" where
  "apart d s n \<longleftrightarrow> (\<forall>i < n. \<forall>j < n. d + of_nat i \<noteq> s + of_nat j)"

definition copied :: "nat \<Rightarrow> ptr \<Rightarrow> ptr \<Rightarrow> mem \<Rightarrow> mem" where
  "copied n d s m = (\<lambda>x. if unat (x - d) < n then m (s + (x - d)) else m x)"

lemma copied_0 [simp]: "copied 0 d s m = m"
  by (simp add: copied_def)

lemma apart_mono: "apart d s n \<Longrightarrow> k \<le> n \<Longrightarrow> apart d s k"
  by (auto simp: apart_def)

lemma apart_shift: "apart d s (a + b) \<Longrightarrow> apart (d + of_nat a) (s + of_nat a) b"
  by (auto simp: apart_def add.assoc simp flip: of_nat_add)

text \<open>Ranges one after the other do not overlap.\<close>

lemma apart_below:
  assumes "unat d + n \<le> unat s" "unat s + n \<le> 2 ^ 32"
  shows "apart d s n"
  unfolding apart_def
proof (intro allI impI notI)
  fix i j assume ij: "i < n" "j < n" and eq: "d + of_nat i = s + of_nat j"
  have "unat (of_nat i :: u32) = i" "unat (of_nat j :: u32) = j"
    using ij assms by (auto intro!: unat_of_nat32)
  then have "unat (d + of_nat i) = unat d + i" "unat (s + of_nat j) = unat s + j"
    using ij assms by (simp_all add: unat_add_no_wrap)
  with eq ij assms show False by simp
qed

lemma copied_add:
  assumes "apart d s (a + b)" "a + b \<le> 2 ^ 32"
  shows "copied b (d + of_nat a) (s + of_nat a) (copied a d s m) = copied (a + b) d s m"
proof (rule ext)
  fix x
  define i where "i = unat (x - d)"
  have x: "x = d + of_nat i" by (simp add: i_def)
  have i: "i < 2 ^ 32" unfolding i_def by (rule unat_lt_2p32)
  then have ui: "unat (of_nat i :: u32) = i" by (rule unat_of_nat32)
  show "copied b (d + of_nat a) (s + of_nat a) (copied a d s m) x = copied (a + b) d s m x"
  proof (cases "a \<le> i \<and> i < a + b")
    case True
    then have "x - (d + of_nat a) = of_nat (i - a)" by (simp add: x of_nat_diff)
    moreover have "unat (of_nat (i - a) :: u32) = i - a" using i by (intro unat_of_nat32) simp
    moreover have "\<not> unat (s + of_nat i - d) < a"
    proof
      assume l: "unat (s + of_nat i - d) < a"
      have "d + of_nat (unat (s + of_nat i - d)) = s + of_nat i" by simp
      with assms(1) l True show False unfolding apart_def by (metis trans_less_add1)
    qed
    ultimately show ?thesis
      using True ui by (auto simp: copied_def x of_nat_diff)
  next
    case False
    have "\<not> unat (x - (d + of_nat a)) < b"
    proof
      define j where "j = unat (x - (d + of_nat a))"
      assume "unat (x - (d + of_nat a)) < b"
      then have "a + j < 2 ^ 32" "j < b" using assms(2) by (simp_all add: j_def)
      moreover have "(of_nat i :: u32) = of_nat (a + j)" by (simp add: j_def x)
      ultimately have "i = a + j" using ui unat_of_nat32 by metis
      with False \<open>j < b\<close> show False by simp
    qed
    then show ?thesis using False ui by (auto simp: copied_def x)
  qed
qed

lemma copied_1: "m(d := m s) = copied 1 d s m"
  by (auto simp: copied_def fun_eq_iff unat_eq_0)

lemma copy_bytes_copied:
  "apart d s n \<Longrightarrow> n \<le> 2 ^ 32 \<Longrightarrow> copy_bytes n d s m = copied n d s m"
proof (induction n arbitrary: d s m)
  case (Suc n)
  have "apart (d + 1) (s + 1) n" using apart_shift [of d s 1 n] Suc.prems(1) by simp
  with Suc copied_add [of d s 1 n m] copied_1 [of m d s] show ?case by simp
qed simp

lemma copy_head_copied:
  "copy_head n d s m = (n', d', s', m') \<Longrightarrow> apart d s n \<Longrightarrow> n \<le> 2 ^ 32 \<Longrightarrow>
    n' \<le> n \<and> d' = d + of_nat (n - n') \<and> s' = s + of_nat (n - n') \<and> m' = copied (n - n') d s m"
proof (induction n arbitrary: d s m)
  case (Suc n)
  show ?case
  proof (cases "d AND 3 = 0")
    case False
    with Suc.prems have run: "copy_head n (d + 1) (s + 1) (m(d := m s)) = (n', d', s', m')" by simp
    have ap: "apart (d + 1) (s + 1) n" using apart_shift [of d s 1 n] Suc.prems(2) by simp
    from Suc.IH [OF run ap] Suc.prems have IH: "n' \<le> n" "d' = d + 1 + of_nat (n - n')" "s' = s + 1 + of_nat (n - n')"
      "m' = copied (n - n') (d + 1) (s + 1) (copied 1 d s m)" by (auto simp: copied_1)
    have "apart d s (1 + (n - n'))" using Suc.prems(2) IH(1) by (rule_tac apart_mono) auto
    with copied_add [of d s 1 "n - n'" m] Suc.prems(3) IH show ?thesis by (simp add: Suc_diff_le)
  qed (use Suc.prems in auto)
qed auto

text \<open>A word copy is a copy of its four bytes.\<close>

lemma read_write32:
  "write32 d (read32 s m) m = m(d := m s, d + 1 := m (s + 1), d + 2 := m (s + 2), d + 3 := m (s + 3))"
proof -
  have "ucast (read32 s m) = m s" "ucast (drop_bit 8 (read32 s m)) = m (s + 1)"
    "ucast (drop_bit 16 (read32 s m)) = m (s + 2)" "ucast (drop_bit 24 (read32 s m)) = m (s + 3)"
    by (rule bit_eqI; use bit_imp_le_length [where 'a = 8] in \<open>fastforce simp: read32_def bit_simps\<close>)+
  then show ?thesis by (simp add: write32_def)
qed

lemma word_copy_copied:
  assumes "apart d s 4"
  shows "write32 d (read32 s m) m = copied 4 d s m"
proof -
  have "d + of_nat i \<noteq> s + of_nat j" if "i < 4" "j < 4" for i j using assms that by (simp add: apart_def)
  from this [of 0 1] this [of 0 2] this [of 0 3] this [of 1 2] this [of 1 3] this [of 2 3]
  have ne: "d \<noteq> s + 1" "d \<noteq> s + 2" "d \<noteq> s + 3" "d + 1 \<noteq> s + 2" "d + 1 \<noteq> s + 3" "d + 2 \<noteq> s + 3" by simp_all
  have "copy_bytes 4 d s m = m(d := m s, d + 1 := m (s + 1), d + 2 := m (s + 2), d + 3 := m (s + 3))"
    using ne by (simp add: eval_nat_numeral add.assoc)
  then show ?thesis using read_write32 copy_bytes_copied [OF assms] by simp
qed

lemma copy_words_copied:
  "apart d s (4 * n) \<Longrightarrow> 4 * n \<le> 2 ^ 32 \<Longrightarrow>
    copy_words n d s m = (d + of_nat (4 * n), s + of_nat (4 * n), copied (4 * n) d s m)"
proof (induction n arbitrary: d s m)
  case (Suc n)
  have eq: "4 * Suc n = 4 + 4 * n" by simp
  have "apart d s 4" using Suc.prems(1) by (rule apart_mono) simp
  moreover have ap: "apart (d + 4) (s + 4) (4 * n)"
    using apart_shift [of d s 4 "4 * n"] Suc.prems(1) unfolding eq by simp
  moreover have "copied (4 * n) (d + 4) (s + 4) (copied 4 d s m) = copied (4 + 4 * n) d s m"
    using copied_add [of d s 4 "4 * n" m] Suc.prems unfolding eq by simp
  ultimately show ?case
    using Suc.IH [OF ap, of "copied 4 d s m"] Suc.prems(2) unfolding eq
    by (simp add: word_copy_copied add.assoc)
qed simp

lemma memcpy_copied:
  assumes ap: "apart dest src (unat len)"
  shows "memcpy dest src len m = (dest, copied (unat len) dest src m)"
proof -
  have len: "unat len \<le> 2 ^ 32" using unat_lt_2p32 [of len] by simp
  obtain n d s m1 where h: "copy_head (unat len) dest src m = (n, d, s, m1)" by (rule prod_cases4)
  have n: "n \<le> unat len" "d = dest + of_nat (unat len - n)" "s = src + of_nat (unat len - n)"
    "m1 = copied (unat len - n) dest src m" using copy_head_copied [OF h ap len] by auto
  have total: "unat len - n + n = unat len" using n(1) by simp
  have ap': "apart d s n" unfolding n(2,3) using apart_shift [of dest src "unat len - n" n] ap total by simp
  have n32: "n \<le> 2 ^ 32" using n(1) len by simp
  have tail: "copied n d s m1 = copied (unat len) dest src m"
    unfolding n(2-4) using copied_add [of dest src "unat len - n" n m] ap len total by simp
  define w where "w = 4 * (n div 4)"
  have w: "w + (n - n div 4 * 4) = n" "w \<le> n" by (simp_all add: w_def)
  have "copy_words (n div 4) d s m1 = (d + of_nat w, s + of_nat w, copied w d s m1)"
    unfolding w_def using w n32 apart_mono [OF ap'] by (intro copy_words_copied) (auto simp: w_def)
  moreover have "copy_bytes (n - n div 4 * 4) (d + of_nat w) (s + of_nat w) (copied w d s m1) = copied n d s m1"
    using copied_add [of d s w "n - n div 4 * 4" m1] apart_shift [of d s w "n - n div 4 * 4"] ap' n32
    unfolding w(1) by (subst copy_bytes_copied) auto
  ultimately show ?thesis
    unfolding memcpy_def Let_def h using copy_bytes_copied [OF ap' n32, of m1]
    by (cases "4 \<le> n \<and> s AND 3 = 0") (simp_all only: prod.case if_True if_False if_cancel tail)
qed

section \<open>Lemmas on strings\<close>

text \<open>A string in memory: its bytes are not zero and a zero byte follows them.\<close>

fun cstr :: "mem \<Rightarrow> ptr \<Rightarrow> u8 list \<Rightarrow> bool" where
  "cstr m p [] \<longleftrightarrow> m p = 0"
| "cstr m p (c # cs) \<longleftrightarrow> m p = c \<and> c \<noteq> 0 \<and> cstr m (p + 1) cs"

lemma strlen_cstr_from:
  "cstr m (p + len) cs \<Longrightarrow> strlen_loop p len m = Some (len + of_nat (length cs))"
  by (induction cs arbitrary: len) (subst strlen_loop.simps, simp add: add.assoc [symmetric])+

lemma strcmp_cstr:
  "cstr m p cs \<Longrightarrow> cstr m q ds \<Longrightarrow> \<exists>r. strcmp p q m = Some r \<and> (r = 0 \<longleftrightarrow> cs = ds)"
proof (induction cs arbitrary: p q ds)
  case Nil
  then show ?case by (cases ds) (subst strcmp.simps, auto simp: uint_0_iff)+
next
  case (Cons c cs)
  show ?case
  proof (cases ds)
    case Nil
    then show ?thesis using Cons.prems by (subst strcmp.simps) (auto simp: uint_0_iff)
  next
    case ds: (Cons d ds')
    show ?thesis
    proof (cases "c = d")
      case True
      with Cons ds show ?thesis by (subst strcmp.simps) auto
    next
      case False
      with Cons.prems ds show ?thesis by (subst strcmp.simps) (auto simp flip: word_uint_eq_iff)
    qed
  qed
qed

lemma cstr_upd:
  "(\<And>j. j \<le> length cs \<Longrightarrow> x \<noteq> p + of_nat j) \<Longrightarrow> cstr (m(x := v)) p cs = cstr m p cs"
proof (induction cs arbitrary: p)
  case Nil
  from Nil [of 0] show ?case by simp
next
  case (Cons c cs)
  have "x \<noteq> p + 1 + of_nat j" if "j \<le> length cs" for j
    using Cons.prems [of "Suc j"] that by (simp add: add.assoc)
  from Cons.IH [OF this] Cons.prems [of 0] show ?case by auto
qed

lemma strcpy_cstr:
  assumes "cstr m s cs" "apart d s (length cs + 1)" "length cs < 2 ^ 32"
  shows "strcpy_loop d s m = Some (copied (length cs + 1) d s m)"
  using assms
proof (induction cs arbitrary: d s m)
  case Nil
  then show ?case using copied_1 [of m d s] by (subst strcpy_loop.simps) simp
next
  case (Cons c cs)
  let ?m = "copied 1 d s m"
  have "d \<noteq> s + 1 + of_nat j" if "j \<le> length cs" for j
  proof -
    have "d + of_nat i \<noteq> s + of_nat k" if "i < length cs + 2" "k < length cs + 2" for i k
      using Cons.prems(2) that by (simp add: apart_def)
    from this [of 0 "Suc j"] that have "d + of_nat 0 \<noteq> s + of_nat (Suc j)" by simp
    then show ?thesis by (simp add: add.assoc)
  qed
  then have "cstr ?m (s + 1) cs" using Cons.prems(1) by (subst copied_1 [symmetric]) (simp add: cstr_upd)
  moreover have "apart (d + 1) (s + 1) (length cs + 1)"
    using apart_shift [of d s 1 "length cs + 1"] Cons.prems(2) by simp
  ultimately have "strcpy_loop (d + 1) (s + 1) ?m = Some (copied (length cs + 1) (d + 1) (s + 1) ?m)"
    using Cons.prems(3) by (intro Cons.IH) auto
  moreover have "strcpy_loop d s m = strcpy_loop (d + 1) (s + 1) ?m"
    using Cons.prems(1) copied_1 [of m d s] by (subst strcpy_loop.simps) (simp add: Let_def)
  moreover have "copied (length cs + 1) (d + 1) (s + 1) ?m = copied (1 + (length cs + 1)) d s m"
    using copied_add [of d s 1 "length cs + 1" m] Cons.prems(2,3) by simp
  ultimately show ?case by simp
qed

lemma cstr_nth:
  "cstr m p cs \<longleftrightarrow> (\<forall>i < length cs. m (p + of_nat i) = cs ! i \<and> cs ! i \<noteq> 0) \<and> m (p + of_nat (length cs)) = 0"
proof (induction cs arbitrary: p)
  case (Cons c cs)
  show ?case
    by (simp add: Cons All_less_Suc2 add.assoc [symmetric] conj_ac)
qed simp

lemma copied_nth:
  assumes "apart d s n" "n \<le> 2 ^ 32" "i < n"
  shows "copied n d s m (d + of_nat i) = m (s + of_nat i)" "copied n d s m (s + of_nat i) = m (s + of_nat i)"
proof -
  have "unat (of_nat i :: u32) = i" using assms by (intro unat_of_nat32) simp
  then show "copied n d s m (d + of_nat i) = m (s + of_nat i)" using assms(3) by (simp add: copied_def)
  have "\<not> unat (s + of_nat i - d) < n"
  proof
    assume l: "unat (s + of_nat i - d) < n"
    have "d + of_nat (unat (s + of_nat i - d)) = s + of_nat i" by simp
    with assms(1,3) l show False unfolding apart_def by blast
  qed
  then show "copied n d s m (s + of_nat i) = m (s + of_nat i)" by (simp add: copied_def)
qed

section \<open>Lemmas on decimal output\<close>

lemma swap_loop_nth:
  "j < length str \<Longrightarrow> length (swap_loop i j str) = length str \<and>
     (\<forall>k < length str. swap_loop i j str ! k = (if i \<le> k \<and> k \<le> j then str ! (i + j - k) else str ! k))"
proof (induction i j str rule: swap_loop.induct)
  case (1 i j str)
  show ?case
  proof (cases "i < j")
    case True
    let ?str = "str[i := str ! j, j := str ! i]"
    have IH: "length (swap_loop (i + 1) (j - 1) ?str) = length ?str"
      "\<And>k. k < length str \<Longrightarrow> swap_loop (i + 1) (j - 1) ?str ! k =
        (if i + 1 \<le> k \<and> k \<le> j - 1 then ?str ! (i + 1 + (j - 1) - k) else ?str ! k)"
      using 1 True by simp_all
    have "swap_loop i j str ! k = (if i \<le> k \<and> k \<le> j then str ! (i + j - k) else str ! k)" if "k < length str" for k
    proof -
      consider "k < i \<or> j < k" | "k = i" | "k = j" | "i + 1 \<le> k \<and> k \<le> j - 1" by linarith
      then show ?thesis
        using IH(2) [OF that] True 1(2) that
        by cases (auto simp: swap_loop.simps [of i j] nth_list_update)
    qed
    then show ?thesis using True IH(1) by (simp add: swap_loop.simps [of i j])
  next
    case False
    then have "i + j - k = k" if "i \<le> k" "k \<le> j" for k using that by simp
    with False show ?thesis by (simp add: swap_loop.simps [of i j])
  qed
qed

lemma swap_loop_rev: "swap_loop 0 (length str - 1) str = rev str"
proof (cases "str = []")
  case True
  then show ?thesis by (simp add: swap_loop.simps)
next
  case False
  then have "length str - 1 < length str" by simp
  from swap_loop_nth [OF this, of 0] show ?thesis
    by (intro nth_equalityI) (auto simp: rev_nth)
qed

text \<open>Reading digits back.\<close>

fun digits_value :: "int list \<Rightarrow> int" where
  "digits_value [] = 0"
| "digits_value (d # ds) = (d - 48) + 10 * digits_value ds"

lemma digits_loop_value:
  "0 \<le> n \<Longrightarrow> digits_value (digits_loop n) = n \<and> (\<forall>d \<in> set (digits_loop n). 48 \<le> d \<and> d \<le> 57) \<and>
     (0 < n \<longrightarrow> last (digits_loop n) \<noteq> 48)"
proof (induction n rule: digits_loop.induct)
  case (1 n)
  then have s: "n sdiv 10 = n div 10" "n smod 10 = n mod 10"
    by (simp_all add: signed_divide_int_def signed_modulo_int_def sgn_if)
  show ?case
  proof (cases "n div 10 > 0")
    case True
    with 1 s have IH: "digits_value (digits_loop (n div 10)) = n div 10 \<and>
      (\<forall>d \<in> set (digits_loop (n div 10)). 48 \<le> d \<and> d \<le> 57) \<and> last (digits_loop (n div 10)) \<noteq> 48" by auto
    then show ?thesis using True s 1(2)
      by (subst (1 2 3) digits_loop.simps) (auto simp: digits_loop.simps [of "n div 10"])
  next
    case False
    then have "n < 10" using 1(2) by auto
    then show ?thesis using False s 1(2) by (auto simp: digits_loop.simps [of n])
  qed
qed

lemma digits_loop_length: "0 \<le> n \<Longrightarrow> n < 10 ^ Suc k \<Longrightarrow> length (digits_loop n) \<le> Suc k"
proof (induction k arbitrary: n)
  case 0
  then show ?case by (subst digits_loop.simps) (simp add: signed_divide_int_def)
next
  case (Suc k)
  then have "n sdiv 10 = n div 10" by (simp add: signed_divide_int_def sgn_if)
  moreover have "length (digits_loop (n div 10)) \<le> Suc k" using Suc.prems by (intro Suc.IH) auto
  ultimately show ?case by (subst digits_loop.simps) auto
qed

text \<open>The number a string of codes denotes: an optional minus sign, then the leading digit first.\<close>

definition ascii_to_int :: "int list \<Rightarrow> int" where
  "ascii_to_int str = (case str of [] \<Rightarrow> 0
     | c # cs \<Rightarrow> if c = 45 then - digits_value (rev cs) else digits_value (rev str))"

lemma wrap32_id: "- (2 ^ 31) \<le> n \<Longrightarrow> n < 2 ^ 31 \<Longrightarrow> wrap32 n = n"
  by (simp add: wrap32_def)

lemma int_to_ascii_eq:
  assumes "- (2 ^ 31) < n" "n < 2 ^ 31"
  shows "int_to_ascii n = (if n < 0 then 45 # rev (digits_loop (- n)) else rev (digits_loop n))"
  using assms wrap32_id [of "- n"] swap_loop_rev [of "digits_loop (- n) @ [45]"] swap_loop_rev [of "digits_loop n"]
  by (simp add: int_to_ascii_def Let_def)

section \<open>Properties\<close>

text \<open>
  \<open>memset\<close> sets exactly the given bytes. Whatever the alignment of the destination, the three
  phases store the low byte of the value at each of the \<open>len\<close> addresses and leave every other byte
  of memory alone.
\<close>

theorem memset_correct:
  "fst (memset dest val len m) = dest \<and>
   snd (memset dest val len m) x = (if x - dest < len then ucast val else m x)"
  using set_bytes_apply [of "unat len" dest "ucast val" m x] unat_lt_2p32 [of len]
  by (simp add: memset_bytes word_less_nat_alt)

text \<open>
  C30. \<open>memcpy\<close> copies exactly the given bytes. For source and destination ranges that do not
  overlap and whatever their alignments, each destination byte gets its source byte and every
  other byte of memory keeps its value.
\<close>

theorem memcpy_correct:
  assumes "\<forall>i < unat len. \<forall>j < unat len. dest + of_nat i \<noteq> src + of_nat j"
  shows "fst (memcpy dest src len m) = dest \<and>
    snd (memcpy dest src len m) x = (if x - dest < len then m (src + (x - dest)) else m x)"
  using memcpy_copied [of dest src len m] assms by (simp add: apart_def copied_def word_less_nat_alt)

theorem memcpy_correct_witness:
  "snd (memcpy 101 202 7 (\<lambda>a. ucast a)) 105 = (206 :: u8)"
proof -
  have "apart 101 202 (unat (7 :: u32))" by (rule apart_below) simp_all
  then have "\<forall>i < unat (7 :: u32). \<forall>j < unat (7 :: u32). (101 :: u32) + of_nat i \<noteq> 202 + of_nat j"
    unfolding apart_def .
  from memcpy_correct [OF this, of "\<lambda>a. ucast a" 105] show ?thesis by simp
qed

text \<open>
  C31. Decimal output is exact for every \<open>int\<close> but the smallest. The text of \<open>n\<close> reads back as \<open>n\<close>,
  consists of a minus sign for negative numbers and decimal digits without a leading zero, and has
  at most 11 characters.
\<close>

theorem int_to_ascii_roundtrip:
  assumes "- (2 ^ 31) < n" "n < 2 ^ 31"
  shows "ascii_to_int (int_to_ascii n) = n \<and> length (int_to_ascii n) \<le> 11 \<and>
    (hd (int_to_ascii n) = 45 \<longleftrightarrow> n < 0) \<and> (n \<noteq> 0 \<longrightarrow> hd (rev (digits_loop \<bar>n\<bar>)) \<noteq> 48) \<and>
    set (int_to_ascii n) \<subseteq> (if n < 0 then {45} else {}) \<union> {48..57}"
proof -
  have v: "digits_value (digits_loop \<bar>n\<bar>) = \<bar>n\<bar>" "\<forall>d \<in> set (digits_loop \<bar>n\<bar>). 48 \<le> d \<and> d \<le> 57"
    "n \<noteq> 0 \<Longrightarrow> last (digits_loop \<bar>n\<bar>) \<noteq> 48" using digits_loop_value [of "\<bar>n\<bar>"] by auto
  have len: "length (digits_loop \<bar>n\<bar>) \<le> 10" using digits_loop_length [of "\<bar>n\<bar>" 9] assms by simp
  have ne: "digits_loop \<bar>n\<bar> \<noteq> []" by (simp add: digits_loop.simps)
  obtain d ds where ds: "rev (digits_loop \<bar>n\<bar>) = d # ds" "d \<in> set (digits_loop \<bar>n\<bar>)"
    using ne by (metis list.set_intros(1) neq_Nil_conv rev_is_Nil_conv set_rev)
  have eq: "int_to_ascii n = (if n < 0 then 45 # rev (digits_loop \<bar>n\<bar>) else rev (digits_loop \<bar>n\<bar>))"
    using int_to_ascii_eq [OF assms] by auto
  have "d \<noteq> 45" using v(2) ds(2) by fastforce
  then have "ascii_to_int (int_to_ascii n) = n" "hd (int_to_ascii n) = 45 \<longleftrightarrow> n < 0"
    using v(1) ds(1) ne unfolding eq by (auto simp: ascii_to_int_def hd_rev split: list.splits)
  with v len ne eq show ?thesis by (auto simp: hd_rev)
qed

theorem int_to_ascii_roundtrip_witness:
  "ascii_to_int (int_to_ascii (- 305)) = - 305 \<and> length (int_to_ascii (- 305)) \<le> 11"
  using int_to_ascii_roundtrip [of "- 305"] by simp


text \<open>
  \<open>strcpy\<close> copies the string and its terminating zero and nothing more, and the copy is a
  string of the same length and contents: \<open>strlen\<close> and \<open>strcmp\<close> agree on both.
\<close>

theorem strcpy_correct:
  assumes "cstr m src cs" "apart dest src (length cs + 1)" "length cs < 2 ^ 32"
  shows "\<exists>m'. strcpy dest src m = Some (dest, m') \<and> cstr m' dest cs \<and>
    strlen dest m' = Some (of_nat (length cs)) \<and> strcmp dest src m' = Some 0 \<and>
    (\<forall>x. length cs < unat (x - dest) \<longrightarrow> m' x = m x)"
proof -
  let ?m = "copied (length cs + 1) dest src m"
  have n: "length cs + 1 \<le> 2 ^ 32" using assms(3) by simp
  note nth = copied_nth [OF assms(2) n]
  have d: "cstr ?m dest cs" and s: "cstr ?m src cs"
    using assms(1) nth by (simp_all add: cstr_nth)
  have "strlen dest ?m = Some (of_nat (length cs))"
    using strlen_cstr_from [of ?m dest 0 cs] d by (simp add: strlen_def)
  moreover have "strcmp dest src ?m = Some 0" using strcmp_cstr [OF d s] by auto
  moreover have "strcpy dest src m = Some (dest, ?m)" using strcpy_cstr [OF assms] by (simp add: strcpy_def)
  moreover have "\<forall>x. length cs < unat (x - dest) \<longrightarrow> ?m x = m x" by (simp add: copied_def)
  ultimately show ?thesis using d by blast
qed

theorem strcpy_correct_witness:
  "\<exists>m'. strcpy 10 20 ((\<lambda>_. 0)(20 := 104, 21 := 105)) = Some (10, m') \<and> cstr m' 10 [104, 105] \<and>
     strlen 10 m' = Some 2"
proof -
  have c: "cstr ((\<lambda>_. 0)(20 := 104, 21 := 105)) 20 [104, 105]" by simp
  have "apart (10 :: u32) 20 (length [104, 105 :: u8] + 1)"
    by (rule apart_below) simp_all
  from strcpy_correct [OF c this] show ?thesis by auto
qed

end
