(* ===== verification/Pmm.thy ===== *)
theory Pmm
  imports Kernel_Prelude
begin

text \<open>
  The physical memory manager (src/pmm.c): a bitmap with one bit per 4 KB frame of the first
  32 MB, a frame limit and a count of the frames in use. The state is the three static variables
  of the file. Frame numbers are natural numbers: every frame the code touches is below
  \<open>max_blocks\<close>, hence below 8192, and the loops cannot wrap. Counts, sizes and addresses keep
  their 32 bits; the 64-bit sums of the region operations are natural-number sums.

  The lemmas show that the operations keep the bitmap and the counter consistent, that an
  allocation is a first-fit run of free frames and fails only when there is none, and that freeing
  an allocation gives back the state before it. The interface other components use is the locale
  \<open>frame_allocator\<close>, interpreted on these definitions.
\<close>

section \<open>State and operations\<close>

definition PMM_BLOCK_SIZE :: nat where
  "PMM_BLOCK_SIZE = 4096"

definition PMM_MAX_BLOCKS :: nat where
  "PMM_MAX_BLOCKS = 8192"

record pmm_state =
  memory_map :: "u32 list"
  max_blocks :: u32
  used_blocks :: u32

definition mmap_test :: "pmm_state \<Rightarrow> nat \<Rightarrow> bool" where
  "mmap_test s b \<longleftrightarrow> memory_map s ! (b div 32) AND push_bit (b mod 32) 1 \<noteq> 0"

definition mmap_set :: "nat \<Rightarrow> pmm_state \<Rightarrow> pmm_state" where
  "mmap_set b s = s\<lparr>memory_map := (memory_map s)
     [b div 32 := memory_map s ! (b div 32) OR push_bit (b mod 32) 1]\<rparr>"

definition mmap_unset :: "nat \<Rightarrow> pmm_state \<Rightarrow> pmm_state" where
  "mmap_unset b s = s\<lparr>memory_map := (memory_map s)
     [b div 32 := memory_map s ! (b div 32) AND NOT (push_bit (b mod 32) 1)]\<rparr>"

text \<open>
  The scan of \<open>mmap_first_free_run\<close>: the frames still to visit, the start and the length of the
  current run. The result \<open>-1\<close> is \<open>None\<close>.
\<close>

fun free_run_scan :: "pmm_state \<Rightarrow> nat \<Rightarrow> nat list \<Rightarrow> nat \<Rightarrow> nat \<Rightarrow> nat option" where
  "free_run_scan s count [] run_start run_length = None"
| "free_run_scan s count (frame # frames) run_start run_length =
     (if \<not> mmap_test s frame then
        let run_start' = (if run_length = 0 then frame else run_start);
            run_length' = Suc run_length
        in if run_length' = count then Some run_start'
           else free_run_scan s count frames run_start' run_length'
      else free_run_scan s count frames run_start 0)"

definition mmap_first_free_run :: "u32 \<Rightarrow> pmm_state \<Rightarrow> nat option" where
  "mmap_first_free_run count s =
     (if count = 0 \<or> count > max_blocks s then None
      else free_run_scan s (unat count) [1..<unat (max_blocks s)] 0 0)"

definition pmm_init :: "u32 \<Rightarrow> pmm_state \<Rightarrow> pmm_state" where
  "pmm_init mem_size_kb s =
     (let blocks = mem_size_kb div 4;
          blocks' = (if unat blocks > PMM_MAX_BLOCKS then of_nat PMM_MAX_BLOCKS else blocks)
      in s\<lparr>max_blocks := blocks', used_blocks := blocks',
           memory_map := replicate (PMM_MAX_BLOCKS div 32) 0xFFFFFFFF\<rparr>)"

definition release_frame :: "nat \<Rightarrow> pmm_state \<Rightarrow> pmm_state" where
  "release_frame frame s =
     (if mmap_test s frame then (mmap_unset frame s)\<lparr>used_blocks := used_blocks s - 1\<rparr> else s)"

definition reserve_frame :: "nat \<Rightarrow> pmm_state \<Rightarrow> pmm_state" where
  "reserve_frame frame s =
     (if \<not> mmap_test s frame then (mmap_set frame s)\<lparr>used_blocks := used_blocks s + 1\<rparr> else s)"

definition pmm_init_region :: "u32 \<Rightarrow> u32 \<Rightarrow> pmm_state \<Rightarrow> pmm_state" where
  "pmm_init_region base sz s =
     (let region_end = unat base + unat sz;
          start = unat base div PMM_BLOCK_SIZE;
          start' = (if unat base mod PMM_BLOCK_SIZE \<noteq> 0 then start + 1 else start);
          end1 = region_end div PMM_BLOCK_SIZE;
          end2 = (if end1 > unat (max_blocks s) then unat (max_blocks s) else end1)
      in reserve_frame 0 (fold release_frame [start'..<end2] s))"

definition pmm_deinit_region :: "u32 \<Rightarrow> u32 \<Rightarrow> pmm_state \<Rightarrow> pmm_state" where
  "pmm_deinit_region base sz s =
     (let region_end = unat base + unat sz;
          start = unat base div PMM_BLOCK_SIZE;
          end1 = (region_end + PMM_BLOCK_SIZE - 1) div PMM_BLOCK_SIZE;
          end2 = (if end1 > unat (max_blocks s) then unat (max_blocks s) else end1)
      in fold reserve_frame [start..<end2] s)"

definition pmm_alloc_blocks :: "u32 \<Rightarrow> pmm_state \<Rightarrow> ptr \<times> pmm_state" where
  "pmm_alloc_blocks count s =
     (if count = 0 \<or> count > max_blocks s - used_blocks s then (NULL, s)
      else case mmap_first_free_run count s of
        None \<Rightarrow> (NULL, s)
      | Some first_frame \<Rightarrow>
          let s1 = fold (\<lambda>i. mmap_set (first_frame + i)) [0..<unat count] s
          in (of_nat first_frame * of_nat PMM_BLOCK_SIZE,
              s1\<lparr>used_blocks := used_blocks s1 + count\<rparr>))"

definition pmm_alloc_block :: "pmm_state \<Rightarrow> ptr \<times> pmm_state" where
  "pmm_alloc_block s = pmm_alloc_blocks 1 s"

definition pmm_free_blocks :: "ptr \<Rightarrow> u32 \<Rightarrow> pmm_state \<Rightarrow> pmm_state" where
  "pmm_free_blocks p count s =
     (if p = NULL \<or> count = 0 \<or> unat p mod PMM_BLOCK_SIZE \<noteq> 0 then s
      else let first_frame = unat p div PMM_BLOCK_SIZE
           in if first_frame = 0 \<or> first_frame \<ge> unat (max_blocks s) \<or>
                 count > max_blocks s - of_nat first_frame then s
              else fold (\<lambda>i. release_frame (first_frame + i)) [0..<unat count] s)"

definition pmm_free_block :: "ptr \<Rightarrow> pmm_state \<Rightarrow> pmm_state" where
  "pmm_free_block p s = pmm_free_blocks p 1 s"

definition pmm_get_total_blocks :: "pmm_state \<Rightarrow> u32" where
  "pmm_get_total_blocks s = max_blocks s"

definition pmm_get_used_blocks :: "pmm_state \<Rightarrow> u32" where
  "pmm_get_used_blocks s = used_blocks s"

definition pmm_get_free_blocks :: "pmm_state \<Rightarrow> u32" where
  "pmm_get_free_blocks s = max_blocks s - used_blocks s"

section \<open>Abstraction and invariant\<close>

text \<open>The frames in use below the limit, and the frames an address range of whole blocks covers.\<close>

definition frames_used :: "pmm_state \<Rightarrow> nat set" where
  "frames_used s = {f. f < unat (max_blocks s) \<and> mmap_test s f}"

definition frame_run :: "ptr \<Rightarrow> u32 \<Rightarrow> nat set" where
  "frame_run p count = {unat p div PMM_BLOCK_SIZE..<unat p div PMM_BLOCK_SIZE + unat count}"

text \<open>
  The counter agrees with the bitmap; between operations frame 0 is reserved as well, so that no
  allocation is the null pointer.
\<close>

definition pmm_count_ok :: "pmm_state \<Rightarrow> bool" where
  "pmm_count_ok s \<longleftrightarrow> length (memory_map s) = PMM_MAX_BLOCKS div 32 \<and>
     unat (max_blocks s) \<le> PMM_MAX_BLOCKS \<and> unat (used_blocks s) = card (frames_used s)"

definition pmm_inv :: "pmm_state \<Rightarrow> bool" where
  "pmm_inv s \<longleftrightarrow> pmm_count_ok s \<and> mmap_test s 0"

text \<open>A run of free frames below the limit, as the allocator looks for it.\<close>

definition free_run :: "pmm_state \<Rightarrow> nat \<Rightarrow> nat \<Rightarrow> bool" where
  "free_run s count r \<longleftrightarrow> r + count \<le> unat (max_blocks s) \<and> (\<forall>f \<in> {r..<r + count}. \<not> mmap_test s f)"

text \<open>
  The life of the allocator: the boot state of the static variables, then any sequence of the
  operations of the file, the first of them \<open>pmm_init\<close>.
\<close>

definition pmm_boot :: pmm_state where
  "pmm_boot = \<lparr>memory_map = replicate (PMM_MAX_BLOCKS div 32) 0, max_blocks = 0, used_blocks = 0\<rparr>"

inductive pmm_step :: "pmm_state \<Rightarrow> pmm_state \<Rightarrow> bool" where
  step_init: "pmm_step s (pmm_init mem_size_kb s)"
| step_init_region: "pmm_step s (pmm_init_region base sz s)"
| step_deinit_region: "pmm_step s (pmm_deinit_region base sz s)"
| step_alloc: "pmm_step s (snd (pmm_alloc_blocks count s))"
| step_alloc_block: "pmm_step s (snd (pmm_alloc_block s))"
| step_free: "pmm_step s (pmm_free_blocks p count s)"
| step_free_block: "pmm_step s (pmm_free_block p s)"

inductive pmm_reachable :: "pmm_state \<Rightarrow> bool" where
  reach_init: "pmm_reachable (pmm_init mem_size_kb pmm_boot)"
| reach_step: "pmm_reachable s \<Longrightarrow> pmm_step s t \<Longrightarrow> pmm_reachable t"

section \<open>Bitmap lemmas\<close>

lemma mmap_test_bit: "mmap_test s b = bit (memory_map s ! (b div 32)) (b mod 32)"
  by (simp add: mmap_test_def bit_iff_and_push_bit_not_eq_0)

lemma same_bit_index: "b div 32 = c div 32 \<Longrightarrow> b mod 32 = c mod 32 \<Longrightarrow> b = c" for b c :: nat
  by (metis div_mult_mod_eq)

lemma length_mmap_set [simp]: "length (memory_map (mmap_set b s)) = length (memory_map s)"
  by (simp add: mmap_set_def)

lemma length_mmap_unset [simp]: "length (memory_map (mmap_unset b s)) = length (memory_map s)"
  by (simp add: mmap_unset_def)

lemma mmap_set_fields [simp]:
  "max_blocks (mmap_set b s) = max_blocks s" "used_blocks (mmap_set b s) = used_blocks s"
  by (simp_all add: mmap_set_def)

lemma mmap_unset_fields [simp]:
  "max_blocks (mmap_unset b s) = max_blocks s" "used_blocks (mmap_unset b s) = used_blocks s"
  by (simp_all add: mmap_unset_def)

lemma mmap_test_used_update [simp]: "mmap_test (s\<lparr>used_blocks := n\<rparr>) b = mmap_test s b"
  by (simp add: mmap_test_def)

lemma mmap_test_set:
  assumes "b div 32 < length (memory_map s)"
  shows "mmap_test (mmap_set b s) c \<longleftrightarrow> c = b \<or> mmap_test s c"
proof (cases "c div 32 = b div 32")
  case True
  then show ?thesis
    using assms same_bit_index [of c b]
    by (auto simp: mmap_test_bit mmap_set_def bit_simps)
next
  case False
  then show ?thesis by (auto simp: mmap_test_bit mmap_set_def)
qed

lemma mmap_test_unset:
  assumes "b div 32 < length (memory_map s)"
  shows "mmap_test (mmap_unset b s) c \<longleftrightarrow> c \<noteq> b \<and> mmap_test s c"
proof (cases "c div 32 = b div 32")
  case True
  then show ?thesis
    using assms same_bit_index [of c b]
    by (auto simp: mmap_test_bit mmap_unset_def bit_simps)
next
  case False
  then show ?thesis by (auto simp: mmap_test_bit mmap_unset_def)
qed

text \<open>The bitmap is determined by its 8192 bits.\<close>

lemma memory_map_ext:
  assumes "length (memory_map s) = PMM_MAX_BLOCKS div 32"
    and "length (memory_map t) = PMM_MAX_BLOCKS div 32"
    and "\<And>b. b < PMM_MAX_BLOCKS \<Longrightarrow> mmap_test s b = mmap_test t b"
  shows "memory_map s = memory_map t"
proof (rule nth_equalityI)
  show "length (memory_map s) = length (memory_map t)"
    using assms(1,2) by simp
next
  fix i assume i: "i < length (memory_map s)"
  show "memory_map s ! i = memory_map t ! i"
  proof (rule bit_word_eqI)
    fix n assume n: "n < LENGTH(32)"
    then have "32 * i + n < PMM_MAX_BLOCKS"
      using i assms(1) by (simp add: PMM_MAX_BLOCKS_def)
    from assms(3) [OF this] n show "bit (memory_map s ! i) n = bit (memory_map t ! i) n"
      by (simp add: mmap_test_bit)
  qed
qed

section \<open>Frames and the counter\<close>

lemma finite_frames_used [simp]: "finite (frames_used s)"
  by (simp add: frames_used_def)

lemma frames_used_mem: "f \<in> frames_used s \<longleftrightarrow> f < unat (max_blocks s) \<and> mmap_test s f"
  by (simp add: frames_used_def)

lemma card_frames_used_le: "card (frames_used s) \<le> unat (max_blocks s)"
proof -
  have "frames_used s \<subseteq> {..<unat (max_blocks s)}"
    by (auto simp: frames_used_def)
  from card_mono [OF _ this] show ?thesis by simp
qed

lemma pmm_count_okD:
  assumes "pmm_count_ok s"
  shows "length (memory_map s) = 256" "unat (max_blocks s) \<le> 8192"
    "unat (used_blocks s) = card (frames_used s)"
  using assms by (simp_all add: pmm_count_ok_def PMM_MAX_BLOCKS_def)

lemma frame_index_in_map:
  "pmm_count_ok s \<Longrightarrow> f < unat (max_blocks s) \<Longrightarrow> f div 32 < length (memory_map s)"
  using pmm_count_okD(1,2) [of s] by (simp add: less_mult_imp_div_less)

lemma release_frame_spec:
  assumes ok: "pmm_count_ok s" and f: "f < unat (max_blocks s)"
  shows "pmm_count_ok (release_frame f s)"
    and "mmap_test (release_frame f s) c \<longleftrightarrow> c \<noteq> f \<and> mmap_test s c"
    and "max_blocks (release_frame f s) = max_blocks s"
proof -
  note idx = frame_index_in_map [OF ok f]
  show test: "mmap_test (release_frame f s) c \<longleftrightarrow> c \<noteq> f \<and> mmap_test s c" for c
    using mmap_test_unset [OF idx] by (auto simp: release_frame_def)
  show max: "max_blocks (release_frame f s) = max_blocks s"
    by (simp add: release_frame_def)
  have fr: "frames_used (release_frame f s) = frames_used s - {f}"
    using test max by (auto simp: frames_used_def)
  show "pmm_count_ok (release_frame f s)"
  proof (cases "mmap_test s f")
    case True
    then have "f \<in> frames_used s" using f by (simp add: frames_used_mem)
    moreover from this have "0 < card (frames_used s)"
      using card_gt_0_iff by fastforce
    ultimately show ?thesis
      using ok fr True unat_sub_no_wrap [of 1 "used_blocks s"]
      by (simp add: pmm_count_ok_def release_frame_def word_le_nat_alt)
  next
    case False
    then show ?thesis using ok by (simp add: release_frame_def)
  qed
qed

lemma reserve_frame_spec:
  assumes ok: "pmm_count_ok s" and f: "f < unat (max_blocks s)"
  shows "pmm_count_ok (reserve_frame f s)"
    and "mmap_test (reserve_frame f s) c \<longleftrightarrow> c = f \<or> mmap_test s c"
    and "max_blocks (reserve_frame f s) = max_blocks s"
proof -
  note idx = frame_index_in_map [OF ok f]
  show test: "mmap_test (reserve_frame f s) c \<longleftrightarrow> c = f \<or> mmap_test s c" for c
    using mmap_test_set [OF idx] by (auto simp: reserve_frame_def)
  show max: "max_blocks (reserve_frame f s) = max_blocks s"
    by (simp add: reserve_frame_def)
  have fr: "frames_used (reserve_frame f s) = insert f (frames_used s)"
    using test max f by (auto simp: frames_used_def)
  show "pmm_count_ok (reserve_frame f s)"
  proof (cases "mmap_test s f")
    case True
    then show ?thesis using ok by (simp add: reserve_frame_def)
  next
    case False
    then have "f \<notin> frames_used s" by (simp add: frames_used_mem)
    moreover have "unat (used_blocks s + 1) = unat (used_blocks s) + 1"
      using pmm_count_okD [OF ok] card_frames_used_le [of s]
      by (intro unat_plus_1) simp
    ultimately show ?thesis
      using ok fr False by (simp add: pmm_count_ok_def reserve_frame_def)
  qed
qed

lemma fold_release_frame:
  assumes "pmm_count_ok s" and "\<And>f. f \<in> set fs \<Longrightarrow> f < unat (max_blocks s)"
  shows "pmm_count_ok (fold release_frame fs s) \<and>
     max_blocks (fold release_frame fs s) = max_blocks s \<and>
     (\<forall>c. mmap_test (fold release_frame fs s) c \<longleftrightarrow> c \<notin> set fs \<and> mmap_test s c)"
  using assms
proof (induction fs arbitrary: s)
  case Nil
  then show ?case by simp
next
  case (Cons f fs)
  then have f: "f < unat (max_blocks s)" by simp
  note spec = release_frame_spec [OF Cons.prems(1) f]
  from Cons.IH [OF spec(1)] Cons.prems(2) spec(2,3) show ?case by auto
qed

lemma fold_reserve_frame:
  assumes "pmm_count_ok s" and "\<And>f. f \<in> set fs \<Longrightarrow> f < unat (max_blocks s)"
  shows "pmm_count_ok (fold reserve_frame fs s) \<and>
     max_blocks (fold reserve_frame fs s) = max_blocks s \<and>
     (\<forall>c. mmap_test (fold reserve_frame fs s) c \<longleftrightarrow> c \<in> set fs \<or> mmap_test s c)"
  using assms
proof (induction fs arbitrary: s)
  case Nil
  then show ?case by simp
next
  case (Cons f fs)
  then have f: "f < unat (max_blocks s)" by simp
  note spec = reserve_frame_spec [OF Cons.prems(1) f]
  from Cons.IH [OF spec(1)] Cons.prems(2) spec(2,3) show ?case by auto
qed

section \<open>The first-fit scan\<close>

text \<open>
  The scan at frame \<open>k\<close> with a current run of \<open>n\<close> frames ending there finds the least run that
  starts at \<open>k - n\<close> or later.
\<close>

lemma free_run_scan_spec:
  assumes "n < count" "n \<le> k" "0 < n \<Longrightarrow> run_start = k - n"
    and "\<And>f. f \<in> {k - n..<k} \<Longrightarrow> \<not> mmap_test s f"
    and m: "m = unat (max_blocks s)"
  shows "case free_run_scan s count [k..<m] run_start n of
      None \<Rightarrow> \<forall>r \<ge> k - n. \<not> free_run s count r
    | Some r \<Rightarrow> k - n \<le> r \<and> free_run s count r \<and> (\<forall>r'. k - n \<le> r' \<and> r' < r \<longrightarrow> \<not> free_run s count r')"
  using assms(1-4)
proof (induction "m - k" arbitrary: k n run_start)
  case 0
  then show ?case by (auto simp: free_run_def m)
next
  case (Suc d)
  then have k: "k < m" and d: "d = m - Suc k" by auto
  show ?case
  proof (cases "mmap_test s k")
    case True
    have blocked: "\<not> free_run s count r" if "k - n \<le> r" "r < Suc k" for r
      using that True Suc.prems(1,2) by (auto simp: free_run_def)
    from Suc.hyps(1) [OF d, of 0 run_start] Suc.prems(1) blocked True k show ?thesis
      by (auto simp: upt_conv_Cons split: option.splits) (meson leI)+
  next
    case free: False
    let ?start = "if n = 0 then k else run_start"
    have start: "?start = k - n" using Suc.prems(3) by auto
    have run: "\<not> mmap_test s f" if "f \<in> {Suc k - Suc n..<Suc k}" for f
      using that Suc.prems(4) [of f] free by (cases "f = k") auto
    show ?thesis
    proof (cases "Suc n = count")
      case True
      have "free_run s count (k - n)"
        using run k Suc.prems(2) True by (auto simp: free_run_def m)
      with free k start True show ?thesis by (auto simp: upt_conv_Cons)
    next
      case False
      then have "Suc n < count" using Suc.prems(1) by simp
      from Suc.hyps(1) [OF d this, of ?start] run start Suc.prems(2) free k False show ?thesis
        by (simp add: upt_conv_Cons split: option.splits)
    qed
  qed
qed

lemma mmap_first_free_run_spec:
  assumes "count \<noteq> 0"
  shows "case mmap_first_free_run count s of
      None \<Rightarrow> \<forall>r \<ge> 1. \<not> free_run s (unat count) r
    | Some r \<Rightarrow> 1 \<le> r \<and> free_run s (unat count) r \<and> (\<forall>r'. 1 \<le> r' \<and> r' < r \<longrightarrow> \<not> free_run s (unat count) r')"
proof (cases "count > max_blocks s")
  case True
  then have "\<not> free_run s (unat count) r" for r
    by (auto simp: free_run_def word_less_nat_alt)
  with True show ?thesis by (simp add: mmap_first_free_run_def)
next
  case False
  have "0 < unat count" using assms by (simp add: unat_gt_0)
  with free_run_scan_spec [of 0 "unat count" 1 0 s "unat (max_blocks s)"] False assms
  show ?thesis by (simp add: mmap_first_free_run_def split: option.splits)
qed

lemma free_run_fits:
  assumes ok: "pmm_count_ok s" and run: "free_run s (unat count) r"
  shows "count \<le> max_blocks s - used_blocks s"
proof -
  have used: "used_blocks s \<le> max_blocks s"
    using pmm_count_okD(3) [OF ok] card_frames_used_le [of s] by (simp add: word_le_nat_alt)
  have "{r..<r + unat count} \<subseteq> {..<unat (max_blocks s)} - frames_used s"
    using run by (auto simp: free_run_def frames_used_mem)
  from card_mono [OF _ this]
  have "unat count \<le> card ({..<unat (max_blocks s)} - frames_used s)" by simp
  also have "\<dots> = unat (max_blocks s) - card (frames_used s)"
    by (subst card_Diff_subset) (auto simp: frames_used_mem)
  finally show ?thesis
    using used pmm_count_okD(3) [OF ok] by (simp add: word_le_nat_alt unat_sub_no_wrap)
qed

section \<open>Allocation and release\<close>

lemma fold_mmap_set:
  assumes "\<And>i. i < n \<Longrightarrow> (a + i) div 32 < length (memory_map s)"
  shows "length (memory_map (fold (\<lambda>i. mmap_set (a + i)) [0..<n] s)) = length (memory_map s) \<and>
     max_blocks (fold (\<lambda>i. mmap_set (a + i)) [0..<n] s) = max_blocks s \<and>
     used_blocks (fold (\<lambda>i. mmap_set (a + i)) [0..<n] s) = used_blocks s \<and>
     (\<forall>c. mmap_test (fold (\<lambda>i. mmap_set (a + i)) [0..<n] s) c \<longleftrightarrow> c \<in> {a..<a + n} \<or> mmap_test s c)"
  using assms
proof (induction n)
  case 0
  then show ?case by simp
next
  case (Suc n)
  then show ?case by (auto simp: mmap_test_set)
qed

lemma pmm_alloc_blocks_cases:
  assumes inv: "pmm_inv s"
  obtains (null) "pmm_alloc_blocks count s = (NULL, s)"
      "\<And>r. count \<noteq> 0 \<Longrightarrow> 1 \<le> r \<Longrightarrow> \<not> free_run s (unat count) r"
  | (run) r s' where "pmm_alloc_blocks count s = (of_nat r * of_nat PMM_BLOCK_SIZE, s')"
      "count \<noteq> 0" "1 \<le> r" "free_run s (unat count) r"
      "\<And>r'. 1 \<le> r' \<Longrightarrow> r' < r \<Longrightarrow> \<not> free_run s (unat count) r'"
      "length (memory_map s') = length (memory_map s)" "max_blocks s' = max_blocks s"
      "used_blocks s' = used_blocks s + count"
      "\<And>c. mmap_test s' c \<longleftrightarrow> c \<in> {r..<r + unat count} \<or> mmap_test s c"
proof (cases "count = 0 \<or> count > max_blocks s - used_blocks s")
  case True
  have ok: "pmm_count_ok s" using inv by (simp add: pmm_inv_def)
  have "\<not> free_run s (unat count) r" if "count \<noteq> 0" "1 \<le> r" for r
    using True that free_run_fits [OF ok, of count r] by auto
  moreover have "pmm_alloc_blocks count s = (NULL, s)"
    using True by (simp add: pmm_alloc_blocks_def)
  ultimately show ?thesis by (rule null [rotated])
next
  case False
  have ok: "pmm_count_ok s" using inv by (simp add: pmm_inv_def)
  show ?thesis
  proof (cases "mmap_first_free_run count s")
    case None
    with False mmap_first_free_run_spec [of count s] show ?thesis
      by (intro null) (auto simp: pmm_alloc_blocks_def)
  next
    case (Some r)
    with False mmap_first_free_run_spec [of count s]
    have r: "1 \<le> r" "free_run s (unat count) r"
      "\<And>r'. 1 \<le> r' \<Longrightarrow> r' < r \<Longrightarrow> \<not> free_run s (unat count) r'" by auto
    have "(r + i) div 32 < length (memory_map s)" if "i < unat count" for i
      using frame_index_in_map [OF ok, of "r + i"] r(2) that by (simp add: free_run_def)
    note set = fold_mmap_set [of "unat count" r s, OF this]
    define s1 where "s1 = fold (\<lambda>i. mmap_set (r + i)) [0..<unat count] s"
    have "pmm_alloc_blocks count s =
        (of_nat r * of_nat PMM_BLOCK_SIZE, s1\<lparr>used_blocks := used_blocks s1 + count\<rparr>)"
      using False Some by (simp add: pmm_alloc_blocks_def s1_def Let_def)
    moreover have "mmap_test s1 c \<longleftrightarrow> c \<in> {r..<r + unat count} \<or> mmap_test s c" for c
      using set by (simp add: s1_def)
    ultimately show ?thesis
      using False r set
      by (intro run [of r "s1\<lparr>used_blocks := used_blocks s1 + count\<rparr>"]) (auto simp: s1_def)
  qed
qed

section \<open>Every operation keeps the invariant\<close>

lemma pmm_init_inv [inv_intros]: "pmm_inv (pmm_init kb s)"
proof -
  let ?t = "pmm_init kb s"
  have len: "length (memory_map ?t) = 256"
    by (simp add: pmm_init_def Let_def PMM_MAX_BLOCKS_def)
  have max: "unat (max_blocks ?t) \<le> 8192"
    by (simp add: pmm_init_def Let_def PMM_MAX_BLOCKS_def)
  have test: "mmap_test ?t b" if "b < 8192" for b
    using that bit_all_ones32 [of "b mod 32"]
    by (simp add: mmap_test_bit pmm_init_def Let_def PMM_MAX_BLOCKS_def less_mult_imp_div_less)
  have "frames_used ?t = {..<unat (max_blocks ?t)}"
    using test max by (auto simp: frames_used_def)
  then have "card (frames_used ?t) = unat (max_blocks ?t)" by simp
  moreover have "used_blocks ?t = max_blocks ?t"
    by (simp add: pmm_init_def Let_def)
  ultimately show ?thesis
    using len max test [of 0] by (simp add: pmm_inv_def pmm_count_ok_def PMM_MAX_BLOCKS_def)
qed

lemma pmm_init_region_inv [inv_intros]:
  assumes "pmm_inv s"
  shows "pmm_inv (pmm_init_region base sz s)"
proof -
  obtain fs where eq: "pmm_init_region base sz s = reserve_frame 0 (fold release_frame fs s)"
    and fs: "\<And>f. f \<in> set fs \<Longrightarrow> f < unat (max_blocks s)"
    by (rule that [OF pmm_init_region_def [unfolded Let_def]]) (auto split: if_splits)
  let ?t = "fold release_frame fs s"
  have ok: "pmm_count_ok s" using assms by (simp add: pmm_inv_def)
  note rel = fold_release_frame [OF ok, of fs, OF fs]
  show ?thesis
  proof (cases "max_blocks s = 0")
    case True
    then have "fs = []" using fs by (cases fs) auto
    then show ?thesis using assms eq by (simp add: pmm_inv_def reserve_frame_def)
  next
    case False
    then have pos: "0 < unat (max_blocks ?t)" using rel by (simp add: unat_gt_0)
    have "pmm_count_ok ?t" using rel by simp
    note res = reserve_frame_spec [OF this pos]
    show ?thesis using res(1) res(2) [of 0] by (simp add: eq pmm_inv_def)
  qed
qed

lemma pmm_deinit_region_inv [inv_intros]:
  assumes "pmm_inv s"
  shows "pmm_inv (pmm_deinit_region base sz s)"
proof -
  obtain fs where eq: "pmm_deinit_region base sz s = fold reserve_frame fs s"
    and fs: "\<And>f. f \<in> set fs \<Longrightarrow> f < unat (max_blocks s)"
    by (rule that [OF pmm_deinit_region_def [unfolded Let_def]]) (auto split: if_splits)
  have "pmm_count_ok s" using assms by (simp add: pmm_inv_def)
  from fold_reserve_frame [OF this, of fs, OF fs] assms show ?thesis
    by (auto simp: eq pmm_inv_def)
qed

lemma unat_frame_address:
  "r < PMM_MAX_BLOCKS \<Longrightarrow> unat (of_nat r * of_nat PMM_BLOCK_SIZE :: ptr) = r * PMM_BLOCK_SIZE"
  by (simp add: PMM_MAX_BLOCKS_def PMM_BLOCK_SIZE_def unat_mult_no_wrap unat_of_nat32)

lemma pmm_alloc_blocks_spec:
  assumes inv: "pmm_inv s" and alloc: "pmm_alloc_blocks count s = (p, s')" and p: "p \<noteq> NULL"
  shows "pmm_inv s'" "count \<noteq> 0" "unat p mod PMM_BLOCK_SIZE = 0" "PMM_BLOCK_SIZE \<le> unat p"
    "frame_run p count \<inter> frames_used s = {}" "frame_run p count \<subseteq> {1..<unat (max_blocks s)}"
    "frames_used s' = frames_used s \<union> frame_run p count" "max_blocks s' = max_blocks s"
    "\<And>c. mmap_test s' c \<longleftrightarrow> c \<in> frame_run p count \<or> mmap_test s c"
    "used_blocks s' = used_blocks s + count"
proof -
  from inv obtain r where
    a: "p = of_nat r * of_nat PMM_BLOCK_SIZE" "count \<noteq> 0" "1 \<le> r" "free_run s (unat count) r"
      "length (memory_map s') = length (memory_map s)" "max_blocks s' = max_blocks s"
      "used_blocks s' = used_blocks s + count"
      "\<And>c. mmap_test s' c \<longleftrightarrow> c \<in> {r..<r + unat count} \<or> mmap_test s c"
    using alloc p by (cases rule: pmm_alloc_blocks_cases [where count = count]) auto
  have ok: "pmm_count_ok s" using inv by (simp add: pmm_inv_def)
  have pos: "0 < unat count" using a(2) by (simp add: unat_gt_0)
  have le: "r + unat count \<le> unat (max_blocks s)"
    and free: "\<And>f. f \<in> {r..<r + unat count} \<Longrightarrow> \<not> mmap_test s f"
    using a(4) by (auto simp: free_run_def)
  have "r < PMM_MAX_BLOCKS"
    using le pos pmm_count_okD(2) [OF ok] by (simp add: PMM_MAX_BLOCKS_def)
  then have up: "unat p = r * PMM_BLOCK_SIZE" using a(1) by (simp add: unat_frame_address)
  then have run: "frame_run p count = {r..<r + unat count}"
    by (simp add: frame_run_def PMM_BLOCK_SIZE_def)
  show "count \<noteq> 0" by (rule a(2))
  show "unat p mod PMM_BLOCK_SIZE = 0" using up by simp
  show "PMM_BLOCK_SIZE \<le> unat p" using up a(3) by (simp add: PMM_BLOCK_SIZE_def)
  show dis: "frame_run p count \<inter> frames_used s = {}"
    using free by (auto simp: run frames_used_mem)
  show "frame_run p count \<subseteq> {1..<unat (max_blocks s)}" using le a(3) by (auto simp: run)
  show fu: "frames_used s' = frames_used s \<union> frame_run p count"
    by (rule set_eqI) (use le in \<open>auto simp: frames_used_mem run a(6,8)\<close>)
  show max: "max_blocks s' = max_blocks s" by (rule a(6))
  show test: "mmap_test s' c \<longleftrightarrow> c \<in> frame_run p count \<or> mmap_test s c" for c
    using a(8) by (simp add: run)
  show used: "used_blocks s' = used_blocks s + count" by (rule a(7))
  have card: "card (frames_used s') = card (frames_used s) + unat count"
    unfolding fu using dis by (subst card_Un_disjoint) (auto simp: run Int_commute)
  then have "unat (used_blocks s + count) = card (frames_used s')"
    using pmm_count_okD [OF ok] card_frames_used_le [of s'] max
    by (subst unat_add_no_wrap) auto
  then show "pmm_inv s'"
    using inv test [of 0] a(5) max used by (auto simp: pmm_inv_def pmm_count_ok_def)
qed

lemma pmm_alloc_blocks_null:
  "pmm_inv s \<Longrightarrow> pmm_alloc_blocks count s = (NULL, s') \<Longrightarrow> s' = s"
proof -
  assume inv: "pmm_inv s" and alloc: "pmm_alloc_blocks count s = (NULL, s')"
  from inv show "s' = s"
  proof (cases rule: pmm_alloc_blocks_cases [where count = count])
    case null
    with alloc show ?thesis by simp
  next
    case (run r t)
    have "0 < unat count" using run(2) by (simp add: unat_gt_0)
    moreover have "r + unat count \<le> unat (max_blocks s)" "unat (max_blocks s) \<le> PMM_MAX_BLOCKS"
      using run(4) inv by (auto simp: free_run_def pmm_inv_def pmm_count_ok_def)
    ultimately have "r < PMM_MAX_BLOCKS" by linarith
    then have "unat (of_nat r * of_nat PMM_BLOCK_SIZE :: ptr) = r * PMM_BLOCK_SIZE"
      by (rule unat_frame_address)
    with run alloc show ?thesis by (auto simp: PMM_BLOCK_SIZE_def)
  qed
qed

lemma pmm_alloc_blocks_inv [inv_intros]:
  assumes "pmm_inv s"
  shows "pmm_inv (snd (pmm_alloc_blocks count s))"
proof (cases "pmm_alloc_blocks count s")
  case (Pair p t)
  then show ?thesis
    using pmm_alloc_blocks_spec(1) [OF assms Pair] pmm_alloc_blocks_null [OF assms] assms
    by (cases "p = NULL") auto
qed

text \<open>A free request for a run below the limit and off frame 0 releases exactly that run.\<close>

lemma pmm_free_blocks_spec:
  assumes inv: "pmm_inv s" and p: "unat p mod PMM_BLOCK_SIZE = 0" "count \<noteq> 0"
    and run: "frame_run p count \<subseteq> {1..<unat (max_blocks s)}"
  shows "pmm_inv (pmm_free_blocks p count s)"
    "\<And>c. mmap_test (pmm_free_blocks p count s) c \<longleftrightarrow> c \<notin> frame_run p count \<and> mmap_test s c"
    "max_blocks (pmm_free_blocks p count s) = max_blocks s"
    "frames_used (pmm_free_blocks p count s) = frames_used s - frame_run p count"
proof -
  let ?f = "unat p div PMM_BLOCK_SIZE"
  let ?fs = "map (\<lambda>i. ?f + i) [0..<unat count]"
  have pos: "0 < unat count" using p(2) by (simp add: unat_gt_0)
  have "?f \<in> {1..<unat (max_blocks s)}" "?f + unat count - 1 \<in> {1..<unat (max_blocks s)}"
    by (rule subsetD [OF run], use pos in \<open>simp add: frame_run_def\<close>)+
  then have f: "1 \<le> ?f" and last: "?f + unat count \<le> unat (max_blocks s)" by auto
  have nn: "p \<noteq> NULL" using f by auto
  have "?f < 2 ^ 32" using unat_lt_2p32 [of p] div_le_dividend [of "unat p" PMM_BLOCK_SIZE] by linarith
  then have uf: "unat (of_nat ?f :: u32) = ?f" by (rule unat_of_nat32)
  have "of_nat ?f \<le> max_blocks s" using uf last by (simp add: word_le_nat_alt)
  then have "\<not> count > max_blocks s - of_nat ?f"
    using uf last by (simp add: word_less_nat_alt unat_sub_no_wrap)
  then have "pmm_free_blocks p count s = fold (\<lambda>i. release_frame (?f + i)) [0..<unat count] s"
    using nn p f last pos by (auto simp: pmm_free_blocks_def Let_def)
  also have "\<dots> = fold release_frame ?fs s" by (simp add: fold_map comp_def)
  finally have eq: "pmm_free_blocks p count s = fold release_frame ?fs s" .
  have set: "set ?fs = frame_run p count"
    by (auto simp: frame_run_def image_iff intro: le_add_diff_inverse [symmetric] bexI [of _ "_ - _"])
  have ok: "pmm_count_ok s" using inv by (simp add: pmm_inv_def)
  have rel: "pmm_count_ok (fold release_frame ?fs s) \<and>
     max_blocks (fold release_frame ?fs s) = max_blocks s \<and>
     (\<forall>c. mmap_test (fold release_frame ?fs s) c \<longleftrightarrow> c \<notin> set ?fs \<and> mmap_test s c)"
  proof (rule fold_release_frame [OF ok])
    show "f < unat (max_blocks s)" if "f \<in> set ?fs" for f
      using that run unfolding set by auto
  qed
  show test: "mmap_test (pmm_free_blocks p count s) c \<longleftrightarrow> c \<notin> frame_run p count \<and> mmap_test s c" for c
    using rel unfolding eq set by blast
  show max: "max_blocks (pmm_free_blocks p count s) = max_blocks s"
    using rel by (simp add: eq)
  show "frames_used (pmm_free_blocks p count s) = frames_used s - frame_run p count"
    using test max by (auto simp: frames_used_def)
  show "pmm_inv (pmm_free_blocks p count s)"
    using rel run inv test [of 0] by (auto simp: eq pmm_inv_def)
qed

lemma pmm_free_blocks_cases:
  assumes inv: "pmm_inv s"
  obtains (ignored) "pmm_free_blocks p count s = s"
  | (released) "unat p mod PMM_BLOCK_SIZE = 0" "count \<noteq> 0"
      "frame_run p count \<subseteq> {1..<unat (max_blocks s)}"
proof (cases "p = NULL \<or> count = 0 \<or> unat p mod PMM_BLOCK_SIZE \<noteq> 0")
  case True
  then show ?thesis by (intro ignored) (auto simp: pmm_free_blocks_def)
next
  case False
  let ?f = "unat p div PMM_BLOCK_SIZE"
  show ?thesis
  proof (cases "?f = 0 \<or> ?f \<ge> unat (max_blocks s) \<or> count > max_blocks s - of_nat ?f")
    case True
    then show ?thesis by (intro ignored) (simp add: pmm_free_blocks_def Let_def)
  next
    case in_range: False
    then have f: "1 \<le> ?f" "?f < unat (max_blocks s)" by auto
    then have uf: "unat (of_nat ?f :: u32) = ?f"
      using unat_lt_2p32 [of "max_blocks s"] by (intro unat_of_nat32) simp
    then have "of_nat ?f \<le> max_blocks s" using f by (simp add: word_le_nat_alt)
    then have "unat count \<le> unat (max_blocks s) - ?f"
      using in_range uf by (simp add: word_le_nat_alt unat_sub_no_wrap not_less)
    with f False show ?thesis by (intro released) (auto simp: frame_run_def)
  qed
qed

lemma pmm_free_blocks_inv [inv_intros]:
  assumes "pmm_inv s"
  shows "pmm_inv (pmm_free_blocks p count s)"
  using assms
proof (cases rule: pmm_free_blocks_cases [where p = p and count = count])
  case ignored
  then show ?thesis using assms by simp
next
  case released
  then show ?thesis by (rule pmm_free_blocks_spec(1) [OF assms])
qed

lemma pmm_alloc_null_iff:
  assumes inv: "pmm_inv s" and n: "count \<noteq> 0"
  shows "fst (pmm_alloc_blocks count s) = NULL \<longleftrightarrow> \<not> (\<exists>r \<ge> 1. free_run s (unat count) r)"
  using inv
proof (cases rule: pmm_alloc_blocks_cases [where count = count])
  case null
  then show ?thesis using n by auto
next
  case (run r s')
  have "0 < unat count" using n by (simp add: unat_gt_0)
  then have "r < PMM_MAX_BLOCKS"
    using run(4) inv by (simp add: free_run_def pmm_inv_def pmm_count_ok_def)
  then have "unat (fst (pmm_alloc_blocks count s)) = r * PMM_BLOCK_SIZE"
    using run(1) by (simp add: unat_frame_address)
  with run(3,4) show ?thesis by (auto simp: PMM_BLOCK_SIZE_def)
qed

section \<open>The interface of the allocator\<close>

text \<open>
  What a client may rely on: an allocation is a run of frames nobody owns, a null result changes
  nothing, and giving back a run removes exactly its frames.
\<close>

locale frame_allocator =
  fixes alloc :: "u32 \<Rightarrow> 's \<Rightarrow> ptr \<times> 's"
    and free :: "ptr \<Rightarrow> u32 \<Rightarrow> 's \<Rightarrow> 's"
    and inv :: "'s \<Rightarrow> bool"
    and owned :: "'s \<Rightarrow> nat set"
    and limit :: "'s \<Rightarrow> nat"
  assumes alloc_null: "inv s \<Longrightarrow> alloc n s = (NULL, t) \<Longrightarrow> t = s"
    and alloc_inv: "inv s \<Longrightarrow> alloc n s = (p, t) \<Longrightarrow> inv t"
    and alloc_aligned: "inv s \<Longrightarrow> alloc n s = (p, t) \<Longrightarrow> p \<noteq> NULL \<Longrightarrow> unat p mod PMM_BLOCK_SIZE = 0 \<and> n \<noteq> 0"
    and alloc_run: "inv s \<Longrightarrow> alloc n s = (p, t) \<Longrightarrow> p \<noteq> NULL \<Longrightarrow> frame_run p n \<subseteq> {1..<limit s}"
    and alloc_fresh: "inv s \<Longrightarrow> alloc n s = (p, t) \<Longrightarrow> p \<noteq> NULL \<Longrightarrow> frame_run p n \<inter> owned s = {}"
    and alloc_owned: "inv s \<Longrightarrow> alloc n s = (p, t) \<Longrightarrow> p \<noteq> NULL \<Longrightarrow> owned t = owned s \<union> frame_run p n"
    and alloc_limit: "inv s \<Longrightarrow> alloc n s = (p, t) \<Longrightarrow> limit t = limit s"
    and limit_bound: "inv s \<Longrightarrow> limit s \<le> PMM_MAX_BLOCKS"
    and free_inv: "inv s \<Longrightarrow> inv (free p n s)"
    and free_owned: "inv s \<Longrightarrow> unat p mod PMM_BLOCK_SIZE = 0 \<Longrightarrow> n \<noteq> 0 \<Longrightarrow> frame_run p n \<subseteq> {1..<limit s} \<Longrightarrow>
      owned (free p n s) = owned s - frame_run p n"
begin

lemma alloc_disjoint:
  assumes "inv s" "alloc m s = (p, t)" "p \<noteq> NULL" "alloc n t = (q, u)" "q \<noteq> NULL"
  shows "frame_run p m \<inter> frame_run q n = {}"
  using alloc_owned [OF assms(1-3)] alloc_fresh [OF alloc_inv [OF assms(1,2)] assms(4,5)] by auto

lemma alloc_free_owned:
  assumes "inv s" "alloc n s = (p, t)" "p \<noteq> NULL"
  shows "owned (free p n t) = owned s"
proof -
  have "frame_run p n \<subseteq> {1..<limit t}"
    using alloc_run [OF assms] alloc_limit [OF assms(1,2)] by simp
  then have "owned (free p n t) = owned t - frame_run p n"
    using alloc_inv [OF assms(1,2)] alloc_aligned [OF assms] by (intro free_owned) auto
  then show ?thesis
    using alloc_owned [OF assms] alloc_fresh [OF assms] by auto
qed

text \<open>An allocated address and everything in its run is inside the 32 MB the frames cover.\<close>

lemma alloc_address_bound:
  assumes "inv s" "alloc n s = (p, t)" "p \<noteq> NULL"
  shows "PMM_BLOCK_SIZE \<le> unat p" "unat p + unat n * PMM_BLOCK_SIZE \<le> 2 ^ 25"
proof -
  let ?f = "unat p div PMM_BLOCK_SIZE"
  have al: "unat p mod PMM_BLOCK_SIZE = 0" and "0 < unat n"
    using alloc_aligned [OF assms] by (auto simp: unat_gt_0)
  then have "?f \<in> frame_run p n" "?f + unat n - 1 \<in> frame_run p n"
    by (auto simp: frame_run_def)
  with alloc_run [OF assms] limit_bound [OF assms(1)] have "1 \<le> ?f" "?f + unat n \<le> PMM_MAX_BLOCKS"
    by (meson atLeastLessThan_iff subsetD, fastforce)
  moreover have "unat p = ?f * PMM_BLOCK_SIZE" using al by auto
  ultimately show "PMM_BLOCK_SIZE \<le> unat p" "unat p + unat n * PMM_BLOCK_SIZE \<le> 2 ^ 25"
    by (auto simp: PMM_BLOCK_SIZE_def PMM_MAX_BLOCKS_def)
qed

end

interpretation pmm: frame_allocator pmm_alloc_blocks pmm_free_blocks pmm_inv frames_used
  "\<lambda>s. unat (max_blocks s)"
proof unfold_locales
  fix s t :: pmm_state and n :: u32 and p :: ptr
  assume inv: "pmm_inv s"
  show "unat (max_blocks s) \<le> PMM_MAX_BLOCKS"
    using inv by (simp add: pmm_inv_def pmm_count_ok_def)
  show "pmm_inv (pmm_free_blocks p n s)" by (rule pmm_free_blocks_inv [OF inv])
  show "frames_used (pmm_free_blocks p n s) = frames_used s - frame_run p n"
    if "unat p mod PMM_BLOCK_SIZE = 0" "n \<noteq> 0" "frame_run p n \<subseteq> {1..<unat (max_blocks s)}"
    using that by (rule pmm_free_blocks_spec(4) [OF inv])
  show "t = s" if "pmm_alloc_blocks n s = (NULL, t)"
    by (rule pmm_alloc_blocks_null [OF inv that])
  assume alloc: "pmm_alloc_blocks n s = (p, t)"
  show "pmm_inv t" using pmm_alloc_blocks_inv [OF inv, of n] alloc by simp
  show "unat (max_blocks t) = unat (max_blocks s)"
    using pmm_alloc_blocks_spec(8) [OF inv alloc] pmm_alloc_blocks_null [OF inv] alloc
    by (cases "p = NULL") auto
  assume p: "p \<noteq> NULL"
  note spec = pmm_alloc_blocks_spec [OF inv alloc p]
  show "unat p mod PMM_BLOCK_SIZE = 0 \<and> n \<noteq> 0" using spec(2,3) by simp
  show "frame_run p n \<subseteq> {1..<unat (max_blocks s)}" by (rule spec(6))
  show "frame_run p n \<inter> frames_used s = {}" by (rule spec(5))
  show "frames_used t = frames_used s \<union> frame_run p n" by (rule spec(7))
qed

lemma pmm_free_alloc_id:
  assumes inv: "pmm_inv s" and alloc: "pmm_alloc_blocks count s = (p, t)" and p: "p \<noteq> NULL"
  shows "pmm_free_blocks p count t = s"
proof -
  let ?u = "pmm_free_blocks p count t"
  note a = pmm_alloc_blocks_spec [OF inv alloc p]
  note f = pmm_free_blocks_spec [OF a(1,3,2), unfolded a(8), OF a(6)]
  have max: "max_blocks ?u = max_blocks s" using f(3) by simp
  have "\<not> mmap_test s b" if "b \<in> frame_run p count" for b
  proof -
    have "b < unat (max_blocks s)" "b \<notin> frames_used s" using a(5,6) that by auto
    then show ?thesis by (simp add: frames_used_mem)
  qed
  then have "mmap_test ?u b = mmap_test s b" for b
    using f(2) [of b] a(9) [of b] by blast
  then have map: "memory_map ?u = memory_map s"
    using f(1) inv by (intro memory_map_ext) (auto simp: pmm_inv_def pmm_count_ok_def)
  have "unat (used_blocks ?u) = unat (used_blocks s)"
    using f(1,4) inv a(5,7) by (auto simp: pmm_inv_def pmm_count_ok_def Un_Diff Diff_triv Int_commute)
  then have "used_blocks ?u = used_blocks s" by (simp add: word32_eq_iff_unat)
  with map max show ?thesis by simp
qed

section \<open>Properties\<close>

text \<open>
  C13. Allocation is first fit and complete. If some run of \<open>count\<close> free frames exists above
  frame 0 and below the limit, \<open>pmm_alloc_blocks\<close> returns the address of the lowest such run,
  marks exactly its frames and keeps the invariant; otherwise it returns the null pointer and
  changes nothing.
\<close>

theorem pmm_alloc_first_fit:
  assumes "pmm_inv s" and "pmm_alloc_blocks count s = (p, t)"
  shows "if count \<noteq> 0 \<and> (\<exists>r \<ge> 1. free_run s (unat count) r)
     then pmm_inv t \<and> p \<noteq> NULL \<and> unat p mod PMM_BLOCK_SIZE = 0 \<and>
       free_run s (unat count) (unat p div PMM_BLOCK_SIZE) \<and>
       (\<forall>r. 1 \<le> r \<and> r < unat p div PMM_BLOCK_SIZE \<longrightarrow> \<not> free_run s (unat count) r) \<and>
       frames_used t = frames_used s \<union> frame_run p count
     else p = NULL \<and> t = s"
  using assms(1)
proof (cases rule: pmm_alloc_blocks_cases [where count = count])
  case null
  then show ?thesis using assms(2) by auto
next
  case (run r t')
  have pos: "0 < unat count" using run(2) by (simp add: unat_gt_0)
  have le: "r + unat count \<le> unat (max_blocks s)" "unat (max_blocks s) \<le> PMM_MAX_BLOCKS"
    using run(4) assms(1) by (auto simp: free_run_def pmm_inv_def pmm_count_ok_def)
  with pos have "r < PMM_MAX_BLOCKS" by linarith
  then have up: "unat p = r * PMM_BLOCK_SIZE" using run(1) assms(2) by (simp add: unat_frame_address)
  then have p: "p \<noteq> NULL" using run(3) by (auto simp: PMM_BLOCK_SIZE_def)
  note spec = pmm_alloc_blocks_spec [OF assms p]
  have "unat p div PMM_BLOCK_SIZE = r" using up by (simp add: PMM_BLOCK_SIZE_def)
  with run p spec(1,3,7) show ?thesis by auto
qed

text \<open>
  C20. Freeing what was just allocated restores the allocator exactly: the bitmap, the limit and
  the counter are those before the allocation.
\<close>

theorem pmm_free_undoes_alloc:
  assumes inv: "pmm_inv s" and alloc: "pmm_alloc_blocks count s = (p, t)" and p: "p \<noteq> NULL"
  shows "pmm_free_blocks p count t = s"
  using assms by (rule pmm_free_alloc_id)

text \<open>
  C21. In every state the operations can reach after \<open>pmm_init\<close>, the free count the allocator
  reports is the number of frames it can still hand out: the clear bits below the limit, frame 0
  not among them.
\<close>

theorem pmm_reachable_free_count:
  assumes "pmm_reachable s"
  shows "pmm_inv s \<and> unat (pmm_get_free_blocks s) =
    card {f. 1 \<le> f \<and> f < unat (max_blocks s) \<and> \<not> mmap_test s f}"
proof -
  from assms have inv: "pmm_inv s"
  proof (induction rule: pmm_reachable.induct)
    case (reach_step s t)
    from reach_step.hyps(2) reach_step.IH show ?case
      by (cases rule: pmm_step.cases)
        (auto intro: inv_intros simp: pmm_alloc_block_def pmm_free_block_def)
  qed (rule pmm_init_inv)
  have used: "used_blocks s \<le> max_blocks s"
    using inv card_frames_used_le [of s] by (simp add: word_le_nat_alt pmm_inv_def pmm_count_ok_def)
  have "{f. 1 \<le> f \<and> f < unat (max_blocks s) \<and> \<not> mmap_test s f} = {..<unat (max_blocks s)} - frames_used s"
    using inv by (auto simp: frames_used_mem pmm_inv_def Suc_le_eq intro!: gr0I)
  also have "card \<dots> = unat (max_blocks s) - card (frames_used s)"
    by (subst card_Diff_subset) (auto simp: frames_used_mem)
  finally show ?thesis
    using inv used by (simp add: pmm_get_free_blocks_def unat_sub_no_wrap pmm_inv_def pmm_count_ok_def)
qed

text \<open>A machine with 16 KB: frames 1 to 3 are free after the region is released.\<close>

definition pmm_small :: pmm_state where
  "pmm_small = pmm_init_region 0 16384 (pmm_init 16 pmm_boot)"

lemma pmm_small_inv: "pmm_inv pmm_small"
  unfolding pmm_small_def by (intro pmm_init_region_inv pmm_init_inv)

lemmas pmm_eval = pmm_init_region_def pmm_init_def pmm_boot_def PMM_BLOCK_SIZE_def PMM_MAX_BLOCKS_def
  release_frame_def reserve_frame_def mmap_test_def mmap_set_def mmap_unset_def
  pmm_alloc_blocks_def mmap_first_free_run_def Let_def

lemma pmm_small_alloc: "fst (pmm_alloc_blocks 2 pmm_small) = 4096"
  by (simp add: pmm_small_def pmm_eval upt_rec nth_list_update)

theorem pmm_alloc_first_fit_witness:
  "\<exists>t. pmm_inv pmm_small \<and> pmm_alloc_blocks 2 pmm_small = (4096, t) \<and>
     frames_used t = frames_used pmm_small \<union> frame_run 4096 2"
proof -
  obtain t where alloc: "pmm_alloc_blocks 2 pmm_small = (4096, t)"
    using pmm_small_alloc by (cases "pmm_alloc_blocks 2 pmm_small") simp
  from pmm_alloc_first_fit [OF pmm_small_inv alloc] pmm_small_inv alloc show ?thesis
    by (auto split: if_splits)
qed

theorem pmm_free_undoes_alloc_witness:
  "\<exists>t. pmm_inv pmm_small \<and> pmm_alloc_blocks 2 pmm_small = (4096, t) \<and> pmm_free_blocks 4096 2 t = pmm_small"
proof -
  obtain t where alloc: "pmm_alloc_blocks 2 pmm_small = (4096, t)"
    using pmm_small_alloc by (cases "pmm_alloc_blocks 2 pmm_small") simp
  have "(4096 :: ptr) \<noteq> NULL" by simp
  from pmm_free_undoes_alloc [OF pmm_small_inv alloc this] pmm_small_inv alloc show ?thesis by blast
qed

theorem pmm_reachable_free_count_witness:
  "pmm_reachable pmm_small \<and> unat (pmm_get_free_blocks pmm_small) =
    card {f. 1 \<le> f \<and> f < unat (max_blocks pmm_small) \<and> \<not> mmap_test pmm_small f}"
proof -
  have "pmm_reachable pmm_small"
    unfolding pmm_small_def
    by (rule pmm_reachable.reach_step [OF pmm_reachable.reach_init pmm_step.step_init_region])
  with pmm_reachable_free_count show ?thesis by blast
qed

end
