(* ===== verification/Linked.thy ===== *)
theory Linked
  imports Kernel_Prelude "HOL-Library.Multiset"
begin

text \<open>
  Chains of pointers through a link function, as the intrusive lists of the kernel use them: the
  cells from one address to another, singly linked lists ending in the null pointer and circular
  lists.
\<close>

section \<open>Paths\<close>

fun path :: "(ptr \<Rightarrow> ptr option) \<Rightarrow> ptr \<Rightarrow> ptr list \<Rightarrow> ptr \<Rightarrow> bool" where
  "path f x [] y \<longleftrightarrow> x = y"
| "path f x (a # as) y \<longleftrightarrow> x = a \<and> a \<noteq> NULL \<and> (\<exists>q. f a = Some q \<and> path f q as y)"

lemma path_cong: "(\<And>a. a \<in> set as \<Longrightarrow> f a = g a) \<Longrightarrow> path f x as y = path g x as y"
  by (induction f x as y rule: path.induct) auto

lemma path_fun_upd [simp]: "a \<notin> set as \<Longrightarrow> path (f(a := v)) x as y = path f x as y"
  by (rule path_cong) auto

lemma path_append: "path f x (as @ bs) y \<longleftrightarrow> (\<exists>z. path f x as z \<and> path f z bs y)"
  by (induction f x as y rule: path.induct) auto

lemma path_snoc: "path f x (as @ [b]) y \<longleftrightarrow> path f x as b \<and> b \<noteq> NULL \<and> f b = Some y"
  by (auto simp: path_append)

lemma path_null [simp]: "path f NULL as NULL \<longleftrightarrow> as = []"
  by (cases as) auto

lemma path_nonnull: "path f x as y \<Longrightarrow> NULL \<notin> set as"
  by (induction f x as y rule: path.induct) auto

lemma path_nonempty: "path f x as y \<Longrightarrow> x \<noteq> y \<Longrightarrow> \<exists>as'. as = x # as'"
  by (cases as) auto

lemma path_fun: "path f x as NULL \<Longrightarrow> path f x bs NULL \<Longrightarrow> as = bs"
proof (induction as arbitrary: x bs)
  case (Cons a as)
  then show ?case by (cases bs) auto
next
  case Nil
  then show ?case by simp
qed

section \<open>Rings\<close>

text \<open>A circular list: the cells from its entry point back to it.\<close>

definition ring :: "(ptr \<Rightarrow> ptr option) \<Rightarrow> ptr list \<Rightarrow> bool" where
  "ring f as \<longleftrightarrow> as \<noteq> [] \<and> distinct as \<and> path f (hd as) as (hd as)"

lemma ring_rotate1: "ring f (a # as) \<Longrightarrow> ring f (as @ [a])"
  by (cases as) (auto simp: ring_def path_append)

lemma ring_append_commute: "ring f (as @ bs) \<Longrightarrow> ring f (bs @ as)"
proof (induction as arbitrary: bs)
  case (Cons a as)
  from Cons.prems have "ring f ((as @ bs) @ [a])" using ring_rotate1 [of f a "as @ bs"] by simp
  then have "ring f (as @ bs @ [a])" by simp
  from Cons.IH [OF this] show ?case by simp
qed simp

text \<open>Any cell can serve as the entry point.\<close>

lemma ring_entry:
  assumes "ring f rs" "a \<in> set rs"
  obtains as where "ring f (a # as)" "mset (a # as) = mset rs" "set (a # as) = set rs"
proof -
  from split_list [OF assms(2)] obtain bs cs where rs: "rs = bs @ a # cs" by blast
  with assms(1) have "ring f (a # cs @ bs)" using ring_append_commute [of f bs "a # cs"] by simp
  then show thesis by (rule that) (auto simp: rs)
qed

lemma ring_next: "ring f (a # b # as) \<Longrightarrow> f a = Some b"
  by (simp add: ring_def)

lemma ring_single: "ring f [a] \<longleftrightarrow> a \<noteq> NULL \<and> f a = Some a"
  by (auto simp: ring_def)

lemma ring_last: "ring f (as @ [b]) \<Longrightarrow> f b = Some (hd (as @ [b]))"
  by (simp add: ring_def path_snoc)

text \<open>Removing the entry cell: its predecessor is linked to its successor.\<close>

lemma ring_remove:
  assumes "ring f (a # as @ [p])"
  shows "ring (f(p := f a)) (as @ [p])"
  using assms by (cases as) (auto simp: ring_def path_append)

text \<open>Inserting after the entry cell.\<close>

lemma ring_insert:
  assumes "ring f (a # as)" "b \<notin> set (a # as)" "b \<noteq> NULL"
  shows "ring (f(b := f a, a := Some b)) (a # b # as)"
proof -
  obtain q where q: "f a = Some q" "path f q as a" using assms(1) by (auto simp: ring_def)
  have "path (f(b := Some q, a := Some b)) q as a"
    using q(2) assms by (subst path_fun_upd; auto simp: ring_def)
  with q assms show ?thesis by (auto simp: ring_def)
qed

end
