(* ===== verification/Task.thy ===== *)
theory Task
  imports Pmm Linked
begin

text \<open>
  The scheduler (src/task.c, src/task.h) and the context switch (src/switch_s.s). Task control
  blocks live in a store from addresses to records; the runnable tasks form a circular list
  through \<open>next\<close>, the waiting ones a list through \<open>blocked_next\<close>, oldest first. Both the block and
  its kernel stack are pages of the physical memory manager, whose state is part of the
  scheduler's state.

  The sections with interrupts disabled are atomic, so every operation is one transition of the
  state. An operation that switches tasks ends with the other task running; what the blocked task
  does when it runs again is a later transition. \<open>None\<close> stands for a null or dangling task pointer.

  The lemmas relate the pointer structure to two lists, the run ring and the wait queue, and show
  that every operation keeps them disjoint, complete and backed by pages in use.
\<close>

section \<open>State\<close>

datatype task_state = TASK_READY | TASK_BLOCKED

record task =
  t_esp :: u32
  t_next :: ptr
  t_blocked_next :: ptr
  t_id :: u32
  t_stack_bottom :: ptr
  t_kernel_stack_top :: u32
  t_address_space :: ptr
  t_process :: ptr
  t_on_exit :: ptr
  t_wait_channel :: ptr
  t_state :: task_state
  t_user_entry :: u32
  t_user_stack :: u32
  t_kill_pending :: bool

text \<open>The callee-saved registers \<open>switch_task\<close> exchanges, the stack pointer and the next instruction.\<close>

record cpu =
  edi :: u32
  esi :: u32
  ebx :: u32
  ebp :: u32
  esp :: u32
  eip :: u32

record sched =
  tcb :: "ptr \<Rightarrow> task option"
  current_task :: ptr
  ready_queue :: ptr
  next_pid :: u32
  retired_task :: ptr
  blocked_tasks :: ptr
  kmem :: "ptr \<Rightarrow> u32"
  cpu :: cpu
  tss_esp0 :: u32
  kernel_space :: ptr
  active_space :: ptr
  halted :: bool
  task_pmm :: pmm_state

definition TASK_KILL_STATUS :: int where
  "TASK_KILL_STATUS = -130"

section \<open>Access to task control blocks\<close>

definition upd_task :: "ptr \<Rightarrow> (task \<Rightarrow> task) \<Rightarrow> sched \<Rightarrow> sched option" where
  "upd_task p f s = (case tcb s p of None \<Rightarrow> None | Some t \<Rightarrow> Some (s\<lparr>tcb := (tcb s)(p \<mapsto> f t)\<rparr>))"

text \<open>A link of the wait queue: the head of the queue, or the \<open>blocked_next\<close> field of a task.\<close>

definition read_link :: "ptr \<Rightarrow> sched \<Rightarrow> ptr option" where
  "read_link l s = (if l = NULL then Some (blocked_tasks s) else map_option t_blocked_next (tcb s l))"

definition write_link :: "ptr \<Rightarrow> ptr \<Rightarrow> sched \<Rightarrow> sched option" where
  "write_link l p s = (if l = NULL then Some (s\<lparr>blocked_tasks := p\<rparr>)
     else upd_task l (\<lambda>t. t\<lparr>t_blocked_next := p\<rparr>) s)"

section \<open>Context switch and activation\<close>

definition push :: "u32 \<Rightarrow> sched \<Rightarrow> sched" where
  "push v s = (let a = esp (cpu s) - 4 in s\<lparr>kmem := (kmem s)(a := v), cpu := (cpu s)\<lparr>esp := a\<rparr>\<rparr>)"

definition pop_val :: "sched \<Rightarrow> u32" where
  "pop_val s = kmem s (esp (cpu s))"

definition pop_esp :: "sched \<Rightarrow> sched" where
  "pop_esp s = s\<lparr>cpu := (cpu s)\<lparr>esp := esp (cpu s) + 4\<rparr>\<rparr>"

text \<open>
  \<open>switch_task(&old->esp, new_esp)\<close>, entered with the return address on top of the stack: push
  the four registers, save the stack pointer in the old task, load the new one, pop the four
  registers and return to the address found there.
\<close>

definition switch_task :: "ptr \<Rightarrow> u32 \<Rightarrow> sched \<Rightarrow> sched option" where
  "switch_task old new_esp s =
     (let s1 = push (edi (cpu s)) (push (esi (cpu s)) (push (ebx (cpu s)) (push (ebp (cpu s)) s)))
      in case upd_task old (\<lambda>t. t\<lparr>t_esp := esp (cpu s1)\<rparr>) s1 of None \<Rightarrow> None | Some s2 \<Rightarrow>
        let s3 = s2\<lparr>cpu := (cpu s2)\<lparr>esp := new_esp\<rparr>\<rparr>;
            s4 = (pop_esp s3)\<lparr>cpu := (cpu (pop_esp s3))\<lparr>edi := pop_val s3\<rparr>\<rparr>;
            s5 = (pop_esp s4)\<lparr>cpu := (cpu (pop_esp s4))\<lparr>esi := pop_val s4\<rparr>\<rparr>;
            s6 = (pop_esp s5)\<lparr>cpu := (cpu (pop_esp s5))\<lparr>ebx := pop_val s5\<rparr>\<rparr>;
            s7 = (pop_esp s6)\<lparr>cpu := (cpu (pop_esp s6))\<lparr>ebp := pop_val s6\<rparr>\<rparr>
        in Some ((pop_esp s7)\<lparr>cpu := (cpu (pop_esp s7))\<lparr>eip := pop_val s7\<rparr>\<rparr>))"

definition set_kernel_stack :: "u32 \<Rightarrow> sched \<Rightarrow> sched" where
  "set_kernel_stack stack s = s\<lparr>tss_esp0 := stack\<rparr>"

definition task_activate_space :: "ptr \<Rightarrow> sched \<Rightarrow> sched" where
  "task_activate_space space s =
     s\<lparr>active_space := (if space = NULL then kernel_space s else space)\<rparr>"

definition activate_task :: "ptr \<Rightarrow> sched \<Rightarrow> sched option" where
  "activate_task p s = (case tcb s p of None \<Rightarrow> None | Some t \<Rightarrow>
     Some (task_activate_space (t_address_space t)
       (set_kernel_stack (t_kernel_stack_top t) (s\<lparr>current_task := p\<rparr>))))"

section \<open>Operations\<close>

definition reap_retired_task :: "sched \<Rightarrow> sched option" where
  "reap_retired_task s =
     (if retired_task s = NULL then Some s
      else let p = retired_task s in case tcb s p of None \<Rightarrow> None | Some t \<Rightarrow>
        let s1 = s\<lparr>retired_task := NULL\<rparr>;
            s2 = (if t_stack_bottom t \<noteq> NULL
                  then s1\<lparr>task_pmm := pmm_free_block (t_stack_bottom t) (task_pmm s1)\<rparr> else s1)
        in Some (s2\<lparr>task_pmm := pmm_free_block p (task_pmm s2), tcb := (tcb s2)(p := None)\<rparr>))"

partial_function (option) ready_previous_loop :: "ptr \<Rightarrow> ptr \<Rightarrow> sched \<Rightarrow> ptr option" where
  "ready_previous_loop p previous s =
     (case tcb s previous of None \<Rightarrow> None | Some t \<Rightarrow>
        if t_next t = p then Some previous
        else if t_next t = p then Some NULL
        else ready_previous_loop p (t_next t) s)"

definition find_ready_previous :: "ptr \<Rightarrow> sched \<Rightarrow> ptr option" where
  "find_ready_previous p s =
     (if ready_queue s = NULL \<or> p = NULL then Some NULL else ready_previous_loop p p s)"

definition add_ready_task :: "ptr \<Rightarrow> sched \<Rightarrow> sched option" where
  "add_ready_task p s =
     (case upd_task p (\<lambda>t. t\<lparr>t_state := TASK_READY, t_wait_channel := NULL, t_blocked_next := NULL\<rparr>) s of
        None \<Rightarrow> None
      | Some s1 \<Rightarrow>
          if ready_queue s1 = NULL then
            map_option (\<lambda>s2. s2\<lparr>ready_queue := p\<rparr>) (upd_task p (\<lambda>t. t\<lparr>t_next := p\<rparr>) s1)
          else case tcb s1 (ready_queue s1) of None \<Rightarrow> None | Some q \<Rightarrow>
            (case upd_task p (\<lambda>t. t\<lparr>t_next := t_next q\<rparr>) s1 of None \<Rightarrow> None | Some s2 \<Rightarrow>
               upd_task (ready_queue s2) (\<lambda>t. t\<lparr>t_next := p\<rparr>) s2))"

text \<open>
  \<open>create_task\<close>: a control block, a stack page with the frame \<open>switch_task\<close> pops on the first
  switch to the task, and a place in the ring. The fields the source leaves unwritten until
  \<open>add_ready_task\<close> start as zero here.
\<close>

definition create_task ::
  "u32 \<Rightarrow> ptr \<Rightarrow> ptr \<Rightarrow> ptr \<Rightarrow> u32 \<Rightarrow> u32 \<Rightarrow> sched \<Rightarrow> (ptr \<times> sched) option" where
  "create_task entry on_exit space process user_entry user_stack s =
     (if entry = 0 \<or> ready_queue s = NULL \<or> space = NULL then Some (NULL, s)
      else case pmm_alloc_block (task_pmm s) of (new_task, pm1) \<Rightarrow>
        if new_task = NULL then Some (NULL, s\<lparr>task_pmm := pm1\<rparr>)
        else case pmm_alloc_block pm1 of (bottom, pm2) \<Rightarrow>
          if bottom = NULL
          then Some (NULL, s\<lparr>next_pid := next_pid s + 1, task_pmm := pmm_free_block new_task pm2\<rparr>)
          else
            let top = bottom + 4096;
                t = \<lparr>t_esp = top - 20, t_next = NULL, t_blocked_next = NULL, t_id = next_pid s,
                     t_stack_bottom = bottom, t_kernel_stack_top = top, t_address_space = space,
                     t_process = process, t_on_exit = on_exit, t_wait_channel = NULL,
                     t_state = TASK_READY, t_user_entry = user_entry, t_user_stack = user_stack,
                     t_kill_pending = False\<rparr>;
                s1 = s\<lparr>next_pid := next_pid s + 1, task_pmm := pm2, tcb := (tcb s)(new_task \<mapsto> t),
                       kmem := (kmem s)(top - 4 := entry, top - 8 := 0, top - 12 := 0,
                                        top - 16 := 0, top - 20 := 0)\<rparr>
            in map_option (\<lambda>s2. (new_task, s2)) (add_ready_task new_task s1))"

definition tasking_init :: "u32 \<Rightarrow> sched \<Rightarrow> sched option" where
  "tasking_init idle_task_runner s =
     (if current_task s \<noteq> NULL then Some s
      else case pmm_alloc_block (task_pmm s) of (main_task, pm1) \<Rightarrow>
        if main_task = NULL then Some (s\<lparr>task_pmm := pm1\<rparr>)
        else
          let t = \<lparr>t_esp = 0, t_next = main_task, t_blocked_next = NULL, t_id = 0,
                   t_stack_bottom = NULL, t_kernel_stack_top = 0x90000,
                   t_address_space = kernel_space s, t_process = NULL, t_on_exit = NULL,
                   t_wait_channel = NULL, t_state = TASK_READY, t_user_entry = 0,
                   t_user_stack = 0, t_kill_pending = False\<rparr>;
              s1 = s\<lparr>task_pmm := pm1, tcb := (tcb s)(main_task \<mapsto> t), current_task := main_task,
                     ready_queue := main_task\<rparr>
          in map_option snd (create_task idle_task_runner NULL (kernel_space s) NULL 0 0 s1))"

definition task_get_current :: "sched \<Rightarrow> ptr" where
  "task_get_current s = current_task s"

text \<open>The walk to the last waiting task.\<close>

partial_function (option) last_blocked :: "ptr \<Rightarrow> sched \<Rightarrow> ptr option" where
  "last_blocked p s = (case tcb s p of None \<Rightarrow> None | Some t \<Rightarrow>
     if t_blocked_next t = NULL then Some p else last_blocked (t_blocked_next t) s)"

definition append_blocked :: "ptr \<Rightarrow> sched \<Rightarrow> sched option" where
  "append_blocked p s =
     (if blocked_tasks s = NULL then Some (s\<lparr>blocked_tasks := p\<rparr>)
      else case last_blocked (blocked_tasks s) s of None \<Rightarrow> None | Some l \<Rightarrow>
        upd_task l (\<lambda>t. t\<lparr>t_blocked_next := p\<rparr>) s)"

text \<open>Switch from one task to another, as at the end of the blocking operations.\<close>

definition switch_to :: "ptr \<Rightarrow> ptr \<Rightarrow> sched \<Rightarrow> sched option" where
  "switch_to p n s = (case activate_task n s of None \<Rightarrow> None | Some s1 \<Rightarrow>
     case tcb s1 n of None \<Rightarrow> None | Some t \<Rightarrow> switch_task p (t_esp t) s1)"

definition task_block_current :: "ptr \<Rightarrow> sched \<Rightarrow> sched option" where
  "task_block_current wait_channel s =
     (let p = current_task s in
      if p = NULL then Some s
      else case tcb s p of None \<Rightarrow> None | Some t \<Rightarrow>
        if t_state t \<noteq> TASK_READY \<or> t_next t = p then Some s
        else case find_ready_previous p s of None \<Rightarrow> None | Some previous \<Rightarrow>
          if previous = NULL then Some s
          else
            let n = t_next t in
            case upd_task previous (\<lambda>t. t\<lparr>t_next := n\<rparr>) s of None \<Rightarrow> None | Some s1 \<Rightarrow>
              let s2 = (if ready_queue s1 = p then s1\<lparr>ready_queue := n\<rparr> else s1) in
              case upd_task p (\<lambda>t. t\<lparr>t_next := NULL, t_blocked_next := NULL,
                                  t_wait_channel := wait_channel, t_state := TASK_BLOCKED\<rparr>) s2 of
                None \<Rightarrow> None
              | Some s3 \<Rightarrow> (case append_blocked p s3 of None \<Rightarrow> None | Some s4 \<Rightarrow> switch_to p n s4))"

partial_function (option) wake_one_loop :: "ptr \<Rightarrow> ptr \<Rightarrow> sched \<Rightarrow> sched option" where
  "wake_one_loop wait_channel l s =
     (case read_link l s of None \<Rightarrow> None | Some p \<Rightarrow>
        if p = NULL then Some s
        else case tcb s p of None \<Rightarrow> None | Some t \<Rightarrow>
          if t_wait_channel t = wait_channel
          then (case write_link l (t_blocked_next t) s of None \<Rightarrow> None | Some s1 \<Rightarrow> add_ready_task p s1)
          else wake_one_loop wait_channel p s)"

definition task_wake_one :: "ptr \<Rightarrow> sched \<Rightarrow> sched option" where
  "task_wake_one wait_channel s = wake_one_loop wait_channel NULL s"

partial_function (option) wake_all_loop :: "ptr \<Rightarrow> ptr \<Rightarrow> sched \<Rightarrow> sched option" where
  "wake_all_loop wait_channel l s =
     (case read_link l s of None \<Rightarrow> None | Some p \<Rightarrow>
        if p = NULL then Some s
        else case tcb s p of None \<Rightarrow> None | Some t \<Rightarrow>
          if t_wait_channel t = wait_channel
          then (case write_link l (t_blocked_next t) s of None \<Rightarrow> None | Some s1 \<Rightarrow>
                  (case add_ready_task p s1 of None \<Rightarrow> None | Some s2 \<Rightarrow> wake_all_loop wait_channel l s2))
          else wake_all_loop wait_channel p s)"

definition task_wake_all :: "ptr \<Rightarrow> sched \<Rightarrow> sched option" where
  "task_wake_all wait_channel s = wake_all_loop wait_channel NULL s"

partial_function (option) wake_task_loop :: "ptr \<Rightarrow> ptr \<Rightarrow> sched \<Rightarrow> sched option" where
  "wake_task_loop target l s =
     (case read_link l s of None \<Rightarrow> None | Some p \<Rightarrow>
        if p = NULL then Some s
        else case tcb s p of None \<Rightarrow> None | Some t \<Rightarrow>
          if p = target
          then (case write_link l (t_blocked_next t) s of None \<Rightarrow> None | Some s1 \<Rightarrow> add_ready_task p s1)
          else wake_task_loop target p s)"

definition task_wake_task :: "ptr \<Rightarrow> sched \<Rightarrow> sched option" where
  "task_wake_task target s = (if target = NULL then Some s else wake_task_loop target NULL s)"

text \<open>The two passes of \<open>task_kill_blocked\<close>: mark the ring, then mark and wake the waiting tasks.\<close>

definition mark_kill :: "ptr \<Rightarrow> ptr \<Rightarrow> sched \<Rightarrow> sched option" where
  "mark_kill process p s =
     upd_task p (\<lambda>t. if t_process t = process then t\<lparr>t_kill_pending := True\<rparr> else t) s"

partial_function (option) mark_ring_loop :: "ptr \<Rightarrow> ptr \<Rightarrow> ptr \<Rightarrow> sched \<Rightarrow> sched option" where
  "mark_ring_loop process ready p s =
     (case mark_kill process p s of None \<Rightarrow> None | Some s1 \<Rightarrow>
        case tcb s1 p of None \<Rightarrow> None | Some t \<Rightarrow>
          if t_next t \<noteq> NULL \<and> t_next t \<noteq> ready then mark_ring_loop process ready (t_next t) s1
          else Some s1)"

partial_function (option) kill_loop :: "ptr \<Rightarrow> ptr \<Rightarrow> u32 \<Rightarrow> sched \<Rightarrow> (u32 \<times> sched) option" where
  "kill_loop process l woken s =
     (case read_link l s of None \<Rightarrow> None | Some p \<Rightarrow>
        if p = NULL then Some (woken, s)
        else case tcb s p of None \<Rightarrow> None | Some t \<Rightarrow>
          if t_process t = process
          then (case upd_task p (\<lambda>t. t\<lparr>t_kill_pending := True\<rparr>) s of None \<Rightarrow> None | Some s1 \<Rightarrow>
                  case write_link l (t_blocked_next t) s1 of None \<Rightarrow> None | Some s2 \<Rightarrow>
                    case add_ready_task p s2 of None \<Rightarrow> None | Some s3 \<Rightarrow>
                      kill_loop process l (woken + 1) s3)
          else kill_loop process p woken s)"

definition task_kill_blocked :: "ptr \<Rightarrow> sched \<Rightarrow> (u32 \<times> sched) option" where
  "task_kill_blocked process s =
     (if process = NULL then Some (0, s)
      else case (if ready_queue s \<noteq> NULL then mark_ring_loop process (ready_queue s) (ready_queue s) s
                 else Some s) of
        None \<Rightarrow> None
      | Some s1 \<Rightarrow> kill_loop process NULL 0 s1)"

definition task_kill_pending :: "sched \<Rightarrow> bool option" where
  "task_kill_pending s = (if current_task s = NULL then Some False
     else map_option t_kill_pending (tcb s (current_task s)))"

partial_function (option) blocked_count_loop :: "ptr \<Rightarrow> u32 \<Rightarrow> sched \<Rightarrow> u32 option" where
  "blocked_count_loop p n s = (if p = NULL then Some n
     else case tcb s p of None \<Rightarrow> None | Some t \<Rightarrow> blocked_count_loop (t_blocked_next t) (n + 1) s)"

definition task_get_blocked_count :: "sched \<Rightarrow> u32 option" where
  "task_get_blocked_count s = blocked_count_loop (blocked_tasks s) 0 s"

definition schedule :: "sched \<Rightarrow> sched option" where
  "schedule s =
     (if current_task s = NULL then Some s
      else case reap_retired_task s of None \<Rightarrow> None | Some s1 \<Rightarrow>
        let p = current_task s1 in case tcb s1 p of None \<Rightarrow> None | Some t \<Rightarrow>
          if t_next t = p then Some s1 else switch_to p (t_next t) s1)"

text \<open>
  \<open>task_exit\<close>. The exit callback belongs to another component: it is the argument \<open>callback\<close>,
  applied to the function pointer, the task and the status. Halting is a flag of the state.
\<close>

definition task_exit ::
  "(ptr \<Rightarrow> ptr \<Rightarrow> int \<Rightarrow> sched \<Rightarrow> sched option) \<Rightarrow> int \<Rightarrow> sched \<Rightarrow> sched option" where
  "task_exit callback status s =
     (let p = current_task s in
      if p = NULL then Some (s\<lparr>halted := True\<rparr>)
      else case ready_previous_loop p p s of None \<Rightarrow> None | Some previous \<Rightarrow>
        if previous = p then Some (s\<lparr>current_task := NULL, ready_queue := NULL, halted := True\<rparr>)
        else case reap_retired_task s of None \<Rightarrow> None | Some s1 \<Rightarrow>
          case tcb s1 p of None \<Rightarrow> None | Some t \<Rightarrow>
            let n = t_next t in
            case upd_task previous (\<lambda>t. t\<lparr>t_next := n\<rparr>) s1 of None \<Rightarrow> None | Some s2 \<Rightarrow>
              let s3 = (if ready_queue s2 = p then s2\<lparr>ready_queue := n\<rparr> else s2)
              in case activate_task n (s3\<lparr>current_task := n, retired_task := p\<rparr>) of
                None \<Rightarrow> None
              | Some s4 \<Rightarrow>
                  case (if t_on_exit t \<noteq> NULL then callback (t_on_exit t) p status s4 else Some s4) of
                    None \<Rightarrow> None
                  | Some s5 \<Rightarrow>
                      (case tcb s5 n of None \<Rightarrow> None | Some tn \<Rightarrow> switch_task p (t_esp tn) s5))"

text \<open>
  \<open>task_block_killable\<close> up to the switch, and what it does when the task runs again.
\<close>

definition task_block_killable ::
  "(ptr \<Rightarrow> ptr \<Rightarrow> int \<Rightarrow> sched \<Rightarrow> sched option) \<Rightarrow> ptr \<Rightarrow> sched \<Rightarrow> sched option" where
  "task_block_killable callback wait_channel s =
     (case task_kill_pending s of None \<Rightarrow> None | Some k \<Rightarrow>
        if k then task_exit callback TASK_KILL_STATUS s else task_block_current wait_channel s)"

definition task_block_killable_resumed ::
  "(ptr \<Rightarrow> ptr \<Rightarrow> int \<Rightarrow> sched \<Rightarrow> sched option) \<Rightarrow> sched \<Rightarrow> sched option" where
  "task_block_killable_resumed callback s =
     (case task_kill_pending s of None \<Rightarrow> None | Some k \<Rightarrow>
        if k then task_exit callback TASK_KILL_STATUS s else Some s)"

section \<open>Queues and pages\<close>

text \<open>The fields of the control blocks the queues consist of, and the rest of each block.\<close>

definition nexts :: "(ptr \<Rightarrow> task option) \<Rightarrow> ptr \<Rightarrow> ptr option" where
  "nexts m p = map_option t_next (m p)"

definition bnexts :: "(ptr \<Rightarrow> task option) \<Rightarrow> ptr \<Rightarrow> ptr option" where
  "bnexts m p = map_option t_blocked_next (m p)"

definition states :: "(ptr \<Rightarrow> task option) \<Rightarrow> ptr \<Rightarrow> task_state option" where
  "states m p = map_option t_state (m p)"

definition chans :: "(ptr \<Rightarrow> task option) \<Rightarrow> ptr \<Rightarrow> ptr option" where
  "chans m p = map_option t_wait_channel (m p)"

type_synonym task_core = "u32 \<times> u32 \<times> ptr \<times> u32 \<times> ptr \<times> ptr \<times> ptr \<times> u32 \<times> u32 \<times> bool"

definition core :: "task \<Rightarrow> task_core" where
  "core t = (t_esp t, t_id t, t_stack_bottom t, t_kernel_stack_top t, t_address_space t,
     t_process t, t_on_exit t, t_user_entry t, t_user_stack t, t_kill_pending t)"

definition cores :: "(ptr \<Rightarrow> task option) \<Rightarrow> ptr \<Rightarrow> task_core option" where
  "cores m p = map_option core (m p)"

text \<open>
  The run ring and the wait queue: the ring starts at \<open>ready_queue\<close>, the queue at
  \<open>blocked_tasks\<close>; no task is in both, and the state of a task says where it is.
\<close>

definition queues :: "sched \<Rightarrow> ptr list \<Rightarrow> ptr list \<Rightarrow> bool" where
  "queues s rs bs \<longleftrightarrow> ring (nexts (tcb s)) rs \<and> hd rs = ready_queue s \<and>
     path (bnexts (tcb s)) (blocked_tasks s) bs NULL \<and> distinct (rs @ bs) \<and>
     (\<forall>p \<in> set rs. states (tcb s) p = Some TASK_READY) \<and>
     (\<forall>p \<in> set bs. states (tcb s) p = Some TASK_BLOCKED)"

text \<open>The pages of the tasks are in use and belong to one task each.\<close>

definition page_used :: "pmm_state \<Rightarrow> ptr \<Rightarrow> bool" where
  "page_used pm a \<longleftrightarrow> a \<noteq> NULL \<and> unat a mod PMM_BLOCK_SIZE = 0 \<and> unat a div PMM_BLOCK_SIZE \<in> frames_used pm"

definition task_pages :: "(ptr \<Rightarrow> task option) \<Rightarrow> ptr \<Rightarrow> ptr list" where
  "task_pages m p = (case m p of None \<Rightarrow> []
     | Some t \<Rightarrow> p # (if t_stack_bottom t = NULL then [] else [t_stack_bottom t]))"

definition pages_ok :: "(ptr \<Rightarrow> task option) \<Rightarrow> pmm_state \<Rightarrow> ptr set \<Rightarrow> bool" where
  "pages_ok m pm T \<longleftrightarrow> pmm_inv pm \<and>
     (\<forall>p \<in> T. m p \<noteq> None \<and> distinct (task_pages m p) \<and> (\<forall>a \<in> set (task_pages m p). page_used pm a)) \<and>
     (\<forall>p \<in> T. \<forall>q \<in> T. p \<noteq> q \<longrightarrow> set (task_pages m p) \<inter> set (task_pages m q) = {})"

definition retired_set :: "sched \<Rightarrow> ptr set" where
  "retired_set s = (if retired_task s = NULL then {} else {retired_task s})"

definition sched_inv :: "sched \<Rightarrow> ptr list \<Rightarrow> ptr list \<Rightarrow> bool" where
  "sched_inv s rs bs \<longleftrightarrow> queues s rs bs \<and> current_task s \<in> set rs \<and>
     pages_ok (tcb s) (task_pmm s) (set rs \<union> set bs \<union> retired_set s) \<and>
     retired_set s \<inter> (set rs \<union> set bs) = {}"

text \<open>The successor in the ring, and the queue operations on lists.\<close>

definition ring_succ :: "ptr list \<Rightarrow> ptr \<Rightarrow> ptr" where
  "ring_succ rs p = (case dropWhile (\<lambda>q. q \<noteq> p) rs of a # b # _ \<Rightarrow> b | _ \<Rightarrow> hd rs)"

definition insert_ready :: "ptr \<Rightarrow> ptr list \<Rightarrow> ptr list" where
  "insert_ready p rs = hd rs # p # tl rs"

section \<open>Field lemmas\<close>

lemma field_upd [simp]:
  "nexts (m(p \<mapsto> t)) = (nexts m)(p \<mapsto> t_next t)"
  "bnexts (m(p \<mapsto> t)) = (bnexts m)(p \<mapsto> t_blocked_next t)"
  "states (m(p \<mapsto> t)) = (states m)(p \<mapsto> t_state t)"
  "chans (m(p \<mapsto> t)) = (chans m)(p \<mapsto> t_wait_channel t)"
  "cores (m(p \<mapsto> t)) = (cores m)(p \<mapsto> core t)"
  by (auto simp: nexts_def bnexts_def states_def chans_def cores_def)

lemma field_same [simp]:
  "m p = Some t \<Longrightarrow> (nexts m)(p \<mapsto> t_next t) = nexts m"
  "m p = Some t \<Longrightarrow> (bnexts m)(p \<mapsto> t_blocked_next t) = bnexts m"
  "m p = Some t \<Longrightarrow> (states m)(p \<mapsto> t_state t) = states m"
  "m p = Some t \<Longrightarrow> (chans m)(p \<mapsto> t_wait_channel t) = chans m"
  "m p = Some t \<Longrightarrow> (cores m)(p \<mapsto> core t) = cores m"
  by (auto simp: nexts_def bnexts_def states_def chans_def cores_def)

lemma field_Some:
  "m p = Some t \<Longrightarrow> nexts m p = Some (t_next t)"
  "m p = Some t \<Longrightarrow> bnexts m p = Some (t_blocked_next t)"
  "m p = Some t \<Longrightarrow> states m p = Some (t_state t)"
  "m p = Some t \<Longrightarrow> chans m p = Some (t_wait_channel t)"
  "m p = Some t \<Longrightarrow> cores m p = Some (core t)"
  by (auto simp: nexts_def bnexts_def states_def chans_def cores_def)

lemma fieldD:
  "nexts m p = Some q \<Longrightarrow> \<exists>t. m p = Some t \<and> t_next t = q"
  "bnexts m p = Some q \<Longrightarrow> \<exists>t. m p = Some t \<and> t_blocked_next t = q"
  "states m p = Some x \<Longrightarrow> \<exists>t. m p = Some t \<and> t_state t = x"
  by (auto simp: nexts_def bnexts_def states_def)

lemma core_simps [simp]:
  "core (t\<lparr>t_next := a\<rparr>) = core t" "core (t\<lparr>t_blocked_next := a\<rparr>) = core t"
  "core (t\<lparr>t_state := x\<rparr>) = core t" "core (t\<lparr>t_wait_channel := a\<rparr>) = core t"
  by (simp_all add: core_def)

definition stacks :: "(ptr \<Rightarrow> task option) \<Rightarrow> ptr \<Rightarrow> ptr option" where
  "stacks m p = map_option t_stack_bottom (m p)"

lemma stacks_cores: "cores m = cores m' \<Longrightarrow> stacks m = stacks m'"
proof (rule ext)
  fix p assume "cores m = cores m'"
  then have "cores m p = cores m' p" by simp
  then show "stacks m p = stacks m' p"
    by (cases "m p"; cases "m' p") (auto simp: stacks_def cores_def core_def)
qed

lemma stacks_upd [simp]: "stacks (m(p \<mapsto> t)) = (stacks m)(p \<mapsto> t_stack_bottom t)"
  by (auto simp: stacks_def)

lemma pages_ok_stacks:
  assumes "stacks m = stacks m'"
  shows "pages_ok m pm T = pages_ok m' pm T"
proof -
  have s: "stacks m p = stacks m' p" for p using assms by simp
  then have "m p = None \<longleftrightarrow> m' p = None" for p by (metis stacks_def map_option_is_None)
  moreover have "task_pages m p = task_pages m' p" for p
    using s [of p] by (cases "m p"; cases "m' p") (auto simp: task_pages_def stacks_def)
  ultimately show ?thesis by (simp add: pages_ok_def)
qed

lemma queues_task: "queues s rs bs \<Longrightarrow> p \<in> set rs \<union> set bs \<Longrightarrow> \<exists>t. tcb s p = Some t"
  using fieldD(3) by (fastforce simp: queues_def)

lemma queues_nonnull: "queues s rs bs \<Longrightarrow> p \<in> set rs \<union> set bs \<Longrightarrow> p \<noteq> NULL"
  using path_nonnull by (fastforce simp: queues_def ring_def)

text \<open>Wake-ups change the control blocks and the head of the wait queue, nothing else.\<close>

definition queue_frame :: "sched \<Rightarrow> sched \<Rightarrow> bool" where
  "queue_frame s s' \<longleftrightarrow> s' = s\<lparr>tcb := tcb s', blocked_tasks := blocked_tasks s'\<rparr>"

lemma queue_frame_refl [simp]: "queue_frame s s"
  by (simp add: queue_frame_def)

lemma queue_frame_upd [simp]:
  "queue_frame s (s\<lparr>tcb := m\<rparr>)" "queue_frame s (s\<lparr>blocked_tasks := b\<rparr>)"
  by (simp_all add: queue_frame_def)

lemma queue_frame_trans: "queue_frame s s' \<Longrightarrow> queue_frame s' s'' \<Longrightarrow> queue_frame s s''"
  unfolding queue_frame_def by (cases s; cases s'; cases s'') simp

lemma queue_frameD:
  assumes "queue_frame s s'"
  shows "current_task s' = current_task s" "ready_queue s' = ready_queue s" "next_pid s' = next_pid s"
    "retired_task s' = retired_task s" "kmem s' = kmem s" "cpu s' = cpu s" "task_pmm s' = task_pmm s"
    "halted s' = halted s" "active_space s' = active_space s" "kernel_space s' = kernel_space s"
    "tss_esp0 s' = tss_esp0 s"
  using assms unfolding queue_frame_def by (metis sched.select_convs sched.surjective sched.update_convs)+

section \<open>Making a task ready\<close>

lemma add_ready_task_spec:
  assumes q: "queues s rs bs" and p: "p \<notin> set rs" "p \<notin> set bs" "p \<noteq> NULL" "tcb s p = Some t"
  shows "\<exists>s'. add_ready_task p s = Some s' \<and> queues s' (insert_ready p rs) bs \<and>
    cores (tcb s') = cores (tcb s) \<and> chans (tcb s') = (chans (tcb s))(p \<mapsto> NULL) \<and> queue_frame s s'"
proof -
  obtain r rs' where rs: "rs = r # rs'" "ready_queue s = r"
    using q by (cases rs) (auto simp: queues_def ring_def)
  then have r: "r \<noteq> NULL" "r \<noteq> p" using q p(1) by (auto simp: queues_def ring_def)
  obtain tr where tr: "tcb s r = Some tr" using queues_task [OF q, of r] rs by auto
  let ?t = "t\<lparr>t_state := TASK_READY, t_wait_channel := NULL, t_blocked_next := NULL, t_next := t_next tr\<rparr>"
  let ?m = "(tcb s)(p \<mapsto> ?t, r \<mapsto> tr\<lparr>t_next := p\<rparr>)"
  have run: "add_ready_task p s = Some (s\<lparr>tcb := ?m\<rparr>)"
    using p(4) r rs(2) tr by (simp add: add_ready_task_def upd_task_def)
  have "ring ((nexts (tcb s))(p := nexts (tcb s) r, r \<mapsto> p)) (r # p # rs')"
    using q p(1,3) rs by (intro ring_insert) (auto simp: queues_def)
  moreover have "(bnexts (tcb s))(p \<mapsto> NULL, r \<mapsto> t_blocked_next tr) = (bnexts (tcb s))(p \<mapsto> NULL)"
    using field_Some(2) [where m = "tcb s", OF tr] r by (simp add: fun_upd_twist fun_upd_idem)
  moreover have "states (tcb s) r = Some TASK_READY" using q rs by (auto simp: queues_def)
  then have "t_state tr = TASK_READY" using field_Some(3) [where m = "tcb s", OF tr] by simp
  ultimately have "queues (s\<lparr>tcb := ?m\<rparr>) (insert_ready p rs) bs"
    using q p r rs field_Some(1) [where m = "tcb s", OF tr] by (auto simp: queues_def insert_ready_def)
  moreover have "cores ?m = cores (tcb s)" "chans ?m = (chans (tcb s))(p \<mapsto> NULL)"
    using field_Some [where m = "tcb s", OF p(4)] field_Some [where m = "tcb s", OF tr] r
    by (auto simp: fun_upd_idem fun_upd_twist)
  ultimately show ?thesis using run by auto
qed

section \<open>The wait queue\<close>

text \<open>The link a walk stands at: after the tasks it has passed.\<close>

definition link_at :: "ptr list \<Rightarrow> ptr" where
  "link_at as = (if as = [] then NULL else last as)"

definition head_of :: "ptr list \<Rightarrow> ptr" where
  "head_of bs = (case bs of [] \<Rightarrow> NULL | b # _ \<Rightarrow> b)"

lemma link_at_snoc [simp]: "link_at (as @ [b]) = b"
  by (simp add: link_at_def)

lemma head_of_simps [simp]: "head_of [] = NULL" "head_of (b # bs) = b"
  by (simp_all add: head_of_def)

lemma path_head: "path f x bs NULL \<Longrightarrow> x = head_of bs"
  by (cases bs) auto

lemma read_link_queues:
  assumes "queues s rs (as @ bs)"
  shows "read_link (link_at as) s = Some (head_of bs)"
proof (cases as rule: rev_cases)
  case Nil
  then show ?thesis using assms by (auto simp: read_link_def link_at_def queues_def intro: path_head)
next
  case (snoc cs c)
  then have "bnexts (tcb s) c = Some (head_of bs)" "c \<noteq> NULL"
    using assms path_head by (auto simp: path_append queues_def)
  then show ?thesis using snoc by (auto simp: read_link_def bnexts_def)
qed

lemma write_link_spec:
  assumes q: "queues s rs (as @ p # bs)" and t: "tcb s p = Some t"
  shows "\<exists>s'. write_link (link_at as) (t_blocked_next t) s = Some s' \<and> queues s' rs (as @ bs) \<and>
    tcb s' p = Some t \<and> cores (tcb s') = cores (tcb s) \<and> chans (tcb s') = chans (tcb s) \<and> queue_frame s s'"
proof (cases as rule: rev_cases)
  case Nil
  then have "path (bnexts (tcb s)) (t_blocked_next t) bs NULL"
    using q t by (auto simp: queues_def bnexts_def)
  then show ?thesis using q t Nil by (auto simp: write_link_def link_at_def queues_def)
next
  case (snoc cs c)
  then obtain tc where tc: "tcb s c = Some tc" using queues_task [OF q, of c] by auto
  let ?m = "(tcb s)(c \<mapsto> tc\<lparr>t_blocked_next := t_blocked_next t\<rparr>)"
  have "c \<noteq> NULL" using queues_nonnull [OF q, of c] snoc by simp
  then have c: "c \<noteq> NULL" "c \<noteq> p" "c \<notin> set bs" "c \<notin> set cs" "c \<notin> set rs"
    using q snoc by (auto simp: queues_def)
  have "path (bnexts (tcb s)) (blocked_tasks s) cs c" "path (bnexts (tcb s)) (t_blocked_next t) bs NULL"
    using q snoc t by (auto simp: queues_def path_append bnexts_def)
  then have "path ((bnexts (tcb s))(c \<mapsto> t_blocked_next t)) (blocked_tasks s) (as @ bs) NULL"
    using c snoc by (auto simp: path_append)
  then have "queues (s\<lparr>tcb := ?m\<rparr>) rs (as @ bs)"
    using q tc by (auto simp: queues_def)
  moreover have "write_link (link_at as) (t_blocked_next t) s = Some (s\<lparr>tcb := ?m\<rparr>)"
    using snoc c tc by (simp add: write_link_def upd_task_def)
  ultimately show ?thesis
    using c tc t field_Some [where m = "tcb s", OF tc] by auto
qed

text \<open>Unlink a waiting task and make it ready: the body of every wake-up loop.\<close>

definition wake_at :: "ptr \<Rightarrow> ptr \<Rightarrow> task \<Rightarrow> sched \<Rightarrow> sched option" where
  "wake_at l p t s = (case write_link l (t_blocked_next t) s of None \<Rightarrow> None | Some s1 \<Rightarrow> add_ready_task p s1)"

lemma wake_at_spec:
  assumes q: "queues s rs (as @ p # bs)" and t: "tcb s p = Some t"
  shows "\<exists>s'. wake_at (link_at as) p t s = Some s' \<and> queues s' (insert_ready p rs) (as @ bs) \<and>
    cores (tcb s') = cores (tcb s) \<and> chans (tcb s') = (chans (tcb s))(p \<mapsto> NULL) \<and> queue_frame s s'"
proof -
  from write_link_spec [OF q t] obtain s1 where w: "write_link (link_at as) (t_blocked_next t) s = Some s1"
    and q1: "queues s1 rs (as @ bs)" and m: "tcb s1 p = Some t"
    "cores (tcb s1) = cores (tcb s)" "chans (tcb s1) = chans (tcb s)" "queue_frame s s1" by blast
  have p: "p \<notin> set rs" "p \<notin> set (as @ bs)" "p \<noteq> NULL"
    using q queues_nonnull [OF q, of p] by (auto simp: queues_def)
  from add_ready_task_spec [OF q1 p m(1)] m(2-4) w show ?thesis
    by (auto simp: wake_at_def intro: queue_frame_trans)
qed

lemma queued_task:
  assumes "queues s rs (as @ p # bs)"
  obtains t where "tcb s p = Some t" "p \<noteq> NULL" "chans (tcb s) p = Some (t_wait_channel t)"
  using queues_task [OF assms, of p] queues_nonnull [OF assms, of p] that by (auto simp: chans_def)

lemma wake_one_loop_spec:
  assumes "queues s rs (as @ bs)"
  shows "(\<forall>p \<in> set bs. chans (tcb s) p \<noteq> Some ch) \<and> wake_one_loop ch (link_at as) s = Some s \<or>
    (\<exists>cs p ds s'. bs = cs @ p # ds \<and> (\<forall>q \<in> set cs. chans (tcb s) q \<noteq> Some ch) \<and> chans (tcb s) p = Some ch \<and>
       wake_one_loop ch (link_at as) s = Some s' \<and> queues s' (insert_ready p rs) (as @ cs @ ds) \<and>
       cores (tcb s') = cores (tcb s) \<and> chans (tcb s') = (chans (tcb s))(p \<mapsto> NULL) \<and> queue_frame s s')"
  using assms
proof (induction bs arbitrary: as)
  case Nil
  then show ?case using read_link_queues [of s rs as "[]"] by (subst wake_one_loop.simps) simp
next
  case (Cons p bs)
  obtain t where t: "tcb s p = Some t" "p \<noteq> NULL" "chans (tcb s) p = Some (t_wait_channel t)"
    using queued_task [OF Cons.prems] .
  note step = wake_one_loop.simps [of ch "link_at as" s, unfolded read_link_queues [OF Cons.prems]]
  show ?case
  proof (cases "t_wait_channel t = ch")
    case True
    from wake_at_spec [OF Cons.prems t(1)] True t step show ?thesis
      by (intro disjI2 exI [of _ "[]"]) (auto simp: wake_at_def fun_upd_def)
  next
    case False
    have "queues s rs ((as @ [p]) @ bs)" using Cons.prems by simp
    note IH = Cons.IH [OF this]
    have "wake_one_loop ch (link_at as) s = wake_one_loop ch (link_at (as @ [p])) s"
      using False t step by simp
    with IH False t(3) show ?thesis
      by (elim disjE exE conjE) (simp, fastforce intro!: exI [of _ "p # _"])
  qed
qed

text \<open>What waking a list of tasks one after the other does to the ring.\<close>

definition insert_all_ready :: "ptr list \<Rightarrow> ptr list \<Rightarrow> ptr list" where
  "insert_all_ready ps rs = fold insert_ready ps rs"

lemma insert_all_ready_eq: "rs \<noteq> [] \<Longrightarrow> insert_all_ready ps rs = hd rs # rev ps @ tl rs"
  by (induction ps arbitrary: rs) (simp_all add: insert_all_ready_def insert_ready_def)

definition cleared :: "ptr list \<Rightarrow> (ptr \<Rightarrow> ptr option) \<Rightarrow> ptr \<Rightarrow> ptr option" where
  "cleared ps f p = (if p \<in> set ps then Some NULL else f p)"

definition waiting_on :: "ptr \<Rightarrow> (ptr \<Rightarrow> task option) \<Rightarrow> ptr list \<Rightarrow> ptr list" where
  "waiting_on ch m bs = filter (\<lambda>p. chans m p = Some ch) bs"

lemma wake_all_loop_spec:
  assumes "queues s rs (as @ bs)"
  shows "\<exists>s'. wake_all_loop ch (link_at as) s = Some s' \<and>
    queues s' (insert_all_ready (waiting_on ch (tcb s) bs) rs) (as @ filter (\<lambda>p. chans (tcb s) p \<noteq> Some ch) bs) \<and>
    cores (tcb s') = cores (tcb s) \<and> chans (tcb s') = cleared (waiting_on ch (tcb s) bs) (chans (tcb s)) \<and> queue_frame s s'"
  using assms unfolding waiting_on_def
proof (induction bs arbitrary: as rs s)
  case Nil
  then show ?case using read_link_queues [of s rs as "[]"]
    by (subst wake_all_loop.simps) (simp add: insert_all_ready_def cleared_def fun_eq_iff)
next
  case (Cons p bs)
  obtain t where t: "tcb s p = Some t" "p \<noteq> NULL" "chans (tcb s) p = Some (t_wait_channel t)"
    using queued_task [OF Cons.prems] .
  note step = wake_all_loop.simps [of ch "link_at as" s, unfolded read_link_queues [OF Cons.prems]]
  show ?case
  proof (cases "t_wait_channel t = ch")
    case True
    from wake_at_spec [OF Cons.prems t(1)] obtain s1 where s1: "wake_at (link_at as) p t s = Some s1"
      "queues s1 (insert_ready p rs) (as @ bs)" "cores (tcb s1) = cores (tcb s)"
      "chans (tcb s1) = (chans (tcb s))(p \<mapsto> NULL)" "queue_frame s s1" by blast
    have p: "p \<notin> set bs" using Cons.prems by (simp add: queues_def)
    then have same: "filter (\<lambda>q. chans (tcb s1) q = Some ch) bs = filter (\<lambda>q. chans (tcb s) q = Some ch) bs"
      "filter (\<lambda>q. chans (tcb s1) q \<noteq> Some ch) bs = filter (\<lambda>q. chans (tcb s) q \<noteq> Some ch) bs"
      by (auto simp: s1(4) intro!: filter_cong)
    have "wake_all_loop ch (link_at as) s = wake_all_loop ch (link_at as) s1"
      using s1(1) True t step by (cases "write_link (link_at as) (t_blocked_next t) s") (auto simp: wake_at_def)
    with Cons.IH [OF s1(2)] s1(3-5) True t(3) same show ?thesis
      by (auto simp: insert_all_ready_def cleared_def fun_eq_iff intro: queue_frame_trans)
  next
    case False
    have "queues s rs ((as @ [p]) @ bs)" using Cons.prems by simp
    from Cons.IH [OF this] False t step show ?thesis by simp
  qed
qed

lemma wake_task_loop_spec:
  assumes "queues s rs (as @ bs)" "p \<in> set bs"
  shows "\<exists>s'. wake_task_loop p (link_at as) s = Some s' \<and> queues s' (insert_ready p rs) (as @ remove1 p bs) \<and>
    cores (tcb s') = cores (tcb s) \<and> chans (tcb s') = (chans (tcb s))(p \<mapsto> NULL) \<and> queue_frame s s'"
  using assms
proof (induction bs arbitrary: as)
  case (Cons q bs)
  obtain t where t: "tcb s q = Some t" "q \<noteq> NULL" using queued_task [OF Cons.prems(1)] .
  note step = wake_task_loop.simps [of p "link_at as" s, unfolded read_link_queues [OF Cons.prems(1)]]
  show ?case
  proof (cases "q = p")
    case True
    with wake_at_spec [OF Cons.prems(1) t(1)] t step show ?thesis by (simp add: wake_at_def fun_upd_def)
  next
    case False
    have "queues s rs ((as @ [q]) @ bs)" using Cons.prems by simp
    from Cons.IH [OF this] False Cons.prems(2) t step show ?thesis by simp
  qed
qed simp

lemma wake_task_loop_none:
  assumes "queues s rs (as @ bs)" "p \<notin> set bs"
  shows "wake_task_loop p (link_at as) s = Some s"
  using assms
proof (induction bs arbitrary: as)
  case Nil
  then show ?case using read_link_queues [of s rs as "[]"] by (subst wake_task_loop.simps) simp
next
  case (Cons q bs)
  obtain t where t: "tcb s q = Some t" "q \<noteq> NULL" using queued_task [OF Cons.prems(1)] .
  note step = wake_task_loop.simps [of p "link_at as" s, unfolded read_link_queues [OF Cons.prems(1)]]
  have "queues s rs ((as @ [q]) @ bs)" using Cons.prems by simp
  from Cons.IH [OF this] Cons.prems(2) t step show ?case by auto
qed

section \<open>Killing\<close>

definition procs :: "(ptr \<Rightarrow> task option) \<Rightarrow> ptr \<Rightarrow> ptr option" where
  "procs m p = map_option t_process (m p)"

definition kills :: "(ptr \<Rightarrow> task option) \<Rightarrow> ptr \<Rightarrow> bool option" where
  "kills m p = map_option t_kill_pending (m p)"

lemma cores_fields:
  assumes "cores m = cores m'"
  shows "procs m = procs m'" "kills m = kills m'"
proof -
  have "procs m p = procs m' p \<and> kills m p = kills m' p" for p
    using fun_cong [OF assms, of p]
    by (cases "m p"; cases "m' p") (auto simp: cores_def core_def procs_def kills_def)
  then show "procs m = procs m'" "kills m = kills m'" by auto
qed

text \<open>Setting a kill flag leaves the queues alone.\<close>

lemma kill_flag_spec:
  fixes k :: bool
  assumes q: "queues s rs bs" and t: "tcb s p = Some t"
  defines "s1 \<equiv> s\<lparr>tcb := (tcb s)(p \<mapsto> t\<lparr>t_kill_pending := k\<rparr>)\<rparr>"
  shows "queues s1 rs bs" "chans (tcb s1) = chans (tcb s)" "stacks (tcb s1) = stacks (tcb s)"
    "procs (tcb s1) = procs (tcb s)" "kills (tcb s1) = (kills (tcb s))(p \<mapsto> k)" "queue_frame s s1"
proof -
  note f = field_Some [where m = "tcb s", OF t]
  show "queues s1 rs bs" using q f unfolding s1_def queues_def by (simp add: fun_upd_idem)
  show "chans (tcb s1) = chans (tcb s)" unfolding s1_def using f by (simp add: fun_upd_idem)
  show "queue_frame s s1" by (simp add: s1_def)
qed (auto simp: s1_def stacks_def procs_def kills_def t)

definition flagged :: "ptr set \<Rightarrow> (ptr \<Rightarrow> bool option) \<Rightarrow> ptr \<Rightarrow> bool option" where
  "flagged V f p = (if p \<in> V then Some True else f p)"

definition of_process :: "ptr \<Rightarrow> (ptr \<Rightarrow> task option) \<Rightarrow> ptr list \<Rightarrow> ptr list" where
  "of_process process m ps = filter (\<lambda>p. procs m p = Some process) ps"

lemma mark_kill_spec:
  assumes q: "queues s rs bs" and t: "tcb s p = Some t"
  shows "\<exists>s1 t1. mark_kill process p s = Some s1 \<and> tcb s1 p = Some t1 \<and> t_next t1 = t_next t \<and>
    queues s1 rs bs \<and> chans (tcb s1) = chans (tcb s) \<and> stacks (tcb s1) = stacks (tcb s) \<and>
    procs (tcb s1) = procs (tcb s) \<and>
    kills (tcb s1) = flagged (set (of_process process (tcb s) [p])) (kills (tcb s)) \<and> queue_frame s s1"
proof (cases "t_process t = process")
  case True
  then show ?thesis
    using kill_flag_spec [OF q t, of True] t
    by (auto simp: mark_kill_def upd_task_def of_process_def procs_def flagged_def fun_eq_iff)
next
  case False
  then have "mark_kill process p s = Some s"
    using t by (simp add: mark_kill_def upd_task_def fun_upd_idem)
  then show ?thesis
    using False q t by (auto simp: of_process_def procs_def flagged_def fun_eq_iff)
qed

lemma mark_ring_loop_spec:
  assumes "queues s (as @ p # cs) bs"
  shows "\<exists>s'. mark_ring_loop process (hd (as @ p # cs)) p s = Some s' \<and> queues s' (as @ p # cs) bs \<and>
    chans (tcb s') = chans (tcb s) \<and> stacks (tcb s') = stacks (tcb s) \<and> procs (tcb s') = procs (tcb s) \<and>
    kills (tcb s') = flagged (set (of_process process (tcb s) (p # cs))) (kills (tcb s)) \<and> queue_frame s s'"
  using assms
proof (induction cs arbitrary: as p s)
  case Nil
  obtain t where t: "tcb s p = Some t" using queues_task [OF Nil, of p] by auto
  have "nexts (tcb s) p = Some (hd (as @ [p]))" using ring_last [of "nexts (tcb s)" as p] Nil
    by (simp add: queues_def)
  then have "t_next t = hd (as @ [p])" using t by (simp add: nexts_def)
  with mark_kill_spec [OF Nil t, of process] show ?case
    by (subst mark_ring_loop.simps) auto
next
  case (Cons c cs)
  obtain t where t: "tcb s p = Some t" using queues_task [OF Cons.prems, of p] by auto
  have "ring (nexts (tcb s)) (p # c # cs @ as)"
    using Cons.prems ring_append_commute [of _ as "p # c # cs"] by (simp add: queues_def)
  then have "t_next t = c" using t ring_next by (fastforce simp: nexts_def)
  moreover have "c \<noteq> NULL" using queues_nonnull [OF Cons.prems, of c] by simp
  moreover have "c \<noteq> hd (as @ p # c # cs)" using Cons.prems by (cases as) (auto simp: queues_def)
  moreover obtain s1 t1 where s1: "mark_kill process p s = Some s1" "tcb s1 p = Some t1" "t_next t1 = t_next t"
    "queues s1 (as @ p # c # cs) bs" "chans (tcb s1) = chans (tcb s)" "stacks (tcb s1) = stacks (tcb s)"
    "procs (tcb s1) = procs (tcb s)" "queue_frame s s1"
    "kills (tcb s1) = flagged (set (of_process process (tcb s) [p])) (kills (tcb s))"
    using mark_kill_spec [OF Cons.prems t, of process] by blast
  moreover have hd: "hd ((as @ [p]) @ c # cs) = hd (as @ p # c # cs)" by simp
  ultimately have step: "mark_ring_loop process (hd (as @ p # c # cs)) p s =
      mark_ring_loop process (hd ((as @ [p]) @ c # cs)) c s1"
    by (subst mark_ring_loop.simps) simp
  have "queues s1 ((as @ [p]) @ c # cs) bs" using s1(4) by simp
  from Cons.IH [OF this] step s1(5-9) show ?case
    by (auto simp: of_process_def flagged_def fun_eq_iff intro: queue_frame_trans)
qed

lemma kill_loop_spec:
  assumes "queues s rs (as @ bs)"
  shows "\<exists>s'. kill_loop process (link_at as) woken s =
      Some (woken + of_nat (length (of_process process (tcb s) bs)), s') \<and>
    queues s' (insert_all_ready (of_process process (tcb s) bs) rs)
      (as @ filter (\<lambda>p. procs (tcb s) p \<noteq> Some process) bs) \<and>
    chans (tcb s') = cleared (of_process process (tcb s) bs) (chans (tcb s)) \<and>
    stacks (tcb s') = stacks (tcb s) \<and> procs (tcb s') = procs (tcb s) \<and>
    kills (tcb s') = flagged (set (of_process process (tcb s) bs)) (kills (tcb s)) \<and> queue_frame s s'"
  using assms
proof (induction bs arbitrary: as rs s woken)
  case Nil
  then show ?case using read_link_queues [of s rs as "[]"]
    by (subst kill_loop.simps) (simp add: insert_all_ready_def cleared_def flagged_def of_process_def fun_eq_iff)
next
  case (Cons p bs)
  obtain t where t: "tcb s p = Some t" "p \<noteq> NULL" using queued_task [OF Cons.prems] .
  then have pr: "procs (tcb s) p = Some (t_process t)" by (simp add: procs_def)
  note step = kill_loop.simps [of process "link_at as" woken s, unfolded read_link_queues [OF Cons.prems]]
  show ?case
  proof (cases "t_process t = process")
    case True
    let ?s1 = "s\<lparr>tcb := (tcb s)(p \<mapsto> t\<lparr>t_kill_pending := True\<rparr>)\<rparr>"
    note f = kill_flag_spec [OF Cons.prems t(1), of True]
    have "tcb ?s1 p = Some (t\<lparr>t_kill_pending := True\<rparr>)" by simp
    from wake_at_spec [OF f(1) this] obtain s2 where s2:
      "wake_at (link_at as) p (t\<lparr>t_kill_pending := True\<rparr>) ?s1 = Some s2"
      "queues s2 (insert_ready p rs) (as @ bs)" "cores (tcb s2) = cores (tcb ?s1)"
      "chans (tcb s2) = (chans (tcb ?s1))(p \<mapsto> NULL)" "queue_frame ?s1 s2" by blast
    have "kill_loop process (link_at as) woken s = kill_loop process (link_at as) (woken + 1) s2"
      using s2(1) True t step
      by (cases "write_link (link_at as) (t_blocked_next t) ?s1") (auto simp: wake_at_def upd_task_def)
    moreover have fields: "stacks (tcb s2) = stacks (tcb s)" "procs (tcb s2) = procs (tcb s)"
      "kills (tcb s2) = (kills (tcb s))(p \<mapsto> True)" "chans (tcb s2) = (chans (tcb s))(p \<mapsto> NULL)"
      using stacks_cores [OF s2(3)] cores_fields [OF s2(3)] s2(4) f by simp_all
    moreover have "queue_frame s s2" using f(6) s2(5) queue_frame_trans by blast
    moreover note Cons.IH [OF s2(2), of "woken + 1"]
    ultimately show ?thesis
      using True pr
      by (auto simp: insert_all_ready_def cleared_def flagged_def of_process_def fun_eq_iff
          intro: queue_frame_trans)
  next
    case False
    have "queues s rs ((as @ [p]) @ bs)" using Cons.prems by simp
    from Cons.IH [OF this] False t pr step show ?thesis by (simp add: of_process_def)
  qed
qed

section \<open>The run ring\<close>

lemma ring_succ_eq: "distinct (xs @ c # ys) \<Longrightarrow> ring_succ (xs @ c # ys) c = hd (ys @ xs @ [c])"
proof -
  assume "distinct (xs @ c # ys)"
  then have "\<forall>q \<in> set xs. q \<noteq> c" by auto
  then have "dropWhile (\<lambda>q. q \<noteq> c) (xs @ c # ys) = c # ys" by (induction xs) auto
  then show ?thesis by (cases ys; cases xs) (auto simp: ring_succ_def)
qed

lemma ring_succ_next:
  assumes "ring f (xs @ c # ys)"
  shows "f c = Some (ring_succ (xs @ c # ys) c)"
proof -
  have "ring f (c # ys @ xs)" using ring_append_commute [OF assms] by simp
  moreover have "distinct (xs @ c # ys)" using assms by (simp add: ring_def)
  then have "ring_succ (xs @ c # ys) c = hd ((ys @ xs) @ [c])" using ring_succ_eq by simp
  ultimately show ?thesis
    by (cases "ys @ xs") (auto simp: ring_single dest: ring_next)
qed

lemma ring_succ_mem: "c \<in> set rs \<Longrightarrow> ring_succ rs c \<in> set rs"
proof -
  assume "c \<in> set rs"
  then have "rs \<noteq> []" by auto
  moreover have "set (dropWhile (\<lambda>q. q \<noteq> c) rs) \<subseteq> set rs" by (meson set_dropWhileD subsetI)
  ultimately show ?thesis by (auto simp: ring_succ_def split: list.splits)
qed

lemma ready_previous_loop_spec:
  assumes ring: "ring (nexts (tcb s)) (p # as)" and split: "p # as = xs @ q # ys"
  shows "ready_previous_loop p q s = Some (last (q # ys))"
  using split
proof (induction ys arbitrary: xs q)
  case Nil
  then have "nexts (tcb s) q = Some p" using ring ring_last [of "nexts (tcb s)" xs q] by (metis list.sel(1))
  then obtain t where "tcb s q = Some t" "t_next t = p" using fieldD(1) by blast
  then show ?case by (subst ready_previous_loop.simps) simp
next
  case (Cons y ys)
  have "ring (nexts (tcb s)) (q # y # ys @ xs)"
    using ring Cons.prems ring_append_commute [of _ xs "q # y # ys"] by simp
  then obtain t where t: "tcb s q = Some t" "t_next t = y" using ring_next fieldD(1) by blast
  have "y \<noteq> p"
    using ring Cons.prems by (cases xs) (auto simp: ring_def)
  with t have "ready_previous_loop p q s = ready_previous_loop p y s"
    by (subst ready_previous_loop.simps) simp
  with Cons.IH [of "xs @ [q]" y] Cons.prems show ?case by simp
qed

lemma queues_current:
  assumes q: "queues s rs bs" and c: "c \<in> set rs"
  obtains xs ys t where "rs = xs @ c # ys" "tcb s c = Some t" "t_next t = ring_succ rs c"
    "t_state t = TASK_READY" "c \<noteq> NULL" "ready_previous_loop c c s = Some (last (c # ys @ xs))"
proof -
  from split_list [OF c] obtain xs ys where rs: "rs = xs @ c # ys" by blast
  have ring: "ring (nexts (tcb s)) (xs @ c # ys)" using q rs by (simp add: queues_def)
  obtain t where t: "tcb s c = Some t" using queues_task [OF q, of c] c by auto
  have "nexts (tcb s) c = Some (ring_succ rs c)" using ring_succ_next [OF ring] rs by simp
  moreover have "states (tcb s) c = Some TASK_READY" using q c by (simp add: queues_def)
  moreover have "ready_previous_loop c c s = Some (last (c # ys @ xs))"
    using ring_append_commute [OF ring] by (intro ready_previous_loop_spec [where xs = "[]"]) simp_all
  ultimately show thesis
    using that rs t queues_nonnull [OF q, of c] c field_Some(1,3) [where m = "tcb s", OF t] by auto
qed

text \<open>A task that is alone in the ring is its own successor.\<close>

lemma ring_succ_self:
  assumes "distinct rs" "c \<in> set rs"
  shows "ring_succ rs c = c \<longleftrightarrow> rs = [c]"
proof -
  from split_list [OF assms(2)] obtain xs ys where rs: "rs = xs @ c # ys" by blast
  with assms(1) have eq: "ring_succ rs c = hd ((ys @ xs) @ [c])" using ring_succ_eq by simp
  show ?thesis
  proof (cases "ys @ xs")
    case Nil
    then show ?thesis using eq rs by simp
  next
    case (Cons z zs)
    then have "z \<in> set (ys @ xs)" by simp
    then have "z \<noteq> c" using assms(1) rs by auto
    moreover have "ring_succ rs c = z" using eq Cons by simp
    moreover have "rs \<noteq> [c]" using Cons rs by (cases xs) auto
    ultimately show ?thesis by simp
  qed
qed

text \<open>Unlinking a task from the ring.\<close>

lemma ring_unlink:
  assumes ring: "ring f (xs @ c # ys)" and ne: "ys @ xs \<noteq> []"
  shows "ring (f(last (c # ys @ xs) := f c)) (xs @ ys)"
proof -
  obtain zs z where zs: "ys @ xs = zs @ [z]" using ne by (metis rev_exhaust)
  have "ring f (c # zs @ [z])" using ring_append_commute [OF ring] zs by simp
  from ring_remove [OF this] have "ring (f(z := f c)) (ys @ xs)" using zs by simp
  moreover have "last (c # ys @ xs) = z" using zs by simp
  ultimately show ?thesis using ring_append_commute by metis
qed

section \<open>Switching\<close>

text \<open>A switch changes the saved stack pointer of one task, no link and no flag.\<close>

definition links_eq :: "(ptr \<Rightarrow> task option) \<Rightarrow> (ptr \<Rightarrow> task option) \<Rightarrow> bool" where
  "links_eq m m' \<longleftrightarrow> nexts m' = nexts m \<and> bnexts m' = bnexts m \<and> states m' = states m \<and>
     chans m' = chans m \<and> stacks m' = stacks m \<and> procs m' = procs m \<and> kills m' = kills m"

lemma links_eq_esp:
  assumes "m p = Some t"
  shows "links_eq m (m(p \<mapsto> t\<lparr>t_esp := e\<rparr>))"
  using field_Some [where m = m, OF assms] assms
  by (auto simp: links_eq_def fun_upd_idem stacks_def procs_def kills_def)

lemma queues_links_eq:
  "links_eq (tcb s) (tcb s') \<Longrightarrow> ready_queue s' = ready_queue s \<Longrightarrow> blocked_tasks s' = blocked_tasks s \<Longrightarrow>
    queues s' rs bs = queues s rs bs"
  by (simp add: queues_def links_eq_def)

lemma switch_task_spec:
  assumes "tcb s p = Some t"
  shows "\<exists>s' e. switch_task p new_esp s = Some s' \<and> tcb s' = (tcb s)(p \<mapsto> t\<lparr>t_esp := e\<rparr>) \<and>
    current_task s' = current_task s \<and> ready_queue s' = ready_queue s \<and> next_pid s' = next_pid s \<and>
    retired_task s' = retired_task s \<and> blocked_tasks s' = blocked_tasks s \<and> task_pmm s' = task_pmm s \<and>
    halted s' = halted s \<and> tss_esp0 s' = tss_esp0 s \<and> active_space s' = active_space s"
  using assms by (auto simp: switch_task_def push_def pop_esp_def pop_val_def upd_task_def Let_def)

lemma switch_to_spec:
  assumes "tcb s p = Some t" "tcb s n = Some tn"
  shows "\<exists>s'. switch_to p n s = Some s' \<and> links_eq (tcb s) (tcb s') \<and>
    current_task s' = n \<and> ready_queue s' = ready_queue s \<and> next_pid s' = next_pid s \<and>
    retired_task s' = retired_task s \<and> blocked_tasks s' = blocked_tasks s \<and> task_pmm s' = task_pmm s \<and>
    halted s' = halted s \<and> tss_esp0 s' = t_kernel_stack_top tn"
proof -
  let ?s = "task_activate_space (t_address_space tn)
    (set_kernel_stack (t_kernel_stack_top tn) (s\<lparr>current_task := n\<rparr>))"
  have "activate_task n s = Some ?s" using assms by (simp add: activate_task_def)
  moreover have "tcb ?s = tcb s" by (simp add: task_activate_space_def set_kernel_stack_def)
  ultimately show ?thesis
    using switch_task_spec [of ?s p t "t_esp tn"] assms links_eq_esp [of "tcb s" p t]
    by (auto simp: switch_to_def task_activate_space_def set_kernel_stack_def)
qed

lemma sched_inv_links_eq:
  assumes inv: "sched_inv s rs bs" and eq: "links_eq (tcb s) (tcb s')"
    and f: "ready_queue s' = ready_queue s" "blocked_tasks s' = blocked_tasks s" "task_pmm s' = task_pmm s"
      "retired_task s' = retired_task s" "current_task s' \<in> set rs"
  shows "sched_inv s' rs bs"
proof -
  have "pages_ok (tcb s') (task_pmm s') T = pages_ok (tcb s) (task_pmm s) T" for T
    using eq f by (metis links_eq_def pages_ok_stacks)
  moreover have "retired_set s' = retired_set s" using f by (simp add: retired_set_def)
  ultimately show ?thesis
    using inv f queues_links_eq [OF eq f(1,2)] by (simp add: sched_inv_def)
qed

section \<open>Blocking\<close>

lemma last_blocked_spec:
  assumes "path (bnexts (tcb s)) x bs NULL" "bs \<noteq> []"
  shows "last_blocked x s = Some (last bs)"
  using assms
proof (induction bs arbitrary: x)
  case (Cons b bs)
  then obtain q where q: "x = b" "bnexts (tcb s) b = Some q" "path (bnexts (tcb s)) q bs NULL" by auto
  then obtain t where "tcb s b = Some t" "t_blocked_next t = q" using fieldD(2) by blast
  with q Cons show ?case by (cases bs) (subst last_blocked.simps, auto)+
qed simp

lemma append_blocked_spec:
  assumes path: "path (bnexts (tcb s)) (blocked_tasks s) bs NULL" and p: "p \<notin> set bs" "p \<noteq> NULL"
    "bnexts (tcb s) p = Some NULL" "distinct bs"
  shows "\<exists>s'. append_blocked p s = Some s' \<and> path (bnexts (tcb s')) (blocked_tasks s') (bs @ [p]) NULL \<and>
    nexts (tcb s') = nexts (tcb s) \<and> states (tcb s') = states (tcb s) \<and> chans (tcb s') = chans (tcb s) \<and>
    cores (tcb s') = cores (tcb s) \<and> queue_frame s s'"
proof (cases bs rule: rev_cases)
  case Nil
  then show ?thesis using path p by (auto simp: append_blocked_def)
next
  case (snoc cs c)
  then obtain t where t: "tcb s c = Some t" "c \<noteq> NULL" "path (bnexts (tcb s)) (blocked_tasks s) cs c"
    using path by (auto simp: path_append bnexts_def)
  have "blocked_tasks s \<noteq> NULL" using path snoc by auto
  then have "append_blocked p s = Some (s\<lparr>tcb := (tcb s)(c \<mapsto> t\<lparr>t_blocked_next := p\<rparr>)\<rparr>)"
    using last_blocked_spec [OF path] snoc t by (simp add: append_blocked_def upd_task_def)
  moreover have "c \<notin> set cs" "c \<noteq> p" using p snoc by auto
  ultimately show ?thesis
    using t p snoc field_Some [where m = "tcb s", OF t(1)] by (auto simp: path_append fun_upd_idem)
qed

text \<open>The first half of \<open>task_block_current\<close>: the current task leaves the ring.\<close>

lemma unlink_current_spec:
  assumes q: "queues s rs bs" and c: "c \<in> set rs" and t: "tcb s c = Some t" and ne: "rs \<noteq> [c]"
    and rs: "rs = xs @ c # ys" and t': "t_next t' = NULL"
  defines "n \<equiv> ring_succ rs c" and "prev \<equiv> last (c # ys @ xs)"
  shows "\<exists>tp. tcb s prev = Some tp \<and> prev \<noteq> c \<and> prev \<noteq> NULL \<and>
    ring (nexts ((tcb s)(prev \<mapsto> tp\<lparr>t_next := n\<rparr>, c \<mapsto> t'))) (remove1 c rs) \<and>
    hd (remove1 c rs) = (if ready_queue s = c then n else ready_queue s) \<and> n \<noteq> c"
proof -
  have ring: "ring (nexts (tcb s)) (xs @ c # ys)" using q rs by (simp add: queues_def)
  then have dist: "distinct (xs @ c # ys)" by (simp only: ring_def)
  have ne': "ys @ xs \<noteq> []" using ne rs by auto
  then have prev: "prev \<in> set (ys @ xs)" unfolding prev_def by (metis last.simps last_in_set)
  then have pc: "prev \<noteq> c" using dist by auto
  obtain tp where tp: "tcb s prev = Some tp" using queues_task [OF q, of prev] prev rs by auto
  have rem: "remove1 c rs = xs @ ys" using dist rs by (simp add: remove1_append)
  have n: "nexts (tcb s) c = Some n" unfolding n_def rs by (rule ring_succ_next [OF ring])
  have "ring ((nexts (tcb s))(prev := Some n)) (xs @ ys)"
    using ring_unlink [OF ring ne'] n unfolding prev_def by simp
  then have "ring ((nexts (tcb s))(prev \<mapsto> n, c \<mapsto> NULL)) (xs @ ys)"
    using dist by (simp add: ring_def)
  then have "ring (nexts ((tcb s)(prev \<mapsto> tp\<lparr>t_next := n\<rparr>, c \<mapsto> t'))) (remove1 c rs)"
    using t' rem by simp
  moreover have "hd (xs @ ys) = (if ready_queue s = c then n else ready_queue s)"
    using q dist ne' ring_succ_eq [OF dist] unfolding n_def rs queues_def
    by (cases xs; cases ys) auto
  moreover have "n \<noteq> c" using ring_succ_self [of rs c] dist rs c ne unfolding n_def by auto
  moreover have "prev \<noteq> NULL" using queues_nonnull [OF q, of prev] prev rs by auto
  ultimately show ?thesis using tp pc rem by auto
qed

lemma task_block_current_spec:
  assumes q: "queues s rs bs" and c: "current_task s \<in> set rs" and ne: "rs \<noteq> [current_task s]"
  shows "\<exists>s'. task_block_current ch s = Some s' \<and>
    queues s' (remove1 (current_task s) rs) (bs @ [current_task s]) \<and>
    current_task s' = ring_succ rs (current_task s) \<and> chans (tcb s') = (chans (tcb s))(current_task s \<mapsto> ch) \<and>
    stacks (tcb s') = stacks (tcb s) \<and> procs (tcb s') = procs (tcb s) \<and> kills (tcb s') = kills (tcb s) \<and>
    retired_task s' = retired_task s \<and> task_pmm s' = task_pmm s \<and> next_pid s' = next_pid s"
proof -
  define p where "p = current_task s"
  obtain xs ys t where rs: "rs = xs @ p # ys" and t: "tcb s p = Some t" "t_next t = ring_succ rs p"
    "t_state t = TASK_READY" "p \<noteq> NULL" and prev0: "ready_previous_loop p p s = Some (last (p # ys @ xs))"
    using queues_current [OF q c] unfolding p_def .
  define prev where prev_def: "prev = last (p # ys @ xs)"
  note prev = prev0 [folded prev_def]
  let ?n = "ring_succ rs p"
  let ?t = "t\<lparr>t_next := NULL, t_blocked_next := NULL, t_wait_channel := ch, t_state := TASK_BLOCKED\<rparr>"
  obtain tp where u: "tcb s prev = Some tp" "prev \<noteq> p" "prev \<noteq> NULL"
    "ring (nexts ((tcb s)(prev \<mapsto> tp\<lparr>t_next := ?n\<rparr>, p \<mapsto> ?t))) (remove1 p rs)"
    "hd (remove1 p rs) = (if ready_queue s = p then ?n else ready_queue s)" "?n \<noteq> p"
    using unlink_current_spec [OF q _ t(1) _ rs, of ?t, folded prev_def] c ne unfolding p_def by auto
  let ?s3 = "s\<lparr>ready_queue := (if ready_queue s = p then ?n else ready_queue s),
    tcb := (tcb s)(prev \<mapsto> tp\<lparr>t_next := ?n\<rparr>, p \<mapsto> ?t)\<rparr>"
  have "prev \<in> set (p # ys @ xs)" unfolding prev_def by (rule last_in_set) simp
  then have prs: "prev \<in> set rs" using rs by auto
  have dist: "distinct (rs @ bs)" "p \<in> set rs" using q c by (auto simp: queues_def p_def)
  note ft = field_Some [where m = "tcb s", OF t(1)] and fp = field_Some [where m = "tcb s", OF u(1)]
  have b3: "bnexts (tcb ?s3) = (bnexts (tcb s))(p \<mapsto> NULL)"
    using fp u(2) by (simp add: fun_upd_idem)
  then have "path (bnexts (tcb ?s3)) (blocked_tasks ?s3) bs NULL"
    using q dist unfolding b3 by (subst path_fun_upd) (auto simp: queues_def)
  from append_blocked_spec [OF this, of p] b3 dist t(4) obtain s4 where s4: "append_blocked p ?s3 = Some s4"
    "path (bnexts (tcb s4)) (blocked_tasks s4) (bs @ [p]) NULL" "nexts (tcb s4) = nexts (tcb ?s3)"
    "states (tcb s4) = states (tcb ?s3)" "chans (tcb s4) = chans (tcb ?s3)" "cores (tcb s4) = cores (tcb ?s3)"
    "queue_frame ?s3 s4" by auto
  note fr = queue_frameD [OF s4(7), simplified]
  have st: "states (tcb ?s3) = (states (tcb s))(p \<mapsto> TASK_BLOCKED)"
    using fp u(2) by (simp add: fun_upd_idem)
  have q4: "queues s4 (remove1 p rs) (bs @ [p])"
    unfolding queues_def s4(3,4) st using u(4,5) s4(2) q dist fr(2) by (auto simp: queues_def)
  have "?n \<in> set (remove1 p rs)" using ring_succ_mem [OF dist(2)] u(6) by (simp add: in_set_remove1)
  then obtain tn where tn: "tcb s4 ?n = Some tn" using queues_task [OF q4, of ?n] by auto
  obtain tc where tc: "tcb s4 p = Some tc" using queues_task [OF q4, of p] by auto
  from switch_to_spec [OF tc tn] obtain s5 where s5: "switch_to p ?n s4 = Some s5"
    "links_eq (tcb s4) (tcb s5)" "current_task s5 = ?n" "ready_queue s5 = ready_queue s4"
    "next_pid s5 = next_pid s4" "retired_task s5 = retired_task s4" "blocked_tasks s5 = blocked_tasks s4"
    "task_pmm s5 = task_pmm s4" by blast
  have "task_block_current ch s = Some s5"
    using t u(1,2,3,6) prev s4(1) s5(1) queues_nonnull [OF q, of "ready_queue s"] q
    by (auto simp: task_block_current_def find_ready_previous_def p_def [symmetric] upd_task_def Let_def
        queues_def ring_def)
  moreover have "queues s5 (remove1 p rs) (bs @ [p])"
    using q4 queues_links_eq [OF s5(2)] s5(4,7) by simp
  moreover have "chans (tcb s5) = (chans (tcb s))(p \<mapsto> ch)" "stacks (tcb s5) = stacks (tcb s)"
    "procs (tcb s5) = procs (tcb s)" "kills (tcb s5) = kills (tcb s)"
    using s5(2) s4(5) fp u(1,2) t(1) stacks_cores [OF s4(6)] cores_fields [OF s4(6)]
    by (auto simp: links_eq_def fun_upd_idem stacks_def procs_def kills_def fun_eq_iff)
  ultimately show ?thesis
    using s5 fr unfolding p_def [symmetric] by auto
qed

section \<open>Pages\<close>

lemma page_frame: "page_used pm a \<Longrightarrow> page_used pm b \<Longrightarrow> a \<noteq> b \<Longrightarrow>
    unat a div PMM_BLOCK_SIZE \<noteq> unat b div PMM_BLOCK_SIZE"
  by (metis div_mult_mod_eq page_used_def word_unat_eq_iff)

lemma page_free:
  assumes inv: "pmm_inv pm" and a: "page_used pm a"
  shows "pmm_inv (pmm_free_block a pm)"
    "page_used pm b \<Longrightarrow> b \<noteq> a \<Longrightarrow> page_used (pmm_free_block a pm) b"
    "frames_used (pmm_free_block a pm) = frames_used pm - {unat a div PMM_BLOCK_SIZE}"
proof -
  show "pmm_inv (pmm_free_block a pm)" unfolding pmm_free_block_def by (rule pmm.free_inv [OF inv])
  have "0 < unat a" using a by (simp add: page_used_def unat_gt_0)
  then have "1 \<le> unat a div PMM_BLOCK_SIZE"
    using a by (auto simp: page_used_def PMM_BLOCK_SIZE_def)
  then have "frame_run a 1 \<subseteq> {1..<unat (max_blocks pm)}"
    using a by (auto simp: frame_run_def page_used_def frames_used_mem)
  then show fr: "frames_used (pmm_free_block a pm) = frames_used pm - {unat a div PMM_BLOCK_SIZE}"
    unfolding pmm_free_block_def using a
    by (subst pmm.free_owned [OF inv]) (auto simp: page_used_def frame_run_def)
  show "page_used (pmm_free_block a pm) b" if "page_used pm b" "b \<noteq> a"
    using that page_frame [OF that(1) a that(2)] unfolding page_used_def fr by auto
qed

definition frame_free :: "pmm_state \<Rightarrow> nat \<Rightarrow> bool" where
  "frame_free pm f \<longleftrightarrow> f < unat (max_blocks pm) \<and> f \<notin> frames_used pm"

lemma page_alloc:
  assumes inv: "pmm_inv pm" and al: "pmm_alloc_block pm = (a, pm')" and a: "a \<noteq> NULL"
  shows "pmm_inv pm'" "page_used pm' a" "page_used pm b \<Longrightarrow> page_used pm' b" "\<not> page_used pm a"
    "unat a + 4096 \<le> 2 ^ 25" "unat a mod PMM_BLOCK_SIZE = 0"
    "frames_used pm' = insert (unat a div PMM_BLOCK_SIZE) (frames_used pm)"
    "frame_free pm (unat a div PMM_BLOCK_SIZE)" "frame_free pm' f \<Longrightarrow> frame_free pm f"
proof -
  have al': "pmm_alloc_blocks 1 pm = (a, pm')" using al by (simp add: pmm_alloc_block_def)
  note own = pmm.alloc_owned [OF inv al' a] and fresh = pmm.alloc_fresh [OF inv al' a]
  note aln = pmm.alloc_aligned [OF inv al' a] and bound = pmm.alloc_address_bound [OF inv al' a]
  show "pmm_inv pm'" by (rule pmm.alloc_inv [OF inv al'])
  have run: "frame_run a 1 = {unat a div PMM_BLOCK_SIZE}" by (auto simp: frame_run_def)
  show "page_used pm' a" "\<not> page_used pm a" "page_used pm b \<Longrightarrow> page_used pm' b"
    using own fresh aln a run by (auto simp: page_used_def)
  show "unat a + 4096 \<le> 2 ^ 25" using bound(2) by (simp add: PMM_BLOCK_SIZE_def)
  show "unat a mod PMM_BLOCK_SIZE = 0" using aln by simp
  show "frames_used pm' = insert (unat a div PMM_BLOCK_SIZE) (frames_used pm)" using own run by auto
  show "frame_free pm (unat a div PMM_BLOCK_SIZE)"
    using fresh run pmm.alloc_run [OF inv al' a] by (simp add: frame_free_def)
  show "frame_free pm' f \<Longrightarrow> frame_free pm f"
    using own run pmm.alloc_limit [OF inv al'] by (simp add: frame_free_def)
qed

lemma page_alloc_null:
  "pmm_inv pm \<Longrightarrow> pmm_alloc_block pm = (NULL, pm') \<Longrightarrow> pm' = pm"
  using pmm.alloc_null by (simp add: pmm_alloc_block_def)

lemma pages_okD:
  assumes "pages_ok m pm T"
  shows "pmm_inv pm" "p \<in> T \<Longrightarrow> \<exists>t. m p = Some t"
    "p \<in> T \<Longrightarrow> a \<in> set (task_pages m p) \<Longrightarrow> page_used pm a"
    "p \<in> T \<Longrightarrow> q \<in> T \<Longrightarrow> p \<noteq> q \<Longrightarrow> a \<in> set (task_pages m p) \<Longrightarrow> a \<notin> set (task_pages m q)"
  using assms by (auto simp: pages_ok_def disjoint_iff)

lemma fold_page_free:
  assumes "pmm_inv pm" "distinct as" "\<And>a. a \<in> set as \<Longrightarrow> page_used pm a"
  shows "pmm_inv (fold pmm_free_block as pm) \<and>
    (\<forall>b. page_used pm b \<and> b \<notin> set as \<longrightarrow> page_used (fold pmm_free_block as pm) b) \<and>
    frames_used (fold pmm_free_block as pm) = frames_used pm - (\<lambda>a. unat a div PMM_BLOCK_SIZE) ` set as"
  using assms
proof (induction as arbitrary: pm)
  case (Cons a as)
  have a: "page_used pm a" using Cons.prems by simp
  note f = page_free [OF Cons.prems(1) a]
  have "page_used (pmm_free_block a pm) b" if "b \<in> set as" for b
    using that Cons.prems by (intro f(2)) auto
  from Cons.IH [OF f(1) _ this] Cons.prems(2) f(2,3) show ?case by auto
qed simp

text \<open>Tasks that stay keep their pages when another task is taken out of the store.\<close>

lemma pages_ok_remove:
  assumes po: "pages_ok m pm (insert p T)" and p: "p \<notin> T"
  shows "pages_ok (m(p := None)) (fold pmm_free_block (rev (task_pages m p)) pm) T"
proof -
  note D = pages_okD [OF po]
  have "distinct (rev (task_pages m p))" using po by (simp add: pages_ok_def)
  moreover have "page_used pm a" if "a \<in> set (rev (task_pages m p))" for a using D(3) [of p a] that by simp
  ultimately have f: "pmm_inv (fold pmm_free_block (rev (task_pages m p)) pm)"
    "page_used (fold pmm_free_block (rev (task_pages m p)) pm) b" if "page_used pm b" "b \<notin> set (task_pages m p)" for b
    using fold_page_free [OF D(1), of "rev (task_pages m p)"] that by auto
  have same: "task_pages (m(p := None)) q = task_pages m q" if "q \<in> T" for q
    using that p by (auto simp: task_pages_def)
  show ?thesis
    unfolding pages_ok_def
  proof (intro conjI ballI impI)
    fix q assume q: "q \<in> T"
    then show "(m(p := None)) q \<noteq> None" using D(2) [of q] p by auto
    show "distinct (task_pages (m(p := None)) q)" using po q same by (simp add: pages_ok_def)
    fix a assume "a \<in> set (task_pages (m(p := None)) q)"
    then show "page_used (fold pmm_free_block (rev (task_pages m p)) pm) a"
      using same [OF q] D(3) [of q a] D(4) [of q p a] q p by (intro f) auto
  next
    fix q r assume "q \<in> T" "r \<in> T" "q \<noteq> r"
    then show "set (task_pages (m(p := None)) q) \<inter> set (task_pages (m(p := None)) r) = {}"
      using same D(4) [of q r] by (auto simp: disjoint_iff)
  qed (use fold_page_free [OF D(1), of "rev (task_pages m p)"] po in \<open>auto simp: pages_ok_def\<close>)
qed

lemma queues_remove:
  assumes "queues s rs bs" "p \<notin> set rs" "p \<notin> set bs"
  shows "queues (s\<lparr>tcb := (tcb s)(p := None), retired_task := r, task_pmm := pm\<rparr>) rs bs"
proof -
  have "nexts ((tcb s)(p := None)) = (nexts (tcb s))(p := None)" "bnexts ((tcb s)(p := None)) = (bnexts (tcb s))(p := None)"
    "states ((tcb s)(p := None)) = (states (tcb s))(p := None)"
    by (auto simp: nexts_def bnexts_def states_def)
  then show ?thesis using assms by (auto simp: queues_def ring_def)
qed

text \<open>Reaping frees the two pages of the retired task and no other.\<close>

lemma reap_retired_task_spec:
  assumes inv: "sched_inv s rs bs"
  shows "\<exists>s'. reap_retired_task s = Some s' \<and> sched_inv s' rs bs \<and> retired_task s' = NULL \<and>
    (\<forall>p. p \<noteq> retired_task s \<longrightarrow> tcb s' p = tcb s p) \<and> current_task s' = current_task s \<and>
    ready_queue s' = ready_queue s \<and> blocked_tasks s' = blocked_tasks s \<and> next_pid s' = next_pid s \<and>
    frames_used (task_pmm s') = frames_used (task_pmm s) -
      (\<lambda>a. unat a div PMM_BLOCK_SIZE) ` (\<Union>p \<in> retired_set s. set (task_pages (tcb s) p))"
proof (cases "retired_task s = NULL")
  case True
  then show ?thesis using inv by (simp add: reap_retired_task_def retired_set_def)
next
  case False
  define p where "p = retired_task s"
  have R: "retired_set s = {p}" using False by (simp add: retired_set_def p_def)
  have po: "pages_ok (tcb s) (task_pmm s) (set rs \<union> set bs \<union> {p})" and pn: "p \<notin> set rs \<union> set bs"
    using inv R by (auto simp: sched_inv_def)
  note D = pages_okD [OF po]
  obtain t where t: "tcb s p = Some t" using D(2) by blast
  have tp: "task_pages (tcb s) p = p # (if t_stack_bottom t = NULL then [] else [t_stack_bottom t])"
    using t by (simp add: task_pages_def)
  let ?pm = "fold pmm_free_block (rev (task_pages (tcb s) p)) (task_pmm s)"
  let ?s = "s\<lparr>tcb := (tcb s)(p := None), retired_task := NULL, task_pmm := ?pm\<rparr>"
  have run: "reap_retired_task s = Some ?s"
    using False t tp by (simp add: reap_retired_task_def p_def [symmetric] Let_def)
  have "pages_ok ((tcb s)(p := None)) ?pm (set rs \<union> set bs)"
    using po pn by (intro pages_ok_remove) auto
  moreover have "queues ?s rs bs" using inv pn by (intro queues_remove) (auto simp: sched_inv_def)
  ultimately have "sched_inv ?s rs bs" using inv by (simp add: sched_inv_def retired_set_def)
  moreover have "frames_used ?pm = frames_used (task_pmm s) -
      (\<lambda>a. unat a div PMM_BLOCK_SIZE) ` set (task_pages (tcb s) p)"
  proof -
    have "distinct (rev (task_pages (tcb s) p))" using po by (simp add: pages_ok_def)
    moreover have "page_used (task_pmm s) a" if "a \<in> set (rev (task_pages (tcb s) p))" for a
      using D(3) [of p a] that by simp
    ultimately show ?thesis using fold_page_free [OF D(1), of "rev (task_pages (tcb s) p)"] by simp
  qed
  ultimately show ?thesis using run R by (auto simp: p_def)
qed

section \<open>Every operation keeps the invariant\<close>

lemma sched_inv_frame:
  assumes inv: "sched_inv s rs bs" and q: "queues s' rs' bs'" and set: "set rs' \<union> set bs' = set rs \<union> set bs"
    and st: "stacks (tcb s') = stacks (tcb s)" and f: "task_pmm s' = task_pmm s" "retired_task s' = retired_task s"
    and c: "current_task s' \<in> set rs'"
  shows "sched_inv s' rs' bs'"
  using inv q set f c pages_ok_stacks [OF st] by (auto simp: sched_inv_def retired_set_def split: if_splits)

lemma set_insert_all_ready: "rs \<noteq> [] \<Longrightarrow> set (insert_all_ready ps rs) = set ps \<union> set rs"
  by (cases rs) (auto simp: insert_all_ready_eq)

lemma set_insert_ready: "rs \<noteq> [] \<Longrightarrow> set (insert_ready p rs) = insert p (set rs)"
  by (cases rs) (auto simp: insert_ready_def)

lemma queues_ne: "queues s rs bs \<Longrightarrow> rs \<noteq> []"
  by (auto simp: queues_def ring_def)

lemma link_at_Nil [simp]: "link_at [] = NULL"
  by (simp add: link_at_def)

lemma task_wake_one_inv:
  assumes inv: "sched_inv s rs bs"
  shows "(\<forall>p \<in> set bs. chans (tcb s) p \<noteq> Some ch) \<and> task_wake_one ch s = Some s \<or>
    (\<exists>cs p ds s'. bs = cs @ p # ds \<and> (\<forall>q \<in> set cs. chans (tcb s) q \<noteq> Some ch) \<and> chans (tcb s) p = Some ch \<and>
       task_wake_one ch s = Some s' \<and> sched_inv s' (insert_ready p rs) (cs @ ds) \<and>
       cores (tcb s') = cores (tcb s) \<and> chans (tcb s') = (chans (tcb s))(p \<mapsto> NULL) \<and> queue_frame s s')"
proof -
  have q: "queues s rs ([] @ bs)" using inv by (simp add: sched_inv_def)
  have "sched_inv s' (insert_ready p rs) (cs @ ds)"
    if "bs = cs @ p # ds" "queues s' (insert_ready p rs) (cs @ ds)" "cores (tcb s') = cores (tcb s)" "queue_frame s s'"
    for cs p ds s'
    using that inv queue_frameD [OF that(4)] set_insert_ready [OF queues_ne [OF q]] stacks_cores [OF that(3)]
    by (intro sched_inv_frame [OF inv that(2)]) (auto simp: sched_inv_def)
  with wake_one_loop_spec [OF q, of ch] show ?thesis unfolding task_wake_one_def by (fastforce simp del: fun_upd_apply)
qed

lemma task_wake_all_inv:
  assumes inv: "sched_inv s rs bs"
  shows "\<exists>s'. task_wake_all ch s = Some s' \<and>
    sched_inv s' (insert_all_ready (waiting_on ch (tcb s) bs) rs) (filter (\<lambda>p. chans (tcb s) p \<noteq> Some ch) bs) \<and>
    cores (tcb s') = cores (tcb s) \<and> chans (tcb s') = cleared (waiting_on ch (tcb s) bs) (chans (tcb s)) \<and>
    queue_frame s s'"
proof -
  have q: "queues s rs ([] @ bs)" using inv by (simp add: sched_inv_def)
  obtain s' where s': "task_wake_all ch s = Some s'"
    "queues s' (insert_all_ready (waiting_on ch (tcb s) bs) rs) (filter (\<lambda>p. chans (tcb s) p \<noteq> Some ch) bs)"
    "cores (tcb s') = cores (tcb s)" "chans (tcb s') = cleared (waiting_on ch (tcb s) bs) (chans (tcb s))"
    "queue_frame s s'"
    using wake_all_loop_spec [OF q, of ch] by (auto simp: task_wake_all_def)
  have "sched_inv s' (insert_all_ready (waiting_on ch (tcb s) bs) rs) (filter (\<lambda>p. chans (tcb s) p \<noteq> Some ch) bs)"
    using inv queue_frameD [OF s'(5)] set_insert_all_ready [OF queues_ne [OF q]] stacks_cores [OF s'(3)]
    by (intro sched_inv_frame [OF inv s'(2)]) (auto simp: sched_inv_def waiting_on_def)
  with s' show ?thesis by blast
qed

lemma task_wake_task_inv:
  assumes inv: "sched_inv s rs bs"
  shows "\<exists>s'. task_wake_task p s = Some s' \<and> queue_frame s s' \<and> cores (tcb s') = cores (tcb s) \<and>
    sched_inv s' (if p \<in> set bs then insert_ready p rs else rs) (remove1 p bs)"
proof (cases "p \<in> set bs")
  case True
  have q: "queues s rs ([] @ bs)" using inv by (simp add: sched_inv_def)
  have "p \<noteq> NULL" using queues_nonnull [OF q, of p] True by simp
  then obtain s' where s': "task_wake_task p s = Some s'" "queues s' (insert_ready p rs) (remove1 p bs)"
    "cores (tcb s') = cores (tcb s)" "queue_frame s s'"
    using wake_task_loop_spec [OF q True] by (auto simp: task_wake_task_def)
  have "distinct bs" using q by (simp add: queues_def)
  then have "sched_inv s' (insert_ready p rs) (remove1 p bs)"
    using inv True queue_frameD [OF s'(4)] set_insert_ready [OF queues_ne [OF q]] stacks_cores [OF s'(3)]
    by (intro sched_inv_frame [OF inv s'(2)]) (auto simp: sched_inv_def)
  with s' True show ?thesis by auto
next
  case False
  have q: "queues s rs ([] @ bs)" using inv by (simp add: sched_inv_def)
  have "task_wake_task p s = Some s"
    using wake_task_loop_none [OF q False] by (auto simp: task_wake_task_def)
  with False inv show ?thesis by (auto simp: remove1_idem)
qed

lemma task_kill_blocked_inv:
  assumes inv: "sched_inv s rs bs" and p: "process \<noteq> NULL"
  defines "victims \<equiv> of_process process (tcb s) bs"
  shows "\<exists>s'. task_kill_blocked process s = Some (of_nat (length victims), s') \<and>
    sched_inv s' (insert_all_ready victims rs) (filter (\<lambda>p. procs (tcb s) p \<noteq> Some process) bs) \<and>
    procs (tcb s') = procs (tcb s) \<and>
    kills (tcb s') = flagged (set (of_process process (tcb s) (rs @ bs))) (kills (tcb s)) \<and> queue_frame s s'"
proof -
  have q: "queues s rs bs" using inv by (simp add: sched_inv_def)
  obtain r rs' where rs: "rs = r # rs'" "ready_queue s = r" "r \<noteq> NULL"
    using q by (cases rs) (auto simp: queues_def ring_def)
  obtain s1 where s1: "mark_ring_loop process r r s = Some s1" "queues s1 rs ([] @ bs)"
    "stacks (tcb s1) = stacks (tcb s)" "procs (tcb s1) = procs (tcb s)"
    "kills (tcb s1) = flagged (set (of_process process (tcb s) rs)) (kills (tcb s))" "queue_frame s s1"
    using mark_ring_loop_spec [of s "[]" r rs' bs process] q rs by auto
  obtain s2 where s2: "kill_loop process NULL 0 s1 = Some (of_nat (length (of_process process (tcb s1) bs)), s2)"
    "queues s2 (insert_all_ready (of_process process (tcb s1) bs) rs) (filter (\<lambda>p. procs (tcb s1) p \<noteq> Some process) bs)"
    "stacks (tcb s2) = stacks (tcb s1)" "procs (tcb s2) = procs (tcb s1)"
    "kills (tcb s2) = flagged (set (of_process process (tcb s1) bs)) (kills (tcb s1))" "queue_frame s1 s2"
    using kill_loop_spec [OF s1(2), of process 0] by auto
  have fr: "queue_frame s s2" using s1(6) s2(6) queue_frame_trans by blast
  have same: "of_process process (tcb s1) bs = victims" "(\<lambda>p. procs (tcb s1) p \<noteq> Some process) = (\<lambda>p. procs (tcb s) p \<noteq> Some process)"
    using s1(4) by (simp_all add: victims_def of_process_def)
  have "sched_inv s2 (insert_all_ready victims rs) (filter (\<lambda>p. procs (tcb s) p \<noteq> Some process) bs)"
    using inv queue_frameD [OF fr] set_insert_all_ready [OF queues_ne [OF q]] s1(3,4) s2(2,3)
    by (intro sched_inv_frame [OF inv]) (auto simp: sched_inv_def victims_def of_process_def)
  moreover have "kills (tcb s2) = flagged (set (of_process process (tcb s) (rs @ bs))) (kills (tcb s))"
    unfolding s2(5) s1(5) using s1(4) by (auto simp: flagged_def of_process_def fun_eq_iff)
  moreover have "task_kill_blocked process s = Some (of_nat (length victims), s2)"
    using p rs s1(1) s2(1) same(1) by (simp add: task_kill_blocked_def)
  ultimately show ?thesis using s2(4) s1(4) fr by auto
qed

lemma sched_invD:
  assumes "sched_inv s rs bs"
  shows "queues s rs bs" "current_task s \<in> set rs" "current_task s \<noteq> NULL" "distinct rs"
    "pages_ok (tcb s) (task_pmm s) (set rs \<union> set bs \<union> retired_set s)" "retired_set s \<inter> (set rs \<union> set bs) = {}"
  using assms queues_nonnull [of s rs bs "current_task s"] by (auto simp: sched_inv_def queues_def)

lemma task_block_current_inv:
  assumes inv: "sched_inv s rs bs" and ne: "rs \<noteq> [current_task s]"
  shows "\<exists>s'. task_block_current ch s = Some s' \<and>
    sched_inv s' (remove1 (current_task s) rs) (bs @ [current_task s]) \<and>
    current_task s' = ring_succ rs (current_task s) \<and> chans (tcb s') = (chans (tcb s))(current_task s \<mapsto> ch) \<and>
    procs (tcb s') = procs (tcb s) \<and> kills (tcb s') = kills (tcb s) \<and> retired_task s' = retired_task s"
proof -
  note D = sched_invD [OF inv]
  let ?c = "current_task s"
  obtain s' where s': "task_block_current ch s = Some s'" "queues s' (remove1 ?c rs) (bs @ [?c])"
    "current_task s' = ring_succ rs ?c" "chans (tcb s') = (chans (tcb s))(?c \<mapsto> ch)"
    "stacks (tcb s') = stacks (tcb s)" "procs (tcb s') = procs (tcb s)" "kills (tcb s') = kills (tcb s)"
    "retired_task s' = retired_task s" "task_pmm s' = task_pmm s"
    using task_block_current_spec [OF D(1,2) ne] by blast
  have "ring_succ rs ?c \<in> set (remove1 ?c rs)"
    using ring_succ_mem [OF D(2)] ring_succ_self [OF D(4,2)] ne by (simp add: in_set_remove1)
  moreover have "set (remove1 ?c rs) \<union> set (bs @ [?c]) = set rs \<union> set bs"
    using D(2,4) by auto
  ultimately have "sched_inv s' (remove1 ?c rs) (bs @ [?c])"
    using s'(2,3,5,8,9) by (intro sched_inv_frame [OF inv]) auto
  with s' show ?thesis by blast
qed

lemma task_block_current_alone:
  assumes inv: "sched_inv s rs bs" and one: "rs = [current_task s]"
  shows "task_block_current ch s = Some s"
proof -
  note D = sched_invD [OF inv]
  obtain xs ys t where "tcb s (current_task s) = Some t" "t_next t = ring_succ rs (current_task s)"
    using queues_current [OF D(1,2)] by blast
  moreover have "ring_succ rs (current_task s) = current_task s"
    using ring_succ_self [OF D(4,2)] one by blast
  ultimately show ?thesis using D(3) by (simp add: task_block_current_def Let_def)
qed

lemma schedule_inv:
  assumes inv: "sched_inv s rs bs"
  shows "\<exists>s'. schedule s = Some s' \<and> sched_inv s' rs bs \<and>
    current_task s' = ring_succ rs (current_task s) \<and> retired_task s' = NULL \<and>
    frames_used (task_pmm s') = frames_used (task_pmm s) -
      (\<lambda>a. unat a div PMM_BLOCK_SIZE) ` (\<Union>p \<in> retired_set s. set (task_pages (tcb s) p))"
proof -
  obtain s1 where s1: "reap_retired_task s = Some s1" "sched_inv s1 rs bs" "retired_task s1 = NULL"
    "current_task s1 = current_task s"
    "frames_used (task_pmm s1) = frames_used (task_pmm s) -
      (\<lambda>a. unat a div PMM_BLOCK_SIZE) ` (\<Union>p \<in> retired_set s. set (task_pages (tcb s) p))"
    using reap_retired_task_spec [OF inv] by blast
  note D = sched_invD [OF s1(2)]
  let ?c = "current_task s1" and ?n = "ring_succ rs (current_task s1)"
  obtain t where t: "tcb s1 ?c = Some t" "t_next t = ?n" using queues_current [OF D(1,2)] by metis
  obtain tn where tn: "tcb s1 ?n = Some tn"
    using queues_task [OF D(1), of ?n] ring_succ_mem [OF D(2)] by auto
  show ?thesis
  proof (cases "?n = ?c")
    case True
    then have "schedule s = Some s1" using s1(1,4) t D(3) by (simp add: schedule_def Let_def)
    with s1 True show ?thesis by auto
  next
    case False
    obtain s2 where s2: "switch_to ?c ?n s1 = Some s2" "links_eq (tcb s1) (tcb s2)" "current_task s2 = ?n"
      "ready_queue s2 = ready_queue s1" "retired_task s2 = retired_task s1" "blocked_tasks s2 = blocked_tasks s1"
      "task_pmm s2 = task_pmm s1" using switch_to_spec [OF t(1) tn] by blast
    have "sched_inv s2 rs bs"
      using s2 ring_succ_mem [OF D(2)] by (intro sched_inv_links_eq [OF s1(2)]) auto
    moreover have "schedule s = Some s2"
      using s1(1,4) t D(3) False s2(1) by (simp add: schedule_def Let_def)
    ultimately show ?thesis using s1 s2 by auto
  qed
qed

section \<open>Exit\<close>

text \<open>
  What \<open>task_exit\<close> needs of the exit callbacks of other components: they return, keep the
  invariant, keep the current and the retired task, and at most wake tasks up.
\<close>

definition callback_ok :: "(ptr \<Rightarrow> ptr \<Rightarrow> int \<Rightarrow> sched \<Rightarrow> sched option) \<Rightarrow> bool" where
  "callback_ok callback \<longleftrightarrow> (\<forall>f p status s rs bs. sched_inv s rs bs \<longrightarrow>
     (\<exists>s' rs' bs'. callback f p status s = Some s' \<and> sched_inv s' rs' bs' \<and>
        current_task s' = current_task s \<and> retired_task s' = retired_task s \<and>
        set rs \<subseteq> set rs' \<and> set rs' \<union> set bs' = set rs \<union> set bs \<and>
        (\<forall>q \<in> set bs'. q \<in> set bs \<and> chans (tcb s') q = chans (tcb s) q)))"

lemma task_exit_unlink:
  assumes inv: "sched_inv s rs bs" and ne: "rs \<noteq> [current_task s]" and ret: "retired_task s = NULL"
    and rs: "rs = xs @ p # ys" and p: "p = current_task s" and prev: "prev = last (p # ys @ xs)"
  defines "n \<equiv> ring_succ rs p"
  shows "\<exists>tp. tcb s prev = Some tp \<and> prev \<noteq> p \<and> n \<in> set (remove1 p rs) \<and>
    sched_inv (s\<lparr>tcb := (tcb s)(prev \<mapsto> tp\<lparr>t_next := n\<rparr>),
      ready_queue := (if ready_queue s = p then n else ready_queue s), current_task := n, retired_task := p\<rparr>)
      (remove1 p rs) bs"
proof -
  note D = sched_invD [OF inv]
  have prs: "p \<in> set rs" using D(2) p by simp
  obtain t where t: "tcb s p = Some t" using queues_task [OF D(1), of p] prs by auto
  obtain tp where tp: "tcb s prev = Some tp" "prev \<noteq> p"
    "ring (nexts ((tcb s)(prev \<mapsto> tp\<lparr>t_next := n\<rparr>, p \<mapsto> t\<lparr>t_next := NULL\<rparr>))) (remove1 p rs)"
    "hd (remove1 p rs) = (if ready_queue s = p then n else ready_queue s)" "n \<noteq> p"
    using unlink_current_spec [OF D(1) prs t _ rs, of "t\<lparr>t_next := NULL\<rparr>", folded prev n_def] ne p by auto
  let ?m = "(tcb s)(prev \<mapsto> tp\<lparr>t_next := n\<rparr>)"
  have pn: "p \<notin> set (remove1 p rs)" using D(4) by simp
  have fields: "bnexts ?m = bnexts (tcb s)" "states ?m = states (tcb s)" "stacks ?m = stacks (tcb s)"
    using field_Some [where m = "tcb s", OF tp(1)] tp(1) by (auto simp: fun_upd_idem stacks_def)
  let ?s = "s\<lparr>tcb := ?m, ready_queue := (if ready_queue s = p then n else ready_queue s),
    current_task := n, retired_task := p\<rparr>"
  have rem: "set (remove1 p rs) = set rs - {p}" using D(4) by simp
  have "distinct (remove1 p rs @ bs)" using D(1) rem by (auto simp: queues_def)
  moreover have "ring (nexts ?m) (remove1 p rs)" using tp(3) pn by (simp add: ring_def)
  ultimately have q: "queues ?s (remove1 p rs) bs"
    using D(1) tp(4) unfolding queues_def by (simp add: fields(1,2) rem del: field_upd)
  have n: "n \<in> set (remove1 p rs)"
    using ring_succ_mem [OF prs] tp(5) unfolding n_def by (simp add: in_set_remove1)
  have pnb: "p \<noteq> NULL" "p \<notin> set bs" using D(1,3) p prs by (auto simp: queues_def)
  have "pages_ok ?m (task_pmm s) (set rs \<union> set bs)"
    using D(5) ret pages_ok_stacks [OF fields(3)] by (simp add: retired_set_def)
  moreover have "set (remove1 p rs) \<union> set bs \<union> {p} = set rs \<union> set bs" using D(4) prs by auto
  moreover have "retired_set ?s = {p}" using pnb by (simp add: retired_set_def)
  ultimately have "sched_inv ?s (remove1 p rs) bs"
    using q n pn pnb unfolding sched_inv_def by simp
  then show ?thesis using tp(1,2) n by blast
qed

text \<open>The end of \<open>task_exit\<close>: the callback, then the switch away from the retired task.\<close>

lemma exit_callback_switch:
  assumes inv: "sched_inv s rs bs" and ret: "retired_task s = p" "p \<noteq> NULL" and cb: "callback_ok callback"
  shows "\<exists>s5 tn s' rs' bs'. (if f \<noteq> NULL then callback f p status s else Some s) = Some s5 \<and>
    tcb s5 (current_task s) = Some tn \<and> switch_task p (t_esp tn) s5 = Some s' \<and> sched_inv s' rs' bs' \<and>
    retired_task s' = p \<and> current_task s' = current_task s \<and> set rs' \<union> set bs' = set rs \<union> set bs \<and>
    (\<forall>q \<in> set bs'. q \<in> set bs \<and> chans (tcb s') q = chans (tcb s) q)"
proof -
  obtain s5 rs' bs' where s5: "(if f \<noteq> NULL then callback f p status s else Some s) = Some s5"
    "sched_inv s5 rs' bs'" "current_task s5 = current_task s" "retired_task s5 = p"
    "set rs' \<union> set bs' = set rs \<union> set bs" "\<forall>q \<in> set bs'. q \<in> set bs \<and> chans (tcb s5) q = chans (tcb s) q"
  proof (cases "f = NULL")
    case True
    with inv ret that show ?thesis by auto
  next
    case False
    from cb inv obtain s' rs' bs' where "callback f p status s = Some s'" "sched_inv s' rs' bs'"
      "current_task s' = current_task s" "retired_task s' = retired_task s" "set rs' \<union> set bs' = set rs \<union> set bs"
      "\<forall>q \<in> set bs'. q \<in> set bs \<and> chans (tcb s') q = chans (tcb s) q"
      unfolding callback_ok_def by meson
    with False ret that show ?thesis by auto
  qed
  note D = sched_invD [OF s5(2)]
  obtain tn where tn: "tcb s5 (current_task s) = Some tn" using queues_task [OF D(1), of "current_task s"] s5(3) D(2) by auto
  obtain tp where tp: "tcb s5 p = Some tp"
    using pages_okD(2) [OF D(5), of p] s5(4) ret(2) by (auto simp: retired_set_def)
  obtain s' e where s': "switch_task p (t_esp tn) s5 = Some s'" "tcb s' = (tcb s5)(p \<mapsto> tp\<lparr>t_esp := e\<rparr>)"
    "current_task s' = current_task s5" "ready_queue s' = ready_queue s5" "retired_task s' = retired_task s5"
    "blocked_tasks s' = blocked_tasks s5" "task_pmm s' = task_pmm s5"
    using switch_task_spec [OF tp] by blast
  have le: "links_eq (tcb s5) (tcb s')" unfolding s'(2) by (rule links_eq_esp [where m = "tcb s5", OF tp])
  then have "sched_inv s' rs' bs'" using s' D(2) by (intro sched_inv_links_eq [OF s5(2)]) auto
  moreover have "chans (tcb s') = chans (tcb s5)" using le by (simp add: links_eq_def)
  ultimately show ?thesis using s5 tn s'(1,3,5) by auto
qed

lemma task_exit_inv:
  assumes inv: "sched_inv s rs bs" and ne: "rs \<noteq> [current_task s]" and cb: "callback_ok callback"
  shows "\<exists>s' rs' bs'. task_exit callback status s = Some s' \<and> sched_inv s' rs' bs' \<and>
    retired_task s' = current_task s \<and> current_task s' = ring_succ rs (current_task s) \<and>
    set rs' \<union> set bs' = set rs \<union> set bs - {current_task s} \<and>
    (\<forall>q \<in> set bs'. q \<in> set bs \<and> chans (tcb s') q = chans (tcb s) q)"
proof -
  define p where "p = current_task s"
  obtain s1 where s1: "reap_retired_task s = Some s1" "sched_inv s1 rs bs" "retired_task s1 = NULL"
    "current_task s1 = p" "\<forall>q. q \<noteq> retired_task s \<longrightarrow> tcb s1 q = tcb s q"
    using reap_retired_task_spec [OF inv] p_def by auto
  note D = sched_invD [OF inv] and D1 = sched_invD [OF s1(2)]
  obtain xs ys where rs: "rs = xs @ p # ys" and prev0: "ready_previous_loop p p s = Some (last (p # ys @ xs))"
    and pnz: "p \<noteq> NULL"
    using queues_current [OF D(1,2)] p_def by metis
  define prev where prev_def: "prev = last (p # ys @ xs)"
  note prev = prev0 [folded prev_def]
  obtain t where t: "tcb s1 p = Some t" "t_next t = ring_succ rs p"
    using queues_current [OF D1(1,2)] s1(4) by metis
  let ?n = "ring_succ rs p"
  obtain tp where u: "tcb s1 prev = Some tp" "prev \<noteq> p" "?n \<in> set (remove1 p rs)"
    "sched_inv (s1\<lparr>tcb := (tcb s1)(prev \<mapsto> tp\<lparr>t_next := ?n\<rparr>),
      ready_queue := (if ready_queue s1 = p then ?n else ready_queue s1), current_task := ?n, retired_task := p\<rparr>)
      (remove1 p rs) bs"
    using task_exit_unlink [OF s1(2) _ s1(3) rs _ prev_def] ne s1(4) p_def by auto
  let ?s3 = "s1\<lparr>tcb := (tcb s1)(prev \<mapsto> tp\<lparr>t_next := ?n\<rparr>),
      ready_queue := (if ready_queue s1 = p then ?n else ready_queue s1), current_task := ?n, retired_task := p\<rparr>"
  note D3 = sched_invD [OF u(4)]
  obtain tn where tn: "tcb ?s3 ?n = Some tn" using queues_task [OF D3(1), of ?n] u(3) by auto
  let ?s4 = "task_activate_space (t_address_space tn)
    (set_kernel_stack (t_kernel_stack_top tn) (?s3\<lparr>current_task := ?n\<rparr>))"
  have act: "activate_task ?n ?s3 = Some ?s4" using tn by (simp only: activate_task_def) simp
  have inv4: "sched_inv ?s4 (remove1 p rs) bs"
    by (rule sched_inv_links_eq [OF u(4)])
      (use u(3) in \<open>auto simp: links_eq_def task_activate_space_def set_kernel_stack_def\<close>)
  have s4: "current_task ?s4 = ?n" "retired_task ?s4 = p"
    by (simp_all add: task_activate_space_def set_kernel_stack_def)
  obtain s5 tn' s' rs' bs' where s5:
    "(if t_on_exit t \<noteq> NULL then callback (t_on_exit t) p status ?s4 else Some ?s4) = Some s5"
    "tcb s5 ?n = Some tn'" "switch_task p (t_esp tn') s5 = Some s'" "sched_inv s' rs' bs'"
    "retired_task s' = p" "current_task s' = ?n" "set rs' \<union> set bs' = set (remove1 p rs) \<union> set bs"
    "\<forall>q \<in> set bs'. q \<in> set bs \<and> chans (tcb s') q = chans (tcb ?s4) q"
    using exit_callback_switch [OF inv4 s4(2) pnz cb, of "t_on_exit t" status] unfolding s4(1) by blast
  have upd: "upd_task prev (\<lambda>t. t\<lparr>t_next := ?n\<rparr>) s1 = Some (s1\<lparr>tcb := (tcb s1)(prev \<mapsto> tp\<lparr>t_next := ?n\<rparr>)\<rparr>)"
    using u(1) by (simp add: upd_task_def)
  have "task_exit callback status s = Some s'"
    using pnz prev u(2) s1(1) t upd act s5(1-3)
    by (cases "ready_queue s1 = p"; cases "t_on_exit t = NULL")
      (auto simp: task_exit_def p_def [symmetric] Let_def)
  moreover have "set (remove1 p rs) \<union> set bs = set rs \<union> set bs - {p}"
    using D(1,4) rs by (auto simp: queues_def)
  moreover have ch: "chans (tcb ?s4) q = chans (tcb s) q" if "q \<in> set bs" for q
  proof -
    have "q \<noteq> retired_task s" using that D(6) queues_nonnull [OF D(1), of q]
      by (auto simp: retired_set_def split: if_splits)
    then have "chans (tcb s1) q = chans (tcb s) q" using s1(5) by (simp add: chans_def)
    moreover have "chans (tcb ?s4) = chans (tcb s1)"
      using field_Some [where m = "tcb s1", OF u(1)]
      by (simp add: task_activate_space_def set_kernel_stack_def fun_upd_idem)
    ultimately show ?thesis by simp
  qed
  have "\<forall>q \<in> set bs'. q \<in> set bs \<and> chans (tcb s') q = chans (tcb s) q" using s5(8) ch by metis
  ultimately show ?thesis using s5(4-7) unfolding p_def [symmetric] by metis
qed

section \<open>Creation\<close>

text \<open>A control block and a stack on two fresh pages join the others.\<close>

lemma pages_ok_add:
  assumes po: "pages_ok m pm T" and al1: "pmm_alloc_block pm = (p, pm1)" "p \<noteq> NULL"
    and al2: "pmm_alloc_block pm1 = (b, pm2)" "b \<noteq> NULL" and t: "t_stack_bottom t = b"
  shows "pages_ok (m(p \<mapsto> t)) pm2 (insert p T)" "p \<notin> T" "\<And>q. q \<in> T \<Longrightarrow> p \<notin> set (task_pages m q)"
proof -
  note D = pages_okD [OF po]
  note a1 = page_alloc [OF D(1) al1] note a2 = page_alloc [OF a1(1) al2]
  have used: "page_used pm a" if "q \<in> T" "a \<in> set (task_pages m q)" for q a using D(3) that by blast
  then show fresh: "p \<notin> set (task_pages m q)" if "q \<in> T" for q using a1(4) that by blast
  have own: "q \<in> set (task_pages m q)" if "q \<in> T" for q using D(2) [OF that] by (auto simp: task_pages_def)
  then show pT: "p \<notin> T" using fresh by blast
  have b: "b \<noteq> p" "b \<notin> set (task_pages m q)" if "q \<in> T" for q
    using used [OF that] a1(2,3) a2(4) by blast+
  have bp: "b \<noteq> p" using a1(2) a2(4) by blast
  have tp: "task_pages (m(p \<mapsto> t)) p = [p, b]" using t al2(2) by (simp add: task_pages_def)
  have tq: "task_pages (m(p \<mapsto> t)) q = task_pages m q" if "q \<in> T" for q
    using that pT by (auto simp: task_pages_def)
  show "pages_ok (m(p \<mapsto> t)) pm2 (insert p T)"
    unfolding pages_ok_def
  proof (intro conjI ballI impI)
    show "pmm_inv pm2" by (rule a2(1))
  next
    fix q assume q: "q \<in> insert p T"
    show "(m(p \<mapsto> t)) q \<noteq> None" using q D(2) by auto
    show "distinct (task_pages (m(p \<mapsto> t)) q)"
      using q tp tq bp po by (auto simp: pages_ok_def)
    fix a assume "a \<in> set (task_pages (m(p \<mapsto> t)) q)"
    then show "page_used pm2 a"
      using q tp tq used a1(2,3) a2(2,3) by (cases "q = p") auto
  next
    fix q r assume qr: "q \<in> insert p T" "r \<in> insert p T" "q \<noteq> r"
    then consider "q = p" "r \<in> T" | "r = p" "q \<in> T" | "q \<in> T" "r \<in> T" by auto
    then show "set (task_pages (m(p \<mapsto> t)) q) \<inter> set (task_pages (m(p \<mapsto> t)) r) = {}"
    proof cases
      case 3
      then show ?thesis using tq D(4) [OF 3 qr(3)] by (simp add: disjoint_iff)
    qed (use tp tq fresh b(2) in auto)
  qed
qed

text \<open>Failure leaks nothing: the page allocator is as before.\<close>

lemma create_task_fails:
  assumes inv: "sched_inv s rs bs" and run: "create_task entry on_exit space process ue us s = Some (NULL, s')"
  shows "task_pmm s' = task_pmm s \<and> tcb s' = tcb s \<and> sched_inv s' rs bs"
proof -
  have pm: "pmm_inv (task_pmm s)" using inv by (auto simp: sched_inv_def pages_ok_def)
  have triv: "sched_inv (s\<lparr>next_pid := n\<rparr>) rs bs" for n
    by (rule sched_inv_links_eq [OF inv]) (use inv in \<open>auto simp: links_eq_def sched_inv_def\<close>)
  obtain p pm1 where al: "pmm_alloc_block (task_pmm s) = (p, pm1)" by fastforce
  obtain b pm2 where al2: "pmm_alloc_block pm1 = (b, pm2)" by fastforce
  consider "entry = 0 \<or> ready_queue s = NULL \<or> space = NULL"
    | "\<not> (entry = 0 \<or> ready_queue s = NULL \<or> space = NULL)" "p = NULL"
    | "\<not> (entry = 0 \<or> ready_queue s = NULL \<or> space = NULL)" "p \<noteq> NULL" "b = NULL"
    | "\<not> (entry = 0 \<or> ready_queue s = NULL \<or> space = NULL)" "p \<noteq> NULL" "b \<noteq> NULL" by blast
  then show ?thesis
  proof cases
    case 1
    then show ?thesis using run inv by (simp add: create_task_def)
  next
    case 2
    then show ?thesis using run inv al page_alloc_null [OF pm, of pm1] by (simp add: create_task_def)
  next
    case 3
    have "pm2 = pm1" using page_alloc_null [OF page_alloc(1) [OF pm al 3(2)]] al2 3(3) by simp
    moreover have "pmm_free_block p pm1 = task_pmm s"
      using pmm_free_alloc_id [OF pm, of 1 p pm1] al 3(2) by (simp add: pmm_alloc_block_def pmm_free_block_def)
    ultimately show ?thesis using run 3 al al2 triv by (auto simp: create_task_def)
  next
    case 4
    then show ?thesis using run al al2 by (auto simp: create_task_def Let_def split: option.splits)
  qed
qed

lemma queues_add:
  assumes q: "queues s rs bs" and p: "p \<notin> set rs" "p \<notin> set bs"
    and s': "tcb s' = (tcb s)(p \<mapsto> t)" "ready_queue s' = ready_queue s" "blocked_tasks s' = blocked_tasks s"
  shows "queues s' rs bs"
  using q p unfolding queues_def s' by (auto simp: ring_def)

lemma create_task_inv:
  assumes inv: "sched_inv s rs bs" and run: "create_task entry on_exit space process ue us s = Some (p, s')"
    and p: "p \<noteq> NULL"
  shows "sched_inv s' (insert_ready p rs) bs \<and> p \<notin> set rs \<union> set bs \<and> current_task s' = current_task s \<and>
    cpu s' = cpu s \<and> (\<exists>t. unat (t_stack_bottom t) + 4096 \<le> 2 ^ 25 \<and> unat (t_stack_bottom t) mod PMM_BLOCK_SIZE = 0 \<and>
       frame_free (task_pmm s) (unat (t_stack_bottom t) div PMM_BLOCK_SIZE) \<and> cores (tcb s') p = Some (core t) \<and> t_id t = next_pid s \<and> t_process t = process \<and>
       \<not> t_kill_pending t \<and> t_on_exit t = on_exit \<and> t_address_space t = space \<and>
       t_kernel_stack_top t = t_stack_bottom t + 4096 \<and> t_esp t = t_kernel_stack_top t - 20 \<and>
       kmem s' (t_esp t + 16) = entry \<and> (\<forall>k \<in> {0, 4, 8, 12}. kmem s' (t_esp t + k) = 0))"
proof -
  note D = sched_invD [OF inv]
  obtain a pm1 where al1: "pmm_alloc_block (task_pmm s) = (a, pm1)" by fastforce
  obtain b pm2 where al2: "pmm_alloc_block pm1 = (b, pm2)" by fastforce
  let ?top = "b + 4096"
  let ?t = "\<lparr>t_esp = ?top - 20, t_next = NULL, t_blocked_next = NULL, t_id = next_pid s,
    t_stack_bottom = b, t_kernel_stack_top = ?top, t_address_space = space,
    t_process = process, t_on_exit = on_exit, t_wait_channel = NULL,
    t_state = TASK_READY, t_user_entry = ue, t_user_stack = us, t_kill_pending = False\<rparr>"
  let ?s1 = "s\<lparr>next_pid := next_pid s + 1, task_pmm := pm2, tcb := (tcb s)(a \<mapsto> ?t),
    kmem := (kmem s)(?top - 4 := entry, ?top - 8 := 0, ?top - 12 := 0, ?top - 16 := 0, ?top - 20 := 0)\<rparr>"
  have nz: "a \<noteq> NULL" "b \<noteq> NULL" and ap: "a = p" and add: "add_ready_task p ?s1 = Some s'"
    using run al1 al2 p by (auto simp: create_task_def Let_def split: if_splits)
  note new = pages_ok_add [OF D(5) al1 nz(1) al2 nz(2), of ?t, simplified]
  have pn: "p \<notin> set rs" "p \<notin> set bs" "p \<notin> retired_set s" using new(2) ap by auto
  have q1: "queues ?s1 rs bs" by (rule queues_add [OF D(1) pn(1,2)]) (simp_all add: ap)
  obtain q: "queues s' (insert_ready p rs) bs" and c: "cores (tcb s') = cores (tcb ?s1)" and f: "queue_frame ?s1 s'"
    using add_ready_task_spec [OF q1 pn(1,2) p] add by (auto simp: ap)
  note fr = queue_frameD [OF f]
  have "pages_ok (tcb s') (task_pmm s') (insert p (set rs \<union> set bs \<union> retired_set s))"
    using new(1) pages_ok_stacks [OF stacks_cores [OF c]] fr(7) ap by simp
  moreover have "set (insert_ready p rs) = insert p (set rs)" using set_insert_ready [OF queues_ne [OF D(1)]] .
  moreover have "retired_set s' = retired_set s" using fr(4) by (simp add: retired_set_def)
  ultimately have "sched_inv s' (insert_ready p rs) bs"
    using q D(2,6) pn fr(1) by (auto simp: sched_inv_def)
  moreover have "cores (tcb s') p = Some (core ?t)" using c by (simp add: ap)
  moreover have "kmem s' = kmem ?s1" by (rule fr(5))
  moreover have pm: "pmm_inv (task_pmm s)" using D(5) by (simp add: pages_ok_def)
  note a1 = page_alloc [OF pm al1 nz(1)] note a2 = page_alloc [OF a1(1) al2 nz(2)]
  ultimately show ?thesis
    using pn fr(1,6) a1(9) a2(5,6,8) by (intro conjI exI [of _ ?t]) simp_all
qed

end
