(* ===== verification/Scheduler.thy ===== *)
theory Scheduler
  imports Task
begin

text \<open>
  The scheduler as its clients see it: the start of tasking, the runs of the system as a step
  relation with its invariant, the contract of the wait channels as the locale \<open>wait_channels\<close>
  with its interpretation on the operations of task.c, and the properties of the scheduler.
\<close>

section \<open>Start\<close>

definition sched_boot :: "pmm_state \<Rightarrow> sched" where
  "sched_boot pm = \<lparr>tcb = Map.empty, current_task = NULL, ready_queue = NULL, next_pid = 1,
     retired_task = NULL, blocked_tasks = NULL, kmem = (\<lambda>_. 0),
     cpu = \<lparr>edi = 0, esi = 0, ebx = 0, ebp = 0, esp = 0x90000, eip = 0\<rparr>, tss_esp0 = 0,
     kernel_space = 0x100000, active_space = 0x100000, halted = False, task_pmm = pm\<rparr>"

lemma create_task_total:
  assumes inv: "sched_inv s rs bs"
  shows "\<exists>p s'. create_task entry on_exit space process ue us s = Some (p, s') \<and> current_task s' = current_task s"
proof -
  note D = sched_invD [OF inv]
  obtain a pm1 where al1: "pmm_alloc_block (task_pmm s) = (a, pm1)" by fastforce
  obtain b pm2 where al2: "pmm_alloc_block pm1 = (b, pm2)" by fastforce
  show ?thesis
  proof (cases "entry = 0 \<or> ready_queue s = NULL \<or> space = NULL \<or> a = NULL \<or> b = NULL")
    case True
    then show ?thesis using al1 al2 by (auto simp: create_task_def)
  next
    case False
    let ?t = "\<lparr>t_esp = b + 4096 - 20, t_next = NULL, t_blocked_next = NULL, t_id = next_pid s,
      t_stack_bottom = b, t_kernel_stack_top = b + 4096, t_address_space = space,
      t_process = process, t_on_exit = on_exit, t_wait_channel = NULL,
      t_state = TASK_READY, t_user_entry = ue, t_user_stack = us, t_kill_pending = False\<rparr>"
    let ?s1 = "s\<lparr>next_pid := next_pid s + 1, task_pmm := pm2, tcb := (tcb s)(a \<mapsto> ?t),
      kmem := (kmem s)(b + 4096 - 4 := entry, b + 4096 - 8 := 0, b + 4096 - 12 := 0,
        b + 4096 - 16 := 0, b + 4096 - 20 := 0)\<rparr>"
    have nz: "a \<noteq> NULL" "b \<noteq> NULL" using False by auto
    have pn: "a \<notin> set rs" "a \<notin> set bs"
      using pages_ok_add(2) [OF D(5) al1 nz(1) al2 nz(2), of ?t] by auto
    have "queues ?s1 rs bs" by (rule queues_add [OF D(1) pn]) simp_all
    from add_ready_task_spec [OF this pn nz(1), of ?t] obtain s' where
      s': "add_ready_task a ?s1 = Some s'" "queue_frame ?s1 s'" by auto
    have "create_task entry on_exit space process ue us s = Some (a, s')"
      using False al1 al2 s'(1) by (simp add: create_task_def)
    with queue_frameD(1) [OF s'(2)] show ?thesis by auto
  qed
qed

text \<open>The main task alone, as it stands when \<open>tasking_init\<close> creates the idle task.\<close>

lemma main_task_inv:
  assumes pm: "pmm_inv pm" and al: "pmm_alloc_block pm = (p, pm1)" "p \<noteq> NULL"
    and s: "tcb s = [p \<mapsto> t]" "current_task s = p" "ready_queue s = p" "blocked_tasks s = NULL"
      "retired_task s = NULL" "task_pmm s = pm1"
    and t: "t_next t = p" "t_state t = TASK_READY" "t_stack_bottom t = NULL"
  shows "sched_inv s [p] []"
proof -
  note a = page_alloc [OF pm al]
  have "pages_ok [p \<mapsto> t] pm1 {p}"
    using a(1,2) t(3) by (simp add: pages_ok_def task_pages_def)
  then show ?thesis
    using s t al(2) by (simp add: sched_inv_def queues_def retired_set_def ring_single nexts_def states_def)
qed

lemma tasking_init_inv:
  assumes pm: "pmm_inv pm" and al: "pmm_alloc_block pm = (p, pm1)" "p \<noteq> NULL"
  shows "\<exists>s' rs bs. tasking_init idle (sched_boot pm) = Some s' \<and> sched_inv s' rs bs \<and> current_task s' = p"
proof -
  let ?t = "\<lparr>t_esp = 0, t_next = p, t_blocked_next = NULL, t_id = 0, t_stack_bottom = NULL,
    t_kernel_stack_top = 0x90000, t_address_space = 0x100000, t_process = NULL, t_on_exit = NULL,
    t_wait_channel = NULL, t_state = TASK_READY, t_user_entry = 0, t_user_stack = 0, t_kill_pending = False\<rparr>"
  define s1 where "s1 = (sched_boot pm)\<lparr>task_pmm := pm1, tcb := (tcb (sched_boot pm))(p \<mapsto> ?t),
    current_task := p, ready_queue := p\<rparr>"
  have inv1: "sched_inv s1 [p] []"
    by (rule main_task_inv [OF pm al, where t = ?t]) (simp_all add: s1_def sched_boot_def)
  have cur1: "current_task s1 = p" by (simp add: s1_def)
  have run: "tasking_init idle (sched_boot pm) = map_option snd (create_task idle NULL 0x100000 NULL 0 0 s1)"
    using al by (simp add: tasking_init_def sched_boot_def s1_def)
  obtain q s' where c: "create_task idle NULL 0x100000 NULL 0 0 s1 = Some (q, s')" "current_task s' = p"
    using create_task_total [OF inv1, of idle NULL "0x100000" NULL 0 0] cur1 by auto
  then have init: "tasking_init idle (sched_boot pm) = Some s'" using run by simp
  show ?thesis
  proof (cases "q = NULL")
    case True
    with create_task_fails [OF inv1] c init show ?thesis by blast
  next
    case False
    with create_task_inv [OF inv1 c(1) False] c init show ?thesis by blast
  qed
qed

section \<open>Runs\<close>

text \<open>
  The transitions of the system, with the exit callbacks of the other components as a parameter.
  A halted system makes no further step.
\<close>

inductive sched_step ::
  "(ptr \<Rightarrow> ptr \<Rightarrow> int \<Rightarrow> sched \<Rightarrow> sched option) \<Rightarrow> sched \<Rightarrow> sched \<Rightarrow> bool"
  for callback where
  step_create: "create_task entry on_exit space process ue us s = Some (p, s') \<Longrightarrow> sched_step callback s s'"
| step_block: "task_block_current ch s = Some s' \<Longrightarrow> sched_step callback s s'"
| step_wake_one: "task_wake_one ch s = Some s' \<Longrightarrow> sched_step callback s s'"
| step_wake_all: "task_wake_all ch s = Some s' \<Longrightarrow> sched_step callback s s'"
| step_wake_task: "task_wake_task p s = Some s' \<Longrightarrow> sched_step callback s s'"
| step_kill: "task_kill_blocked process s = Some (n, s') \<Longrightarrow> sched_step callback s s'"
| step_schedule: "schedule s = Some s' \<Longrightarrow> sched_step callback s s'"
| step_exit: "task_exit callback status s = Some s' \<Longrightarrow> \<not> halted s' \<Longrightarrow> sched_step callback s s'"

inductive sched_reachable :: "(ptr \<Rightarrow> ptr \<Rightarrow> int \<Rightarrow> sched \<Rightarrow> sched option) \<Rightarrow> sched \<Rightarrow> bool"
  for callback where
  reach_start: "pmm_inv pm \<Longrightarrow> tasking_init idle (sched_boot pm) = Some s \<Longrightarrow> current_task s \<noteq> NULL \<Longrightarrow>
    sched_reachable callback s"
| reach_run: "sched_reachable callback s \<Longrightarrow> sched_step callback s s' \<Longrightarrow> sched_reachable callback s'"

inductive_cases sched_stepE: "sched_step callback s s'"

lemma task_exit_alone:
  assumes inv: "sched_inv s [current_task s] bs"
  shows "\<exists>s'. task_exit callback status s = Some s' \<and> halted s'"
proof -
  note D = sched_invD [OF inv]
  obtain xs ys where rs: "[current_task s] = xs @ current_task s # ys"
    and prev: "ready_previous_loop (current_task s) (current_task s) s = Some (last (current_task s # ys @ xs))"
    using queues_current [OF D(1,2)] by metis
  have "xs = []" "ys = []" using rs by (cases xs; simp)+
  then show ?thesis using prev D(3) by (simp add: task_exit_def Let_def)
qed

lemma sched_step_inv:
  assumes cb: "callback_ok callback" and step: "sched_step callback s s'" and inv: "sched_inv s rs bs"
  shows "\<exists>rs' bs'. sched_inv s' rs' bs'"
  using step
proof (cases rule: sched_step.cases)
  case (step_create entry on_exit space process ue us p)
  then show ?thesis
    using create_task_fails [OF inv, of entry on_exit space process ue us s'] create_task_inv [OF inv step_create]
    by (cases "p = NULL") auto
next
  case (step_block ch)
  then show ?thesis
    using task_block_current_inv [OF inv, of ch] task_block_current_alone [OF inv, of ch] inv
    by (cases "rs = [current_task s]") auto
next
  case (step_wake_one ch)
  then show ?thesis using task_wake_one_inv [OF inv, of ch] inv by auto
next
  case (step_wake_all ch)
  then show ?thesis using task_wake_all_inv [OF inv, of ch] by auto
next
  case (step_wake_task p)
  then show ?thesis using task_wake_task_inv [OF inv, of p] by auto
next
  case (step_kill process n)
  then show ?thesis
    using task_kill_blocked_inv [OF inv, of process] inv
    by (cases "process = NULL") (auto simp: task_kill_blocked_def)
next
  case step_schedule
  then show ?thesis using schedule_inv [OF inv] by auto
next
  case (step_exit status)
  then show ?thesis
    using task_exit_inv [OF inv _ cb, of status] task_exit_alone [of s bs callback status] inv
    by (cases "rs = [current_task s]") auto
qed

lemma tasking_init_current:
  assumes pm: "pmm_inv pm" and run: "tasking_init idle (sched_boot pm) = Some s" and c: "current_task s \<noteq> NULL"
  shows "\<exists>rs bs. sched_inv s rs bs"
proof -
  obtain p pm1 where al: "pmm_alloc_block pm = (p, pm1)" by fastforce
  have "p \<noteq> NULL" using run c al by (auto simp: tasking_init_def sched_boot_def)
  with tasking_init_inv [OF pm al, of idle] run show ?thesis by auto
qed

lemma sched_reachable_sched_inv:
  assumes "callback_ok callback" "sched_reachable callback s"
  shows "\<exists>rs bs. sched_inv s rs bs"
  using assms(2)
proof (induction rule: sched_reachable.induct)
  case (reach_start pm idle s)
  then show ?case by (rule tasking_init_current)
next
  case (reach_run s s')
  then show ?case using sched_step_inv [OF assms(1)] by blast
qed

section \<open>Round robin\<close>

fun schedule_n :: "nat \<Rightarrow> sched \<Rightarrow> sched option" where
  "schedule_n 0 s = Some s"
| "schedule_n (Suc k) s = (case schedule s of None \<Rightarrow> None | Some s' \<Rightarrow> schedule_n k s')"

lemma ring_succ_nth:
  assumes "distinct rs" "i < length rs"
  shows "ring_succ rs (rs ! i) = rs ! (Suc i mod length rs)"
proof -
  have split: "rs = take i rs @ rs ! i # drop (Suc i) rs" using assms(2) by (rule id_take_nth_drop)
  have "ring_succ (take i rs @ rs ! i # drop (Suc i) rs) (rs ! i) = hd (drop (Suc i) rs @ take i rs @ [rs ! i])"
    using assms split by (intro ring_succ_eq) simp
  then have eq: "ring_succ rs (rs ! i) = hd (drop (Suc i) rs @ take i rs @ [rs ! i])" using split by simp
  show ?thesis
  proof (cases "Suc i < length rs")
    case True
    then show ?thesis using eq by (simp add: hd_append hd_drop_conv_nth)
  next
    case False
    then have i: "Suc i = length rs" using assms(2) by simp
    then have "take i rs @ [rs ! i] = rs" using assms(2) by (metis take_Suc_conv_app_nth take_all order_refl)
    moreover have "rs \<noteq> []" using assms(2) by auto
    ultimately show ?thesis using eq i by (simp add: hd_conv_nth)
  qed
qed

lemma schedule_n_spec:
  assumes "sched_inv s rs bs" "current_task s = rs ! i" "i < length rs"
  shows "\<exists>s'. schedule_n k s = Some s' \<and> sched_inv s' rs bs \<and> current_task s' = rs ! ((i + k) mod length rs)"
  using assms
proof (induction k arbitrary: s i)
  case (Suc k)
  obtain s1 where s1: "schedule s = Some s1" "sched_inv s1 rs bs" "current_task s1 = rs ! (Suc i mod length rs)"
    using schedule_inv [OF Suc.prems(1)] ring_succ_nth [OF sched_invD(4) [OF Suc.prems(1)] Suc.prems(3)] Suc.prems(2)
    by auto
  have "Suc i mod length rs < length rs" using Suc.prems(3) by (intro mod_less_divisor) auto
  from Suc.IH [OF s1(2,3) this] s1(1) show ?case by (simp add: mod_simps)
qed simp

lemma schedule_n_reaches:
  assumes inv: "sched_inv s rs bs" and p: "p \<in> set rs"
  shows "\<exists>k < length rs. \<exists>s'. schedule_n k s = Some s' \<and> sched_inv s' rs bs \<and> current_task s' = p"
proof -
  obtain i where i: "current_task s = rs ! i" "i < length rs"
    using sched_invD(2) [OF inv] by (metis in_set_conv_nth)
  obtain j where j: "p = rs ! j" "j < length rs" using p by (metis in_set_conv_nth)
  let ?k = "(j + (length rs - i)) mod length rs"
  have "(i + ?k) mod length rs = j" using i(2) j(2) by (simp add: mod_simps)
  moreover have "?k < length rs" using j(2) by (intro mod_less_divisor) auto
  ultimately show ?thesis using schedule_n_spec [OF inv i, of ?k] j(1) by auto
qed

section \<open>Wait channels\<close>

text \<open>
  What the blocking primitives of the kernel rely on. \<open>waiting s ch\<close> is the queue of the tasks
  blocked on a channel, oldest first; \<open>ready s\<close> the set of runnable tasks, \<open>running s\<close> the one
  that runs.
\<close>

locale wait_channels =
  fixes block wake_one wake_all :: "ptr \<Rightarrow> 's \<Rightarrow> 's option"
    and inv :: "'s \<Rightarrow> bool"
    and waiting :: "'s \<Rightarrow> ptr \<Rightarrow> ptr list"
    and ready :: "'s \<Rightarrow> ptr set"
    and running :: "'s \<Rightarrow> ptr"
  assumes running_ready: "inv s \<Longrightarrow> running s \<in> ready s"
    and waiting_not_ready: "inv s \<Longrightarrow> set (waiting s ch) \<inter> ready s = {}"
    and block_spec: "inv s \<Longrightarrow> ready s \<noteq> {running s} \<Longrightarrow> \<exists>s'. block ch s = Some s' \<and> inv s' \<and>
      waiting s' = (waiting s)(ch := waiting s ch @ [running s]) \<and> ready s' = ready s - {running s}"
    and wake_one_none: "inv s \<Longrightarrow> waiting s ch = [] \<Longrightarrow> wake_one ch s = Some s"
    and wake_one_first: "inv s \<Longrightarrow> waiting s ch = p # ps \<Longrightarrow> \<exists>s'. wake_one ch s = Some s' \<and> inv s' \<and>
      waiting s' = (waiting s)(ch := ps) \<and> ready s' = insert p (ready s) \<and> running s' = running s"
    and wake_all_spec: "inv s \<Longrightarrow> \<exists>s'. wake_all ch s = Some s' \<and> inv s' \<and>
      waiting s' = (waiting s)(ch := []) \<and> ready s' = ready s \<union> set (waiting s ch) \<and> running s' = running s"
begin

text \<open>Waking one task at a time, as often as there are waiters, wakes all of them.\<close>

fun wake_n :: "nat \<Rightarrow> ptr \<Rightarrow> 's \<Rightarrow> 's option" where
  "wake_n 0 ch s = Some s"
| "wake_n (Suc n) ch s = (case wake_one ch s of None \<Rightarrow> None | Some s' \<Rightarrow> wake_n n ch s')"

lemma wake_n_all:
  "inv s \<Longrightarrow> waiting s ch = ps \<Longrightarrow> \<exists>s'. wake_n (length ps) ch s = Some s' \<and> inv s' \<and>
    waiting s' = (waiting s)(ch := []) \<and> ready s' = ready s \<union> set ps"
proof (induction ps arbitrary: s)
  case (Cons p ps)
  obtain s1 where s1: "wake_one ch s = Some s1" "inv s1" "waiting s1 = (waiting s)(ch := ps)"
    "ready s1 = insert p (ready s)" using wake_one_first [OF Cons.prems] by blast
  have "waiting s1 ch = ps" using s1(3) by simp
  from Cons.IH [OF s1(2) this] s1 show ?case by (auto simp: fun_eq_iff)
qed (auto simp: fun_upd_idem)

text \<open>A task that blocks and is woken at once is ready again, and nothing else has changed.\<close>

lemma block_then_wake:
  assumes "inv s" "ready s \<noteq> {running s}" "waiting s ch = []"
  shows "\<exists>s1 s2. block ch s = Some s1 \<and> wake_one ch s1 = Some s2 \<and> inv s2 \<and>
    waiting s2 = waiting s \<and> ready s2 = ready s"
proof -
  obtain s1 where s1: "block ch s = Some s1" "inv s1" "waiting s1 = (waiting s)(ch := [running s])"
    "ready s1 = ready s - {running s}" using block_spec [OF assms(1,2), of ch] assms(3) by auto
  obtain s2 where s2: "wake_one ch s1 = Some s2" "inv s2" "waiting s2 = (waiting s1)(ch := [])"
    "ready s2 = insert (running s) (ready s1)"
    using wake_one_first [OF s1(2), of ch "running s" "[]"] s1(3) by auto
  have "waiting s2 = waiting s" using s1(3) s2(3) assms(3) by auto
  moreover have "ready s2 = ready s" using s1(4) s2(4) running_ready [OF assms(1)] by auto
  ultimately show ?thesis using s1(1) s2(1,2) by blast
qed

end

definition sched_ok :: "sched \<Rightarrow> bool" where
  "sched_ok s \<longleftrightarrow> (\<exists>rs bs. sched_inv s rs bs)"

definition blocked_list :: "sched \<Rightarrow> ptr list" where
  "blocked_list s = (THE bs. \<exists>rs. sched_inv s rs bs)"

definition ready_list :: "sched \<Rightarrow> ptr list" where
  "ready_list s = (THE rs. \<exists>bs. sched_inv s rs bs)"

lemma path_to_unique:
  "path f x as y \<Longrightarrow> path f x bs y \<Longrightarrow> y \<notin> set as \<Longrightarrow> y \<notin> set bs \<Longrightarrow> as = bs"
proof (induction as arbitrary: x bs)
  case Nil
  then show ?case by (cases bs) auto
next
  case (Cons a as)
  then show ?case by (cases bs) auto
qed

lemma ring_unique: "ring f as \<Longrightarrow> ring f bs \<Longrightarrow> hd as = hd bs \<Longrightarrow> as = bs"
  by (cases as; cases bs) (auto simp: ring_def intro: path_to_unique)

lemma sched_inv_unique:
  assumes "sched_inv s rs bs" "sched_inv s rs' bs'"
  shows "rs' = rs" "bs' = bs"
proof -
  show "rs' = rs"
    using assms by (intro ring_unique [of "nexts (tcb s)"]) (auto simp: sched_inv_def queues_def)
  show "bs' = bs"
    using assms by (intro path_fun [of "bnexts (tcb s)" "blocked_tasks s"]) (auto simp: sched_inv_def queues_def)
qed

lemma lists_eq:
  assumes "sched_inv s rs bs"
  shows "ready_list s = rs" "blocked_list s = bs"
proof -
  show "ready_list s = rs"
    unfolding ready_list_def using assms sched_inv_unique [OF assms] by (intro the_equality) blast+
  show "blocked_list s = bs"
    unfolding blocked_list_def using assms sched_inv_unique [OF assms] by (intro the_equality) blast+
qed

definition sched_waiting :: "sched \<Rightarrow> ptr \<Rightarrow> ptr list" where
  "sched_waiting s ch = waiting_on ch (tcb s) (blocked_list s)"

definition sched_ready :: "sched \<Rightarrow> ptr set" where
  "sched_ready s = set (ready_list s)"

lemma waiting_eq: "sched_inv s rs bs \<Longrightarrow> sched_waiting s ch = waiting_on ch (tcb s) bs"
  by (simp add: sched_waiting_def lists_eq)

lemma ready_eq: "sched_inv s rs bs \<Longrightarrow> sched_ready s = set rs"
  by (simp add: sched_ready_def lists_eq)

lemma waiting_on_split:
  assumes "waiting_on ch m bs = p # ps"
  obtains cs ds where "bs = cs @ p # ds" "\<forall>q \<in> set cs. chans m q \<noteq> Some ch" "chans m p = Some ch"
    "waiting_on ch m ds = ps"
  using assms unfolding waiting_on_def by (auto simp: filter_eq_Cons_iff)

lemma waiting_on_cong:
  "(\<And>p. p \<in> set bs \<Longrightarrow> chans m' p = chans m p) \<Longrightarrow> waiting_on ch m' bs = waiting_on ch m bs"
  by (auto simp: waiting_on_def intro: filter_cong)

lemma waiting_on_other:
  "waiting_on d m (filter (\<lambda>p. chans m p \<noteq> Some ch) bs) = (if d = ch then [] else waiting_on d m bs)"
  by (auto simp: waiting_on_def filter_empty_conv intro!: filter_cong)

lemma sched_block:
  assumes inv: "sched_inv s rs bs" and other: "set rs \<noteq> {current_task s}"
  shows "\<exists>s'. task_block_current ch s = Some s' \<and> sched_ok s' \<and>
    sched_waiting s' = (sched_waiting s)(ch := sched_waiting s ch @ [current_task s]) \<and>
    sched_ready s' = sched_ready s - {current_task s}"
proof -
  let ?c = "current_task s"
  note D = sched_invD [OF inv]
  have "rs \<noteq> [?c]" using other by auto
  then obtain s' where s': "task_block_current ch s = Some s'" "sched_inv s' (remove1 ?c rs) (bs @ [?c])"
    "chans (tcb s') = (chans (tcb s))(?c \<mapsto> ch)" using task_block_current_inv [OF inv] by blast
  have c: "?c \<notin> set bs" using D(1,2) by (auto simp: queues_def)
  have "waiting_on d (tcb s') bs = waiting_on d (tcb s) bs" for d
    using c s'(3) by (intro waiting_on_cong) auto
  then have "waiting_on d (tcb s') (bs @ [?c]) = waiting_on d (tcb s) bs @ (if d = ch then [?c] else [])" for d
    using s'(3) by (simp add: waiting_on_def)
  then have "sched_waiting s' = (sched_waiting s)(ch := sched_waiting s ch @ [?c])"
    by (auto simp: waiting_eq [OF inv] waiting_eq [OF s'(2)] fun_eq_iff)
  then show ?thesis
    using s' D(4) by (auto simp: sched_ok_def ready_eq [OF inv] ready_eq [OF s'(2)])
qed

lemma sched_wake_one:
  assumes inv: "sched_inv s rs bs" and w: "waiting_on ch (tcb s) bs = p # ps"
  shows "\<exists>s'. task_wake_one ch s = Some s' \<and> sched_ok s' \<and> sched_waiting s' = (sched_waiting s)(ch := ps) \<and>
    sched_ready s' = insert p (sched_ready s) \<and> current_task s' = current_task s"
proof -
  note D = sched_invD [OF inv]
  from w have ne: "\<not> (\<forall>p \<in> set bs. chans (tcb s) p \<noteq> Some ch)"
    by (metis (mono_tags, lifting) filter_False list.discI waiting_on_def)
  with task_wake_one_inv [OF inv, of ch] obtain cs q ds s' where s': "bs = cs @ q # ds"
    "\<forall>r \<in> set cs. chans (tcb s) r \<noteq> Some ch" "chans (tcb s) q = Some ch" "task_wake_one ch s = Some s'"
    "sched_inv s' (insert_ready q rs) (cs @ ds)" "chans (tcb s') = (chans (tcb s))(q \<mapsto> NULL)" "queue_frame s s'"
    by blast
  have cs: "waiting_on ch (tcb s) cs = []" using s'(2) by (simp add: waiting_on_def filter_empty_conv)
  have q: "q = p" "ps = waiting_on ch (tcb s) ds" using w s'(1,3) cs by (auto simp: waiting_on_def)
  have "q \<notin> set (cs @ ds)" using D(1) s'(1) by (auto simp: queues_def)
  then have "waiting_on d (tcb s') (cs @ ds) = waiting_on d (tcb s) (cs @ ds)" for d
    using s'(6) by (intro waiting_on_cong) auto
  moreover have "waiting_on d (tcb s) (cs @ ds) = (if d = ch then ps else waiting_on d (tcb s) bs)" for d
    using cs q s'(1,3) by (auto simp: waiting_on_def)
  ultimately have "sched_waiting s' = (sched_waiting s)(ch := ps)"
    by (auto simp: waiting_eq [OF inv] waiting_eq [OF s'(5)] fun_eq_iff)
  then show ?thesis
    using s' q queue_frameD(1) [OF s'(7)] set_insert_ready [OF queues_ne [OF D(1)]]
    by (auto simp: sched_ok_def ready_eq [OF inv] ready_eq [OF s'(5)])
qed

lemma sched_wake_all:
  assumes inv: "sched_inv s rs bs"
  shows "\<exists>s'. task_wake_all ch s = Some s' \<and> sched_ok s' \<and> sched_waiting s' = (sched_waiting s)(ch := []) \<and>
    sched_ready s' = sched_ready s \<union> set (sched_waiting s ch) \<and> current_task s' = current_task s"
proof -
  let ?bs = "filter (\<lambda>p. chans (tcb s) p \<noteq> Some ch) bs"
  obtain s' where s': "task_wake_all ch s = Some s'"
    "sched_inv s' (insert_all_ready (waiting_on ch (tcb s) bs) rs) ?bs"
    "chans (tcb s') = cleared (waiting_on ch (tcb s) bs) (chans (tcb s))" "queue_frame s s'"
    using task_wake_all_inv [OF inv, of ch] by blast
  have "waiting_on d (tcb s') ?bs = waiting_on d (tcb s) ?bs" for d
    using s'(3) by (intro waiting_on_cong) (auto simp: cleared_def waiting_on_def)
  then have "sched_waiting s' = (sched_waiting s)(ch := [])"
    by (auto simp: waiting_eq [OF inv] waiting_eq [OF s'(2)] waiting_on_other fun_eq_iff)
  then show ?thesis
    using s' queue_frameD(1) [OF s'(4)] set_insert_all_ready [OF queues_ne [OF sched_invD(1) [OF inv]]]
    by (auto simp: sched_ok_def ready_eq [OF inv] ready_eq [OF s'(2)] waiting_eq [OF inv])
qed

interpretation sched: wait_channels task_block_current task_wake_one task_wake_all sched_ok
  sched_waiting sched_ready current_task
proof unfold_locales
  fix s :: sched and ch p :: ptr and ps :: "ptr list"
  assume "sched_ok s"
  then obtain rs bs where inv: "sched_inv s rs bs" by (auto simp: sched_ok_def)
  note D = sched_invD [OF inv]
  note eqs = waiting_eq [OF inv] ready_eq [OF inv]
  show "current_task s \<in> sched_ready s" using D(2) by (simp add: eqs)
  show "set (sched_waiting s ch) \<inter> sched_ready s = {}"
    using D(1) by (auto simp: eqs waiting_on_def queues_def)
  show "\<exists>s'. task_block_current ch s = Some s' \<and> sched_ok s' \<and>
      sched_waiting s' = (sched_waiting s)(ch := sched_waiting s ch @ [current_task s]) \<and>
      sched_ready s' = sched_ready s - {current_task s}"
    if "sched_ready s \<noteq> {current_task s}"
    using sched_block [OF inv] that by (simp add: eqs(2))
  show "task_wake_one ch s = Some s" if "sched_waiting s ch = []"
    using task_wake_one_inv [OF inv, of ch] that by (auto simp: eqs waiting_on_def filter_empty_conv)
  show "\<exists>s'. task_wake_one ch s = Some s' \<and> sched_ok s' \<and> sched_waiting s' = (sched_waiting s)(ch := ps) \<and>
      sched_ready s' = insert p (sched_ready s) \<and> current_task s' = current_task s"
    if "sched_waiting s ch = p # ps"
    using sched_wake_one [OF inv] that by (simp add: eqs(1))
  show "\<exists>s'. task_wake_all ch s = Some s' \<and> sched_ok s' \<and> sched_waiting s' = (sched_waiting s)(ch := []) \<and>
      sched_ready s' = sched_ready s \<union> set (sched_waiting s ch) \<and> current_task s' = current_task s"
    by (rule sched_wake_all [OF inv])
qed

text \<open>Ending the running task, and blocking when no other task can run, add no waiter.\<close>

lemma sched_exit:
  assumes ok: "sched_ok s" and cb: "callback_ok callback"
  shows "\<exists>s'. task_exit callback status s = Some s' \<and>
    (halted s' \<or> sched_ok s' \<and> (\<forall>ch. set (sched_waiting s' ch) \<subseteq> set (sched_waiting s ch)))"
proof -
  obtain rs bs where inv: "sched_inv s rs bs" using ok by (auto simp: sched_ok_def)
  show ?thesis
  proof (cases "rs = [current_task s]")
    case True
    then show ?thesis using task_exit_alone [of s bs callback status] inv by auto
  next
    case False
    then obtain s' rs' bs' where s': "task_exit callback status s = Some s'" "sched_inv s' rs' bs'"
      "\<forall>q \<in> set bs'. q \<in> set bs \<and> chans (tcb s') q = chans (tcb s) q"
      using task_exit_inv [OF inv _ cb, of status] by blast
    then have "set (sched_waiting s' ch) \<subseteq> set (sched_waiting s ch)" for ch
      by (auto simp: waiting_eq [OF inv] waiting_eq [OF s'(2)] waiting_on_def)
    with s' show ?thesis by (auto simp: sched_ok_def)
  qed
qed

lemma sched_block_any:
  assumes ok: "sched_ok s"
  shows "\<exists>s'. task_block_current ch s = Some s' \<and> sched_ok s' \<and>
    (sched_waiting s' = (sched_waiting s)(ch := sched_waiting s ch @ [current_task s]) \<or>
     sched_waiting s' = sched_waiting s)"
proof (cases "sched_ready s = {current_task s}")
  case True
  obtain rs bs where inv: "sched_inv s rs bs" using ok by (auto simp: sched_ok_def)
  have "set rs = {current_task s}" "distinct rs" using True ready_eq [OF inv] sched_invD(4) [OF inv] by auto
  then have "rs = [current_task s]"
    by (cases rs; cases "tl rs") auto
  with task_block_current_alone [OF inv] ok show ?thesis by auto
next
  case False
  with sched.block_spec [OF ok, of ch] show ?thesis by auto
qed

section \<open>Context switches\<close>

lemmas switch_eval = switch_task_def push_def pop_esp_def pop_val_def upd_task_def Let_def

lemma switch_task_regs:
  assumes "tcb s p = Some t" and e: "e = esp (cpu s)"
    and dis: "\<forall>k \<in> {0, 4, 8, 12, 16}. \<forall>j \<in> {4, 8, 12, 16}. n + k \<noteq> e - j"
  shows "\<exists>s'. switch_task p n s = Some s' \<and>
    cpu s' = \<lparr>edi = kmem s n, esi = kmem s (n + 4), ebx = kmem s (n + 8), ebp = kmem s (n + 12),
      esp = n + 20, eip = kmem s (n + 16)\<rparr>"
  using assms by (auto simp: switch_eval add.commute intro!: cpu.equality)

text \<open>The words of the frame \<open>create_task\<close> builds lie in the new stack page.\<close>

lemma stack_word_frame:
  assumes "unat b mod PMM_BLOCK_SIZE = 0" "unat b + 4096 \<le> 2 ^ 25" and k: "k \<in> {0, 4, 8, 12, 16 :: u32}"
  shows "unat (b + 4096 - 20 + k) div PMM_BLOCK_SIZE = unat b div PMM_BLOCK_SIZE"
proof -
  have eq: "b + 4096 - 20 + k = b + (4076 + k)" by simp
  have k': "unat (4076 + k) = 4076 + unat k" "unat k \<le> 16" using k by auto
  then have "unat (b + (4076 + k)) = unat b + (4076 + unat k)"
    using assms(2) by (simp add: unat_add_no_wrap)
  then show ?thesis unfolding eq using assms(1) k'(2) by (auto simp: PMM_BLOCK_SIZE_def elim!: dvdE)
qed

section \<open>Properties\<close>

text \<open>
  C2. The scheduler's data structures are sound in every state a run of the system reaches: the
  runnable tasks form one ring that contains the running task, the waiting tasks one queue, no
  task is in both or twice, every control block and stack is a page in use that no other task
  has, and a task that has exited is in neither list. Every operation is defined in such a state:
  no walk follows a null or dangling pointer and none fails to end.
\<close>

theorem sched_reachable_sound:
  assumes "callback_ok callback" and "sched_reachable callback s"
  shows "\<exists>rs bs. sched_inv s rs bs \<and> (\<exists>s'. schedule s = Some s') \<and> (\<exists>s'. task_block_current ch s = Some s') \<and>
    (\<exists>s'. task_wake_one ch s = Some s') \<and> (\<exists>s'. task_wake_all ch s = Some s') \<and>
    (\<exists>s'. task_wake_task p s = Some s') \<and> (\<exists>n s'. task_kill_blocked p s = Some (n, s')) \<and>
    (\<exists>s'. task_exit callback status s = Some s') \<and>
    (\<exists>q s'. create_task entry on_exit space p ue us s = Some (q, s'))"
proof -
  obtain rs bs where inv: "sched_inv s rs bs" using sched_reachable_sched_inv [OF assms] by blast
  have "\<exists>s'. task_block_current ch s = Some s'"
    using task_block_current_inv [OF inv, of ch] task_block_current_alone [OF inv, of ch] by blast
  moreover have "\<exists>s'. task_wake_one ch s = Some s'" using task_wake_one_inv [OF inv, of ch] by blast
  moreover have "\<exists>n s'. task_kill_blocked p s = Some (n, s')"
    using task_kill_blocked_inv [OF inv, of p] by (cases "p = NULL") (auto simp: task_kill_blocked_def)
  moreover have "\<exists>s'. task_exit callback status s = Some s'"
    using task_exit_inv [OF inv _ assms(1), of status] task_exit_alone [of s bs callback status] inv
    by (cases "rs = [current_task s]") auto
  moreover have "\<exists>s'. schedule s = Some s'" using schedule_inv [OF inv] by blast
  moreover have "\<exists>s'. task_wake_all ch s = Some s'" using task_wake_all_inv [OF inv, of ch] by blast
  moreover have "\<exists>s'. task_wake_task p s = Some s'" using task_wake_task_inv [OF inv, of p] by blast
  moreover have "\<exists>q s'. create_task entry on_exit space p ue us s = Some (q, s')"
    using create_task_total [OF inv] by blast
  ultimately show ?thesis using inv by blast
qed

text \<open>
  C16. Round robin: no runnable task starves. From any sound state, every task of the ring runs
  after fewer calls of \<open>schedule\<close> than there are runnable tasks, the queues unchanged.
\<close>

theorem schedule_round_robin:
  assumes inv: "sched_inv s rs bs" and p: "p \<in> set rs"
  shows "\<exists>k < length rs. \<exists>s'. schedule_n k s = Some s' \<and> sched_inv s' rs bs \<and> current_task s' = p"
  using assms by (rule schedule_n_reaches)

text \<open>
  C15. Wake-ups are fair. \<open>task_wake_one\<close> makes exactly the oldest waiter of the channel runnable:
  it goes right behind the head of the ring, all other waiting tasks keep their order and their
  channels; with no waiter nothing changes.
\<close>

theorem task_wake_one_fifo:
  assumes inv: "sched_inv s rs bs"
  shows "case waiting_on ch (tcb s) bs of
      [] \<Rightarrow> task_wake_one ch s = Some s
    | p # ps \<Rightarrow> \<exists>s'. task_wake_one ch s = Some s' \<and> sched_inv s' (hd rs # p # tl rs) (remove1 p bs) \<and>
        waiting_on ch (tcb s') (remove1 p bs) = ps \<and> current_task s' = current_task s"
proof (cases "waiting_on ch (tcb s) bs")
  case Nil
  then show ?thesis using task_wake_one_inv [OF inv, of ch] by (auto simp: waiting_on_def filter_empty_conv)
next
  case (Cons p ps)
  then have ne: "\<not> (\<forall>p \<in> set bs. chans (tcb s) p \<noteq> Some ch)"
    by (metis (mono_tags, lifting) filter_False list.discI waiting_on_def)
  with task_wake_one_inv [OF inv, of ch] obtain cs q ds s' where s': "bs = cs @ q # ds"
    "\<forall>r \<in> set cs. chans (tcb s) r \<noteq> Some ch" "chans (tcb s) q = Some ch" "task_wake_one ch s = Some s'"
    "sched_inv s' (insert_ready q rs) (cs @ ds)" "queue_frame s s'" by blast
  have q: "q = p" using Cons s'(1-3) by (auto simp: waiting_on_def filter_empty_conv)
  have rem: "remove1 p bs = cs @ ds"
    using s'(1) q sched_invD(1) [OF inv] by (auto simp: queues_def remove1_append)
  obtain s1 where "task_wake_one ch s = Some s1" "sched_waiting s1 ch = ps"
    using sched_wake_one [OF inv Cons] by auto
  then have "waiting_on ch (tcb s') (cs @ ds) = ps" using s'(4) waiting_eq [OF s'(5)] by simp
  with Cons s' q rem queue_frameD(1) [OF s'(6)] show ?thesis by (simp add: insert_ready_def)
qed

text \<open>
  C17. A kill reaches every task of the process. After \<open>task_kill_blocked\<close> each task of the process
  is runnable and marked, none of them waits any more, the result counts the woken ones, and the
  tasks of other processes keep their place in the queue and their marks.
\<close>

theorem task_kill_blocked_complete:
  assumes inv: "sched_inv s rs bs" and p: "process \<noteq> NULL"
  shows "\<exists>s' rs'. task_kill_blocked process s =
      Some (of_nat (length (of_process process (tcb s) bs)), s') \<and>
    sched_inv s' rs' (filter (\<lambda>q. procs (tcb s) q \<noteq> Some process) bs) \<and>
    set rs' = set rs \<union> set (of_process process (tcb s) bs) \<and>
    (\<forall>q \<in> set rs \<union> set bs. kills (tcb s') q =
       (if procs (tcb s) q = Some process then Some True else kills (tcb s) q))"
proof -
  let ?v = "of_process process (tcb s) bs"
  obtain s' where s': "task_kill_blocked process s = Some (of_nat (length ?v), s')"
    "sched_inv s' (insert_all_ready ?v rs) (filter (\<lambda>q. procs (tcb s) q \<noteq> Some process) bs)"
    "kills (tcb s') = flagged (set (of_process process (tcb s) (rs @ bs))) (kills (tcb s))"
    using task_kill_blocked_inv [OF inv p] by blast
  have "set (insert_all_ready ?v rs) = set rs \<union> set ?v"
    using set_insert_all_ready [OF queues_ne [OF sched_invD(1) [OF inv]]] by auto
  moreover have "\<forall>q \<in> set rs \<union> set bs. kills (tcb s') q =
      (if procs (tcb s) q = Some process then Some True else kills (tcb s) q)"
    unfolding s'(3) by (auto simp: flagged_def of_process_def)
  ultimately show ?thesis using s'(1,2) by blast
qed

text \<open>
  C22. A new task starts where it should. After \<open>create_task\<close>, the first switch to the task, from a
  kernel stack that is not in free frames, continues at the entry point with zeroed registers and
  an empty kernel stack.
\<close>

theorem create_task_starts_at_entry:
  assumes inv: "sched_inv s rs bs" and run: "create_task entry on_exit space process ue us s = Some (p, s')"
    and p: "p \<noteq> NULL"
    and stack: "\<forall>j \<in> {4, 8, 12, 16}. \<not> frame_free (task_pmm s) (unat (esp (cpu s) - j) div PMM_BLOCK_SIZE)"
  shows "\<exists>t s''. tcb s' p = Some t \<and> switch_task (current_task s') (t_esp t) s' = Some s'' \<and>
    cpu s'' = \<lparr>edi = 0, esi = 0, ebx = 0, ebp = 0, esp = t_kernel_stack_top t, eip = entry\<rparr>"
proof -
  obtain t' where c: "sched_inv s' (insert_ready p rs) bs" "current_task s' = current_task s" "cpu s' = cpu s"
    "unat (t_stack_bottom t') + 4096 \<le> 2 ^ 25" "unat (t_stack_bottom t') mod PMM_BLOCK_SIZE = 0"
    "frame_free (task_pmm s) (unat (t_stack_bottom t') div PMM_BLOCK_SIZE)"
    "cores (tcb s') p = Some (core t')" "t_kernel_stack_top t' = t_stack_bottom t' + 4096"
    "t_esp t' = t_kernel_stack_top t' - 20" "kmem s' (t_esp t' + 16) = entry"
    "\<forall>k \<in> {0, 4, 8, 12}. kmem s' (t_esp t' + k) = 0"
    using create_task_inv [OF inv run p] by (elim conjE exE) (rule that; assumption)
  obtain t where t: "tcb s' p = Some t" "t_esp t = t_esp t'" "t_kernel_stack_top t = t_kernel_stack_top t'"
    using c(7) by (auto simp: cores_def core_def)
  obtain tc where tc: "tcb s' (current_task s') = Some tc"
    using queues_task [OF sched_invD(1) [OF c(1)]] sched_invD(2) [OF c(1)] by blast
  have "\<forall>k \<in> {0, 4, 8, 12, 16}. \<forall>j \<in> {4, 8, 12, 16}. t_esp t' + k \<noteq> esp (cpu s') - j"
    using stack c(3,6) stack_word_frame [OF c(5,4)] unfolding c(8,9) by metis
  from switch_task_regs [OF tc refl this] c(8-11) t show ?thesis by auto
qed

text \<open>
  C23. A task that is switched away resumes exactly where it left: the next switch to it, its four
  saved words and its return address untouched in between, restores its registers and stack
  pointer and returns to the caller of \<open>switch_task\<close>.
\<close>

theorem switch_task_resumes:
  assumes away: "switch_task p n s = Some s1" "tcb s1 p = Some tp"
    and other: "tcb s2 q = Some tq"
    and kept: "\<forall>k \<in> {0, 4, 8, 12, 16}. kmem s2 (t_esp tp + k) = kmem s1 (t_esp tp + k)"
    and apart: "\<forall>k \<in> {0, 4, 8, 12, 16}. \<forall>j \<in> {4, 8, 12, 16}. t_esp tp + k \<noteq> esp (cpu s2) - j"
  shows "\<exists>s3. switch_task q (t_esp tp) s2 = Some s3 \<and>
    cpu s3 = (cpu s)\<lparr>esp := esp (cpu s) + 4, eip := kmem s (esp (cpu s))\<rparr>"
proof -
  obtain t where t: "tcb s p = Some t"
    using away(1) by (auto simp: switch_eval split: option.splits)
  have e: "t_esp tp = esp (cpu s) - 16"
    using away t by (auto simp: switch_eval)
  have "kmem s1 (esp (cpu s) - 16) = edi (cpu s)" "kmem s1 (esp (cpu s) - 12) = esi (cpu s)"
    "kmem s1 (esp (cpu s) - 8) = ebx (cpu s)" "kmem s1 (esp (cpu s) - 4) = ebp (cpu s)"
    "kmem s1 (esp (cpu s)) = kmem s (esp (cpu s))"
    using away t by (auto simp: switch_eval)
  moreover obtain s3 where "switch_task q (t_esp tp) s2 = Some s3"
    "cpu s3 = \<lparr>edi = kmem s2 (t_esp tp), esi = kmem s2 (t_esp tp + 4), ebx = kmem s2 (t_esp tp + 8),
      ebp = kmem s2 (t_esp tp + 12), esp = t_esp tp + 20, eip = kmem s2 (t_esp tp + 16)\<rparr>"
    using switch_task_regs [OF other refl apart] by blast
  ultimately show ?thesis
    using kept unfolding e by (auto intro!: cpu.equality)
qed

section \<open>A small system\<close>

text \<open>
  Tasking on the 16 KB machine: the main task at 4096, the idle task at 8192 with its stack at
  12288, entered at 0xC0DE.
\<close>

lemma pmm_small_allocs:
  "fst (pmm_alloc_block pmm_small) = 4096"
  "fst (pmm_alloc_block (snd (pmm_alloc_block pmm_small))) = 8192"
  "fst (pmm_alloc_block (snd (pmm_alloc_block (snd (pmm_alloc_block pmm_small))))) = 12288"
  by (simp_all add: pmm_small_def pmm_alloc_block_def pmm_eval upt_rec nth_list_update)

definition sched_main :: sched where
  "sched_main = (sched_boot pmm_small)\<lparr>task_pmm := snd (pmm_alloc_block pmm_small), tcb := [4096 \<mapsto>
     \<lparr>t_esp = 0, t_next = 4096, t_blocked_next = NULL, t_id = 0, t_stack_bottom = NULL,
      t_kernel_stack_top = 0x90000, t_address_space = 0x100000, t_process = NULL, t_on_exit = NULL,
      t_wait_channel = NULL, t_state = TASK_READY, t_user_entry = 0, t_user_stack = 0, t_kill_pending = False\<rparr>],
     current_task := 4096, ready_queue := 4096\<rparr>"

definition sched_demo :: sched where
  "sched_demo = snd (the (create_task 0xC0DE NULL 0x100000 NULL 0 0 sched_main))"

lemma pmm_small_alloc_block: "pmm_alloc_block pmm_small = (4096, snd (pmm_alloc_block pmm_small))"
  using pmm_small_allocs(1) by (simp add: prod_eq_iff)

lemma sched_main_inv: "sched_inv sched_main [4096] []"
  by (rule main_task_inv [OF pmm_small_inv pmm_small_alloc_block]) (simp add: sched_main_def sched_boot_def)+

lemma sched_demo_run: "create_task 0xC0DE NULL 0x100000 NULL 0 0 sched_main = Some (8192, sched_demo)"
proof -
  obtain p s where run: "create_task 0xC0DE NULL 0x100000 NULL 0 0 sched_main = Some (p, s)"
    using create_task_total [OF sched_main_inv] by blast
  have "task_pmm sched_main = snd (pmm_alloc_block pmm_small)" "ready_queue sched_main = 4096"
    by (simp_all add: sched_main_def)
  then have "p = 8192"
    using run pmm_small_allocs(2,3)
    by (auto simp: create_task_def Let_def split: prod.splits if_splits)
  then show ?thesis using run by (simp add: sched_demo_def)
qed

lemma sched_demo_inv: "sched_inv sched_demo [4096, 8192] []" "current_task sched_demo = 4096"
  using create_task_inv [OF sched_main_inv sched_demo_run]
  by (simp_all add: insert_ready_def) (simp add: sched_main_def)

lemma sched_demo_reachable: "sched_reachable callback sched_demo"
proof (rule reach_start [OF pmm_small_inv])
  obtain pm1 where "pmm_alloc_block pmm_small = (4096, pm1)" using pmm_small_alloc_block by blast
  then have "tasking_init 0xC0DE (sched_boot pmm_small) =
      map_option snd (create_task 0xC0DE NULL 0x100000 NULL 0 0 sched_main)"
    by (simp add: tasking_init_def sched_boot_def sched_main_def)
  then show "tasking_init 0xC0DE (sched_boot pmm_small) = Some sched_demo" by (simp add: sched_demo_run)
  show "current_task sched_demo \<noteq> NULL" by (simp add: sched_demo_inv)
qed

text \<open>The main task then waits on channel 77.\<close>

definition sched_wait :: sched where
  "sched_wait = the (task_block_current 77 sched_demo)"

lemma sched_wait_spec:
  "sched_inv sched_wait [8192] [4096]" "waiting_on 77 (tcb sched_wait) [4096] = [4096]"
  "procs (tcb sched_wait) = procs (tcb sched_demo)"
proof -
  obtain s where "task_block_current 77 sched_demo = Some s" "sched_inv s [8192] [4096]"
    "chans (tcb s) = (chans (tcb sched_demo))(4096 \<mapsto> 77)" "procs (tcb s) = procs (tcb sched_demo)"
    using task_block_current_inv [OF sched_demo_inv(1), of 77] by (auto simp: sched_demo_inv(2))
  then show "sched_inv sched_wait [8192] [4096]" "waiting_on 77 (tcb sched_wait) [4096] = [4096]"
    "procs (tcb sched_wait) = procs (tcb sched_demo)"
    by (simp_all add: sched_wait_def waiting_on_def)
qed

text \<open>An exit callback as the process component has it: it wakes the tasks that wait for the exit.\<close>

lemma wake_callback_ok: "callback_ok (\<lambda>f p status. task_wake_all 55)"
  unfolding callback_ok_def
proof (intro allI impI)
  fix s rs bs assume inv: "sched_inv s rs bs"
  obtain s' where s': "task_wake_all 55 s = Some s'"
    "sched_inv s' (insert_all_ready (waiting_on 55 (tcb s) bs) rs) (filter (\<lambda>p. chans (tcb s) p \<noteq> Some 55) bs)"
    "chans (tcb s') = cleared (waiting_on 55 (tcb s) bs) (chans (tcb s))"
    "queue_frame s s'" using task_wake_all_inv [OF inv] by blast
  then show "\<exists>s' rs' bs'. task_wake_all 55 s = Some s' \<and> sched_inv s' rs' bs' \<and> current_task s' = current_task s \<and>
      retired_task s' = retired_task s \<and> set rs \<subseteq> set rs' \<and> set rs' \<union> set bs' = set rs \<union> set bs \<and>
      (\<forall>q \<in> set bs'. q \<in> set bs \<and> chans (tcb s') q = chans (tcb s) q)"
    using queue_frameD(1,4) [OF s'(4)] set_insert_all_ready [OF queues_ne [OF sched_invD(1) [OF inv]]]
    by (intro exI [of _ s'] exI [of _ "insert_all_ready (waiting_on 55 (tcb s) bs) rs"]
        exI [of _ "filter (\<lambda>p. chans (tcb s) p \<noteq> Some 55) bs"]) (auto simp: waiting_on_def cleared_def)
qed

text \<open>Tasks with given links, and a machine whose three pages are in use, for explicit states.\<close>

definition demo_task :: "ptr \<Rightarrow> ptr \<Rightarrow> ptr \<Rightarrow> ptr \<Rightarrow> task_state \<Rightarrow> task" where
  "demo_task nxt bnxt process ch state =
     \<lparr>t_esp = 0x80000, t_next = nxt, t_blocked_next = bnxt, t_id = 0, t_stack_bottom = NULL,
      t_kernel_stack_top = 0x90000, t_address_space = 0x100000, t_process = process, t_on_exit = NULL,
      t_wait_channel = ch, t_state = state, t_user_entry = 0, t_user_stack = 0, t_kill_pending = False\<rparr>"

definition pmm_three :: pmm_state where
  "pmm_three = snd (pmm_alloc_block (snd (pmm_alloc_block (snd (pmm_alloc_block pmm_small)))))"

lemma pmm_three_pages:
  "page_used pmm_three 4096" "page_used pmm_three 8192" "page_used pmm_three 12288" "pmm_inv pmm_three"
proof -
  define p1 where "p1 = snd (pmm_alloc_block pmm_small)"
  define p2 where "p2 = snd (pmm_alloc_block p1)"
  have a: "pmm_alloc_block pmm_small = (4096, p1)" "pmm_alloc_block p1 = (8192, p2)"
    "pmm_alloc_block p2 = (12288, pmm_three)"
    using pmm_small_allocs by (simp_all add: p1_def p2_def pmm_three_def prod_eq_iff)
  show "page_used pmm_three 4096" "page_used pmm_three 8192" "page_used pmm_three 12288" "pmm_inv pmm_three"
    using page_alloc [OF pmm_small_inv a(1)] page_alloc [OF _ a(2)] page_alloc [OF _ a(3)] by auto
qed

text \<open>The main task runs, a second task is ready.\<close>

definition sched_pair :: sched where
  "sched_pair = (sched_boot pmm_three)\<lparr>tcb := [4096 \<mapsto> demo_task 8192 NULL NULL NULL TASK_READY,
     8192 \<mapsto> demo_task 4096 NULL 500 NULL TASK_READY], current_task := 4096, ready_queue := 4096\<rparr>"

lemma sched_pair_inv: "sched_inv sched_pair [4096, 8192] []"
  using pmm_three_pages
  by (auto simp: sched_inv_def queues_def ring_def pages_ok_def retired_set_def task_pages_def sched_pair_def
    demo_task_def nexts_def bnexts_def states_def sched_boot_def)

lemmas sched_eval = task_block_current_def task_wake_one_def wake_one_loop.simps task_wake_all_def wake_all_loop.simps
  read_link_def write_link_def upd_task_def add_ready_task_def task_kill_blocked_def mark_ring_loop.simps mark_kill_def
  kill_loop.simps find_ready_previous_def ready_previous_loop.simps append_blocked_def last_blocked.simps
  schedule_def reap_retired_task_def switch_to_def activate_task_def switch_eval set_kernel_stack_def
  task_activate_space_def task_kill_pending_def task_exit_def demo_task_def sched_boot_def

theorem sched_reachable_sound_witness:
  "callback_ok (\<lambda>f p status. task_wake_all 55) \<and> sched_reachable (\<lambda>f p status. task_wake_all 55) sched_demo \<and>
   (\<exists>rs bs. sched_inv sched_demo rs bs) \<and> (\<exists>s'. task_exit (\<lambda>f p status. task_wake_all 55) 0 sched_demo = Some s')"
  using sched_reachable_sound [OF wake_callback_ok sched_demo_reachable, of 0 0 0] wake_callback_ok sched_demo_reachable
  by blast

theorem schedule_round_robin_witness:
  "sched_inv sched_demo [4096, 8192] [] \<and>
   (\<exists>k < 2. \<exists>s'. schedule_n k sched_demo = Some s' \<and> current_task s' = 8192)"
  using schedule_round_robin [OF sched_demo_inv(1), of 8192] sched_demo_inv(1)
  by (auto simp: numeral_2_eq_2)

theorem task_wake_one_fifo_witness:
  "sched_inv sched_wait [8192] [4096] \<and>
   (\<exists>s'. task_wake_one 77 sched_wait = Some s' \<and> sched_inv s' [8192, 4096] [])"
  using task_wake_one_fifo [OF sched_wait_spec(1), of 77] sched_wait_spec by auto

theorem create_task_starts_at_entry_witness:
  "sched_inv sched_main [4096] [] \<and> (\<exists>t s''. tcb sched_demo 8192 = Some t \<and>
     switch_task (current_task sched_demo) (t_esp t) sched_demo = Some s'' \<and> eip (cpu s'') = 0xC0DE)"
proof -
  have "max_blocks (task_pmm sched_main) = 4"
    by (simp add: sched_main_def pmm_small_def pmm_alloc_block_def pmm_eval upt_rec nth_list_update)
  then have "\<forall>j \<in> {4, 8, 12, 16}. \<not> frame_free (task_pmm sched_main) (unat (esp (cpu sched_main) - j) div PMM_BLOCK_SIZE)"
    by (simp add: frame_free_def sched_main_def sched_boot_def PMM_BLOCK_SIZE_def)
  from create_task_starts_at_entry [OF sched_main_inv sched_demo_run _ this] sched_main_inv show ?thesis by auto
qed

text \<open>The main task gets process 500 and waits; a kill of that process wakes it up.\<close>

definition sched_victim :: sched where
  "sched_victim = sched_wait\<lparr>tcb := (tcb sched_wait)(4096 \<mapsto> (the (tcb sched_wait 4096))\<lparr>t_process := 500\<rparr>)\<rparr>"

lemma sched_victim_spec: "sched_inv sched_victim [8192] [4096]" "procs (tcb sched_victim) 4096 = Some 500"
proof -
  obtain t where t: "tcb sched_wait 4096 = Some t"
    using queues_task [OF sched_invD(1) [OF sched_wait_spec(1)], of 4096] by auto
  note f = field_Some [where m = "tcb sched_wait", OF t]
  have q: "queues sched_victim [8192] [4096]"
    using sched_invD(1) [OF sched_wait_spec(1)] t f by (simp add: sched_victim_def queues_def fun_upd_idem)
  have "stacks (tcb sched_victim) = stacks (tcb sched_wait)"
    using t by (auto simp: sched_victim_def stacks_def)
  with q show "sched_inv sched_victim [8192] [4096]"
    using sched_invD(2) [OF sched_wait_spec(1)]
    by (intro sched_inv_frame [OF sched_wait_spec(1)]) (simp_all add: sched_victim_def)
  show "procs (tcb sched_victim) 4096 = Some 500" by (simp add: sched_victim_def procs_def)
qed

theorem task_kill_blocked_complete_witness:
  "sched_inv sched_victim [8192] [4096] \<and> (\<exists>s' rs'. task_kill_blocked 500 sched_victim = Some (1, s') \<and>
     sched_inv s' rs' [] \<and> 4096 \<in> set rs' \<and> kills (tcb s') 4096 = Some True)"
  using task_kill_blocked_complete [OF sched_victim_spec(1), of 500] sched_victim_spec
  by (auto simp: of_process_def)

theorem switch_task_resumes_witness:
  "\<exists>s1 s3. switch_task 4096 10000 sched_main = Some s1 \<and> switch_task 4096 (0x90000 - 16) (s1\<lparr>cpu := (cpu s1)\<lparr>esp := 5000\<rparr>\<rparr>) = Some s3 \<and>
     cpu s3 = (cpu sched_main)\<lparr>esp := 0x90000 + 4, eip := kmem sched_main 0x90000\<rparr>"
proof -
  obtain t where "tcb sched_main 4096 = Some t" by (simp add: sched_main_def)
  then obtain s1 where s1: "switch_task 4096 10000 sched_main = Some s1"
    using switch_task_spec by blast
  then obtain tp where tp: "tcb s1 4096 = Some tp" "t_esp tp = 0x90000 - 16"
    by (auto simp: switch_eval sched_main_def sched_boot_def)
  let ?s2 = "s1\<lparr>cpu := (cpu s1)\<lparr>esp := 5000\<rparr>\<rparr>"
  have "tcb ?s2 4096 = Some tp" using tp by simp
  from switch_task_resumes [OF s1 tp(1) this] tp(2) s1 show ?thesis
    by (simp add: sched_main_def sched_boot_def)
qed

end
