(* ===== verification/Sem.thy ===== *)
theory Sem
  imports Scheduler
begin

text \<open>
  The counting semaphores (src/sem.c). The state is the table of semaphores and the scheduler; a
  semaphore's wait channel is its address in the table. \<open>sem_wait\<close> may leave the processor in the
  middle of its loop, so it is modelled as the part up to the switch and the part that runs when
  the task continues; both yield an outcome that says whether the call has returned, waits, or
  ended with the task.
\<close>

section \<open>State and operations\<close>

definition MAX_SEMAPHORES :: int where
  "MAX_SEMAPHORES = 8"

record ksem =
  sem_value :: int
  sem_used :: bool

record sem_sys =
  semaphores :: "ksem list"
  sem_table :: ptr
  sem_sched :: sched

type_synonym exit_callback = "ptr \<Rightarrow> ptr \<Rightarrow> int \<Rightarrow> sched \<Rightarrow> sched option"

datatype outcome = Returned int | Waiting | Exited

text \<open>\<open>&semaphores[id]\<close>: the entries are 8 bytes, an \<open>int32_t\<close> and a padded \<open>uint8_t\<close>.\<close>

definition sem_addr :: "sem_sys \<Rightarrow> int \<Rightarrow> ptr" where
  "sem_addr st i = sem_table st + of_int (8 * i)"

definition sem_valid :: "int \<Rightarrow> bool" where
  "sem_valid i \<longleftrightarrow> 0 \<le> i \<and> i < MAX_SEMAPHORES"

definition upd_sem :: "int \<Rightarrow> (ksem \<Rightarrow> ksem) \<Rightarrow> sem_sys \<Rightarrow> sem_sys" where
  "upd_sem i f st = st\<lparr>semaphores := (semaphores st)[nat i := f (semaphores st ! nat i)]\<rparr>"

definition set_sched :: "sem_sys \<Rightarrow> sched option \<Rightarrow> sem_sys option" where
  "set_sched st r = map_option (\<lambda>s. st\<lparr>sem_sched := s\<rparr>) r"

definition sem_init :: "int \<Rightarrow> int \<Rightarrow> sem_sys \<Rightarrow> (int \<times> sem_sys) option" where
  "sem_init i v st =
     (if \<not> sem_valid i \<or> v < 0 then Some (- 1, st)
      else let st1 = upd_sem i (\<lambda>s. s\<lparr>sem_value := v, sem_used := True\<rparr>) st
           in map_option (\<lambda>st2. (0, st2)) (set_sched st1 (task_wake_all (sem_addr st i) (sem_sched st1))))"

text \<open>The loop of \<open>sem_wait\<close>, entered at its condition.\<close>

definition sem_wait_loop :: "exit_callback \<Rightarrow> int \<Rightarrow> sem_sys \<Rightarrow> (outcome \<times> sem_sys) option" where
  "sem_wait_loop callback i st =
     (if sem_value (semaphores st ! nat i) \<le> 0 then
        case task_kill_pending (sem_sched st) of None \<Rightarrow> None | Some k \<Rightarrow>
          map_option (\<lambda>st1. (if k then Exited else Waiting, st1))
            (set_sched st (task_block_killable callback (sem_addr st i) (sem_sched st)))
      else Some (Returned 0, upd_sem i (\<lambda>s. s\<lparr>sem_value := sem_value s - 1\<rparr>) st))"

definition sem_wait :: "exit_callback \<Rightarrow> int \<Rightarrow> sem_sys \<Rightarrow> (outcome \<times> sem_sys) option" where
  "sem_wait callback i st =
     (if \<not> sem_valid i then Some (Returned (- 1), st)
      else if \<not> sem_used (semaphores st ! nat i) then Some (Returned (- 1), st)
      else sem_wait_loop callback i st)"

text \<open>A waiting task that runs again: the second check of \<open>task_block_killable\<close>, then the loop.\<close>

definition sem_wait_resumed :: "exit_callback \<Rightarrow> int \<Rightarrow> sem_sys \<Rightarrow> (outcome \<times> sem_sys) option" where
  "sem_wait_resumed callback i st =
     (case task_kill_pending (sem_sched st) of None \<Rightarrow> None | Some k \<Rightarrow>
        case set_sched st (task_block_killable_resumed callback (sem_sched st)) of None \<Rightarrow> None
        | Some st1 \<Rightarrow> if k then Some (Exited, st1) else sem_wait_loop callback i st1)"

definition sem_post :: "int \<Rightarrow> sem_sys \<Rightarrow> (int \<times> sem_sys) option" where
  "sem_post i st =
     (if \<not> sem_valid i then Some (- 1, st)
      else if \<not> sem_used (semaphores st ! nat i) then Some (- 1, st)
      else if sem_value (semaphores st ! nat i) = 2 ^ 31 - 1 then Some (- 1, st)
      else let st1 = upd_sem i (\<lambda>s. s\<lparr>sem_value := sem_value s + 1\<rparr>) st
           in map_option (\<lambda>st2. (0, st2)) (set_sched st1 (task_wake_one (sem_addr st i) (sem_sched st1))))"

section \<open>Runs\<close>

text \<open>
  The events of a run: the calls with their results, and everything else the scheduler does in
  between, which does not touch the table.
\<close>

datatype sem_event = Init int int | Post int int | Wait int outcome | Sched

inductive sem_step :: "exit_callback \<Rightarrow> sem_sys \<Rightarrow> sem_event \<Rightarrow> sem_sys \<Rightarrow> bool"
  for callback where
  ev_init: "v \<le> 2 ^ 31 - 1 \<Longrightarrow> sem_init i v st = Some (r, st') \<Longrightarrow> sem_step callback st (Init i r) st'"
| ev_post: "sem_post i st = Some (r, st') \<Longrightarrow> sem_step callback st (Post i r) st'"
| ev_wait: "sem_wait callback i st = Some (out, st') \<Longrightarrow> sem_step callback st (Wait i out) st'"
| ev_resume: "sem_valid i \<Longrightarrow> sem_wait_resumed callback i st = Some (out, st') \<Longrightarrow>
    sem_step callback st (Wait i out) st'"
| ev_sched: "sched_step callback (sem_sched st) s' \<Longrightarrow> sem_step callback st Sched (st\<lparr>sem_sched := s'\<rparr>)"

inductive sem_trace :: "exit_callback \<Rightarrow> sem_sys \<Rightarrow> sem_event list \<Rightarrow> sem_sys \<Rightarrow> bool"
  for callback where
  trace_nil: "sem_trace callback st [] st"
| trace_step: "sem_step callback st e st' \<Longrightarrow> sem_trace callback st' es st'' \<Longrightarrow>
    sem_trace callback st (e # es) st''"

inductive_cases sem_stepE: "sem_step callback st e st'"

definition sem_table_ok :: "sem_sys \<Rightarrow> bool" where
  "sem_table_ok st \<longleftrightarrow> int (length (semaphores st)) = MAX_SEMAPHORES \<and>
     (\<forall>s \<in> set (semaphores st). 0 \<le> sem_value s \<and> sem_value s \<le> 2 ^ 31 - 1)"

definition value_of :: "int \<Rightarrow> sem_sys \<Rightarrow> int" where
  "value_of i st = sem_value (semaphores st ! nat i)"

definition net :: "int \<Rightarrow> sem_event \<Rightarrow> int" where
  "net i e = (case e of Post j r \<Rightarrow> if i = j \<and> r = 0 then 1 else 0
     | Wait j out \<Rightarrow> if i = j \<and> out = Returned 0 then - 1 else 0
     | _ \<Rightarrow> 0)"

section \<open>Lemmas\<close>

lemma upd_sem_ok:
  assumes "sem_table_ok st" "sem_valid i" "0 \<le> sem_value (f (semaphores st ! nat i))"
    "sem_value (f (semaphores st ! nat i)) \<le> 2 ^ 31 - 1"
  shows "sem_table_ok (upd_sem i f st)"
  using assms by (auto simp: sem_table_ok_def upd_sem_def dest!: set_update_subset_insert [THEN subsetD])

lemma upd_sem_value:
  assumes "sem_table_ok st" "sem_valid i" "sem_valid j"
  shows "value_of j (upd_sem i f st) = (if j = i then sem_value (f (semaphores st ! nat i)) else value_of j st)"
  using assms by (auto simp: sem_table_ok_def value_of_def upd_sem_def sem_valid_def nth_list_update)

lemma sem_sched_update [simp]:
  "sem_table_ok (st\<lparr>sem_sched := s\<rparr>) = sem_table_ok st" "value_of i (st\<lparr>sem_sched := s\<rparr>) = value_of i st"
  "sem_addr (st\<lparr>sem_sched := s\<rparr>) i = sem_addr st i"
  by (simp_all add: sem_table_ok_def value_of_def sem_addr_def)

lemma set_sched_Some [simp]: "set_sched st r = Some st' \<longleftrightarrow> (\<exists>s. r = Some s \<and> st' = st\<lparr>sem_sched := s\<rparr>)"
  by (auto simp: set_sched_def)

lemma table_value:
  assumes "sem_table_ok st" "sem_valid i"
  shows "0 \<le> value_of i st" "value_of i st \<le> 2 ^ 31 - 1"
  using assms by (auto simp: sem_table_ok_def value_of_def sem_valid_def)

lemma wait_loop_table:
  assumes ok: "sem_table_ok st" and v: "sem_valid i" and run: "sem_wait_loop callback i st = Some (out, st')"
  shows "sem_table_ok st' \<and> (\<forall>j. sem_valid j \<longrightarrow> value_of j st' = value_of j st + net j (Wait i out))"
proof (cases "sem_value (semaphores st ! nat i) \<le> 0")
  case True
  then show ?thesis
    using ok run by (auto simp: sem_wait_loop_def net_def split: option.splits if_splits)
next
  case False
  then have "st' = upd_sem i (\<lambda>s. s\<lparr>sem_value := sem_value s - 1\<rparr>) st" "out = Returned 0"
    using run by (auto simp: sem_wait_loop_def)
  moreover have "value_of i st \<le> 2 ^ 31 - 1" "0 < value_of i st"
    using False table_value [OF ok v] by (auto simp: value_of_def)
  ultimately show ?thesis
    using ok v by (auto simp: upd_sem_value net_def intro!: upd_sem_ok) (auto simp: value_of_def)
qed

lemma sem_step_table:
  assumes ok: "sem_table_ok st" and step: "sem_step callback st e st'"
  shows "sem_table_ok st' \<and>
    (\<forall>j. sem_valid j \<and> (\<forall>r. e \<noteq> Init j r) \<longrightarrow> value_of j st' = value_of j st + net j e)"
  using step
proof (cases rule: sem_step.cases)
  case (ev_init v i r)
  with ok show ?thesis
    by (auto simp: sem_init_def Let_def net_def upd_sem_value split: if_splits intro!: upd_sem_ok)
next
  case (ev_post i r)
  show ?thesis
  proof (cases "r = 0")
    case True
    with ev_post have v: "sem_valid i" and lim: "value_of i st \<noteq> 2 ^ 31 - 1"
      and run: "set_sched (upd_sem i (\<lambda>s. s\<lparr>sem_value := sem_value s + 1\<rparr>) st)
        (task_wake_one (sem_addr st i) (sem_sched (upd_sem i (\<lambda>s. s\<lparr>sem_value := sem_value s + 1\<rparr>) st))) = Some st'"
      by (auto simp: sem_post_def Let_def value_of_def split: if_splits)
    have "value_of i st < 2 ^ 31 - 1" "0 \<le> value_of i st"
      using lim table_value [OF ok v] by auto
    with ok v True run show ?thesis
      by (auto simp: upd_sem_value net_def ev_post(1) intro!: upd_sem_ok)
        (auto simp: value_of_def)
  next
    case False
    with ev_post ok show ?thesis
      by (auto simp: sem_post_def Let_def net_def split: if_splits)
  qed
next
  case (ev_wait i out)
  show ?thesis
  proof (cases "sem_valid i \<and> sem_used (semaphores st ! nat i)")
    case True
    with ev_wait wait_loop_table [OF ok, of i callback out st'] show ?thesis
      by (auto simp: sem_wait_def)
  next
    case False
    with ev_wait ok show ?thesis
      by (auto simp: sem_wait_def net_def split: if_splits)
  qed
next
  case (ev_resume i out)
  then obtain k st1 where 1: "set_sched st (task_block_killable_resumed callback (sem_sched st)) = Some st1"
    and 2: "(if k then Some (Exited, st1) else sem_wait_loop callback i st1) = Some (out, st')"
    by (auto simp: sem_wait_resumed_def split: option.splits)
  have t: "sem_table_ok st1 = sem_table_ok st" "\<And>j. value_of j st1 = value_of j st"
    using 1 by auto
  show ?thesis
  proof (cases k)
    case True
    with 2 ok t show ?thesis by (auto simp: ev_resume(1) net_def)
  next
    case False
    with 2 have "sem_wait_loop callback i st1 = Some (out, st')" by simp
    with wait_loop_table [of st1, OF _ ev_resume(2) this] ok t show ?thesis
      by (auto simp: ev_resume(1))
  qed
next
  case (ev_sched s')
  with ok show ?thesis by (simp add: sem_table_ok_def value_of_def net_def)
qed

lemma sem_trace_table:
  assumes "sem_trace callback st es st'" "sem_table_ok st"
  shows "sem_table_ok st' \<and> (\<forall>j. sem_valid j \<and> (\<forall>r. Init j r \<notin> set es) \<longrightarrow>
    value_of j st' = value_of j st + sum_list (map (net j) es))"
  using assms
proof (induction rule: sem_trace.induct)
  case (trace_step st e st' es st'')
  then show ?case
    using sem_step_table [of st callback e st'] by auto
qed simp

section \<open>Properties\<close>

text \<open>
  C27. Units are neither created nor lost. Along every run of the kernel (calls of the three
  operations, tasks continuing after they waited, killed tasks, any scheduling in between) the
  value of a semaphore is its value at the start plus the successful posts minus the waits that
  returned; it never becomes negative and never overflows.
\<close>

theorem sem_units_conserved:
  assumes run: "sem_trace callback st es st'" and ok: "sem_table_ok st" and i: "sem_valid i"
    and no_init: "\<forall>r. Init i r \<notin> set es"
  shows "value_of i st' = value_of i st + int (length (filter (\<lambda>e. e = Post i 0) es))
      - int (length (filter (\<lambda>e. e = Wait i (Returned 0)) es)) \<and>
    0 \<le> value_of i st' \<and> value_of i st' \<le> 2 ^ 31 - 1"
proof -
  note t = sem_trace_table [OF run ok]
  have "sum_list (map (net i) es) = int (length (filter (\<lambda>e. e = Post i 0) es))
      - int (length (filter (\<lambda>e. e = Wait i (Returned 0)) es))"
    by (induction es) (auto simp: net_def split: sem_event.splits)
  with t i no_init table_value [of st' i] show ?thesis by simp
qed


section \<open>A semaphore with two waiters\<close>

text \<open>
  The main task at 4096 runs; the tasks at 8192 and 12288, of the processes 500 and 600, wait on
  semaphore 0, whose value is 0.
\<close>

definition sem_demo :: sem_sys where
  "sem_demo = \<lparr>semaphores = \<lparr>sem_value = 0, sem_used = True\<rparr> # replicate 7 \<lparr>sem_value = 0, sem_used = False\<rparr>,
     sem_table = 0x7000,
     sem_sched = (sched_boot pmm_three)
       \<lparr>tcb := [4096 \<mapsto> demo_task 4096 NULL NULL NULL TASK_READY,
                8192 \<mapsto> demo_task NULL 12288 500 0x7000 TASK_BLOCKED,
                12288 \<mapsto> demo_task NULL NULL 600 0x7000 TASK_BLOCKED],
        current_task := 4096, ready_queue := 4096, blocked_tasks := 8192\<rparr>\<rparr>"

lemma sem_demo_table: "sem_table_ok sem_demo" "sem_addr sem_demo 0 = 0x7000" "value_of 0 sem_demo = 0"
  by (simp_all add: sem_table_ok_def sem_demo_def sem_addr_def MAX_SEMAPHORES_def value_of_def)

lemma sem_demo_inv: "sched_inv (sem_sched sem_demo) [4096] [8192, 12288]"
  using pmm_three_pages
  by (auto simp: sched_inv_def queues_def ring_def pages_ok_def retired_set_def task_pages_def sem_demo_def
    demo_task_def nexts_def bnexts_def states_def sched_boot_def)

lemma sem_demo_waiting: "waiting_on 0x7000 (tcb (sem_sched sem_demo)) [8192, 12288] = [8192, 12288]"
  by (simp add: waiting_on_def chans_def sem_demo_def demo_task_def)


lemma sem_demo_run:
  "\<exists>st1 st2. sem_post 0 sem_demo = Some (0, st1) \<and> sem_wait (\<lambda>_ _ _. Some) 0 st1 = Some (Returned 0, st2)"
  by (simp add: sem_post_def sem_demo_def sem_valid_def MAX_SEMAPHORES_def upd_sem_def sem_addr_def set_sched_def Let_def
    task_wake_one_def wake_one_loop.simps read_link_def write_link_def demo_task_def sched_boot_def upd_task_def
    add_ready_task_def sem_wait_def sem_wait_loop_def)

theorem sem_units_conserved_witness:
  "\<exists>st'. sem_trace (\<lambda>_ _ _. Some) sem_demo [Post 0 0, Wait 0 (Returned 0)] st' \<and> value_of 0 st' = 0"
proof -
  obtain st1 st2 where run: "sem_post 0 sem_demo = Some (0, st1)"
    "sem_wait (\<lambda>_ _ _. Some) 0 st1 = Some (Returned 0, st2)" using sem_demo_run by blast
  have "sem_trace (\<lambda>_ _ _. Some) sem_demo [Post 0 0, Wait 0 (Returned 0)] st2"
    using run by (auto intro!: sem_trace.intros intro: sem_step.intros)
  with sem_units_conserved [OF this sem_demo_table(1), of 0] show ?thesis
    by (auto simp: sem_demo_table sem_valid_def MAX_SEMAPHORES_def)
qed


end
