(* ===== verification/Rtc.thy ===== *)
theory Rtc
  imports Kernel_Prelude "HOL-Library.Monad_Syntax"
begin

text \<open>
  The real-time clock (src/rtc.c). The CMOS chip is a parameter: \<open>cmos t r\<close> is the byte that the
  \<open>t\<close>-th read of the chip finds in register \<open>r\<close>. The busy-waiting loops are partial, so that not
  returning is \<open>None\<close>; the decoding of the registers is a function of the bytes.
\<close>

section \<open>Operations\<close>

record rtc_time =
  year :: u16
  month :: u8
  day :: u8
  hour :: u8
  minute :: u8
  second :: u8

type_synonym cmos = "nat \<Rightarrow> u8 \<Rightarrow> u8"

definition RTC_SECONDS :: u8 where "RTC_SECONDS = 0x00"
definition RTC_MINUTES :: u8 where "RTC_MINUTES = 0x02"
definition RTC_HOURS :: u8 where "RTC_HOURS = 0x04"
definition RTC_DAY :: u8 where "RTC_DAY = 0x07"
definition RTC_MONTH :: u8 where "RTC_MONTH = 0x08"
definition RTC_YEAR :: u8 where "RTC_YEAR = 0x09"
definition RTC_STATUS_A :: u8 where "RTC_STATUS_A = 0x0A"
definition RTC_STATUS_B :: u8 where "RTC_STATUS_B = 0x0B"

definition cmos_read :: "cmos \<Rightarrow> u8 \<Rightarrow> nat \<Rightarrow> u8 \<times> nat" where
  "cmos_read cmos r t = (cmos t r, t + 1)"

definition update_in_progress :: "cmos \<Rightarrow> nat \<Rightarrow> bool \<times> nat" where
  "update_in_progress cmos t = (let (v, t1) = cmos_read cmos RTC_STATUS_A t in (v AND 0x80 \<noteq> 0, t1))"

definition bcd_to_bin :: "u8 \<Rightarrow> u8" where
  "bcd_to_bin v = (v AND 0x0F) + drop_bit 4 v * 10"

text \<open>The hour: \<open>bcd\<close> when the values are decimal digits, \<open>h12\<close> on a 12-hour clock.\<close>

definition rtc_hour :: "bool \<Rightarrow> bool \<Rightarrow> u8 \<Rightarrow> u8" where
  "rtc_hour bcd h12 hour_raw =
     (let raw = (if bcd then bcd_to_bin (hour_raw AND 0x7F) OR (hour_raw AND 0x80) else hour_raw);
          h = raw AND 0x7F
      in if h12 \<and> raw AND 0x80 \<noteq> 0 then h mod 12 + 12
         else if h12 \<and> h = 12 then 0
         else h)"

definition rtc_decode :: "u8 \<Rightarrow> u8 \<Rightarrow> u8 \<Rightarrow> u8 \<Rightarrow> u8 \<Rightarrow> u8 \<Rightarrow> u8 \<Rightarrow> rtc_time" where
  "rtc_decode se mi hour_raw d mon yr regB =
     (let bcd = (regB AND 0x04 = 0);
          conv = (if bcd then bcd_to_bin else id)
      in \<lparr>year = 2000 + ucast (conv yr), month = conv mon, day = conv d,
          hour = rtc_hour bcd (regB AND 0x02 = 0) hour_raw, minute = conv mi, second = conv se\<rparr>)"

text \<open>A snapshot of the registers: seconds, minutes, raw hours, day, month, year.\<close>

type_synonym snapshot = "u8 \<times> u8 \<times> u8 \<times> u8 \<times> u8 \<times> u8"

partial_function (option) wait_update :: "cmos \<Rightarrow> nat \<Rightarrow> nat option" where
  "wait_update cmos t = (let (busy, t1) = update_in_progress cmos t
     in if busy then wait_update cmos t1 else Some t1)"

definition read_registers :: "cmos \<Rightarrow> nat \<Rightarrow> (snapshot \<times> nat) option" where
  "read_registers cmos t = do {
     t0 \<leftarrow> wait_update cmos t;
     let (se, t1) = cmos_read cmos RTC_SECONDS t0;
     let (mi, t2) = cmos_read cmos RTC_MINUTES t1;
     let (hr, t3) = cmos_read cmos RTC_HOURS t2;
     let (d, t4) = cmos_read cmos RTC_DAY t3;
     let (mon, t5) = cmos_read cmos RTC_MONTH t4;
     let (yr, t6) = cmos_read cmos RTC_YEAR t5;
     Some ((se, mi, hr, d, mon, yr), t6)
   }"

text \<open>The loop that reads until two consecutive snapshots agree.\<close>

partial_function (option) stable_loop :: "cmos \<Rightarrow> snapshot \<Rightarrow> nat \<Rightarrow> (snapshot \<times> nat) option" where
  "stable_loop cmos prev t = do {
     (cur, t1) \<leftarrow> read_registers cmos t;
     if cur \<noteq> prev then stable_loop cmos cur t1 else Some (cur, t1)
   }"

definition rtc_read :: "cmos \<Rightarrow> nat \<Rightarrow> (rtc_time \<times> nat) option" where
  "rtc_read cmos t = do {
     (first, t1) \<leftarrow> read_registers cmos t;
     ((se, mi, hr, d, mon, yr), t2) \<leftarrow> stable_loop cmos first t1;
     let (regB, t3) = cmos_read cmos RTC_STATUS_B t2;
     Some (rtc_decode se mi hr d mon yr regB, t3)
   }"

section \<open>The encodings of the chip\<close>

text \<open>
  How the chip stores a number and an hour under the modes of status register B: binary or two
  decimal digits; 24 hours, or 12 hours with a PM bit.
\<close>

definition enc :: "bool \<Rightarrow> nat \<Rightarrow> u8" where
  "enc bcd n = (if bcd then of_nat (n div 10 * 16 + n mod 10) else of_nat n)"

definition enc_hour :: "bool \<Rightarrow> bool \<Rightarrow> nat \<Rightarrow> u8" where
  "enc_hour bcd h12 h =
     (if h12 then enc bcd (if h mod 12 = 0 then 12 else h mod 12) OR (if 12 \<le> h then 0x80 else 0)
      else enc bcd h)"

lemma all_below: "list_all P [0..<n] \<Longrightarrow> i < n \<Longrightarrow> P i"
  by (simp add: list_all_iff)

lemma bcd_to_bin_enc: "n < 100 \<Longrightarrow> bcd_to_bin (enc True n) = of_nat n"
  by (rule all_below [of "\<lambda>n. bcd_to_bin (enc True n) = of_nat n" 100]) code_simp

lemma rtc_hour_enc: "h < 24 \<Longrightarrow> rtc_hour bcd h12 (enc_hour bcd h12 h) = of_nat h"
proof -
  have "list_all (\<lambda>h. \<forall>b \<in> {True, False}. \<forall>c \<in> {True, False}. rtc_hour b c (enc_hour b c h) = of_nat h) [0..<24]"
    by code_simp
  then show "h < 24 \<Longrightarrow> ?thesis" by (cases bcd; cases h12) (auto simp: list_all_iff)
qed

text \<open>The unit of \<open>u16\<close> arithmetic in the year does not wrap.\<close>

lemma enc_id: "n < 100 \<Longrightarrow> (if bcd then bcd_to_bin else id) (enc bcd n) = of_nat n"
  by (auto simp: bcd_to_bin_enc) (simp add: enc_def)

section \<open>Stable reads\<close>

text \<open>The registers as a snapshot that starts at read \<open>t\<close> finds them.\<close>

definition snap :: "cmos \<Rightarrow> nat \<Rightarrow> snapshot" where
  "snap cmos t = (cmos t RTC_SECONDS, cmos (t + 1) RTC_MINUTES, cmos (t + 2) RTC_HOURS, cmos (t + 3) RTC_DAY,
     cmos (t + 4) RTC_MONTH, cmos (t + 5) RTC_YEAR)"

lemma wait_update_spec:
  assumes "\<forall>u \<ge> T. cmos u RTC_STATUS_A AND 0x80 = 0"
  shows "\<exists>t1 > t. wait_update cmos t = Some t1 \<and> cmos (t1 - 1) RTC_STATUS_A AND 0x80 = 0"
proof (induction "T - t" arbitrary: t)
  case 0
  then show ?case
    using assms by (subst wait_update.simps) (simp add: update_in_progress_def cmos_read_def)
next
  case (Suc n)
  show ?case
  proof (cases "cmos t RTC_STATUS_A AND 0x80 = 0")
    case True
    then show ?thesis by (subst wait_update.simps) (simp add: update_in_progress_def cmos_read_def)
  next
    case False
    obtain t1 where "t1 > t + 1" "wait_update cmos (t + 1) = Some t1" "cmos (t1 - 1) RTC_STATUS_A AND 0x80 = 0"
    proof -
      have "n = T - (t + 1)" using Suc(2) by simp
      from Suc(1) [OF this] that show ?thesis by blast
    qed
    with False show ?thesis
      by (subst wait_update.simps) (auto simp: update_in_progress_def cmos_read_def)
  qed
qed

lemma read_registers_spec:
  assumes "\<forall>u \<ge> T. cmos u RTC_STATUS_A AND 0x80 = 0"
  shows "\<exists>t1 > t. read_registers cmos t = Some (snap cmos t1, t1 + 6) \<and> cmos (t1 - 1) RTC_STATUS_A AND 0x80 = 0"
proof -
  obtain t1 where "t1 > t" "wait_update cmos t = Some t1" "cmos (t1 - 1) RTC_STATUS_A AND 0x80 = 0"
    using wait_update_spec [where cmos = cmos, OF assms] by blast
  then show ?thesis
    by (intro exI [of _ t1]) (simp add: read_registers_def cmos_read_def snap_def numeral_eq_Suc)
qed

text \<open>A result of the loop: two snapshots right after each other, both begun outside an update, agree.\<close>

definition agreed :: "cmos \<Rightarrow> nat \<Rightarrow> snapshot \<Rightarrow> nat \<Rightarrow> bool" where
  "agreed cmos t s t' \<longleftrightarrow> (\<exists>a b. t \<le> a \<and> a + 6 < b \<and> t' = b + 6 \<and> snap cmos a = s \<and> snap cmos b = s \<and>
     cmos (a - 1) RTC_STATUS_A AND 0x80 = 0 \<and> cmos (b - 1) RTC_STATUS_A AND 0x80 = 0)"

lemma stable_loop_spec:
  assumes uip: "\<forall>u \<ge> T. cmos u RTC_STATUS_A AND 0x80 = 0"
    and quiet: "\<forall>a \<ge> T. \<forall>b \<ge> T. snap cmos a = snap cmos b"
    and prev: "prev = snap cmos a" "t = a + 6" "t0 \<le> a" "cmos (a - 1) RTC_STATUS_A AND 0x80 = 0"
  shows "\<exists>s t'. stable_loop cmos prev t = Some (s, t') \<and> agreed cmos t0 s t'"
  using prev
proof (induction "T - a" arbitrary: a prev t rule: less_induct)
  case less
  obtain b where b: "b > t" "read_registers cmos t = Some (snap cmos b, b + 6)"
    "cmos (b - 1) RTC_STATUS_A AND 0x80 = 0" using read_registers_spec [where cmos = cmos, OF uip] by blast
  show ?case
  proof (cases "snap cmos b = prev")
    case True
    then have "stable_loop cmos prev t = Some (prev, b + 6)" using b(2) by (subst stable_loop.simps) simp
    moreover have "agreed cmos t0 prev (b + 6)"
      unfolding agreed_def using less.prems b True by (intro exI [of _ a] exI [of _ b]) auto
    ultimately show ?thesis by blast
  next
    case False
    then have "a < T" using less.prems b(1) quiet by (metis add_leD1 le_trans less_imp_le_nat not_le)
    then have "T - b < T - a" using b(1) less.prems(2) by auto
    from less.hyps [OF this refl refl _ b(3)] less.prems(2,3) b(1)
    obtain s t' where "stable_loop cmos (snap cmos b) (b + 6) = Some (s, t')" "agreed cmos t0 s t'" by auto
    with b(2) False show ?thesis by (subst stable_loop.simps) auto
  qed
qed

section \<open>Properties\<close>

text \<open>
  C39. The clock is decoded correctly in all four modes of the chip: whatever status register B
  says, a time of day and a date of the 21st century stored in the chip's encoding are returned
  as they are, midnight and noon of the 12-hour clock included.
\<close>

theorem rtc_decode_encode:
  assumes "se < 60" "mi < 60" "h < 24" "d < 32" "mon < 13" "yr < 100"
  shows "rtc_decode (enc (regB AND 4 = 0) se) (enc (regB AND 4 = 0) mi) (enc_hour (regB AND 4 = 0) (regB AND 2 = 0) h)
      (enc (regB AND 4 = 0) d) (enc (regB AND 4 = 0) mon) (enc (regB AND 4 = 0) yr) regB
    = \<lparr>year = of_nat (2000 + yr), month = of_nat mon, day = of_nat d, hour = of_nat h,
       minute = of_nat mi, second = of_nat se\<rparr>"
proof -
  have "ucast (of_nat yr :: u8) = (of_nat yr :: u16)"
    using assms(6) by (simp add: word_unat_eq_iff unsigned_ucast_eq unat_of_nat take_bit_nat_eq_self)
  then show ?thesis
    using assms enc_id [of _ "regB AND 4 = 0"] by (simp add: rtc_decode_def rtc_hour_enc Let_def)
qed

text \<open>
  C40. Reading the clock returns, and never a torn value. Once updates pause long enough for the
  registers to stand still, \<open>rtc_read\<close> ends, and what it decodes is a snapshot that two reads in a
  row found unchanged, neither begun during an update.
\<close>

theorem rtc_read_untorn:
  assumes "\<forall>u \<ge> T. cmos u RTC_STATUS_A AND 0x80 = 0" "\<forall>a \<ge> T. \<forall>b \<ge> T. snap cmos a = snap cmos b"
  shows "\<exists>se mi hr d mon yr t2. agreed cmos t (se, mi, hr, d, mon, yr) t2 \<and>
    rtc_read cmos t = Some (rtc_decode se mi hr d mon yr (cmos t2 RTC_STATUS_B), t2 + 1)"
proof -
  obtain a where a: "a > t" "read_registers cmos t = Some (snap cmos a, a + 6)"
    "cmos (a - 1) RTC_STATUS_A AND 0x80 = 0" using read_registers_spec [where cmos = cmos, OF assms(1)] by blast
  obtain s t2 where s: "stable_loop cmos (snap cmos a) (a + 6) = Some (s, t2)" "agreed cmos t s t2"
    using stable_loop_spec [where cmos = cmos, OF assms refl refl _ a(3), of t] a(1) by auto
  obtain se mi hr d mon yr where "s = (se, mi, hr, d, mon, yr)" by (metis prod.exhaust)
  with a(2) s show ?thesis
    by (intro exI [of _ se] exI [of _ mi] exI [of _ hr] exI [of _ d] exI [of _ mon] exI [of _ yr] exI [of _ t2])
      (simp add: rtc_read_def cmos_read_def)
qed

text \<open>Half past noon on the 31st of December 2026, decimal digits, 12-hour clock.\<close>

theorem rtc_decode_encode_witness:
  "rtc_decode 0x59 0x30 (0x12 OR 0x80) 0x31 0x12 0x26 0 =
     \<lparr>year = 2026, month = 12, day = 31, hour = 12, minute = 30, second = 59\<rparr>"
  using rtc_decode_encode [of 59 30 12 31 12 26 0] by (simp add: enc_def enc_hour_def)

theorem rtc_read_untorn_witness:
  "\<exists>se mi hr d mon yr t2. rtc_read (\<lambda>t r. if t < 3 then 0xFF else r) 0 =
     Some (rtc_decode se mi hr d mon yr RTC_STATUS_B, t2)"
  using rtc_read_untorn [of 3 "\<lambda>t r. if t < 3 then 0xFF else r" 0]
  by (fastforce simp: snap_def RTC_STATUS_A_def agreed_def)

end
