(* ===== verification/Fs.thy ===== *)
theory Fs
  imports Kernel_Prelude "HOL-Library.Monad_Syntax"
begin

text \<open>
  The virtual file system layer (src/fs.c, src/fs.h): dispatch through the function pointers of a
  node, the walk along a path, and the normalisation of a path against a working directory.

  A C string is the list of its characters before the terminating zero, a null string is \<open>None\<close>.
  A function pointer of a node names the driver whose function it is. What the drivers do is not
  fixed here: the definitions take the table of the functions behind the pointers, on a state of
  any type, and a driver provides its own table.
\<close>

section \<open>Nodes and drivers\<close>

definition FS_FILE :: u32 where "FS_FILE = 0x01"
definition FS_DIRECTORY :: u32 where "FS_DIRECTORY = 0x02"

definition FS_MAX_PATH :: nat where "FS_MAX_PATH = 128"

text \<open>\<open>sizeof(((fs_node_t *)0)->name)\<close>\<close>

definition FS_NAME_SIZE :: nat where "FS_NAME_SIZE = 128"

datatype fnptr = FN_NULL | FN_RAMFS | FN_DISKFS | FN_FAT16 | FN_PROCFS

record fs_node =
  n_name :: string
  n_mask :: u32
  n_uid :: u32
  n_gid :: u32
  n_flags :: u32
  n_inode :: u32
  n_length :: u32
  n_impl :: u32
  n_read :: fnptr
  n_write :: fnptr
  n_open :: fnptr
  n_close :: fnptr
  n_readdir :: fnptr
  n_finddir :: fnptr
  n_create :: fnptr
  n_unlink :: fnptr
  n_mkdir :: fnptr
  n_rmdir :: fnptr
  n_ptr :: ptr

record dirent =
  d_name :: string
  d_inode :: u32

text \<open>
  The functions behind the pointers, with the nodes and the root of the state they work on. A read
  yields the bytes it stores in the buffer; the number of bytes is the result of the call.
\<close>

record 's drivers =
  node_at :: "'s \<Rightarrow> ptr \<Rightarrow> fs_node option"
  root_at :: "'s \<Rightarrow> ptr"
  call_read :: "fnptr \<Rightarrow> ptr \<Rightarrow> u32 \<Rightarrow> u32 \<Rightarrow> 's \<Rightarrow> (u8 list \<times> 's) option"
  call_write :: "fnptr \<Rightarrow> ptr \<Rightarrow> u32 \<Rightarrow> u8 list \<Rightarrow> 's \<Rightarrow> (u32 \<times> 's) option"
  call_open :: "fnptr \<Rightarrow> ptr \<Rightarrow> 's \<Rightarrow> 's option"
  call_close :: "fnptr \<Rightarrow> ptr \<Rightarrow> 's \<Rightarrow> 's option"
  call_readdir :: "fnptr \<Rightarrow> ptr \<Rightarrow> u32 \<Rightarrow> 's \<Rightarrow> (dirent option \<times> 's) option"
  call_finddir :: "fnptr \<Rightarrow> ptr \<Rightarrow> string \<Rightarrow> 's \<Rightarrow> (ptr \<times> 's) option"
  call_create :: "fnptr \<Rightarrow> ptr \<Rightarrow> string \<Rightarrow> 's \<Rightarrow> (ptr \<times> 's) option"
  call_unlink :: "fnptr \<Rightarrow> ptr \<Rightarrow> string \<Rightarrow> 's \<Rightarrow> (int \<times> 's) option"
  call_mkdir :: "fnptr \<Rightarrow> ptr \<Rightarrow> string \<Rightarrow> 's \<Rightarrow> (int \<times> 's) option"
  call_rmdir :: "fnptr \<Rightarrow> ptr \<Rightarrow> string \<Rightarrow> 's \<Rightarrow> (int \<times> 's) option"

text \<open>A call through a pointer of a node; a null node or pointer gives the default.\<close>

definition dispatch ::
  "'s drivers \<Rightarrow> ptr \<Rightarrow> (fs_node \<Rightarrow> fnptr) \<Rightarrow> 'a \<Rightarrow> (fnptr \<Rightarrow> 's \<Rightarrow> ('a \<times> 's) option) \<Rightarrow> 's \<Rightarrow> ('a \<times> 's) option" where
  "dispatch dr node sel dflt call st =
     (if node = NULL then Some (dflt, st)
      else do {
        n \<leftarrow> node_at dr st node;
        if sel n \<noteq> FN_NULL then call (sel n) st else Some (dflt, st)
      })"

definition read_fs :: "'s drivers \<Rightarrow> ptr \<Rightarrow> u32 \<Rightarrow> u32 \<Rightarrow> 's \<Rightarrow> (u8 list \<times> 's) option" where
  "read_fs dr node offset sz = dispatch dr node n_read [] (\<lambda>f. call_read dr f node offset sz)"

definition write_fs :: "'s drivers \<Rightarrow> ptr \<Rightarrow> u32 \<Rightarrow> u8 list \<Rightarrow> 's \<Rightarrow> (u32 \<times> 's) option" where
  "write_fs dr node offset data = dispatch dr node n_write 0 (\<lambda>f. call_write dr f node offset data)"

definition open_fs :: "'s drivers \<Rightarrow> ptr \<Rightarrow> 's \<Rightarrow> 's option" where
  "open_fs dr node st = map_option snd
     (dispatch dr node n_open () (\<lambda>f st. map_option (Pair ()) (call_open dr f node st)) st)"

definition close_fs :: "'s drivers \<Rightarrow> ptr \<Rightarrow> 's \<Rightarrow> 's option" where
  "close_fs dr node st = map_option snd
     (dispatch dr node n_close () (\<lambda>f st. map_option (Pair ()) (call_close dr f node st)) st)"

definition readdir_fs :: "'s drivers \<Rightarrow> ptr \<Rightarrow> u32 \<Rightarrow> 's \<Rightarrow> (dirent option \<times> 's) option" where
  "readdir_fs dr node index = dispatch dr node n_readdir None (\<lambda>f. call_readdir dr f node index)"

definition finddir_fs :: "'s drivers \<Rightarrow> ptr \<Rightarrow> string \<Rightarrow> 's \<Rightarrow> (ptr \<times> 's) option" where
  "finddir_fs dr node name = dispatch dr node n_finddir NULL (\<lambda>f. call_finddir dr f node name)"

section \<open>Walking a path\<close>

abbreviation slash :: char where "slash \<equiv> CHR ''/''"

fun component_loop :: "string \<Rightarrow> string \<Rightarrow> (string \<times> string) option" where
  "component_loop name [] = Some (name, [])"
| "component_loop name (c # cursor) =
     (if c = slash then Some (name, c # cursor)
      else if length name + 1 \<ge> FS_NAME_SIZE then None
      else component_loop (name @ [c]) cursor)"

text \<open>The component at the cursor and the rest, or \<open>None\<close> where the source returns 0.\<close>

definition parse_component :: "string \<Rightarrow> (string \<times> string) option" where
  "parse_component cursor =
     (case component_loop [] cursor of None \<Rightarrow> None
      | Some (name, rest) \<Rightarrow>
          if length name > 0 \<and> name \<noteq> ''.'' \<and> name \<noteq> ''..'' then Some (name, rest) else None)"

lemma component_loop_spec:
  "component_loop name cursor = Some (c, rest) \<Longrightarrow>
     c = name @ takeWhile (\<lambda>x. x \<noteq> slash) cursor \<and> rest = dropWhile (\<lambda>x. x \<noteq> slash) cursor"
  by (induction name cursor rule: component_loop.induct) (auto split: if_splits)

lemma parse_component_shorter: "parse_component cursor = Some (c, rest) \<Longrightarrow> length rest < length cursor"
proof -
  assume "parse_component cursor = Some (c, rest)"
  then have "c \<noteq> []" "c = takeWhile (\<lambda>x. x \<noteq> slash) cursor" "rest = dropWhile (\<lambda>x. x \<noteq> slash) cursor"
    using component_loop_spec [of "[]" cursor] by (auto simp: parse_component_def split: option.splits if_splits)
  then have "length c + length rest = length cursor" by (metis length_append takeWhile_dropWhile_id)
  with \<open>c \<noteq> []\<close> show ?thesis by (cases c) auto
qed

function resolve_parent_loop :: "'s drivers \<Rightarrow> ptr \<Rightarrow> string \<Rightarrow> 's \<Rightarrow> ((ptr \<times> string) \<times> 's) option" where
  "resolve_parent_loop dr parent cursor st =
     (if cursor = [] then Some ((NULL, []), st)
      else case parse_component cursor of None \<Rightarrow> Some ((NULL, []), st)
      | Some (name, rest) \<Rightarrow>
          if rest = [] then Some ((parent, name), st)
          else if tl rest = [] \<or> hd (tl rest) = slash then Some ((NULL, []), st)
          else case finddir_fs dr parent name st of None \<Rightarrow> None
            | Some (p, st1) \<Rightarrow>
                if p = NULL then Some ((NULL, []), st1)
                else case node_at dr st1 p of None \<Rightarrow> None
                  | Some n \<Rightarrow> if n_flags n \<noteq> FS_DIRECTORY then Some ((NULL, []), st1)
                      else resolve_parent_loop dr p (tl rest) st1)"
  by auto
termination
  by (relation "measure (\<lambda>(dr, parent, cursor, st). length cursor)")
    (auto dest: parse_component_shorter)

declare resolve_parent_loop.simps [simp del]

text \<open>The parent directory and the last name of a path; the null pointer on failure.\<close>

definition resolve_parent_fs :: "'s drivers \<Rightarrow> string option \<Rightarrow> 's \<Rightarrow> ((ptr \<times> string) \<times> 's) option" where
  "resolve_parent_fs dr path st =
     (case path of None \<Rightarrow> Some ((NULL, []), st)
      | Some p \<Rightarrow>
          if root_at dr st = NULL \<or> length p = 0 \<or> length p \<ge> FS_MAX_PATH then Some ((NULL, []), st)
          else let cursor = (if hd p = slash then tl p else p)
               in if cursor = [] then Some ((NULL, []), st)
                  else resolve_parent_loop dr (root_at dr st) cursor st)"

function resolve_loop :: "'s drivers \<Rightarrow> ptr \<Rightarrow> string \<Rightarrow> 's \<Rightarrow> (ptr \<times> 's) option" where
  "resolve_loop dr node cursor st =
     (if cursor = [] then Some (node, st)
      else case parse_component cursor of None \<Rightarrow> Some (NULL, st)
      | Some (name, rest) \<Rightarrow>
          (case finddir_fs dr node name st of None \<Rightarrow> None
           | Some (n, st1) \<Rightarrow>
               if n = NULL then Some (NULL, st1)
               else if rest = [] then resolve_loop dr n [] st1
               else if tl rest = [] \<or> hd (tl rest) = slash then Some (NULL, st1)
               else case node_at dr st1 n of None \<Rightarrow> None
                 | Some nd \<Rightarrow> if n_flags nd \<noteq> FS_DIRECTORY then Some (NULL, st1)
                     else resolve_loop dr n (tl rest) st1))"
  by auto
termination
  by (relation "measure (\<lambda>(dr, node, cursor, st). length cursor)")
    (auto dest: parse_component_shorter)

declare resolve_loop.simps [simp del]

definition resolve_fs :: "'s drivers \<Rightarrow> string option \<Rightarrow> 's \<Rightarrow> (ptr \<times> 's) option" where
  "resolve_fs dr path st =
     (case path of None \<Rightarrow> Some (NULL, st)
      | Some p \<Rightarrow>
          if root_at dr st = NULL \<or> length p \<ge> FS_MAX_PATH then Some (NULL, st)
          else let cursor = (if p \<noteq> [] \<and> hd p = slash then tl p else p)
               in resolve_loop dr (root_at dr st) cursor st)"

text \<open>The operations on the parent of a path.\<close>

definition in_parent ::
  "'s drivers \<Rightarrow> string option \<Rightarrow> (fs_node \<Rightarrow> fnptr) \<Rightarrow> 'a \<Rightarrow> (fnptr \<Rightarrow> ptr \<Rightarrow> string \<Rightarrow> 's \<Rightarrow> ('a \<times> 's) option) \<Rightarrow>
    's \<Rightarrow> ('a \<times> 's) option" where
  "in_parent dr path sel fail call st = do {
     ((parent, name), st1) \<leftarrow> resolve_parent_fs dr path st;
     dispatch dr parent sel fail (\<lambda>f. call f parent name) st1
   }"

definition create_fs :: "'s drivers \<Rightarrow> string option \<Rightarrow> 's \<Rightarrow> (ptr \<times> 's) option" where
  "create_fs dr path = in_parent dr path n_create NULL (call_create dr)"

definition unlink_fs :: "'s drivers \<Rightarrow> string option \<Rightarrow> 's \<Rightarrow> (int \<times> 's) option" where
  "unlink_fs dr path = in_parent dr path n_unlink (- 1) (call_unlink dr)"

definition mkdir_fs :: "'s drivers \<Rightarrow> string option \<Rightarrow> 's \<Rightarrow> (int \<times> 's) option" where
  "mkdir_fs dr path = in_parent dr path n_mkdir (- 1) (call_mkdir dr)"

definition rmdir_fs :: "'s drivers \<Rightarrow> string option \<Rightarrow> 's \<Rightarrow> (int \<times> 's) option" where
  "rmdir_fs dr path = in_parent dr path n_rmdir (- 1) (call_rmdir dr)"

section \<open>Normalising a path\<close>

definition path_push :: "string \<Rightarrow> string \<Rightarrow> string option" where
  "path_push out name = (if length out + 1 + length name + 1 > FS_MAX_PATH then None else Some (out @ slash # name))"

function pop_loop :: "string \<Rightarrow> string" where
  "pop_loop out = (if length out > 0 \<and> last out \<noteq> slash then pop_loop (butlast out) else out)"
  by auto
termination
  by (relation "measure length") auto

declare pop_loop.simps [simp del]

definition path_pop :: "string \<Rightarrow> string" where
  "path_pop out = (let o1 = pop_loop out in if length o1 > 0 then butlast o1 else o1)"

function path_apply :: "string \<Rightarrow> string \<Rightarrow> string option" where
  "path_apply out s =
     (if s = [] then Some out
      else if hd s = slash then path_apply out (tl s)
      else let name = takeWhile (\<lambda>c. c \<noteq> slash) s;
               rest = dropWhile (\<lambda>c. c \<noteq> slash) s
           in if name = ''.'' then path_apply out rest
              else if name = ''..'' then path_apply (path_pop out) rest
              else case path_push out name of None \<Rightarrow> None | Some out1 \<Rightarrow> path_apply out1 rest)"
  by auto
termination
proof (relation "measure (\<lambda>(out, s). length s)", goal_cases)
  case 1
  show ?case by simp
next
  case (2 out s)
  then show ?case by (cases s) auto
next
  case (3 out s name rest)
  then show ?case by (cases s) (auto simp: length_dropWhile_le less_Suc_eq_le)
next
  case (4 out s name rest)
  then show ?case by (cases s) (auto simp: length_dropWhile_le less_Suc_eq_le)
next
  case (5 out s name rest x2)
  then show ?case by (cases s) (auto simp: length_dropWhile_le less_Suc_eq_le)
qed

declare path_apply.simps [simp del]

fun has_double_slash :: "string \<Rightarrow> bool" where
  "has_double_slash (a # b # s) = (a = slash \<and> b = slash \<or> has_double_slash (b # s))"
| "has_double_slash s = False"

text \<open>The result buffer, or \<open>None\<close> where the source returns -1.\<close>

definition vfs_resolve_path :: "string option \<Rightarrow> string option \<Rightarrow> string option" where
  "vfs_resolve_path cwd path = do {
     p \<leftarrow> path;
     if has_double_slash p then None else do {
       out1 \<leftarrow> (if (p = [] \<or> hd p \<noteq> slash) \<and> cwd \<noteq> None \<and> cwd \<noteq> Some [] then path_apply [] (the cwd) else Some []);
       out2 \<leftarrow> path_apply out1 p;
       let out = (if out2 = [] then [slash] else out2);
       if length out2 + 1 \<ge> FS_MAX_PATH then None else Some out
     }
   }"

section \<open>Paths as lists of names\<close>

text \<open>
  The reference: a path is the list of its names; \<open>.\<close> is skipped, \<open>..\<close> drops the name before it,
  any other name is appended unless the text grows beyond the buffer.
\<close>

definition render :: "string list \<Rightarrow> string" where
  "render cs = concat (map (\<lambda>c. slash # c) cs)"

definition good_name :: "string \<Rightarrow> bool" where
  "good_name c \<longleftrightarrow> c \<noteq> [] \<and> slash \<notin> set c \<and> c \<noteq> ''.'' \<and> c \<noteq> ''..''"

function components :: "string \<Rightarrow> string list" where
  "components s =
     (if s = [] then []
      else if hd s = slash then components (tl s)
      else takeWhile (\<lambda>c. c \<noteq> slash) s # components (dropWhile (\<lambda>c. c \<noteq> slash) s))"
  by auto
termination
proof (relation "measure length", goal_cases)
  case (3 s)
  then show ?case by (cases s) (auto simp: length_dropWhile_le less_Suc_eq_le)
qed auto

declare components.simps [simp del]

fun normalise :: "string list \<Rightarrow> string list \<Rightarrow> string list option" where
  "normalise cs [] = Some cs"
| "normalise cs (n # ns) =
     (if n = ''.'' then normalise cs ns
      else if n = ''..'' then normalise (butlast cs) ns
      else if length (render cs) + length n + 2 > FS_MAX_PATH then None
      else normalise (cs @ [n]) ns)"

lemma render_simps [simp]:
  "render [] = []" "render (c # cs) = slash # c @ render cs" "render (cs @ ds) = render cs @ render ds"
  by (simp_all add: render_def)

lemma pop_loop_name: "slash \<notin> set c \<Longrightarrow> pop_loop (xs @ slash # c) = xs @ [slash]"
proof (induction c rule: rev_induct)
  case Nil
  show ?case by (subst pop_loop.simps) simp
next
  case (snoc x c)
  have "pop_loop (xs @ slash # c @ [x]) = pop_loop (butlast (xs @ slash # c @ [x]))"
    using snoc.prems by (subst pop_loop.simps) auto
  also have "butlast (xs @ slash # c @ [x]) = xs @ slash # c" by (simp add: butlast_append)
  finally show ?case using snoc by simp
qed

lemma path_pop_render: "list_all good_name cs \<Longrightarrow> path_pop (render cs) = render (butlast cs)"
proof (cases cs rule: rev_cases)
  case Nil
  then show ?thesis by (simp add: path_pop_def pop_loop.simps)
next
  case (snoc ds c)
  assume "list_all good_name cs"
  with snoc show ?thesis by (simp add: path_pop_def pop_loop_name good_name_def)
qed

lemma takeWhile_name: "s \<noteq> [] \<Longrightarrow> hd s \<noteq> slash \<Longrightarrow> takeWhile (\<lambda>c. c \<noteq> slash) s \<noteq> [] \<and>
    slash \<notin> set (takeWhile (\<lambda>c. c \<noteq> slash) s)"
  by (cases s) (auto dest: set_takeWhileD)

lemma path_apply_normalise:
  "list_all good_name cs \<Longrightarrow> path_apply (render cs) s = map_option render (normalise cs (components s))"
proof (induction s arbitrary: cs rule: components.induct)
  case (1 s)
  consider "s = []" | "s \<noteq> []" "hd s = slash" | "s \<noteq> []" "hd s \<noteq> slash" by blast
  then show ?case
  proof cases
    case 1
    then show ?thesis by (simp add: path_apply.simps components.simps)
  next
    case 2
    with "1.IH"(1) [OF 2] "1.prems" show ?thesis
      by (simp add: path_apply.simps [of _ s] components.simps [of s])
  next
    case 3
    let ?n = "takeWhile (\<lambda>c. c \<noteq> slash) s" and ?rest = "dropWhile (\<lambda>c. c \<noteq> slash) s"
    note n = takeWhile_name [OF 3]
    have IH: "list_all good_name ds \<Longrightarrow> path_apply (render ds) ?rest = map_option render (normalise ds (components ?rest))" for ds
      using "1.IH"(2) [OF 3] by blast
    have but: "list_all good_name (butlast cs)" using "1.prems" by (auto simp: list_all_iff dest: in_set_butlastD)
    have app: "list_all good_name (cs @ [?n])" if "?n \<noteq> ''.''" "?n \<noteq> ''..''"
      using "1.prems" n that by (simp add: good_name_def [of "takeWhile _ _"])
    have "path_apply (render cs) s =
        (if ?n = ''.'' then path_apply (render cs) ?rest
         else if ?n = ''..'' then path_apply (path_pop (render cs)) ?rest
         else case path_push (render cs) ?n of None \<Rightarrow> None | Some out1 \<Rightarrow> path_apply out1 ?rest)"
      using 3 by (subst path_apply.simps) (simp add: Let_def)
    moreover have "normalise cs (components s) = normalise cs (?n # components ?rest)"
      using 3 by (simp add: components.simps [of s])
    ultimately show ?thesis
      using IH [OF "1.prems"] IH [OF but] IH [OF app] path_pop_render [OF "1.prems"]
      by (auto simp: path_push_def)
  qed
qed

lemma normalise_append: "normalise cs (ns @ ms) = Option.bind (normalise cs ns) (\<lambda>ds. normalise ds ms)"
  by (induction cs ns rule: normalise.induct) auto

lemma normalise_good:
  "list_all good_name cs \<Longrightarrow> list_all (\<lambda>n. n \<noteq> [] \<and> slash \<notin> set n) ns \<Longrightarrow> length (render cs) + 1 \<le> FS_MAX_PATH \<Longrightarrow>
    normalise cs ns = Some ds \<Longrightarrow> list_all good_name ds \<and> length (render ds) + 1 \<le> FS_MAX_PATH"
proof (induction cs ns rule: normalise.induct)
  case (2 cs n ns)
  have "list_all good_name (butlast cs)" using 2(4) by (auto simp: list_all_iff dest: in_set_butlastD)
  moreover have "length (render (butlast cs)) \<le> length (render cs)" by (cases cs rule: rev_cases) auto
  moreover have "n \<noteq> ''.'' \<Longrightarrow> n \<noteq> ''..'' \<Longrightarrow> list_all good_name (cs @ [n])"
    using 2(4,5) by (simp add: good_name_def [of n])
  ultimately show ?case using 2 by (auto split: if_splits)
qed simp

lemma components_names: "list_all (\<lambda>n. n \<noteq> [] \<and> slash \<notin> set n) (components s)"
proof (induction s rule: components.induct)
  case (1 s)
  then show ?case using takeWhile_name [of s] by (subst components.simps) auto
qed

lemma components_render: "list_all good_name cs \<Longrightarrow> components (render cs) = cs"
proof (induction cs)
  case (Cons c cs)
  then have c: "c \<noteq> []" "slash \<notin> set c" by (auto simp: good_name_def)
  then have hd: "hd (c @ render cs) \<noteq> slash" by (cases c) auto
  have all: "\<And>x. x \<in> set c \<Longrightarrow> x \<noteq> slash" using c by auto
  have r: "takeWhile (\<lambda>x. x \<noteq> slash) (render cs) = []" "dropWhile (\<lambda>x. x \<noteq> slash) (render cs) = render cs"
    by (cases cs; simp)+
  have "components (slash # c @ render cs) = components (c @ render cs)" by (simp add: components.simps [of "slash # _"])
  also have "\<dots> = c # components (render cs)"
    using c hd r all by (subst components.simps) (simp add: takeWhile_append2 dropWhile_append2)
  finally show ?case using Cons by simp
qed (simp add: components.simps)

lemma normalise_id:
  "list_all good_name ns \<Longrightarrow> length (render cs) + length (render ns) + 1 \<le> FS_MAX_PATH \<Longrightarrow>
    normalise cs ns = Some (cs @ ns)"
  by (induction ns arbitrary: cs) (auto simp: good_name_def)

section \<open>Walking a list of names\<close>

fun walk :: "'s drivers \<Rightarrow> ptr \<Rightarrow> string list \<Rightarrow> 's \<Rightarrow> (ptr \<times> 's) option" where
  "walk dr node [] st = Some (node, st)"
| "walk dr node (c # cs) st =
     (case finddir_fs dr node c st of None \<Rightarrow> None
      | Some (n, st1) \<Rightarrow>
          if n = NULL \<or> cs = [] then Some (n, st1)
          else case node_at dr st1 n of None \<Rightarrow> None
            | Some nd \<Rightarrow> if n_flags nd \<noteq> FS_DIRECTORY then Some (NULL, st1) else walk dr n cs st1)"

lemma component_loop_name:
  "slash \<notin> set c \<Longrightarrow> rest = [] \<or> hd rest = slash \<Longrightarrow> length acc + length c < FS_NAME_SIZE \<Longrightarrow>
    component_loop acc (c @ rest) = Some (acc @ c, rest)"
proof (induction c arbitrary: acc)
  case Nil
  then show ?case by (cases rest) auto
qed auto

lemma parse_component_name:
  assumes "good_name c" "length c < FS_NAME_SIZE"
  shows "parse_component (c @ render cs) = Some (c, render cs)"
proof -
  have "render cs = [] \<or> hd (render cs) = slash" by (cases cs) auto
  with assms component_loop_name [of c "render cs" "[]"] show ?thesis
    by (auto simp: parse_component_def good_name_def)
qed

lemma resolve_loop_walk:
  "list_all good_name (c # cs) \<Longrightarrow> length (render (c # cs)) \<le> FS_NAME_SIZE \<Longrightarrow>
    resolve_loop dr node (c @ render cs) st = walk dr node (c # cs) st"
proof (induction cs arbitrary: c node st)
  case Nil
  then have "parse_component (c @ render []) = Some (c, render [])"
    by (intro parse_component_name) auto
  moreover have "c \<noteq> []" using Nil by (simp add: good_name_def)
  ultimately show ?case
    by (subst resolve_loop.simps) (auto simp: resolve_loop.simps split: option.splits)
next
  case (Cons d cs)
  then have pc: "parse_component (c @ render (d # cs)) = Some (c, render (d # cs))"
    by (intro parse_component_name) auto
  have c: "c \<noteq> []" "d \<noteq> []" "slash \<notin> set d" using Cons.prems by (auto simp: good_name_def)
  then have "hd (d @ render cs) \<noteq> slash" by (cases d) auto
  with pc c Cons show ?case
    by (subst resolve_loop.simps) (auto split: option.splits)
qed

lemma canonical_resolve:
  assumes "list_all good_name cs" "length (render cs) + 1 < FS_MAX_PATH" "root_at dr st \<noteq> NULL"
  shows "resolve_fs dr (Some (if cs = [] then [slash] else render cs)) st = walk dr (root_at dr st) cs st"
proof (cases cs)
  case Nil
  with assms show ?thesis by (simp add: resolve_fs_def FS_MAX_PATH_def resolve_loop.simps)
next
  case (Cons c ds)
  with assms have "resolve_loop dr (root_at dr st) (c @ render ds) st = walk dr (root_at dr st) (c # ds) st"
    by (intro resolve_loop_walk) (auto simp: FS_NAME_SIZE_def FS_MAX_PATH_def)
  with Cons assms show ?thesis by (simp add: resolve_fs_def del: walk.simps)
qed

lemma parent_loop_agrees:
  "cursor \<noteq> [] \<Longrightarrow> node \<noteq> NULL \<Longrightarrow>
    (case resolve_parent_loop dr node cursor st of
       None \<Rightarrow> resolve_loop dr node cursor st = None
     | Some ((parent, name), st1) \<Rightarrow>
         if parent = NULL then \<forall>n st'. resolve_loop dr node cursor st = Some (n, st') \<longrightarrow> n = NULL
         else resolve_loop dr node cursor st = finddir_fs dr parent name st1)"
proof (induction dr node cursor st rule: resolve_parent_loop.induct)
  case (1 dr node cursor st)
  note [simp] = resolve_loop.simps [of dr node cursor st] resolve_parent_loop.simps [of dr node cursor st]
  show ?case
  proof (cases "parse_component cursor")
    case None
    with 1 show ?thesis by simp
  next
    case (Some a)
    then obtain c rest where pc: "parse_component cursor = Some (c, rest)" by (cases a) simp
    show ?thesis
    proof (cases "rest = []")
      case True
      with pc 1 show ?thesis by (auto simp: resolve_loop.simps [of _ _ "[]"] split: option.splits)
    next
      case rest: False
      show ?thesis
      proof (cases "tl rest = [] \<or> hd (tl rest) = slash")
        case True
        with pc rest 1 show ?thesis by (auto split: option.splits)
      next
        case more: False
        show ?thesis
        proof (cases "finddir_fs dr node c st")
          case None
          with pc rest more 1 show ?thesis by simp
        next
          case (Some b)
          then obtain q st1 where f: "finddir_fs dr node c st = Some (q, st1)" by (cases b) simp
          show ?thesis
          proof (cases "q = NULL \<or> (\<forall>nd. node_at dr st1 q = Some nd \<longrightarrow> n_flags nd \<noteq> FS_DIRECTORY)")
            case True
            with pc rest more f 1 show ?thesis by (auto split: option.splits)
          next
            case False
            then obtain nd where nd: "node_at dr st1 q = Some nd" "n_flags nd = FS_DIRECTORY" "q \<noteq> NULL" by blast
            have eq: "resolve_loop dr node cursor st = resolve_loop dr q (tl rest) st1"
              "resolve_parent_loop dr node cursor st = resolve_parent_loop dr q (tl rest) st1"
              using nd pc rest more f 1(2) by simp_all
            from 1(1) [OF 1(2) pc refl rest more f refl nd(3) nd(1)] nd more show ?thesis unfolding eq by simp
          qed
        qed
      qed
    qed
  qed
qed

lemma double_slash_name: "slash \<notin> set c \<Longrightarrow> has_double_slash (c @ xs) = has_double_slash xs"
proof (induction c)
  case (Cons a c)
  then show ?case by (cases "c @ xs") auto
qed simp

lemma no_double_slash: "list_all good_name cs \<Longrightarrow> \<not> has_double_slash (render cs)"
proof (induction cs)
  case (Cons c cs)
  then obtain a d where c: "c = a # d" "a \<noteq> slash" "slash \<notin> set c" by (cases c) (auto simp: good_name_def)
  then have "has_double_slash (render (c # cs)) = has_double_slash (c @ render cs)" by simp
  with Cons c(3) double_slash_name show ?case by simp
qed simp

section \<open>Properties\<close>

text \<open>The names a path stands for, seen from a working directory, and the text of a list of names.\<close>

definition path_names :: "string option \<Rightarrow> string \<Rightarrow> string list" where
  "path_names cwd p =
     (case cwd of Some d \<Rightarrow> if p = [] \<or> hd p \<noteq> slash then components d else [] | None \<Rightarrow> []) @ components p"

definition canonical :: "string list \<Rightarrow> string" where
  "canonical cs = (if cs = [] then [slash] else render cs)"

lemma vfs_resolve_path_eq:
  "vfs_resolve_path cwd (Some p) =
     (if has_double_slash p then None
      else case normalise [] (path_names cwd p) of None \<Rightarrow> None
        | Some cs \<Rightarrow> if length (render cs) + 1 \<ge> FS_MAX_PATH then None else Some (canonical cs))"
proof -
  have 0: "path_apply [] s = map_option render (normalise [] (components s))" for s
    using path_apply_normalise [of "[]" s] by simp
  define start where "start = (case cwd of Some d \<Rightarrow> if p = [] \<or> hd p \<noteq> slash then components d else [] | None \<Rightarrow> [])"
  have good: "list_all good_name ds" if "normalise [] start = Some ds" for ds
    using normalise_good [of "[]" start ds] that components_names
    by (auto simp: start_def FS_MAX_PATH_def split: option.splits if_splits)
  have "(if (p = [] \<or> hd p \<noteq> slash) \<and> cwd \<noteq> None \<and> cwd \<noteq> Some [] then path_apply [] (the cwd) else Some []) =
      map_option render (normalise [] start)"
    by (auto simp: 0 start_def components.simps [of "[]"] split: option.splits)
  then have *: "vfs_resolve_path cwd (Some p) =
     (if has_double_slash p then None
      else case normalise [] start of None \<Rightarrow> None
        | Some ds \<Rightarrow> case path_apply (render ds) p of None \<Rightarrow> None
          | Some out \<Rightarrow> if length out + 1 \<ge> FS_MAX_PATH then None else Some (if out = [] then [slash] else out))"
    by (simp add: vfs_resolve_path_def Let_def split: option.splits)
  have "render cs = [] \<longleftrightarrow> cs = []" for cs by (cases cs) auto
  then show ?thesis
    unfolding * path_names_def start_def [symmetric] normalise_append
    by (auto simp: path_apply_normalise [OF good] canonical_def split: option.splits)
qed

text \<open>
  C36. Normalising a path is resolving its names. For every working directory and path the result is
  that of the reference on lists of names: a path with an empty component fails, \<open>.\<close> and \<open>..\<close> are
  taken off, \<open>..\<close> stops at the root, and a name that does not fit fails the call, never shortens
  the path.
\<close>

theorem vfs_resolve_path_reference:
  "vfs_resolve_path cwd (Some p) =
     (if has_double_slash p then None
      else case normalise [] (path_names cwd p) of None \<Rightarrow> None
        | Some cs \<Rightarrow> if length (render cs) + 1 \<ge> FS_MAX_PATH then None else Some (canonical cs))"
  by (rule vfs_resolve_path_eq)

text \<open>
  C37. A normalised path is a fixed point of the normalisation from any directory, fits its buffer,
  and is accepted by the resolver, which follows exactly its names from the root.
\<close>

theorem vfs_resolve_path_walks:
  assumes out: "vfs_resolve_path cwd path = Some out" and root: "root_at dr st \<noteq> NULL"
  shows "\<exists>cs. list_all good_name cs \<and> out = canonical cs \<and> length out < FS_MAX_PATH \<and>
    vfs_resolve_path cwd' (Some out) = Some out \<and> resolve_fs dr (Some out) st = walk dr (root_at dr st) cs st"
proof -
  obtain p where p: "path = Some p" using out by (cases path) (auto simp: vfs_resolve_path_def)
  obtain cs where cs: "normalise [] (path_names cwd p) = Some cs" "length (render cs) + 1 < FS_MAX_PATH" "out = canonical cs"
    using out unfolding p vfs_resolve_path_eq by (auto split: if_splits option.splits)
  have good: "list_all good_name cs"
    using normalise_good [OF _ _ _ cs(1)] components_names
    by (auto simp: path_names_def FS_MAX_PATH_def split: option.splits)
  have names: "path_names cwd' out = cs"
    using components_render [OF good] by (cases cs) (auto simp: path_names_def canonical_def cs(3) components.simps split: option.splits)
  have "vfs_resolve_path cwd' (Some out) = Some out"
    unfolding vfs_resolve_path_eq names
    using cs(2,3) good normalise_id [OF good, of "[]"] no_double_slash [OF good] by (simp add: canonical_def)
  moreover have "length out < FS_MAX_PATH" using cs(2,3) by (auto simp: canonical_def FS_MAX_PATH_def)
  ultimately show ?thesis
    using good cs(3) canonical_resolve [where cs = cs, OF good cs(2) root] by (auto simp: canonical_def)
qed

text \<open>
  The two ways into a directory agree. Where the walk to the parent succeeds, looking up the last
  name there is what the walk along the whole path does; where it fails, the whole path leads
  nowhere, so that no path can be created under one meaning and opened under another.
\<close>

theorem resolve_parent_agrees:
  assumes "root_at dr st \<noteq> NULL" "p \<noteq> []" "p \<noteq> [slash]" "length p < FS_MAX_PATH"
  shows "case resolve_parent_fs dr (Some p) st of
      None \<Rightarrow> resolve_fs dr (Some p) st = None
    | Some ((parent, name), st1) \<Rightarrow>
        if parent = NULL then \<forall>n st'. resolve_fs dr (Some p) st = Some (n, st') \<longrightarrow> n = NULL
        else resolve_fs dr (Some p) st = finddir_fs dr parent name st1"
proof -
  have ne: "(if hd p = slash then tl p else p) \<noteq> []" using assms(2,3) by (cases p) auto
  have eq: "resolve_parent_fs dr (Some p) st =
      resolve_parent_loop dr (root_at dr st) (if hd p = slash then tl p else p) st"
    "resolve_fs dr (Some p) st = resolve_loop dr (root_at dr st) (if hd p = slash then tl p else p) st"
    using assms ne by (auto simp: resolve_parent_fs_def resolve_fs_def Let_def)
  show ?thesis unfolding eq by (rule parent_loop_agrees [OF ne assms(1)])
qed

text \<open>A file system whose root is empty.\<close>

definition empty_drivers :: "unit drivers" where
  "empty_drivers = \<lparr>node_at = (\<lambda>_ _. Some \<lparr>n_name = ''root'', n_mask = 0, n_uid = 0, n_gid = 0, n_flags = FS_DIRECTORY,
     n_inode = 1, n_length = 0, n_impl = 0, n_read = FN_NULL, n_write = FN_NULL, n_open = FN_NULL, n_close = FN_NULL,
     n_readdir = FN_NULL, n_finddir = FN_RAMFS, n_create = FN_NULL, n_unlink = FN_NULL, n_mkdir = FN_NULL,
     n_rmdir = FN_NULL, n_ptr = NULL\<rparr>),
     root_at = (\<lambda>_. 4096), call_read = (\<lambda>_ _ _ _ _. None), call_write = (\<lambda>_ _ _ _ _. None),
     call_open = (\<lambda>_ _ _. None), call_close = (\<lambda>_ _ _. None), call_readdir = (\<lambda>_ _ _ _. None),
     call_finddir = (\<lambda>_ _ _ st. Some (NULL, st)), call_create = (\<lambda>_ _ _ _. None), call_unlink = (\<lambda>_ _ _ _. None),
     call_mkdir = (\<lambda>_ _ _ _. None), call_rmdir = (\<lambda>_ _ _ _. None)\<rparr>"

theorem vfs_resolve_path_walks_witness:
  "vfs_resolve_path (Some ''/home/u'') (Some ''../../etc/./x'') = Some ''/etc/x'' \<and>
   (\<exists>cs. ''/etc/x'' = canonical cs \<and> vfs_resolve_path (Some ''/tmp'') (Some ''/etc/x'') = Some ''/etc/x'' \<and>
     resolve_fs empty_drivers (Some ''/etc/x'') () = walk empty_drivers 4096 cs ())"
proof -
  have eval: "vfs_resolve_path (Some ''/home/u'') (Some ''../../etc/./x'') = Some ''/etc/x''" by code_simp
  have "root_at empty_drivers () \<noteq> NULL" "root_at empty_drivers () = 4096" by (simp_all add: empty_drivers_def)
  with eval vfs_resolve_path_walks [OF eval, of empty_drivers "()" "Some ''/tmp''"] show ?thesis by auto
qed

theorem resolve_parent_agrees_witness:
  "resolve_parent_fs empty_drivers (Some ''/a'') () = Some ((4096, ''a''), ()) \<and>
   resolve_fs empty_drivers (Some ''/a'') () = finddir_fs empty_drivers 4096 ''a'' ()"
proof -
  have "resolve_parent_fs empty_drivers (Some ''/a'') () = Some ((4096, ''a''), ())"
    by (simp add: resolve_parent_fs_def empty_drivers_def FS_MAX_PATH_def resolve_parent_loop.simps
      parse_component_def FS_NAME_SIZE_def)
  with resolve_parent_agrees [of empty_drivers "()" "''/a''"] show ?thesis
    by (simp add: empty_drivers_def FS_MAX_PATH_def)
qed

end
