(* ===== verification/Heap.thy ===== *)
theory Heap
  imports Pmm
begin

text \<open>
  The kernel heap (src/heap.c): a singly linked list of block headers, in address order, over
  pages taken from the physical memory manager. The state holds the headers as a store from
  addresses to header records, the list head, the page count and the state of the page allocator.

  Every function follows pointers, so its result is an \<open>option\<close>: \<open>None\<close> stands for a header read
  through a pointer that is no header, or for a walk that never ends. The lemmas relate the pointer
  operations to operations on the list of blocks, show that under the invariant every operation
  returns, and that the payloads handed out never overlap. Clients use the locale
  \<open>byte_allocator\<close>, interpreted here.
\<close>

section \<open>State and operations\<close>

record heap_block =
  blk_size :: u32
  blk_is_free :: bool
  blk_next :: ptr

record heap_state =
  hdr :: "ptr \<Rightarrow> heap_block option"
  heap_head :: ptr
  heap_pages :: u32
  heap_pmm :: pmm_state

text \<open>\<open>sizeof(heap_block_t)\<close> on i386: three 32-bit fields.\<close>

definition HDR :: u32 where
  "HDR = 12"

definition blocks_are_adjacent :: "ptr \<Rightarrow> heap_block \<Rightarrow> ptr \<Rightarrow> bool" where
  "blocks_are_adjacent first b second \<longleftrightarrow> first + HDR + blk_size b = second"

partial_function (option) merge_loop :: "ptr \<Rightarrow> heap_state \<Rightarrow> heap_state option" where
  "merge_loop current h =
     (if current = NULL then Some h
      else case hdr h current of None \<Rightarrow> None | Some c \<Rightarrow>
        if blk_next c = NULL then Some h
        else case hdr h (blk_next c) of None \<Rightarrow> None | Some n \<Rightarrow>
          if blk_is_free c \<and> blk_is_free n \<and> blocks_are_adjacent current c (blk_next c)
          then merge_loop current
            (h\<lparr>hdr := (hdr h)(current \<mapsto>
               c\<lparr>blk_size := blk_size c + (HDR + blk_size n), blk_next := blk_next n\<rparr>)\<rparr>)
          else merge_loop (blk_next c) h)"

definition merge_free_blocks :: "heap_state \<Rightarrow> heap_state option" where
  "merge_free_blocks h = merge_loop (heap_head h) h"

text \<open>The walk of \<open>insert_block\<close> to the last header below the new one.\<close>

partial_function (option) insert_walk :: "ptr \<Rightarrow> ptr \<Rightarrow> heap_state \<Rightarrow> ptr option" where
  "insert_walk block current h =
     (case hdr h current of None \<Rightarrow> None | Some c \<Rightarrow>
        if blk_next c \<noteq> NULL \<and> blk_next c < block then insert_walk block (blk_next c) h
        else Some current)"

definition insert_block :: "ptr \<Rightarrow> heap_state \<Rightarrow> heap_state option" where
  "insert_block block h =
     (case hdr h block of None \<Rightarrow> None | Some b \<Rightarrow>
        if heap_head h = NULL \<or> block < heap_head h
        then Some (h\<lparr>hdr := (hdr h)(block \<mapsto> b\<lparr>blk_next := heap_head h\<rparr>), heap_head := block\<rparr>)
        else case insert_walk block (heap_head h) h of None \<Rightarrow> None | Some current \<Rightarrow>
          (case hdr h current of None \<Rightarrow> None | Some c \<Rightarrow>
             Some (h\<lparr>hdr := (hdr h)(block \<mapsto> b\<lparr>blk_next := blk_next c\<rparr>,
                                    current \<mapsto> c\<lparr>blk_next := block\<rparr>)\<rparr>)))"

text \<open>
  \<open>heap_grow\<close> writes the size and the flag of a fresh header; its link is first written by
  \<open>insert_block\<close>, before anything reads it.
\<close>

definition heap_grow :: "u32 \<Rightarrow> heap_state \<Rightarrow> (bool \<times> heap_state) option" where
  "heap_grow min_payload h =
     (if min_payload > 0xFFFFFFFF - HDR - 4095 then Some (False, h)
      else
        let total_size = HDR + min_payload;
            page_count = (total_size + 4096 - 1) div 4096
        in case pmm_alloc_blocks page_count (heap_pmm h) of (block, pm) \<Rightarrow>
          if block = NULL then Some (False, h\<lparr>heap_pmm := pm\<rparr>)
          else
            let h1 = h\<lparr>heap_pmm := pm,
                  hdr := (hdr h)(block \<mapsto> \<lparr>blk_size = page_count * 4096 - HDR,
                                          blk_is_free = True, blk_next = NULL\<rparr>)\<rparr>
            in case insert_block block h1 of None \<Rightarrow> None | Some h2 \<Rightarrow>
              (case merge_free_blocks (h2\<lparr>heap_pages := heap_pages h2 + page_count\<rparr>) of
                 None \<Rightarrow> None | Some h3 \<Rightarrow> Some (True, h3)))"

definition heap_init :: "heap_state \<Rightarrow> heap_state option" where
  "heap_init h = (if heap_head h = NULL then map_option snd (heap_grow 1 h) else Some h)"

text \<open>The first-fit search; the null pointer when no free block is large enough.\<close>

partial_function (option) find_fit :: "u32 \<Rightarrow> ptr \<Rightarrow> heap_state \<Rightarrow> ptr option" where
  "find_fit sz current h =
     (if current = NULL then Some NULL
      else case hdr h current of None \<Rightarrow> None | Some c \<Rightarrow>
        if blk_is_free c \<and> blk_size c \<ge> sz then Some current
        else find_fit sz (blk_next c) h)"

text \<open>The part of \<open>kmalloc\<close> after the search: split the block when it is large, mark it used.\<close>

definition take_block :: "u32 \<Rightarrow> ptr \<Rightarrow> heap_state \<Rightarrow> (ptr \<times> heap_state) option" where
  "take_block sz best_fit h =
     (case hdr h best_fit of None \<Rightarrow> None | Some b \<Rightarrow>
        if blk_size b > sz + HDR + 4 then
          let new_block = best_fit + HDR + sz
          in Some (best_fit + HDR,
               h\<lparr>hdr := (hdr h)
                 (new_block \<mapsto> \<lparr>blk_size = blk_size b - sz - HDR, blk_is_free = True,
                                blk_next = blk_next b\<rparr>,
                  best_fit \<mapsto> b\<lparr>blk_size := sz, blk_next := new_block, blk_is_free := False\<rparr>)\<rparr>)
        else Some (best_fit + HDR, h\<lparr>hdr := (hdr h)(best_fit \<mapsto> b\<lparr>blk_is_free := False\<rparr>)\<rparr>))"

text \<open>The search, the growth when it fails, the second search, and the split.\<close>

definition kmalloc_sized :: "u32 \<Rightarrow> heap_state \<Rightarrow> (ptr \<times> heap_state) option" where
  "kmalloc_sized sz h =
     (case find_fit sz (heap_head h) h of None \<Rightarrow> None | Some best_fit \<Rightarrow>
        if best_fit \<noteq> NULL then take_block sz best_fit h
        else case heap_grow sz h of None \<Rightarrow> None | Some (grown, h2) \<Rightarrow>
          if \<not> grown then Some (NULL, h2)
          else case find_fit sz (heap_head h2) h2 of None \<Rightarrow> None | Some best_fit2 \<Rightarrow>
            if best_fit2 = NULL then Some (NULL, h2) else take_block sz best_fit2 h2)"

definition kmalloc :: "u32 \<Rightarrow> heap_state \<Rightarrow> (ptr \<times> heap_state) option" where
  "kmalloc req h =
     (if req = 0 \<or> req > 0xFFFFFFFF - 3 then Some (NULL, h)
      else
        let sz = (req + 4 - 1) AND NOT 3
        in case (if heap_head h = NULL then heap_init h else Some h) of None \<Rightarrow> None
           | Some h1 \<Rightarrow> kmalloc_sized sz h1)"

definition kfree :: "ptr \<Rightarrow> heap_state \<Rightarrow> heap_state option" where
  "kfree p h =
     (if p = NULL then Some h
      else case hdr h (p - HDR) of None \<Rightarrow> None | Some b \<Rightarrow>
        merge_free_blocks (h\<lparr>hdr := (hdr h)(p - HDR \<mapsto> b\<lparr>blk_is_free := True\<rparr>)\<rparr>))"

definition heap_first_block :: "heap_state \<Rightarrow> ptr" where
  "heap_first_block h = heap_head h"

definition heap_get_page_count :: "heap_state \<Rightarrow> u32" where
  "heap_get_page_count h = heap_pages h"

partial_function (option) free_bytes_loop :: "ptr \<Rightarrow> u32 \<Rightarrow> heap_state \<Rightarrow> u32 option" where
  "free_bytes_loop current free_bytes h =
     (if current = NULL then Some free_bytes
      else case hdr h current of None \<Rightarrow> None | Some c \<Rightarrow>
        free_bytes_loop (blk_next c)
          (if blk_is_free c then free_bytes + blk_size c else free_bytes) h)"

definition heap_get_free_bytes :: "heap_state \<Rightarrow> u32 option" where
  "heap_get_free_bytes h = free_bytes_loop (heap_head h) 0 h"

section \<open>The list of blocks\<close>

text \<open>
  The abstract heap is a list of blocks: address of the header, payload size, free flag. The
  operations on it mirror the pointer operations.
\<close>

type_synonym ablock = "ptr \<times> u32 \<times> bool"

fun amerge :: "ablock list \<Rightarrow> ablock list" where
  "amerge ((a, n, f) # (b, m, g) # bs) =
     (if f \<and> g \<and> a + HDR + n = b then amerge ((a, n + (HDR + m), f) # bs)
      else (a, n, f) # amerge ((b, m, g) # bs))"
| "amerge [] = []"
| "amerge [b] = [b]"

fun ainsert :: "ablock \<Rightarrow> ablock list \<Rightarrow> ablock list" where
  "ainsert x [] = [x]"
| "ainsert x (b # bs) = (if fst x < fst b then x # b # bs else b # ainsert x bs)"

fun afind :: "u32 \<Rightarrow> ablock list \<Rightarrow> ptr" where
  "afind sz [] = NULL"
| "afind sz ((a, n, f) # bs) = (if f \<and> n \<ge> sz then a else afind sz bs)"

fun atake :: "u32 \<Rightarrow> ptr \<Rightarrow> ablock list \<Rightarrow> ablock list" where
  "atake sz p [] = []"
| "atake sz p ((a, n, f) # bs) =
     (if a = p then
        (if n > sz + HDR + 4 then (a, sz, False) # (a + HDR + sz, n - sz - HDR, True) # bs
         else (a, n, False) # bs)
      else (a, n, f) # atake sz p bs)"

fun arelease :: "ptr \<Rightarrow> ablock list \<Rightarrow> ablock list" where
  "arelease p [] = []"
| "arelease p ((a, n, f) # bs) = (if a = p then (a, n, True) # bs else (a, n, f) # arelease p bs)"

text \<open>The blocks linked from one address to another, and the whole list.\<close>

fun hseg :: "(ptr \<Rightarrow> heap_block option) \<Rightarrow> ptr \<Rightarrow> ablock list \<Rightarrow> ptr \<Rightarrow> bool" where
  "hseg m x [] y \<longleftrightarrow> x = y"
| "hseg m x ((a, n, f) # bs) y \<longleftrightarrow> x = a \<and> a \<noteq> NULL \<and>
     (\<exists>q. m a = Some \<lparr>blk_size = n, blk_is_free = f, blk_next = q\<rparr> \<and> hseg m q bs y)"

text \<open>
  The blocks lie in address order from \<open>lo\<close> on, do not overlap, are word aligned and end within
  the 32 MB of physical memory.
\<close>

fun layout :: "nat \<Rightarrow> ablock list \<Rightarrow> bool" where
  "layout lo [] \<longleftrightarrow> True"
| "layout lo ((a, n, f) # bs) \<longleftrightarrow> lo \<le> unat a \<and> unat a mod 4 = 0 \<and> unat n mod 4 = 0 \<and> 0 < unat n \<and>
     unat a + 12 + unat n \<le> 2 ^ 25 \<and> layout (unat a + 12 + unat n) bs"

text \<open>Two free neighbours are never adjacent: they would have been merged.\<close>

fun coalesced :: "ablock list \<Rightarrow> bool" where
  "coalesced ((a, n, f) # (b, m, g) # bs) \<longleftrightarrow>
     \<not> (f \<and> g \<and> a + HDR + n = b) \<and> coalesced ((b, m, g) # bs)"
| "coalesced bs \<longleftrightarrow> True"

definition block_bytes :: "ablock \<Rightarrow> nat set" where
  "block_bytes b = (case b of (a, n, f) \<Rightarrow> {unat a..<unat a + 12 + unat n})"

definition blocks_total :: "ablock list \<Rightarrow> nat" where
  "blocks_total bs = (\<Sum>(a, n, f) \<leftarrow> bs. 12 + unat n)"

definition heap_blocks :: "heap_state \<Rightarrow> ablock list \<Rightarrow> bool" where
  "heap_blocks h bs \<longleftrightarrow> hseg (hdr h) (heap_head h) bs NULL \<and> layout 4096 bs \<and> coalesced bs \<and>
     pmm_inv (heap_pmm h) \<and>
     (\<forall>b \<in> set bs. \<forall>x \<in> block_bytes b. x div 4096 \<in> frames_used (heap_pmm h)) \<and>
     blocks_total bs = unat (heap_pages h) * 4096"

definition heap_inv :: "heap_state \<Rightarrow> bool" where
  "heap_inv h \<longleftrightarrow> (\<exists>bs. heap_blocks h bs)"

text \<open>The live allocations: payload address and payload size of the blocks in use.\<close>

definition live :: "ablock list \<Rightarrow> (ptr \<times> u32) set" where
  "live bs = {(a + HDR, n) | a n. (a, n, False) \<in> set bs}"

section \<open>Lists of blocks\<close>

lemma unat_HDR [simp]: "unat HDR = 12"
  by (simp add: HDR_def)

lemma unat_block_end:
  "unat a + 12 + unat n \<le> 2 ^ 25 \<Longrightarrow> unat (a + HDR + n) = unat a + 12 + unat n" for a n :: u32
  by (simp add: unat_add_no_wrap)

lemma unat_merged_size:
  "unat n + 12 + unat m \<le> 2 ^ 25 \<Longrightarrow> unat (n + (HDR + m)) = unat n + 12 + unat m" for n m :: u32
  by (simp add: unat_add_no_wrap)

lemma layout_mono: "layout lo bs \<Longrightarrow> lo' \<le> lo \<Longrightarrow> layout lo' bs"
  by (cases bs) auto

lemma layout_mem:
  assumes "layout lo bs" "(a, n, f) \<in> set bs"
  shows "lo \<le> unat a" "unat a mod 4 = 0" "unat n mod 4 = 0" "0 < unat n"
    "unat a + 12 + unat n \<le> 2 ^ 25"
  using assms by (induction lo bs rule: layout.induct) auto

lemma layout_head_fresh: "layout lo bs \<Longrightarrow> unat a < lo \<Longrightarrow> a \<notin> fst ` set bs"
  using layout_mem(1) by fastforce

lemma layout_distinct: "layout lo bs \<Longrightarrow> distinct (map fst bs)"
proof (induction lo bs rule: layout.induct)
  case (2 lo a n f bs)
  then show ?case using layout_head_fresh [of "unat a + 12 + unat n" bs a] by auto
qed simp

lemma layout_disjoint:
  assumes "layout lo (as @ (a, n, f) # cs)" "b \<in> set (as @ cs)"
  shows "block_bytes b \<inter> block_bytes (a, n, f) = {}"
  using assms
proof (induction lo as rule: layout.induct)
  case (1 lo)
  then obtain b' m g where b: "b = (b', m, g)" "(b', m, g) \<in> set cs" by (cases b) auto
  with 1(1) layout_mem(1) [OF _ b(2), of "unat a + 12 + unat n"] show ?case
    by (auto simp: block_bytes_def)
next
  case (2 lo a' n' f' as)
  have "b \<in> set (as @ cs) \<Longrightarrow> ?case" using 2 by simp
  moreover have "?case" if "b = (a', n', f')"
    using 2(2) layout_mem(1) [of "unat a' + 12 + unat n'" "as @ (a, n, f) # cs" a n f] that
    by (auto simp: block_bytes_def)
  ultimately show ?case using 2(3) by auto
qed

lemma layout_insert:
  assumes "layout lo bs" "lo \<le> unat a" "unat a mod 4 = 0" "unat n mod 4 = 0" "0 < unat n"
    "unat a + 12 + unat n \<le> 2 ^ 25" "\<And>b. b \<in> set bs \<Longrightarrow> block_bytes b \<inter> block_bytes (a, n, f) = {}"
  shows "layout lo (ainsert (a, n, f) bs)"
  using assms
proof (induction lo bs rule: layout.induct)
  case (2 lo b m g bs)
  have dis: "{unat b..<unat b + 12 + unat m} \<inter> {unat a..<unat a + 12 + unat n} = {}"
    using 2(8) [of "(b, m, g)"] by (simp add: block_bytes_def)
  show ?case
  proof (cases "a < b")
    case True
    then have "unat a + 12 + unat n \<le> unat b"
      using dis 2(2) by (auto simp: word_less_nat_alt disjoint_iff)
    with True 2(2-7) show ?thesis by simp
  next
    case False
    then have "unat b + 12 + unat m \<le> unat a"
      using dis by (auto simp: word_less_nat_alt disjoint_iff)
    with False 2 show ?thesis by simp
  qed
qed simp

lemma set_ainsert [simp]: "set (ainsert x bs) = insert x (set bs)"
  by (induction bs) auto

lemma blocks_total_simps [simp]:
  "blocks_total [] = 0" "blocks_total ((a, n, f) # bs) = 12 + unat n + blocks_total bs"
  by (simp_all add: blocks_total_def)

lemma blocks_total_append [simp]: "blocks_total (as @ bs) = blocks_total as + blocks_total bs"
  by (simp add: blocks_total_def)

lemma blocks_total_insert [simp]: "blocks_total (ainsert x bs) = blocks_total (x # bs)"
  by (induction bs) (auto simp: blocks_total_def)

lemma live_iff: "(p, n) \<in> live bs \<longleftrightarrow> (p - HDR, n, False) \<in> set bs"
  by (force simp: live_def)

lemma live_insert_free [simp]: "live (ainsert (a, n, True) bs) = live bs"
  by (auto simp: live_iff)

section \<open>Merging\<close>

lemma amerge_head: "\<exists>n' bs'. amerge ((a, n, f) # bs) = (a, n', f) # bs'"
proof (induction "length bs" arbitrary: n bs)
  case (Suc k)
  then obtain b m g cs where "bs = (b, m, g) # cs" by (cases bs) auto
  with Suc show ?case by auto
qed simp

definition all_bytes :: "ablock list \<Rightarrow> nat set" where
  "all_bytes bs = (\<Union>b \<in> set bs. block_bytes b)"

lemma merge_step:
  assumes lay: "layout lo ((a, n, True) # (b, m, True) # bs)" and adj: "a + HDR + n = b"
  shows "layout lo ((a, n + (HDR + m), True) # bs)"
    and "blocks_total ((a, n + (HDR + m), True) # bs) = blocks_total ((a, n, True) # (b, m, True) # bs)"
    and "all_bytes ((a, n + (HDR + m), True) # bs) = all_bytes ((a, n, True) # (b, m, True) # bs)"
    and "live ((a, n + (HDR + m), True) # bs) = live ((a, n, True) # (b, m, True) # bs)"
proof -
  have b: "unat b = unat a + 12 + unat n"
    using lay adj unat_block_end [of a n] by simp
  have nm: "unat (n + (HDR + m)) = unat n + 12 + unat m"
    using lay by (intro unat_merged_size) simp
  have "(unat n + 12 + unat m) mod 4 = 0" using lay by (simp add: mod_eq_0_iff_dvd)
  with lay b nm show "layout lo ((a, n + (HDR + m), True) # bs)" by (simp add: add.assoc)
  show "blocks_total ((a, n + (HDR + m), True) # bs) = blocks_total ((a, n, True) # (b, m, True) # bs)"
    by (simp add: nm)
  show "all_bytes ((a, n + (HDR + m), True) # bs) = all_bytes ((a, n, True) # (b, m, True) # bs)"
    by (auto simp: all_bytes_def block_bytes_def b nm)
  show "live ((a, n + (HDR + m), True) # bs) = live ((a, n, True) # (b, m, True) # bs)"
    by (auto simp: live_iff)
qed

lemma all_bytes_Cons: "all_bytes (b # bs) = block_bytes b \<union> all_bytes bs"
  by (simp add: all_bytes_def)

lemma live_Cons:
  "live ((a, n, f) # bs) = (if f then {} else {(a + HDR, n)}) \<union> live bs"
  by (auto simp: live_iff)

lemma amerge_spec:
  assumes "layout lo bs"
  shows "layout lo (amerge bs) \<and> blocks_total (amerge bs) = blocks_total bs \<and>
    all_bytes (amerge bs) = all_bytes bs \<and> live (amerge bs) = live bs"
  using assms
proof (induction bs arbitrary: lo rule: amerge.induct)
  case (1 a n f b m g bs)
  show ?case
  proof (cases "f \<and> g \<and> a + HDR + n = b")
    case True
    then have "layout lo ((a, n, True) # (b, m, True) # bs)" "a + HDR + n = b" using 1(3) by auto
    from merge_step [OF this] 1(1) [OF True, of lo] True show ?thesis by simp
  next
    case False
    then have eq: "amerge ((a, n, f) # (b, m, g) # bs) = (a, n, f) # amerge ((b, m, g) # bs)" by auto
    show ?thesis
      unfolding eq using 1(2) [OF False, of "unat a + 12 + unat n"] 1(3)
      by (simp add: all_bytes_Cons [of "(a, n, f)"] live_Cons [of a])
  qed
qed simp_all

lemma amerge_coalesced: "coalesced (amerge bs)"
proof (induction bs rule: amerge.induct)
  case (1 a n f b m g bs)
  obtain m' bs' where "amerge ((b, m, g) # bs) = (b, m', g) # bs'"
    using amerge_head by blast
  with 1 show ?case by auto
qed simp_all

section \<open>Pointer chains\<close>

lemma hseg_cong:
  "(\<And>a. a \<in> fst ` set bs \<Longrightarrow> m a = m' a) \<Longrightarrow> hseg m x bs y = hseg m' x bs y"
  by (induction m x bs y rule: hseg.induct) auto

lemma hseg_fun_upd [simp]: "a \<notin> fst ` set bs \<Longrightarrow> hseg (m(a := v)) x bs y = hseg m x bs y"
  by (rule hseg_cong) auto

lemma hseg_append: "hseg m x (as @ bs) y \<longleftrightarrow> (\<exists>z. hseg m x as z \<and> hseg m z bs y)"
  by (induction m x as y rule: hseg.induct) auto

lemma hseg_null [simp]: "hseg m NULL bs NULL \<longleftrightarrow> bs = []"
  by (cases bs) auto

lemma merge_loop_refines:
  assumes "hseg (hdr h) x bs NULL" "layout lo bs"
  shows "\<exists>m'. merge_loop x h = Some (h\<lparr>hdr := m'\<rparr>) \<and> hseg m' x (amerge bs) NULL \<and>
    (\<forall>a. a \<notin> fst ` set bs \<longrightarrow> m' a = hdr h a)"
  using assms
proof (induction bs arbitrary: lo x h rule: amerge.induct)
  case (1 a n f b m g bs)
  then obtain q where x: "x = a" "a \<noteq> 0" "b \<noteq> 0"
    and ha: "hdr h a = Some \<lparr>blk_size = n, blk_is_free = f, blk_next = b\<rparr>"
    and hb: "hdr h b = Some \<lparr>blk_size = m, blk_is_free = g, blk_next = q\<rparr>"
    and q: "hseg (hdr h) q bs NULL" by auto
  have fresh: "a \<notin> fst ` set bs" "a \<noteq> b"
    using layout_distinct [OF 1(4)] by auto
  show ?case
  proof (cases "f \<and> g \<and> a + HDR + n = b")
    case True
    let ?h = "h\<lparr>hdr := (hdr h)(a \<mapsto> \<lparr>blk_size = n + (HDR + m), blk_is_free = True, blk_next = q\<rparr>)\<rparr>"
    have step: "merge_loop x h = merge_loop a ?h"
      using True ha hb x by (subst merge_loop.simps) (simp add: blocks_are_adjacent_def)
    have lay: "layout lo ((a, n + (HDR + m), f) # bs)"
      using 1(4) merge_step(1) [of lo a n b m bs] True by simp
    have seg: "hseg (hdr ?h) a ((a, n + (HDR + m), f) # bs) NULL"
      using True q fresh x by simp
    from 1(1) [OF True seg lay] True step x show ?thesis by auto
  next
    case False
    have step: "merge_loop x h = merge_loop b h"
      using False ha hb x by (subst merge_loop.simps) (auto simp: blocks_are_adjacent_def)
    have seg: "hseg (hdr h) b ((b, m, g) # bs) NULL" using hb q x by simp
    have lay: "layout (unat a + 12 + unat n) ((b, m, g) # bs)" using 1(4) by simp
    from 1(2) [OF False seg lay] obtain m' where m': "merge_loop b h = Some (h\<lparr>hdr := m'\<rparr>)"
      "hseg m' b (amerge ((b, m, g) # bs)) NULL" "\<forall>c. c \<notin> fst ` set ((b, m, g) # bs) \<longrightarrow> m' c = hdr h c"
      by blast
    have eq: "amerge ((a, n, f) # (b, m, g) # bs) = (a, n, f) # amerge ((b, m, g) # bs)"
      using False by auto
    have "hseg m' x (amerge ((a, n, f) # (b, m, g) # bs)) NULL"
      unfolding eq using m'(2,3) ha x fresh by auto
    with m' step show ?thesis by auto
  qed
next
  case 2
  then show ?case by (subst merge_loop.simps) (auto intro: exI [of _ "hdr h"])
next
  case (3 v)
  then show ?case by (cases v) (subst merge_loop.simps, auto intro: exI [of _ "hdr h"])
qed

lemma insert_walk_refines:
  assumes "hseg (hdr h) x bs NULL" "bs \<noteq> []" "x < block" "block \<notin> fst ` set bs" "fst b = block"
  shows "\<exists>as a n f cs. bs = as @ (a, n, f) # cs \<and> insert_walk block x h = Some a \<and>
    ainsert b bs = as @ (a, n, f) # b # cs"
  using assms
proof (induction bs arbitrary: x)
  case (Cons c bs)
  obtain a n f where c: "c = (a, n, f)" by (cases c)
  with Cons.prems obtain q where x: "x = a" "a \<noteq> 0"
    and ha: "hdr h a = Some \<lparr>blk_size = n, blk_is_free = f, blk_next = q\<rparr>"
    and q: "hseg (hdr h) q bs NULL" by auto
  have less: "\<not> block < a" "a < block" using Cons.prems(3) x by auto
  show ?case
  proof (cases "q \<noteq> 0 \<and> q < block")
    case True
    then have "bs \<noteq> []" using q by auto
    from Cons.IH [OF q this] True Cons.prems(4,5) obtain as a' n' f' cs where
      "bs = as @ (a', n', f') # cs" "insert_walk block q h = Some a'"
      "ainsert b bs = as @ (a', n', f') # b # cs" by auto
    moreover have "insert_walk block x h = insert_walk block q h"
      using ha x True by (subst insert_walk.simps) simp
    ultimately show ?thesis
      using c Cons.prems(5) less by (intro exI [of _ "c # as"] exI [of _ a'] exI [of _ n']
        exI [of _ f'] exI [of _ cs]) simp
  next
    case False
    have "ainsert b bs = b # bs"
    proof (cases bs)
      case (Cons d ds)
      then have "fst d = q" "q \<noteq> 0" using q by (cases d; simp)+
      with Cons False Cons.prems(4,5) show ?thesis by auto
    qed simp
    moreover have "insert_walk block x h = Some a"
      using ha x False by (subst insert_walk.simps) auto
    ultimately show ?thesis
      using c Cons.prems(5) less by (intro exI [of _ "[]"] exI [of _ a] exI [of _ n]
        exI [of _ f] exI [of _ bs]) simp
  qed
qed simp

lemma insert_block_refines:
  assumes seg: "hseg (hdr h) (heap_head h) bs NULL" and lay: "layout lo bs"
    and new: "block \<notin> fst ` set bs" "block \<noteq> NULL" "hdr h block = Some \<lparr>blk_size = n, blk_is_free = f, blk_next = q\<rparr>"
  shows "\<exists>m' p. insert_block block h = Some (h\<lparr>hdr := m', heap_head := p\<rparr>) \<and>
    hseg m' p (ainsert (block, n, f) bs) NULL"
proof (cases "heap_head h = NULL \<or> block < heap_head h")
  case True
  have "ainsert (block, n, f) bs = (block, n, f) # bs"
    using True seg by (cases bs) auto
  with True new seg show ?thesis
    by (intro exI [of _ "(hdr h)(block \<mapsto> \<lparr>blk_size = n, blk_is_free = f, blk_next = heap_head h\<rparr>)"]
        exI [of _ block]) (simp add: insert_block_def)
next
  case False
  then obtain b bs' where bs: "bs = b # bs'" using seg by (cases bs) auto
  with False seg new(1) have "heap_head h < block" by (cases b) auto
  moreover have "bs \<noteq> []" using bs by simp
  ultimately have "\<exists>as a k g cs. bs = as @ (a, k, g) # cs \<and> insert_walk block (heap_head h) h = Some a \<and>
      ainsert (block, n, f) bs = as @ (a, k, g) # (block, n, f) # cs"
    by (intro insert_walk_refines [OF seg _ _ new(1)]) simp_all
  then
  obtain as a k g cs where split: "bs = as @ (a, k, g) # cs"
    "insert_walk block (heap_head h) h = Some a" "ainsert (block, n, f) bs = as @ (a, k, g) # (block, n, f) # cs"
    by blast
  from seg obtain r where r: "hseg (hdr h) (heap_head h) as a" "a \<noteq> 0"
    "hdr h a = Some \<lparr>blk_size = k, blk_is_free = g, blk_next = r\<rparr>" "hseg (hdr h) r cs NULL"
    unfolding split(1) by (auto simp: hseg_append)
  have "distinct (map fst (as @ (a, k, g) # cs))" using layout_distinct [OF lay] split(1) by simp
  then have "a \<notin> fst ` set as" "a \<notin> fst ` set cs" by auto
  moreover have "block \<notin> fst ` set as" "block \<notin> fst ` set cs" "a \<noteq> block" using new(1) split(1) by auto
  ultimately show ?thesis
    using False new split(2) r
    by (intro exI [of _ "(hdr h)(block \<mapsto> \<lparr>blk_size = n, blk_is_free = f, blk_next = r\<rparr>,
          a \<mapsto> \<lparr>blk_size = k, blk_is_free = g, blk_next = block\<rparr>)"] exI [of _ "heap_head h"])
      (auto simp: insert_block_def split(3) hseg_append)
qed

lemma find_fit_refines: "hseg (hdr h) x bs NULL \<Longrightarrow> find_fit sz x h = Some (afind sz bs)"
  by (induction sz bs arbitrary: x rule: afind.induct) (subst find_fit.simps, auto)+

lemma free_bytes_refines:
  "hseg (hdr h) x bs NULL \<Longrightarrow>
     free_bytes_loop x acc h = Some (acc + (\<Sum>(a, n, f) \<leftarrow> bs. if f then n else 0))"
proof (induction bs arbitrary: x acc)
  case Nil
  then show ?case by (subst free_bytes_loop.simps) simp
next
  case (Cons b bs)
  then show ?case by (cases b) (subst free_bytes_loop.simps, auto simp: add.assoc)
qed

lemma afind_mem: "afind sz bs \<noteq> NULL \<Longrightarrow> \<exists>n. (afind sz bs, n, True) \<in> set bs \<and> sz \<le> n"
  by (induction sz bs rule: afind.induct) (auto split: if_splits)

lemma afind_none: "layout lo bs \<Longrightarrow> 0 < lo \<Longrightarrow> afind sz bs = NULL \<Longrightarrow> (a, n, True) \<in> set bs \<Longrightarrow> n < sz"
  by (induction sz bs arbitrary: lo rule: afind.induct) (auto split: if_splits)

text \<open>A block in the list splits the list and the chain.\<close>

lemma hseg_split:
  assumes "hseg m x bs NULL" "layout lo bs" "(a, n, f) \<in> set bs"
  obtains as cs r where "bs = as @ (a, n, f) # cs" "a \<notin> fst ` set as" "a \<notin> fst ` set cs" "a \<noteq> NULL"
    "hseg m x as a" "m a = Some \<lparr>blk_size = n, blk_is_free = f, blk_next = r\<rparr>" "hseg m r cs NULL"
proof -
  from split_list [OF assms(3)] obtain as cs where bs: "bs = as @ (a, n, f) # cs" by blast
  have "distinct (map fst bs)" using layout_distinct [OF assms(2)] .
  with assms(1) show thesis unfolding bs by (auto simp: hseg_append intro: that [OF bs])
qed

lemma atake_split:
  "a \<notin> fst ` set as \<Longrightarrow> atake sz a (as @ (a, n, f) # cs) = as @
     (if n > sz + HDR + 4 then (a, sz, False) # (a + HDR + sz, n - sz - HDR, True) # cs
      else (a, n, False) # cs)"
  by (induction as) auto

lemma arelease_split:
  "a \<notin> fst ` set as \<Longrightarrow> arelease a (as @ (a, n, f) # cs) = as @ (a, n, True) # cs"
  by (induction as) auto

text \<open>A header cut out of the payload of a block is at a new address.\<close>

lemma split_addr_fresh:
  assumes lay: "layout lo (as @ (a, n, f) # cs)" and sz: "12 + unat sz < 12 + unat n"
  shows "a + HDR + sz \<notin> fst ` set (as @ (a, n, f) # cs)"
proof
  have n: "unat a + 12 + unat n \<le> 2 ^ 25" using layout_mem(5) [OF lay, of a n f] by simp
  then have u: "unat (a + HDR + sz) = unat a + 12 + unat sz" using sz by (intro unat_block_end) simp
  assume "a + HDR + sz \<in> fst ` set (as @ (a, n, f) # cs)"
  then consider b m g where "(b, m, g) \<in> set (as @ cs)" "b = a + HDR + sz" | "a = a + HDR + sz" by force
  then show False
  proof cases
    case 1
    with layout_disjoint [OF lay 1(1)] have "unat b \<notin> block_bytes (a, n, f)"
      by (auto simp: block_bytes_def)
    then show False using u 1(2) sz by (simp add: block_bytes_def)
  next
    case 2
    with u show False by simp
  qed
qed

lemma take_block_refines:
  assumes seg: "hseg (hdr h) (heap_head h) bs NULL" and lay: "layout lo bs"
    and a: "(a, n, True) \<in> set bs" "sz \<le> n"
  shows "\<exists>m'. take_block sz a h = Some (a + HDR, h\<lparr>hdr := m'\<rparr>) \<and> hseg m' (heap_head h) (atake sz a bs) NULL"
proof -
  obtain as cs r where s: "bs = as @ (a, n, True) # cs" "a \<notin> fst ` set as" "a \<notin> fst ` set cs" "a \<noteq> NULL"
    "hseg (hdr h) (heap_head h) as a" "hdr h a = Some \<lparr>blk_size = n, blk_is_free = True, blk_next = r\<rparr>"
    "hseg (hdr h) r cs NULL"
    using hseg_split [OF seg lay a(1)] by blast
  have n: "unat n < 2 ^ 25" using layout_mem(5) [OF lay a(1)] by simp
  show ?thesis
  proof (cases "n > sz + HDR + 4")
    case True
    have "unat (sz + HDR + 4) = unat sz + 16"
      using a(2) n by (simp add: unat_add_no_wrap word_le_nat_alt)
    then have "12 + unat sz < 12 + unat n" using True by (simp add: word_less_nat_alt)
    then have "a + HDR + sz \<notin> fst ` set (as @ (a, n, True) # cs)"
      using split_addr_fresh lay s(1) by blast
    moreover have "a + HDR + sz \<noteq> 0"
      using unat_block_end [of a sz] layout_mem(5) [OF lay a(1)] a(2)
      by (auto simp: word_le_nat_alt)
    ultimately show ?thesis
      using s True
      by (intro exI [of _ "(hdr h)(a + HDR + sz \<mapsto> \<lparr>blk_size = n - sz - HDR, blk_is_free = True, blk_next = r\<rparr>,
            a \<mapsto> \<lparr>blk_size = sz, blk_is_free = False, blk_next = a + HDR + sz\<rparr>)"])
        (auto simp: take_block_def atake_split hseg_append Let_def image_Un)
  next
    case False
    with s show ?thesis
      by (intro exI [of _ "(hdr h)(a \<mapsto> \<lparr>blk_size = n, blk_is_free = False, blk_next = r\<rparr>)"])
        (auto simp: take_block_def atake_split hseg_append)
  qed
qed

section \<open>The operations keep the invariant\<close>

lemma heap_blocksD:
  assumes "heap_blocks h bs"
  shows "hseg (hdr h) (heap_head h) bs NULL" "layout 4096 bs" "coalesced bs" "pmm_inv (heap_pmm h)"
    "x \<in> all_bytes bs \<Longrightarrow> x div 4096 \<in> frames_used (heap_pmm h)"
    "blocks_total bs = unat (heap_pages h) * 4096"
  using assms by (auto simp: heap_blocks_def all_bytes_def)

lemma heap_blocksI:
  assumes "hseg (hdr h) (heap_head h) bs NULL" "layout 4096 bs" "coalesced bs" "pmm_inv (heap_pmm h)"
    "\<And>x. x \<in> all_bytes bs \<Longrightarrow> x div 4096 \<in> frames_used (heap_pmm h)"
    "blocks_total bs = unat (heap_pages h) * 4096"
  shows "heap_blocks h bs"
  using assms by (auto simp: heap_blocks_def all_bytes_def)

lemma hseg_fun: "hseg m x bs NULL \<Longrightarrow> hseg m x cs NULL \<Longrightarrow> bs = cs"
proof (induction bs arbitrary: x cs)
  case (Cons b bs)
  then show ?case by (cases b; cases cs) auto
qed (auto split: prod.splits)

lemma heap_blocks_unique: "heap_blocks h bs \<Longrightarrow> heap_blocks h cs \<Longrightarrow> bs = cs"
  using hseg_fun heap_blocksD(1) by blast

text \<open>A merge at the end of an operation restores the invariant from a laid out list.\<close>

lemma merge_free_blocks_spec:
  assumes "hseg (hdr h) (heap_head h) bs NULL" "layout 4096 bs" "pmm_inv (heap_pmm h)"
    "\<And>x. x \<in> all_bytes bs \<Longrightarrow> x div 4096 \<in> frames_used (heap_pmm h)"
    "blocks_total bs = unat (heap_pages h) * 4096"
  shows "\<exists>m'. merge_free_blocks h = Some (h\<lparr>hdr := m'\<rparr>) \<and> heap_blocks (h\<lparr>hdr := m'\<rparr>) (amerge bs)"
proof -
  from merge_loop_refines [OF assms(1,2)] obtain m' where
    "merge_loop (heap_head h) h = Some (h\<lparr>hdr := m'\<rparr>)" "hseg m' (heap_head h) (amerge bs) NULL" by blast
  with amerge_spec [OF assms(2)] amerge_coalesced [of bs] assms(3-5) show ?thesis
    unfolding merge_free_blocks_def by (intro exI [of _ m'] conjI heap_blocksI) auto
qed

lemma layout_total: "layout lo bs \<Longrightarrow> blocks_total bs + lo \<le> max lo (2 ^ 25)"
  by (induction lo bs rule: layout.induct) auto

text \<open>The number of pages \<open>heap_grow\<close> asks for.\<close>

lemma grow_pages:
  assumes "\<not> payload > 0xFFFFFFFF - HDR - 4095"
  defines "pages \<equiv> (HDR + payload + 4096 - 1) div 4096 :: u32"
  shows "unat pages = (unat payload + 12 + 4095) div 4096" "0 < unat pages"
    "12 + unat payload \<le> unat pages * 4096"
proof -
  have p: "unat payload \<le> 4294963188"
    using assms(1) by (simp add: HDR_def word_le_nat_alt not_less)
  then have "unat (HDR + payload + 4095) = unat payload + 12 + 4095"
    by (simp add: unat_add_no_wrap)
  then show pg: "unat pages = (unat payload + 12 + 4095) div 4096"
    by (simp add: pages_def unat_div add.commute [of 4095])
  then show "12 + unat payload \<le> unat pages * 4096" "0 < unat pages" by auto
qed

text \<open>The bytes of a run of frames are the bytes in its pages.\<close>

lemma frame_run_bytes:
  assumes "unat p mod 4096 = 0"
  shows "x \<in> {unat p..<unat p + unat n * 4096} \<longleftrightarrow> x div 4096 \<in> frame_run p n"
proof -
  obtain k where "unat p = k * 4096" using assms by (auto simp: mod_eq_0_iff_dvd mult.commute elim: dvdE)
  then show ?thesis
    by (simp add: frame_run_def PMM_BLOCK_SIZE_def less_eq_div_iff_mult_less_eq div_less_iff_less_mult
        add_mult_distrib)
qed

text \<open>The block \<open>heap_grow\<close> makes of fresh pages fits into the list.\<close>

lemma grow_block_spec:
  assumes inv: "heap_blocks h bs" and al: "pmm_alloc_blocks pages (heap_pmm h) = (block, pm)"
    and block: "block \<noteq> NULL"
  defines "n \<equiv> pages * 4096 - HDR"
  shows "unat n = unat pages * 4096 - 12" "0 < unat pages"
    "x \<in> block_bytes (block, n, True) \<longleftrightarrow> x div 4096 \<in> frame_run block pages"
    "layout 4096 (ainsert (block, n, True) bs)" "block \<notin> fst ` set bs"
proof -
  note D = heap_blocksD [OF inv]
  note bound = pmm.alloc_address_bound [OF D(4) al block, unfolded PMM_BLOCK_SIZE_def]
  have aln: "unat block mod 4096 = 0" and pg: "0 < unat pages"
    using pmm.alloc_aligned [OF D(4) al block] by (simp_all add: PMM_BLOCK_SIZE_def unat_gt_0)
  have m: "unat (pages * 4096) = unat pages * 4096"
    using bound(2) by (subst unat_mult_no_wrap) simp_all
  then have "HDR \<le> pages * 4096" using pg by (simp add: word_le_nat_alt)
  with m show n: "unat n = unat pages * 4096 - 12" by (simp add: n_def unat_sub_no_wrap)
  show "0 < unat pages" by (rule pg)
  have "block_bytes (block, n, True) = {unat block..<unat block + unat pages * 4096}"
    using n pg by (simp add: block_bytes_def)
  then show run: "x \<in> block_bytes (block, n, True) \<longleftrightarrow> x div 4096 \<in> frame_run block pages" for x
    using frame_run_bytes [OF aln] by blast
  have dis: "b \<in> set bs \<Longrightarrow> block_bytes b \<inter> block_bytes (block, n, True) = {}" for b
    using run D(5) pmm.alloc_fresh [OF D(4) al block] by (fastforce simp: all_bytes_def)
  then show "block \<notin> fst ` set bs" by (force simp: block_bytes_def)
  have "4 dvd unat block" using aln by (auto simp: mod_eq_0_iff_dvd intro: dvd_trans [of 4 4096])
  moreover have "4 dvd unat n" using n by (simp add: dvd_diff_nat)
  ultimately show "layout 4096 (ainsert (block, n, True) bs)"
    using bound n pg by (intro layout_insert [OF D(2)] dis) (auto simp: mod_eq_0_iff_dvd)
qed

text \<open>
  The frames of the heap grow only by frames that were free before: what other users of the page
  allocator hold stays theirs.
\<close>

definition frames_of :: "ablock list \<Rightarrow> nat set" where
  "frames_of bs = (\<lambda>x. x div 4096) ` all_bytes bs"

definition grows :: "heap_state \<Rightarrow> ablock list \<Rightarrow> heap_state \<Rightarrow> ablock list \<Rightarrow> bool" where
  "grows h bs h' bs' \<longleftrightarrow> (\<exists>N. N \<inter> frames_used (heap_pmm h) = {} \<and>
     frames_used (heap_pmm h') = frames_used (heap_pmm h) \<union> N \<and> frames_of bs' = frames_of bs \<union> N \<and>
     max_blocks (heap_pmm h') = max_blocks (heap_pmm h))"

lemma grows_same: "heap_pmm h' = heap_pmm h \<Longrightarrow> all_bytes bs' = all_bytes bs \<Longrightarrow> grows h bs h' bs'"
  unfolding grows_def frames_of_def by (intro exI [of _ "{}"]) simp

lemma grows_trans:
  assumes "grows h bs h1 bs1" "grows h1 bs1 h2 bs2"
  shows "grows h bs h2 bs2"
proof -
  obtain N where N: "N \<inter> frames_used (heap_pmm h) = {}" "frames_used (heap_pmm h1) = frames_used (heap_pmm h) \<union> N"
    "frames_of bs1 = frames_of bs \<union> N" "max_blocks (heap_pmm h1) = max_blocks (heap_pmm h)"
    using assms(1) by (auto simp: grows_def)
  obtain M where "M \<inter> frames_used (heap_pmm h1) = {}" "frames_used (heap_pmm h2) = frames_used (heap_pmm h1) \<union> M"
    "frames_of bs2 = frames_of bs1 \<union> M" "max_blocks (heap_pmm h2) = max_blocks (heap_pmm h1)"
    using assms(2) by (auto simp: grows_def)
  with N show ?thesis unfolding grows_def by (intro exI [of _ "N \<union> M"]) auto
qed

lemma heap_grow_spec:
  assumes inv: "heap_blocks h bs"
  shows "heap_grow payload h = Some (False, h) \<or> (\<exists>h' a n. heap_grow payload h = Some (True, h') \<and>
     heap_blocks h' (amerge (ainsert (a, n, True) bs)) \<and> payload \<le> n \<and>
     layout 4096 (ainsert (a, n, True) bs) \<and> grows h bs h' (amerge (ainsert (a, n, True) bs)))"
proof (cases "payload > 0xFFFFFFFF - HDR - 4095")
  case True
  then show ?thesis by (simp add: heap_grow_def)
next
  case small: False
  define pages :: u32 where "pages = (HDR + payload + 4096 - 1) div 4096"
  note D = heap_blocksD [OF inv]
  obtain block pm where al: "pmm_alloc_blocks pages (heap_pmm h) = (block, pm)" by fastforce
  show ?thesis
  proof (cases "block = NULL")
    case True
    with pmm.alloc_null [OF D(4), of pages pm] al have "pm = heap_pmm h" by simp
    with True al small show ?thesis by (simp add: heap_grow_def pages_def Let_def)
  next
    case False
    let ?n = "pages * 4096 - HDR" and ?bs = "ainsert (block, pages * 4096 - HDR, True) bs"
    note new = grow_block_spec [OF inv al False]
    let ?h1 = "h\<lparr>heap_pmm := pm, hdr := (hdr h)(block \<mapsto> \<lparr>blk_size = ?n, blk_is_free = True, blk_next = NULL\<rparr>)\<rparr>"
    obtain m p where ins: "insert_block block ?h1 = Some (?h1\<lparr>hdr := m, heap_head := p\<rparr>)"
      "hseg m p ?bs NULL"
      using insert_block_refines [of ?h1 bs 4096 block ?n True NULL] D(1,2) False new(5) by auto
    let ?h2 = "?h1\<lparr>hdr := m, heap_head := p, heap_pages := heap_pages h + pages\<rparr>"
    have "blocks_total bs + unat pages * 4096 \<le> 2 ^ 25"
      using layout_total [OF new(4)] new(1,2) by simp
    then have pages: "unat (heap_pages h + pages) = unat (heap_pages h) + unat pages"
      using D(6) by (intro unat_add_no_wrap) simp
    have owned: "x div 4096 \<in> frames_used pm" if "x \<in> all_bytes ?bs" for x
      using that new(3) D(5) pmm.alloc_owned [OF D(4) al False] by (auto simp: all_bytes_def)
    have "\<exists>m'. merge_free_blocks ?h2 = Some (?h2\<lparr>hdr := m'\<rparr>) \<and> heap_blocks (?h2\<lparr>hdr := m'\<rparr>) (amerge ?bs)"
      using ins(2) new(1,2,4) pages D(6) owned pmm.alloc_inv [OF D(4) al]
      by (intro merge_free_blocks_spec) (auto simp: distrib_right)
    then obtain m' where "merge_free_blocks ?h2 = Some (?h2\<lparr>hdr := m'\<rparr>)"
      "heap_blocks (?h2\<lparr>hdr := m'\<rparr>) (amerge ?bs)" by blast
    moreover have "payload \<le> ?n"
      using grow_pages(3) [OF small, folded pages_def] new(1) by (simp add: word_le_nat_alt)
    moreover have "grows h bs (?h2\<lparr>hdr := m'\<rparr>) (amerge ?bs)" for m'
    proof -
      have "all_bytes (amerge ?bs) = all_bytes bs \<union> block_bytes (block, ?n, True)"
        using amerge_spec [OF new(4)] by (auto simp: all_bytes_def)
      then have "frames_of (amerge ?bs) = frames_of bs \<union> (\<lambda>x. x div 4096) ` block_bytes (block, ?n, True)"
        by (simp add: frames_of_def image_Un)
      also have "(\<lambda>x. x div 4096) ` block_bytes (block, ?n, True) = frame_run block pages"
        using new(3) by (auto simp: image_iff) (metis mult.commute nonzero_mult_div_cancel_left zero_neq_numeral)
      finally show ?thesis
        using pmm.alloc_owned [OF D(4) al False] pmm.alloc_fresh [OF D(4) al False] pmm_alloc_blocks_spec(8) [OF D(4) al False]
        by (auto simp: grows_def)
    qed
    ultimately show ?thesis
      using new(4) ins(1) al False small by (auto simp: heap_grow_def pages_def Let_def)
  qed
qed

section \<open>Allocation\<close>

lemma kmalloc_size:
  fixes req :: u32
  assumes "req \<noteq> 0" "\<not> req > 0xFFFFFFFF - 3"
  defines "sz \<equiv> (req + 4 - 1) AND NOT 3"
  shows "req \<le> sz" "unat sz mod 4 = 0" "0 < unat sz" "unat sz = (unat req + 3) div 4 * 4"
proof -
  have "unat req \<le> 4294967292" using assms(2) by (simp add: word_le_nat_alt not_less)
  then have "unat (req + 3) = unat req + 3" by (simp add: unat_add_no_wrap)
  moreover have "req + 4 - 1 = req + 3" by simp
  ultimately show sz: "unat sz = (unat req + 3) div 4 * 4" by (simp only: sz_def unat_align4)
  have "0 < unat req" using assms(1) by (simp add: unat_gt_0)
  with sz show "req \<le> sz" "unat sz mod 4 = 0" "0 < unat sz"
    unfolding word_le_nat_alt by (auto simp: div_greater_zero_iff)
qed

lemma layout_append_replace:
  "layout lo (as @ x # cs) \<Longrightarrow> (\<And>lo'. layout lo' (x # cs) \<Longrightarrow> layout lo' ys) \<Longrightarrow> layout lo (as @ ys)"
  by (induction lo as rule: layout.induct) auto

lemma coalesced_append_used:
  "coalesced (as @ (a, n, f) # cs) \<Longrightarrow> coalesced ((a, n', False) # ds) \<Longrightarrow> coalesced (as @ (a, n', False) # ds)"
proof (induction as)
  case (Cons b as)
  then show ?case by (cases b; cases as) auto
qed simp

lemma coalesced_tail: "coalesced (as @ bs) \<Longrightarrow> coalesced bs"
proof (induction as)
  case (Cons b as)
  then have "coalesced (as @ bs)" by (cases b; cases "as @ bs") auto
  with Cons.IH show ?case .
qed simp

lemma split_sizes:
  assumes "unat a + 12 + unat n \<le> 2 ^ 25" "n > sz + HDR + 4" "sz \<le> n"
  shows "unat (n - sz - HDR) = unat n - unat sz - 12" "unat sz + 16 < unat n"
    "unat (a + HDR + sz) = unat a + 12 + unat sz"
proof -
  have "unat (sz + HDR + 4) = unat sz + 16"
    using assms(1,3) by (simp add: unat_add_no_wrap word_le_nat_alt)
  then show le: "unat sz + 16 < unat n" using assms(2) by (simp add: word_less_nat_alt)
  have "unat (n - sz) = unat n - unat sz" using assms(3) by (rule unat_sub_no_wrap)
  moreover from this have "HDR \<le> n - sz" using le by (simp add: word_le_nat_alt)
  ultimately show "unat (n - sz - HDR) = unat n - unat sz - 12" by (simp add: unat_sub_no_wrap)
  show "unat (a + HDR + sz) = unat a + 12 + unat sz"
    using assms(1) le by (intro unat_block_end) simp
qed

text \<open>What \<open>atake\<close> does to the laid out list.\<close>

lemma atake_spec:
  assumes lay: "layout lo bs" and co: "coalesced bs" and a: "(a, n, True) \<in> set bs" "sz \<le> n"
    and sz: "unat sz mod 4 = 0" "0 < unat sz"
  shows "layout lo (atake sz a bs)" "coalesced (atake sz a bs)"
    "blocks_total (atake sz a bs) = blocks_total bs" "all_bytes (atake sz a bs) = all_bytes bs"
    "\<exists>n' \<ge> sz. live (atake sz a bs) = insert (a + HDR, n') (live bs)"
proof -
  from split_list [OF a(1)] obtain as cs where bs: "bs = as @ (a, n, True) # cs" by blast
  have fresh: "a \<notin> fst ` set as" using layout_distinct [OF lay] bs by auto
  note m = layout_mem [OF lay a(1)]
  have co1: "coalesced ((a, n, True) # cs)" using co bs coalesced_tail by blast
  have "layout lo (atake sz a bs) \<and> coalesced (atake sz a bs) \<and>
    blocks_total (atake sz a bs) = blocks_total bs \<and> all_bytes (atake sz a bs) = all_bytes bs \<and>
    (\<exists>n' \<ge> sz. live (atake sz a bs) = insert (a + HDR, n') (live bs))"
  proof (cases "n > sz + HDR + 4")
    case True
    note s = split_sizes [OF m(5) True a(2)]
    let ?new = "(a + HDR + sz, n - sz - HDR, True)"
    have eq: "atake sz a bs = as @ (a, sz, False) # ?new # cs"
      using True fresh by (simp add: bs atake_split)
    have "4 dvd unat n - unat sz - 12" using m(3) sz(1) by (auto simp: mod_eq_0_iff_dvd intro: dvd_diff_nat)
    then have "layout lo (atake sz a bs)"
      unfolding eq using s sz m
      by (intro layout_append_replace [OF lay [unfolded bs]]) (auto simp: mod_eq_0_iff_dvd ac_simps)
    moreover have "coalesced (?new # cs)"
      using co1 by (cases cs) (auto simp: algebra_simps)
    then have "coalesced (atake sz a bs)"
      unfolding eq using co by (intro coalesced_append_used) (auto simp: bs)
    moreover have "blocks_total (atake sz a bs) = blocks_total bs"
      unfolding eq unfolding bs using s by simp
    moreover have "block_bytes (a, n, True) = block_bytes (a, sz, False) \<union> block_bytes ?new"
      using s m(5) by (auto simp: block_bytes_def)
    then have "all_bytes (atake sz a bs) = all_bytes bs"
      unfolding eq unfolding bs by (auto simp: all_bytes_def)
    moreover have "live (atake sz a bs) = insert (a + HDR, sz) (live bs)"
      unfolding eq unfolding bs by (auto simp: live_iff)
    ultimately show ?thesis by blast
  next
    case False
    then have eq: "atake sz a bs = as @ (a, n, False) # cs" using fresh by (simp add: bs atake_split)
    have "coalesced ((a, n, False) # cs)" using co1 by (cases cs) auto
    then have "coalesced (atake sz a bs)" unfolding eq using co bs by (intro coalesced_append_used) auto
    moreover have "live (atake sz a bs) = insert (a + HDR, n) (live bs)"
      unfolding eq unfolding bs by (auto simp: live_iff)
    moreover have "layout lo (atake sz a bs)"
      unfolding eq by (rule layout_append_replace [OF lay [unfolded bs]]) auto
    ultimately show ?thesis using a(2) unfolding eq unfolding bs by (auto simp: all_bytes_def block_bytes_def)
  qed
  then show "layout lo (atake sz a bs)" "coalesced (atake sz a bs)"
    "blocks_total (atake sz a bs) = blocks_total bs" "all_bytes (atake sz a bs) = all_bytes bs"
    "\<exists>n' \<ge> sz. live (atake sz a bs) = insert (a + HDR, n') (live bs)" by blast+
qed

lemma take_block_spec:
  assumes inv: "heap_blocks h bs" and a: "(a, n, True) \<in> set bs" "sz \<le> n"
    and sz: "unat sz mod 4 = 0" "0 < unat sz"
  shows "\<exists>h'. take_block sz a h = Some (a + HDR, h') \<and> heap_blocks h' (atake sz a bs) \<and>
    heap_pages h' = heap_pages h \<and> heap_pmm h' = heap_pmm h"
proof -
  note D = heap_blocksD [OF inv]
  from take_block_refines [OF D(1,2) a] obtain m' where
    "take_block sz a h = Some (a + HDR, h\<lparr>hdr := m'\<rparr>)" "hseg m' (heap_head h) (atake sz a bs) NULL" by blast
  with atake_spec [OF D(2,3) a sz] D show ?thesis
    by (intro exI [of _ "h\<lparr>hdr := m'\<rparr>"] conjI heap_blocksI) auto
qed

text \<open>After a successful growth the search finds a block.\<close>

lemma amerge_keeps_fit:
  "layout lo bs \<Longrightarrow> (a, n, True) \<in> set bs \<Longrightarrow> \<exists>a' n'. (a', n', True) \<in> set (amerge bs) \<and> n \<le> n'"
proof (induction bs arbitrary: lo a n rule: amerge.induct)
  case (1 b m f c k g bs)
  show ?case
  proof (cases "f \<and> g \<and> b + HDR + m = c")
    case True
    then have lay: "layout lo ((b, m + (HDR + k), f) # bs)"
      using merge_step(1) [of lo b m c k bs] 1(3) by simp
    have "unat (m + (HDR + k)) = unat m + 12 + unat k"
      using 1(3) by (intro unat_merged_size) simp
    then have "m \<le> m + (HDR + k)" "k \<le> m + (HDR + k)" by (simp_all add: word_le_nat_alt)
    moreover obtain a' n' where "(a', n', True) \<in> set ((b, m + (HDR + k), f) # bs)" "n \<le> n'"
      using 1(4) True calculation by auto
    ultimately show ?thesis using 1(1) [OF True lay, of a' n'] True by (auto intro: order_trans)
  next
    case False
    then show ?thesis
      using 1(2) [OF False, of "unat b + 12 + unat m" a n] 1(3,4) by (auto split: if_splits)
  qed
qed auto

text \<open>
  The whole of \<open>kmalloc\<close>: it returns, a null result leaves the live allocations alone, and any
  other result is a new live allocation of at least the requested size.
\<close>

definition alloc_result :: "u32 \<Rightarrow> ablock list \<Rightarrow> ptr \<Rightarrow> ablock list \<Rightarrow> bool" where
  "alloc_result req bs p bs' \<longleftrightarrow>
     (if p = NULL then live bs' = live bs
      else \<exists>n \<ge> req. live bs' = insert (p, n) (live bs) \<and> p \<notin> fst ` live bs)"

lemma free_not_live: "layout lo bs \<Longrightarrow> (a, n, True) \<in> set bs \<Longrightarrow> a + HDR \<notin> fst ` live bs"
proof
  assume lay: "layout lo bs" and a: "(a, n, True) \<in> set bs" and "a + HDR \<in> fst ` live bs"
  then obtain m where "(a, m, False) \<in> set bs" by (auto simp: live_iff)
  with a layout_distinct [OF lay] show False by (auto dest: eq_key_imp_eq_value)
qed

lemma take_fit:
  assumes inv: "heap_blocks h bs" and fit: "afind sz bs \<noteq> NULL" and sz: "unat sz mod 4 = 0" "0 < unat sz" "req \<le> sz"
  shows "\<exists>h' bs'. take_block sz (afind sz bs) h = Some (afind sz bs + HDR, h') \<and> heap_blocks h' bs' \<and>
    alloc_result req bs (afind sz bs + HDR) bs' \<and> afind sz bs + HDR \<noteq> NULL \<and>
    bs' = atake sz (afind sz bs) bs \<and> heap_pages h' = heap_pages h \<and> grows h bs h' bs'"
proof -
  note D = heap_blocksD [OF inv]
  obtain n where a: "(afind sz bs, n, True) \<in> set bs" "sz \<le> n" using afind_mem [OF fit] by blast
  have "unat (afind sz bs + HDR) = unat (afind sz bs) + 12"
    using layout_mem(5) [OF D(2) a(1)] by (simp add: unat_add_no_wrap)
  then have "afind sz bs + HDR \<noteq> NULL" by (metis add_eq_0_iff_both_eq_0 unat_0 zero_neq_numeral)
  moreover have "\<exists>n' \<ge> req. live (atake sz (afind sz bs) bs) = insert (afind sz bs + HDR, n') (live bs)"
    using atake_spec(5) [OF D(2,3) a sz(1,2)] sz(3) by (meson order_trans)
  moreover have "heap_pmm h' = heap_pmm h \<Longrightarrow> grows h bs h' (atake sz (afind sz bs) bs)" for h'
    by (rule grows_same [OF _ atake_spec(4) [OF D(2,3) a sz(1,2)]])
  ultimately show ?thesis
    using take_block_spec [OF inv a sz(1,2)] free_not_live [OF D(2) a(1)] by (auto simp: alloc_result_def)
qed

lemma live_amerge: "layout lo bs \<Longrightarrow> live (amerge bs) = live bs"
  using amerge_spec by blast

lemma heap_init_spec:
  assumes "heap_blocks h bs"
  shows "\<exists>h1 bs1. heap_init h = Some h1 \<and> heap_blocks h1 bs1 \<and> live bs1 = live bs \<and> grows h bs h1 bs1"
proof (cases "heap_head h = NULL")
  case True
  with heap_grow_spec [OF assms, of 1] assms show ?thesis
    using live_amerge grows_same by (fastforce simp: heap_init_def)
qed (use assms grows_same in \<open>auto simp: heap_init_def\<close>)

text \<open>Search, growth and second search, from a heap that has been initialised if it was empty.\<close>

lemma kmalloc_search:
  assumes inv: "heap_blocks h bs" and sz: "unat sz mod 4 = 0" "0 < unat sz" "req \<le> sz"
  shows "\<exists>p h' bs'. kmalloc_sized sz h = Some (p, h') \<and>
    heap_blocks h' bs' \<and> alloc_result req bs p bs' \<and> grows h bs h' bs' \<and>
    (p = NULL \<longleftrightarrow> afind sz bs = NULL \<and> heap_grow sz h = Some (False, h)) \<and>
    (afind sz bs \<noteq> NULL \<longrightarrow> p = afind sz bs + HDR \<and> bs' = atake sz (afind sz bs) bs) \<and>
    (afind sz bs = NULL \<and> p \<noteq> NULL \<longrightarrow> heap_pages h' \<noteq> heap_pages h)"
proof -
  note find = find_fit_refines [OF heap_blocksD(1)]
  show ?thesis
  proof (cases "afind sz bs = NULL")
    case False
    with take_fit [OF inv False sz] find [OF inv, of sz] show ?thesis by (auto simp: kmalloc_sized_def)
  next
    case True
    from heap_grow_spec [OF inv, of sz] show ?thesis
    proof (elim disjE exE conjE)
      assume "heap_grow sz h = Some (False, h)"
      with True find [OF inv] inv grows_same [OF refl refl] show ?thesis by (auto simp: kmalloc_sized_def alloc_result_def)
    next
      fix h' a n
      assume g: "heap_grow sz h = Some (True, h')" "heap_blocks h' (amerge (ainsert (a, n, True) bs))" "sz \<le> n"
        "layout 4096 (ainsert (a, n, True) bs)" "grows h bs h' (amerge (ainsert (a, n, True) bs))"
      let ?bs = "amerge (ainsert (a, n, True) bs)"
      have lay: "layout 4096 ?bs" using g(2) heap_blocksD(2) by blast
      from amerge_keeps_fit [OF g(4), of a n] obtain a' n' where "(a', n', True) \<in> set ?bs" "n \<le> n'" by auto
      with afind_none [OF lay, of sz a' n'] g(3) have fit: "afind sz ?bs \<noteq> NULL" by auto
      have "alloc_result req ?bs = alloc_result req bs"
        using live_amerge [OF g(4)] by (simp add: alloc_result_def fun_eq_iff)
      moreover have "heap_pages h' \<noteq> heap_pages h"
        using heap_blocksD(6) [OF inv] heap_blocksD(6) [OF g(2)] amerge_spec [OF g(4)] by auto
      moreover from take_fit [OF g(2) fit sz] obtain h2 bs2 where t: "take_block sz (afind sz ?bs) h' = Some (afind sz ?bs + HDR, h2)"
        "heap_blocks h2 bs2" "alloc_result req ?bs (afind sz ?bs + HDR) bs2" "afind sz ?bs + HDR \<noteq> NULL"
        "heap_pages h2 = heap_pages h'" "grows h bs h2 bs2" using grows_trans [OF g(5)] by blast
      ultimately show ?thesis
        using find [OF inv] find [OF g(2)] fit True g(1)
        by (intro exI [of _ "afind sz ?bs + HDR"] exI [of _ h2] exI [of _ bs2]) (simp add: kmalloc_sized_def)
    qed
  qed
qed

lemma kmalloc_spec:
  assumes inv: "heap_blocks h bs"
  shows "\<exists>p h' bs'. kmalloc req h = Some (p, h') \<and> heap_blocks h' bs' \<and> alloc_result req bs p bs' \<and> grows h bs h' bs'"
proof (cases "req = 0 \<or> req > 0xFFFFFFFF - 3")
  case True
  with inv grows_same [OF refl refl] show ?thesis by (auto simp: kmalloc_def alloc_result_def)
next
  case False
  then have req: "req \<noteq> 0" "\<not> req > 0xFFFFFFFF - 3" by auto
  note sz = kmalloc_size(2,3,1) [OF req]
  obtain h1 bs1 where h1: "(if heap_head h = NULL then heap_init h else Some h) = Some h1"
    "heap_blocks h1 bs1" "live bs1 = live bs" "grows h bs h1 bs1"
    using heap_init_spec [OF inv] inv grows_same [OF refl refl] by (cases "heap_head h = NULL") auto
  have "alloc_result req bs1 = alloc_result req bs"
    using h1(3) by (simp add: alloc_result_def fun_eq_iff)
  moreover have "kmalloc req h = kmalloc_sized ((req + 4 - 1) AND NOT 3) h1"
    unfolding kmalloc_def Let_def h1(1) using False by simp
  ultimately show ?thesis using kmalloc_search [OF h1(2) sz] grows_trans [OF h1(4)] by metis
qed

lemma kmalloc_ready:
  assumes inv: "heap_blocks h bs" and head: "heap_head h \<noteq> NULL" and req: "req \<noteq> 0" "\<not> req > 0xFFFFFFFF - 3"
  defines "sz \<equiv> (req + 4 - 1) AND NOT 3"
  shows "\<exists>p h' bs'. kmalloc req h = Some (p, h') \<and> heap_blocks h' bs' \<and> alloc_result req bs p bs' \<and> grows h bs h' bs' \<and>
    (p = NULL \<longleftrightarrow> afind sz bs = NULL \<and> heap_grow sz h = Some (False, h)) \<and>
    (afind sz bs \<noteq> NULL \<longrightarrow> p = afind sz bs + HDR \<and> bs' = atake sz (afind sz bs) bs) \<and>
    (afind sz bs = NULL \<and> p \<noteq> NULL \<longrightarrow> heap_pages h' \<noteq> heap_pages h)"
proof -
  have "kmalloc req h = kmalloc_sized sz h"
    unfolding kmalloc_def Let_def sz_def using head req by simp
  then show ?thesis
    using kmalloc_search [OF inv kmalloc_size(2,3,1) [OF req], folded sz_def] by simp
qed

section \<open>Freeing\<close>

lemma arelease_spec:
  assumes lay: "layout lo bs" and a: "(a, n, False) \<in> set bs"
  shows "layout lo (arelease a bs)" "blocks_total (arelease a bs) = blocks_total bs"
    "all_bytes (arelease a bs) = all_bytes bs" "live (arelease a bs) = live bs - {(a + HDR, n)}"
proof -
  from split_list [OF a] obtain as cs where bs: "bs = as @ (a, n, False) # cs" by blast
  have fresh: "a \<notin> fst ` set as" "a \<notin> fst ` set cs" using layout_distinct [OF lay] bs by auto
  have eq: "arelease a bs = as @ (a, n, True) # cs" using fresh by (simp add: bs arelease_split)
  show "layout lo (arelease a bs)"
    unfolding eq by (rule layout_append_replace [OF lay [unfolded bs]]) auto
  show "blocks_total (arelease a bs) = blocks_total bs" unfolding eq unfolding bs by simp
  show "all_bytes (arelease a bs) = all_bytes bs"
    unfolding eq unfolding bs by (auto simp: all_bytes_def block_bytes_def)
  show "live (arelease a bs) = live bs - {(a + HDR, n)}"
    unfolding eq unfolding bs using fresh by (force simp: live_iff)
qed

lemma kfree_spec:
  assumes inv: "heap_blocks h bs" and p: "(p, n) \<in> live bs"
  shows "\<exists>h'. kfree p h = Some h' \<and> heap_blocks h' (amerge (arelease (p - HDR) bs)) \<and>
    live (amerge (arelease (p - HDR) bs)) = live bs - {(p, n)} \<and> heap_pages h' = heap_pages h \<and>
    grows h bs h' (amerge (arelease (p - HDR) bs))"
proof -
  note D = heap_blocksD [OF inv]
  let ?a = "p - HDR"
  have a: "(?a, n, False) \<in> set bs" using p by (simp add: live_iff)
  from hseg_split [OF D(1,2) a] obtain as cs r where s: "bs = as @ (?a, n, False) # cs" "?a \<notin> fst ` set as"
    "?a \<notin> fst ` set cs" "?a \<noteq> NULL" "hseg (hdr h) (heap_head h) as ?a"
    "hdr h ?a = Some \<lparr>blk_size = n, blk_is_free = False, blk_next = r\<rparr>" "hseg (hdr h) r cs NULL" .
  let ?h = "h\<lparr>hdr := (hdr h)(?a \<mapsto> \<lparr>blk_size = n, blk_is_free = True, blk_next = r\<rparr>)\<rparr>"
  have "unat (?a + HDR) = unat ?a + 12"
    using layout_mem(5) [OF D(2) a] by (intro unat_add_no_wrap [of _ HDR, simplified]) simp
  then have "p \<noteq> NULL" by auto
  note rel = arelease_spec [OF D(2) a]
  have "hseg (hdr ?h) (heap_head ?h) (arelease ?a bs) NULL"
    using s by (simp add: arelease_split hseg_append)
  then have "\<exists>m'. merge_free_blocks ?h = Some (?h\<lparr>hdr := m'\<rparr>) \<and> heap_blocks (?h\<lparr>hdr := m'\<rparr>) (amerge (arelease ?a bs))"
    using rel D by (intro merge_free_blocks_spec) auto
  moreover have "all_bytes (amerge (arelease ?a bs)) = all_bytes bs" using amerge_spec [OF rel(1)] rel(3) by simp
  then have "grows h bs (h\<lparr>hdr := m\<rparr>) (amerge (arelease ?a bs))" for m by (intro grows_same) simp_all
  ultimately show ?thesis
    using live_amerge [OF rel(1)] rel(4) \<open>p \<noteq> NULL\<close> s(6) by (auto simp: kfree_def)
qed

lemma amerge_coalesced_id: "coalesced bs \<Longrightarrow> amerge bs = bs"
  by (induction bs rule: amerge.induct) auto

text \<open>Merging the two halves of a split block gives the block back.\<close>

lemma amerge_rejoin:
  assumes "coalesced (as @ (a, n, True) # cs)"
  shows "amerge (as @ (a, sz, True) # (a + HDR + sz, n - sz - HDR, True) # cs) = as @ (a, n, True) # cs"
  using assms
proof (induction as)
  case Nil
  then show ?case by (simp add: amerge_coalesced_id)
next
  case (Cons b as)
  obtain b' m f where b: "b = (b', m, f)" by (cases b)
  have "coalesced (as @ (a, n, True) # cs)" using Cons.prems coalesced_tail [of "[b]"] by simp
  with Cons b show ?case by (cases as) auto
qed

lemma release_take:
  assumes lay: "layout lo bs" and co: "coalesced bs" and a: "(a, n, True) \<in> set bs"
  shows "amerge (arelease a (atake sz a bs)) = bs"
proof -
  from split_list [OF a] obtain as cs where bs: "bs = as @ (a, n, True) # cs" by blast
  have fresh: "a \<notin> fst ` set as" using layout_distinct [OF lay] bs by auto
  show ?thesis
    using co amerge_rejoin [of as a n cs sz] amerge_coalesced_id fresh
    by (simp add: bs atake_split arelease_split)
qed

section \<open>The interface of the heap\<close>

text \<open>
  What the kernel relies on: allocation and release always return, an allocation is new memory of
  at least the size asked for, releasing removes exactly one allocation, and the payloads of
  different allocations are disjoint.
\<close>

definition payload :: "ptr \<Rightarrow> u32 \<Rightarrow> nat set" where
  "payload p n = {unat p..<unat p + unat n}"

locale byte_allocator =
  fixes alloc :: "u32 \<Rightarrow> 's \<Rightarrow> (ptr \<times> 's) option"
    and release :: "ptr \<Rightarrow> 's \<Rightarrow> 's option"
    and inv :: "'s \<Rightarrow> bool"
    and owned :: "'s \<Rightarrow> (ptr \<times> u32) set"
  assumes alloc_total: "inv s \<Longrightarrow> \<exists>p t. alloc n s = Some (p, t)"
    and alloc_inv: "inv s \<Longrightarrow> alloc n s = Some (p, t) \<Longrightarrow> inv t"
    and alloc_null: "inv s \<Longrightarrow> alloc n s = Some (NULL, t) \<Longrightarrow> owned t = owned s"
    and alloc_new: "inv s \<Longrightarrow> alloc n s = Some (p, t) \<Longrightarrow> p \<noteq> NULL \<Longrightarrow>
      \<exists>k \<ge> n. owned t = insert (p, k) (owned s) \<and> p \<notin> fst ` owned s"
    and release_owned: "inv s \<Longrightarrow> (p, k) \<in> owned s \<Longrightarrow>
      \<exists>t. release p s = Some t \<and> inv t \<and> owned t = owned s - {(p, k)}"
    and owned_disjoint: "inv s \<Longrightarrow> (p, k) \<in> owned s \<Longrightarrow> (q, m) \<in> owned s \<Longrightarrow> p \<noteq> q \<Longrightarrow>
      payload p k \<inter> payload q m = {}"
begin

lemma alloc_disjoint:
  assumes "inv s" "alloc n s = Some (p, t)" "p \<noteq> NULL" "(q, m) \<in> owned s"
  shows "\<exists>k \<ge> n. (p, k) \<in> owned t \<and> payload p k \<inter> payload q m = {}"
proof -
  obtain k where k: "n \<le> k" "owned t = insert (p, k) (owned s)" "p \<notin> fst ` owned s"
    using alloc_new [OF assms(1-3)] by blast
  then have "p \<noteq> q" using assms(4) by force
  with k assms(4) owned_disjoint [OF alloc_inv [OF assms(1,2)], of p k q m] show ?thesis by auto
qed

lemma release_alloc:
  assumes "inv s" "alloc n s = Some (p, t)" "p \<noteq> NULL"
  shows "\<exists>u. release p t = Some u \<and> inv u \<and> owned u = owned s"
proof -
  obtain k where k: "owned t = insert (p, k) (owned s)" "p \<notin> fst ` owned s"
    using alloc_new [OF assms] by blast
  then have "(p, k) \<in> owned t" "(p, k) \<notin> owned s" by force+
  with k release_owned [OF alloc_inv [OF assms(1,2)], of p k] show ?thesis by auto
qed

end

definition heap_live :: "heap_state \<Rightarrow> (ptr \<times> u32) set" where
  "heap_live h = (\<Union>bs \<in> {bs. heap_blocks h bs}. live bs)"

lemma heap_live_eq:
  assumes "heap_blocks h bs"
  shows "heap_live h = live bs"
proof -
  have "{cs. heap_blocks h cs} = {bs}" using heap_blocks_unique [OF assms] assms by blast
  then show ?thesis by (simp add: heap_live_def)
qed

lemma live_payload:
  assumes lay: "layout lo bs" and p: "(p, n) \<in> live bs"
  shows "payload p n \<subseteq> block_bytes (p - HDR, n, False)" "unat p mod 4 = 0" "unat p + unat n \<le> 2 ^ 25"
proof -
  have a: "(p - HDR, n, False) \<in> set bs" using p by (simp add: live_iff)
  note m = layout_mem [OF lay a]
  have "unat (p - HDR + HDR) = unat (p - HDR) + unat HDR"
    using m(5) by (intro unat_add_no_wrap) simp
  then have "unat p = unat (p - HDR) + 12" by simp
  with m show "payload p n \<subseteq> block_bytes (p - HDR, n, False)" "unat p mod 4 = 0" "unat p + unat n \<le> 2 ^ 25"
    by (auto simp: payload_def block_bytes_def mod_eq_0_iff_dvd)
qed

lemma live_disjoint:
  assumes lay: "layout lo bs" and p: "(p, n) \<in> live bs" and q: "(q, m) \<in> live bs" and "p \<noteq> q"
  shows "payload p n \<inter> payload q m = {}"
proof -
  have a: "(p - HDR, n, False) \<in> set bs" and b: "(q - HDR, m, False) \<in> set bs"
    using p q by (simp_all add: live_iff)
  from split_list [OF a] obtain as cs where bs: "bs = as @ (p - HDR, n, False) # cs" by blast
  have "(q - HDR, m, False) \<in> set (as @ cs)" using b \<open>p \<noteq> q\<close> bs by auto
  from layout_disjoint [OF lay [unfolded bs] this] live_payload(1) [OF lay p] live_payload(1) [OF lay q]
  show ?thesis by blast
qed

interpretation kheap: byte_allocator kmalloc kfree heap_inv heap_live
proof unfold_locales
  fix h t :: heap_state and n k m :: u32 and p q :: ptr
  assume "heap_inv h"
  then obtain bs where bs: "heap_blocks h bs" by (auto simp: heap_inv_def)
  note live = heap_live_eq [OF bs]
  obtain p' t' bs' where spec: "kmalloc n h = Some (p', t')" "heap_blocks t' bs'" "alloc_result n bs p' bs'"
    using kmalloc_spec [OF bs] by blast
  then show "\<exists>p t. kmalloc n h = Some (p, t)" by blast
  show "heap_inv t" if "kmalloc n h = Some (p, t)" using that spec by (auto simp: heap_inv_def)
  show "heap_live t = heap_live h" if "kmalloc n h = Some (NULL, t)"
    using that spec live heap_live_eq [OF spec(2)] by (simp add: alloc_result_def)
  show "\<exists>k \<ge> n. heap_live t = insert (p, k) (heap_live h) \<and> p \<notin> fst ` heap_live h"
    if "kmalloc n h = Some (p, t)" "p \<noteq> NULL"
    using that spec live heap_live_eq [OF spec(2)] by (simp add: alloc_result_def)
  assume p: "(p, k) \<in> heap_live h"
  show "\<exists>t. kfree p h = Some t \<and> heap_inv t \<and> heap_live t = heap_live h - {(p, k)}"
    using kfree_spec [OF bs, of p k] p live by (auto simp: heap_inv_def heap_live_eq)
  show "payload p k \<inter> payload q m = {}" if "(q, m) \<in> heap_live h" "p \<noteq> q"
    using live_disjoint [OF heap_blocksD(2) [OF bs]] that p live by blast
qed

text \<open>The frames of the heap, and the heap beside other users of the page allocator.\<close>

definition heap_frames :: "heap_state \<Rightarrow> nat set" where
  "heap_frames h = (\<Union>bs \<in> {bs. heap_blocks h bs}. frames_of bs)"

lemma heap_frames_eq: "heap_blocks h bs \<Longrightarrow> heap_frames h = frames_of bs"
  unfolding heap_frames_def using heap_blocks_unique by blast

lemma heap_frames_used: "heap_inv h \<Longrightarrow> heap_frames h \<subseteq> frames_used (heap_pmm h)"
  using heap_blocksD(5) heap_frames_eq by (fastforce simp: heap_inv_def frames_of_def)

lemma kmalloc_frames:
  assumes "heap_inv h" "kmalloc n h = Some (p, h')"
  obtains N where "N \<inter> frames_used (heap_pmm h) = {}" "frames_used (heap_pmm h') = frames_used (heap_pmm h) \<union> N"
    "heap_frames h' = heap_frames h \<union> N" "max_blocks (heap_pmm h') = max_blocks (heap_pmm h)"
proof -
  obtain bs where bs: "heap_blocks h bs" using assms(1) by (auto simp: heap_inv_def)
  with kmalloc_spec [OF bs, of n] assms(2) obtain bs' where "heap_blocks h' bs'" "grows h bs h' bs'" by auto
  with bs that show ?thesis using heap_frames_eq unfolding grows_def by metis
qed

lemma kfree_frames:
  assumes "heap_inv h" "(p, n) \<in> heap_live h" "kfree p h = Some h'"
  shows "frames_used (heap_pmm h') = frames_used (heap_pmm h)" "heap_frames h' = heap_frames h"
    "max_blocks (heap_pmm h') = max_blocks (heap_pmm h)"
proof -
  obtain bs where bs: "heap_blocks h bs" using assms(1) by (auto simp: heap_inv_def)
  have p: "(p, n) \<in> live bs" using assms(2) heap_live_eq [OF bs] by simp
  from kfree_spec [OF bs p] assms(3) have b: "heap_blocks h' (amerge (arelease (p - HDR) bs))"
    "grows h bs h' (amerge (arelease (p - HDR) bs))" by auto
  note D = heap_blocksD [OF bs]
  have "(p - HDR, n, False) \<in> set bs" using p by (simp add: live_iff)
  from arelease_spec [OF D(2) this] have "all_bytes (amerge (arelease (p - HDR) bs)) = all_bytes bs"
    using amerge_spec by metis
  then have f: "frames_of (amerge (arelease (p - HDR) bs)) = frames_of bs" by (simp add: frames_of_def)
  obtain N where N: "N \<inter> frames_used (heap_pmm h) = {}" "frames_used (heap_pmm h') = frames_used (heap_pmm h) \<union> N"
    "frames_of bs = frames_of bs \<union> N" "max_blocks (heap_pmm h') = max_blocks (heap_pmm h)"
    using b(2) unfolding grows_def f by blast
  have "frames_of bs \<subseteq> frames_used (heap_pmm h)" using D(5) by (auto simp: frames_of_def)
  with N have "N = {}" by blast
  with N show "frames_used (heap_pmm h') = frames_used (heap_pmm h)" "max_blocks (heap_pmm h') = max_blocks (heap_pmm h)" by simp_all
  show "heap_frames h' = heap_frames h" using heap_frames_eq [OF bs] heap_frames_eq [OF b(1)] f by simp
qed

text \<open>The page allocator serves someone else, who leaves the frames of the heap alone.\<close>

lemma heap_other_frames:
  assumes "heap_inv h" "pmm_inv pm" "heap_frames h \<subseteq> frames_used pm"
  shows "heap_inv (h\<lparr>heap_pmm := pm\<rparr>)" "heap_live (h\<lparr>heap_pmm := pm\<rparr>) = heap_live h"
    "heap_frames (h\<lparr>heap_pmm := pm\<rparr>) = heap_frames h"
proof -
  obtain bs where bs: "heap_blocks h bs" using assms(1) by (auto simp: heap_inv_def)
  note D = heap_blocksD [OF bs]
  have "heap_blocks (h\<lparr>heap_pmm := pm\<rparr>) bs"
    using D assms(2,3) heap_frames_eq [OF bs] by (intro heap_blocksI) (auto simp: frames_of_def)
  then show "heap_inv (h\<lparr>heap_pmm := pm\<rparr>)" "heap_live (h\<lparr>heap_pmm := pm\<rparr>) = heap_live h"
    "heap_frames (h\<lparr>heap_pmm := pm\<rparr>) = heap_frames h"
    using bs heap_live_eq heap_frames_eq by (auto simp: heap_inv_def)
qed

section \<open>Failure\<close>

lemma heap_grow_fails_iff:
  assumes inv: "heap_blocks h bs" and small: "\<not> min_payload > 0xFFFFFFFF - HDR - 4095"
  shows "heap_grow min_payload h = Some (False, h) \<longleftrightarrow>
    \<not> (\<exists>r \<ge> 1. free_run (heap_pmm h) ((unat min_payload + 12 + 4095) div 4096) r)"
proof -
  let ?pages = "(HDR + min_payload + 4096 - 1) div 4096"
  note pg = grow_pages [OF small]
  note D = heap_blocksD [OF inv]
  obtain block pm where al: "pmm_alloc_blocks ?pages (heap_pmm h) = (block, pm)" by fastforce
  have pos: "?pages \<noteq> 0" using pg(2) by (metis less_irrefl unat_0)
  have "heap_grow min_payload h = Some (False, h) \<longleftrightarrow> block = NULL"
  proof (cases "block = NULL")
    case True
    with pmm.alloc_null [OF D(4), of ?pages pm] al have "pm = heap_pmm h" by simp
    with True al small show ?thesis by (simp add: heap_grow_def Let_def)
  next
    case False
    with al small show ?thesis by (simp add: heap_grow_def Let_def split: option.splits)
  qed
  then show ?thesis
    using pmm_alloc_null_iff [OF D(4) pos] unfolding al pg(1) by simp
qed

lemma afind_null_iff:
  "layout 4096 bs \<Longrightarrow> afind sz bs = NULL \<longleftrightarrow> (\<forall>(a, n, f) \<in> set bs. f \<longrightarrow> unat n < unat sz)"
  using afind_none [of 4096 bs sz] afind_mem [of sz bs]
  by (fastforce simp: word_less_nat_alt word_le_nat_alt)

section \<open>Accounting\<close>

lemma free_bytes_unat:
  assumes "layout lo bs"
  shows "unat (\<Sum>(a, n, f) \<leftarrow> bs. if f then n else 0) = (\<Sum>(a, n, f) \<leftarrow> bs. if f then unat n else 0) \<and>
    (\<Sum>(a, n, f) \<leftarrow> bs. if f then unat n else 0) + lo \<le> max lo (2 ^ 25)"
  using assms
proof (induction lo bs rule: layout.induct)
  case (2 lo a n f bs)
  then show ?case by (cases f) (auto simp: unat_add_no_wrap)
qed simp

lemma blocks_total_split:
  "blocks_total bs = 12 * length bs + (\<Sum>(a, n, f) \<leftarrow> bs. if f then unat n else 0) +
     (\<Sum>(a, n, f) \<leftarrow> bs. if f then 0 else unat n)"
  by (induction bs) (auto simp: blocks_total_def)

section \<open>Properties\<close>

text \<open>
  C1. Allocation hands out fresh, aligned memory. From any state of the heap satisfying its
  invariant, \<open>kmalloc\<close> returns, keeps the invariant, and either returns the null pointer with the
  live allocations unchanged, or a new word-aligned block of at least the requested size whose
  payload overlaps none of the live ones; all of these stay live with their sizes.
\<close>

theorem kmalloc_disjoint:
  assumes "heap_inv h"
  shows "\<exists>p h'. kmalloc req h = Some (p, h') \<and> heap_inv h' \<and>
    (p = NULL \<and> heap_live h' = heap_live h \<or>
     p \<noteq> NULL \<and> unat p mod 4 = 0 \<and>
     (\<exists>n \<ge> req. heap_live h' = insert (p, n) (heap_live h) \<and>
        (\<forall>(q, m) \<in> heap_live h. payload p n \<inter> payload q m = {})))"
proof -
  obtain p h' where al: "kmalloc req h = Some (p, h')" using kheap.alloc_total [OF assms] by blast
  note inv' = kheap.alloc_inv [OF assms al]
  show ?thesis
  proof (cases "p = NULL")
    case True
    with kheap.alloc_null [OF assms, of req h'] al inv' show ?thesis by simp
  next
    case False
    obtain n where n: "req \<le> n" "heap_live h' = insert (p, n) (heap_live h)" "p \<notin> fst ` heap_live h"
      using kheap.alloc_new [OF assms al False] by blast
    have "payload p n \<inter> payload q m = {}" if "(q, m) \<in> heap_live h" for q m
      using that n(2,3) kheap.owned_disjoint [OF inv', of p n q m] by force
    moreover obtain bs where "heap_blocks h' bs" using inv' by (auto simp: heap_inv_def)
    then have "unat p mod 4 = 0"
      using n(2) live_payload(2) [OF heap_blocksD(2), of h' bs p n] by (simp add: heap_live_eq)
    ultimately show ?thesis using al inv' False n(1,2) by auto
  qed
qed

text \<open>
  C18. Releasing a live allocation always returns, keeps the invariant and removes exactly that
  allocation: every other payload stays where it is.
\<close>

theorem kfree_releases_one:
  assumes "heap_inv h" and "(p, n) \<in> heap_live h"
  shows "\<exists>h'. kfree p h = Some h' \<and> heap_inv h' \<and> heap_live h' = heap_live h - {(p, n)} \<and>
    heap_get_page_count h' = heap_get_page_count h"
proof -
  obtain bs where bs: "heap_blocks h bs" using assms(1) by (auto simp: heap_inv_def)
  from kfree_spec [OF bs, of p n] assms(2) heap_live_eq [OF bs] show ?thesis
    by (auto simp: heap_inv_def heap_live_eq heap_get_page_count_def)
qed

text \<open>
  C14. Allocating and releasing does not fragment the heap. When a request is served without new
  pages, releasing the block restores the very same list of blocks, addresses, sizes and flags.
\<close>

theorem kfree_undoes_kmalloc:
  assumes inv: "heap_blocks h bs" and head: "heap_head h \<noteq> NULL" and al: "kmalloc req h = Some (p, h')"
    and p: "p \<noteq> NULL" and pages: "heap_get_page_count h' = heap_get_page_count h"
  shows "\<exists>h''. kfree p h' = Some h'' \<and> heap_blocks h'' bs"
proof -
  have req: "req \<noteq> 0" "\<not> req > 0xFFFFFFFF - 3" using al p by (auto simp: kmalloc_def split: if_splits)
  let ?sz = "(req + 4 - 1) AND NOT 3"
  obtain bs' where bs': "heap_blocks h' bs'" "alloc_result req bs p bs'" "afind ?sz bs \<noteq> NULL"
    "p = afind ?sz bs + HDR" "bs' = atake ?sz (afind ?sz bs) bs"
    using kmalloc_ready [OF inv head req] al p pages by (auto simp: heap_get_page_count_def)
  obtain n where a: "(afind ?sz bs, n, True) \<in> set bs" using afind_mem [OF bs'(3)] by blast
  obtain k where "(p, k) \<in> live bs'" using bs'(2) p by (auto simp: alloc_result_def)
  from kfree_spec [OF bs'(1) this] have "\<exists>h''. kfree p h' = Some h'' \<and>
      heap_blocks h'' (amerge (arelease (afind ?sz bs) (atake ?sz (afind ?sz bs) bs)))"
    unfolding bs'(4,5) by auto
  then show ?thesis
    using release_take [OF heap_blocksD(2,3) [OF inv] a] by simp
qed

text \<open>
  C19. A request fails only for want of memory. On an initialised heap, a request of a valid size
  gets the null pointer exactly when no free block holds the rounded size and the page allocator
  has no run of enough frames.
\<close>

theorem kmalloc_null_iff:
  assumes inv: "heap_blocks h bs" and head: "heap_head h \<noteq> NULL" and req: "0 < req" "req \<le> 0xFFFFE000"
  shows "(\<exists>h'. kmalloc req h = Some (NULL, h')) \<longleftrightarrow>
    (\<forall>(a, n, f) \<in> set bs. f \<longrightarrow> unat n < (unat req + 3) div 4 * 4) \<and>
    \<not> (\<exists>r \<ge> 1. free_run (heap_pmm h) (((unat req + 3) div 4 * 4 + 12 + 4095) div 4096) r)"
proof -
  let ?sz = "(req + 4 - 1) AND NOT 3"
  have r: "req \<noteq> 0" "\<not> req > 0xFFFFFFFF - 3" using req by (auto simp: word_less_nat_alt word_le_nat_alt)
  note sz = kmalloc_size(4) [OF r]
  have "unat ?sz \<le> 0xFFFFE000" using req(2) unfolding sz word_le_nat_alt by simp
  then have small: "\<not> ?sz > 0xFFFFFFFF - HDR - 4095" by (simp add: word_less_nat_alt HDR_def)
  have "(\<exists>h'. kmalloc req h = Some (NULL, h')) \<longleftrightarrow> afind ?sz bs = NULL \<and> heap_grow ?sz h = Some (False, h)"
    using kmalloc_ready [OF inv head r] by auto
  then show ?thesis
    unfolding heap_grow_fails_iff [OF inv small] afind_null_iff [OF heap_blocksD(2) [OF inv]] sz .
qed

text \<open>
  No byte of the heap is lost. The free bytes reported, the payloads in use and a header per
  block add up to the pages taken from the page allocator.
\<close>

theorem heap_bytes_accounted:
  assumes inv: "heap_blocks h bs"
  shows "\<exists>free. heap_get_free_bytes h = Some free \<and>
    unat free + (\<Sum>(a, n, f) \<leftarrow> bs. if f then 0 else unat n) + 12 * length bs =
      unat (heap_get_page_count h) * PMM_BLOCK_SIZE"
  using free_bytes_refines [OF heap_blocksD(1) [OF inv], of 0] free_bytes_unat [OF heap_blocksD(2) [OF inv]]
    heap_blocksD(6) [OF inv] blocks_total_split [of bs]
  by (simp add: heap_get_free_bytes_def heap_get_page_count_def PMM_BLOCK_SIZE_def)

text \<open>A heap of one free page on the 16 KB machine, as \<open>heap_init\<close> leaves it.\<close>

definition heap_small :: heap_state where
  "heap_small = \<lparr>hdr = [4096 \<mapsto> \<lparr>blk_size = 4084, blk_is_free = True, blk_next = NULL\<rparr>],
     heap_head = 4096, heap_pages = 1, heap_pmm = snd (pmm_alloc_blocks 1 pmm_small)\<rparr>"

lemma pmm_small_alloc_1: "fst (pmm_alloc_blocks 1 pmm_small) = 4096"
  by (simp add: pmm_small_def pmm_eval upt_rec nth_list_update)

lemma heap_small_blocks: "heap_blocks heap_small [(4096, 4084, True)]"
proof (rule heap_blocksI)
  obtain pm where al: "pmm_alloc_blocks 1 pmm_small = (4096, pm)"
    using pmm_small_alloc_1 by (cases "pmm_alloc_blocks 1 pmm_small") simp
  then have pm: "heap_pmm heap_small = pm" by (simp add: heap_small_def)
  show "pmm_inv (heap_pmm heap_small)" unfolding pm using pmm.alloc_inv [OF pmm_small_inv al] .
  show "x div 4096 \<in> frames_used (heap_pmm heap_small)" if "x \<in> all_bytes [(4096, 4084, True)]" for x
  proof -
    have "x div 4096 = 1" using that by (simp add: all_bytes_def block_bytes_def div_nat_eqI)
    moreover have "1 \<in> frame_run 4096 1" by (simp add: frame_run_def PMM_BLOCK_SIZE_def)
    ultimately show ?thesis unfolding pm using pmm.alloc_owned [OF pmm_small_inv al] by simp
  qed
qed (simp_all add: heap_small_def)

lemma heap_small_inv: "heap_inv heap_small"
  using heap_small_blocks by (auto simp: heap_inv_def)

text \<open>A request of 100 bytes splits that page.\<close>

definition heap_small_used :: heap_state where
  "heap_small_used = heap_small\<lparr>hdr := [4208 \<mapsto> \<lparr>blk_size = 3972, blk_is_free = True, blk_next = NULL\<rparr>,
     4096 \<mapsto> \<lparr>blk_size = 100, blk_is_free = False, blk_next = 4208\<rparr>]\<rparr>"

lemma heap_small_kmalloc: "kmalloc 100 heap_small = Some (4108, heap_small_used)"
  by (simp add: kmalloc_def kmalloc_sized_def find_fit.simps take_block_def heap_small_def
      heap_small_used_def HDR_def fun_upd_twist)

lemma heap_small_used_live: "heap_inv heap_small_used \<and> heap_live heap_small_used = {(4108, 100)}"
proof -
  have "heap_blocks heap_small_used (atake 100 4096 [(4096, 4084, True)])"
    using kmalloc_ready [OF heap_small_blocks, of 100] heap_small_kmalloc
    by (auto simp: heap_small_def)
  then have "heap_blocks heap_small_used [(4096, 100, False), (4208, 3972, True)]" by (simp add: HDR_def)
  from heap_live_eq [OF this] this show ?thesis
    by (auto simp: heap_inv_def live_def HDR_def)
qed

theorem kmalloc_disjoint_witness:
  "heap_inv heap_small_used \<and> (\<exists>p h'. kmalloc 200 heap_small_used = Some (p, h') \<and> heap_inv h' \<and> p \<noteq> NULL \<and>
     (\<exists>n \<ge> 200. heap_live h' = {(p, n), (4108, 100)} \<and> payload p n \<inter> payload 4108 100 = {}))"
proof -
  have "kmalloc 200 heap_small_used \<noteq> Some (NULL, h')" for h'
    by (simp add: kmalloc_def kmalloc_sized_def find_fit.simps take_block_def heap_small_def
        heap_small_used_def HDR_def)
  with kmalloc_disjoint [of heap_small_used 200] heap_small_used_live show ?thesis by auto
qed

theorem kfree_releases_one_witness:
  "heap_inv heap_small_used \<and> (\<exists>h'. kfree 4108 heap_small_used = Some h' \<and> heap_inv h' \<and> heap_live h' = {})"
  using kfree_releases_one [of heap_small_used 4108 100] heap_small_used_live by auto

theorem kfree_undoes_kmalloc_witness:
  "kmalloc 100 heap_small = Some (4108, heap_small_used) \<and>
   (\<exists>h''. kfree 4108 heap_small_used = Some h'' \<and> heap_blocks h'' [(4096, 4084, True)])"
  using kfree_undoes_kmalloc [OF heap_small_blocks _ heap_small_kmalloc] heap_small_kmalloc
  by (simp add: heap_small_used_def heap_small_def heap_get_page_count_def)

theorem kmalloc_null_iff_witness:
  "heap_blocks heap_small [(4096, 4084, True)] \<and> heap_head heap_small \<noteq> NULL \<and>
   (\<exists>h'. kmalloc 20000 heap_small = Some (NULL, h')) \<and> \<not> (\<exists>h'. kmalloc 100 heap_small = Some (NULL, h'))"
proof -
  have head: "heap_head heap_small \<noteq> NULL" by (simp add: heap_small_def)
  have "max_blocks pmm_small = 4" by (simp add: pmm_small_def pmm_eval upt_rec)
  moreover have "unat (max_blocks (heap_pmm heap_small)) = unat (max_blocks pmm_small)"
    using pmm.alloc_limit [OF pmm_small_inv, of 1] unfolding heap_small_def by (simp add: prod_eq_iff)
  ultimately have "\<not> free_run (heap_pmm heap_small) 5 r" for r by (simp add: free_run_def)
  with kmalloc_null_iff [OF heap_small_blocks head, of 20000] kmalloc_null_iff [OF heap_small_blocks head, of 100]
    head heap_small_blocks show ?thesis by simp
qed

theorem heap_bytes_accounted_witness:
  "heap_blocks heap_small [(4096, 4084, True)] \<and>
   (\<exists>free. heap_get_free_bytes heap_small = Some free \<and> unat free + 12 = 4096)"
  using heap_bytes_accounted [OF heap_small_blocks] heap_small_blocks
  by (simp add: heap_get_page_count_def heap_small_def PMM_BLOCK_SIZE_def)

end
