(* ===== verification/Ramfs.thy ===== *)
theory Ramfs
  imports Fs Heap
begin

text \<open>
  The in-memory file system (src/ramfs.c): a table of at most 64 nodes with their parents, each
  node and each file buffer a block of the kernel heap. The state has the \<open>fs_node_t\<close> objects and
  the contents of the file buffers by address; \<open>junk\<close> stands for what a fresh block contains.

  The lemmas relate the table to directories of named nodes and the buffers to files as lists of
  bytes, and show that every operation keeps the table, the buffers and the heap in agreement.
\<close>

section \<open>State\<close>

definition MAX_RAMFS_NODES :: nat where "MAX_RAMFS_NODES = 64"
definition MAX_RAMFS_PATH :: nat where "MAX_RAMFS_PATH = 128"
definition RAMFS_DYNAMIC :: u32 where "RAMFS_DYNAMIC = 0x01"
definition RAMFS_OPEN_REF :: u32 where "RAMFS_OPEN_REF = 0x02"

record ramfs_entry =
  re_node :: ptr
  re_parent :: ptr
  re_capacity :: u32

record ramfs =
  rf_nodes :: "ptr \<Rightarrow> fs_node option"
  rf_data :: "ptr \<Rightarrow> u8 list option"
  ramfs_nodes :: "ramfs_entry list"
  next_inode :: u32
  fs_root :: ptr
  rf_heap :: heap_state

definition sizeof_fs_node :: u32 where "sizeof_fs_node = 200"

definition upd_node :: "ptr \<Rightarrow> (fs_node \<Rightarrow> fs_node) \<Rightarrow> ramfs \<Rightarrow> ramfs option" where
  "upd_node p f st = map_option (\<lambda>n. st\<lparr>rf_nodes := (rf_nodes st)(p \<mapsto> f n)\<rparr>) (rf_nodes st p)"

section \<open>Lookup\<close>

fun find_child_loop :: "ptr \<Rightarrow> string \<Rightarrow> ramfs_entry list \<Rightarrow> ramfs \<Rightarrow> ptr option" where
  "find_child_loop parent name [] st = Some NULL"
| "find_child_loop parent name (e # es) st =
     (if re_parent e = parent then
        case rf_nodes st (re_node e) of None \<Rightarrow> None
        | Some n \<Rightarrow> if n_name n = name then Some (re_node e) else find_child_loop parent name es st
      else find_child_loop parent name es st)"

definition ramfs_find_child :: "ptr \<Rightarrow> string \<Rightarrow> ramfs \<Rightarrow> ptr option" where
  "ramfs_find_child parent name st =
     (if parent = NULL then Some NULL
      else do {
        n \<leftarrow> rf_nodes st parent;
        if n_flags n \<noteq> FS_DIRECTORY then Some NULL
        else find_child_loop parent name (ramfs_nodes st) st
      })"

definition ramfs_component_valid :: "string \<Rightarrow> bool" where
  "ramfs_component_valid name \<longleftrightarrow> length name > 0 \<and> length name < FS_NAME_SIZE \<and> name \<noteq> ''.'' \<and> name \<noteq> ''..''"

definition ramfs_parse_component :: "string \<Rightarrow> (string \<times> string) option" where
  "ramfs_parse_component cursor =
     (case component_loop [] cursor of None \<Rightarrow> None
      | Some (name, rest) \<Rightarrow> if ramfs_component_valid name then Some (name, rest) else None)"

lemma ramfs_parse_component_shorter:
  assumes "ramfs_parse_component cursor = Some (c, rest)"
  shows "length rest < length cursor"
proof -
  from assms have "parse_component cursor = Some (c, rest)"
    by (auto simp: ramfs_parse_component_def parse_component_def ramfs_component_valid_def split: option.splits if_splits)
  then show ?thesis by (rule parse_component_shorter)
qed

function ramfs_resolve_loop :: "ptr \<Rightarrow> string \<Rightarrow> ramfs \<Rightarrow> ptr option" where
  "ramfs_resolve_loop node cursor st =
     (if cursor = [] then Some node
      else case ramfs_parse_component cursor of None \<Rightarrow> Some NULL
      | Some (name, rest) \<Rightarrow>
          (case ramfs_find_child node name st of None \<Rightarrow> None
           | Some n \<Rightarrow>
               if n = NULL then Some NULL
               else if rest = [] then ramfs_resolve_loop n [] st
               else if tl rest = [] \<or> hd (tl rest) = slash then Some NULL
               else ramfs_resolve_loop n (tl rest) st))"
  by auto
termination
  by (relation "measure (\<lambda>(node, cursor, st). length cursor)") (auto dest: ramfs_parse_component_shorter)

declare ramfs_resolve_loop.simps [simp del]

definition ramfs_resolve_path :: "string option \<Rightarrow> ramfs \<Rightarrow> ptr option" where
  "ramfs_resolve_path path st =
     (case path of None \<Rightarrow> Some NULL
      | Some p \<Rightarrow>
          if fs_root st = NULL \<or> length p \<ge> MAX_RAMFS_PATH then Some NULL
          else ramfs_resolve_loop (fs_root st) (if p \<noteq> [] \<and> hd p = slash then tl p else p) st)"

function ramfs_parent_loop :: "ptr \<Rightarrow> string \<Rightarrow> ramfs \<Rightarrow> (ptr \<times> string) option" where
  "ramfs_parent_loop parent cursor st =
     (if cursor = [] then Some (NULL, [])
      else case ramfs_parse_component cursor of None \<Rightarrow> Some (NULL, [])
      | Some (name, rest) \<Rightarrow>
          if rest = [] then Some (parent, name)
          else if tl rest = [] \<or> hd (tl rest) = slash then Some (NULL, [])
          else (case ramfs_find_child parent name st of None \<Rightarrow> None
            | Some p \<Rightarrow>
                if p = NULL then Some (NULL, [])
                else case rf_nodes st p of None \<Rightarrow> None
                  | Some n \<Rightarrow> if n_flags n \<noteq> FS_DIRECTORY then Some (NULL, [])
                      else ramfs_parent_loop p (tl rest) st))"
  by auto
termination
  by (relation "measure (\<lambda>(parent, cursor, st). length cursor)") (auto dest: ramfs_parse_component_shorter)

declare ramfs_parent_loop.simps [simp del]

definition ramfs_resolve_parent :: "string option \<Rightarrow> ramfs \<Rightarrow> (ptr \<times> string) option" where
  "ramfs_resolve_parent path st =
     (case path of None \<Rightarrow> Some (NULL, [])
      | Some p \<Rightarrow>
          if fs_root st = NULL \<or> length p = 0 \<or> length p \<ge> MAX_RAMFS_PATH then Some (NULL, [])
          else let cursor = (if hd p = slash then tl p else p)
               in if cursor = [] then Some (NULL, []) else ramfs_parent_loop (fs_root st) cursor st)"

fun index_loop :: "ptr \<Rightarrow> nat \<Rightarrow> ramfs_entry list \<Rightarrow> int" where
  "index_loop node i [] = - 1"
| "index_loop node i (e # es) = (if re_node e = node then int i else index_loop node (i + 1) es)"

definition ramfs_find_index :: "ptr \<Rightarrow> ramfs \<Rightarrow> int" where
  "ramfs_find_index node st = index_loop node 0 (ramfs_nodes st)"

definition ramfs_has_children :: "ptr \<Rightarrow> ramfs \<Rightarrow> bool" where
  "ramfs_has_children parent st \<longleftrightarrow> list_ex (\<lambda>e. re_parent e = parent) (ramfs_nodes st)"

section \<open>Files\<close>

definition ramfs_open :: "ptr \<Rightarrow> ramfs \<Rightarrow> ramfs option" where
  "ramfs_open node st = (if node = NULL then Some st
     else upd_node node (\<lambda>n. if n_impl n \<le> 0xFFFFFFFD then n\<lparr>n_impl := n_impl n + RAMFS_OPEN_REF\<rparr> else n) st)"

definition ramfs_close :: "ptr \<Rightarrow> ramfs \<Rightarrow> ramfs option" where
  "ramfs_close node st = (if node = NULL then Some st
     else upd_node node (\<lambda>n. if n_impl n \<ge> RAMFS_OPEN_REF then n\<lparr>n_impl := n_impl n - RAMFS_OPEN_REF\<rparr> else n) st)"

definition ramfs_read :: "ptr \<Rightarrow> u32 \<Rightarrow> u32 \<Rightarrow> ramfs \<Rightarrow> (u8 list \<times> ramfs) option" where
  "ramfs_read node offset sz st = do {
     n \<leftarrow> rf_nodes st node;
     if offset \<ge> n_length n then Some ([], st)
     else do {
       let sz1 = (if sz > n_length n - offset then n_length n - offset else sz);
       file_data \<leftarrow> rf_data st (n_ptr n);
       Some (take (unat sz1) (drop (unat offset) file_data), st)
     }
   }"

text \<open>The doubling of the capacity; not returning is \<open>None\<close>.\<close>

partial_function (option) cap_loop :: "u32 \<Rightarrow> u32 \<Rightarrow> u32 option" where
  "cap_loop new_cap new_length =
     (if new_cap < new_length then
        if new_cap > 0xFFFFFFFF div 2 then Some new_length else cap_loop (new_cap * 2) new_length
      else Some new_cap)"

text \<open>A block of the wanted size, or of exactly the needed size when memory is short.\<close>

definition grow_alloc :: "u32 \<Rightarrow> u32 \<Rightarrow> heap_state \<Rightarrow> ((u32 \<times> ptr) \<times> heap_state) option" where
  "grow_alloc new_cap new_length h = do {
     (p1, h1) \<leftarrow> kmalloc new_cap h;
     if p1 \<noteq> NULL then Some ((new_cap, p1), h1)
     else do { (p2, h2) \<leftarrow> kmalloc new_length h1; Some ((new_length, p2), h2) }
   }"

text \<open>The larger buffer: \<open>False\<close> when there is no memory for it.\<close>

definition grow_buffer :: "(nat \<Rightarrow> u8) \<Rightarrow> ptr \<Rightarrow> nat \<Rightarrow> u32 \<Rightarrow> ramfs \<Rightarrow> (bool \<times> ramfs) option" where
  "grow_buffer junk node idx new_length st = do {
     n \<leftarrow> rf_nodes st node;
     let e = ramfs_nodes st ! idx;
     new_cap0 \<leftarrow> cap_loop (if re_capacity e \<noteq> 0 then re_capacity e else 64) new_length;
     ((new_cap, new_data), h) \<leftarrow> grow_alloc new_cap0 new_length (rf_heap st);
     if new_data = NULL then Some (False, st\<lparr>rf_heap := h\<rparr>)
     else do {
       let old_length = unat (n_length n);
       (old, h1, data1) \<leftarrow> (if n_ptr n \<noteq> NULL then do {
           b \<leftarrow> rf_data st (n_ptr n);
           h1 \<leftarrow> kfree (n_ptr n) h;
           Some (take old_length b, h1, (rf_data st)(n_ptr n := None))
         } else Some (map junk [0..<old_length], h, rf_data st));
       Some (True, st\<lparr>rf_heap := h1,
         rf_data := data1(new_data \<mapsto> old @ replicate (unat new_cap - old_length) 0),
         rf_nodes := (rf_nodes st)(node \<mapsto> n\<lparr>n_ptr := new_data\<rparr>),
         ramfs_nodes := (ramfs_nodes st)[idx := e\<lparr>re_capacity := new_cap\<rparr>]\<rparr>)
     }
   }"

definition zero_gap :: "ptr \<Rightarrow> u32 \<Rightarrow> ramfs \<Rightarrow> ramfs option" where
  "zero_gap node offset st = do {
     n \<leftarrow> rf_nodes st node;
     if offset > n_length n then do {
       b \<leftarrow> rf_data st (n_ptr n);
       Some (st\<lparr>rf_data := (rf_data st)(n_ptr n \<mapsto>
         put_bytes (unat (n_length n)) (replicate (unat (offset - n_length n)) 0) b)\<rparr>)
     } else Some st
   }"

definition ramfs_extend :: "(nat \<Rightarrow> u8) \<Rightarrow> ptr \<Rightarrow> u32 \<Rightarrow> u32 \<Rightarrow> ramfs \<Rightarrow> (bool \<times> ramfs) option" where
  "ramfs_extend junk node offset new_length st = do {
     n \<leftarrow> rf_nodes st node;
     if new_length > n_length n then do {
       let idx = ramfs_find_index node st;
       if idx < 0 then Some (False, st)
       else do {
         (ok, st1) \<leftarrow> (if new_length > re_capacity (ramfs_nodes st ! nat idx)
           then grow_buffer junk node (nat idx) new_length st
           else map_option (Pair True) (zero_gap node offset st));
         if ok then map_option (Pair True) (upd_node node (\<lambda>n. n\<lparr>n_length := new_length\<rparr>) st1)
         else Some (False, st1)
       }
     } else Some (True, st)
   }"

definition ramfs_write :: "(nat \<Rightarrow> u8) \<Rightarrow> ptr \<Rightarrow> u32 \<Rightarrow> u8 list \<Rightarrow> ramfs \<Rightarrow> (u32 \<times> ramfs) option" where
  "ramfs_write junk node offset data st =
     (let sz = of_nat (length data) :: u32 in
      if sz = 0 then Some (0, st)
      else if sz > 0xFFFFFFFF - offset then Some (0, st)
      else do {
        (ok, st1) \<leftarrow> ramfs_extend junk node offset (offset + sz) st;
        if \<not> ok then Some (0, st1)
        else do {
          n \<leftarrow> rf_nodes st1 node;
          b \<leftarrow> rf_data st1 (n_ptr n);
          Some (sz, st1\<lparr>rf_data := (rf_data st1)(n_ptr n \<mapsto> put_bytes (unat offset) data b)\<rparr>)
        }
      })"

section \<open>Directories\<close>

fun readdir_loop :: "ptr \<Rightarrow> u32 \<Rightarrow> u32 \<Rightarrow> ramfs_entry list \<Rightarrow> ramfs \<Rightarrow> dirent option option" where
  "readdir_loop node index child_index [] st = Some None"
| "readdir_loop node index child_index (e # es) st =
     (if re_parent e \<noteq> node then readdir_loop node index child_index es st
      else if child_index \<noteq> index then readdir_loop node index (child_index + 1) es st
      else map_option (\<lambda>n. Some \<lparr>d_name = n_name n, d_inode = n_inode n\<rparr>) (rf_nodes st (re_node e)))"

definition ramfs_readdir :: "ptr \<Rightarrow> u32 \<Rightarrow> ramfs \<Rightarrow> dirent option option" where
  "ramfs_readdir node index st =
     (if node = NULL then Some None
      else do {
        n \<leftarrow> rf_nodes st node;
        if n_flags n \<noteq> FS_DIRECTORY then Some None else readdir_loop node index 0 (ramfs_nodes st) st
      })"

definition ramfs_finddir :: "ptr \<Rightarrow> string \<Rightarrow> ramfs \<Rightarrow> ptr option" where
  "ramfs_finddir node name st =
     (if \<not> ramfs_component_valid name then Some NULL else ramfs_find_child node name st)"

definition new_node :: "string \<Rightarrow> u32 \<Rightarrow> u32 \<Rightarrow> u32 \<Rightarrow> fs_node" where
  "new_node name flags inode impl =
     (let isdir = flags = FS_DIRECTORY; dir = (if isdir then FN_RAMFS else FN_NULL); file = (if isdir then FN_NULL else FN_RAMFS)
      in \<lparr>n_name = name, n_mask = 0, n_uid = 0, n_gid = 0, n_flags = flags, n_inode = inode, n_length = 0, n_impl = impl,
          n_read = file, n_write = file, n_open = file, n_close = file, n_readdir = dir, n_finddir = dir,
          n_create = dir, n_unlink = dir, n_mkdir = dir, n_rmdir = dir, n_ptr = NULL\<rparr>)"

definition ramfs_create_node :: "ptr \<Rightarrow> string \<Rightarrow> u32 \<Rightarrow> u32 \<Rightarrow> ramfs \<Rightarrow> (ptr \<times> ramfs) option" where
  "ramfs_create_node parent name flags impl st =
     (if \<not> ramfs_component_valid name \<or> length (ramfs_nodes st) \<ge> MAX_RAMFS_NODES then Some (NULL, st)
      else do {
        clash \<leftarrow> (if parent \<noteq> NULL then ramfs_find_child parent name st else Some NULL);
        if clash \<noteq> NULL then Some (NULL, st)
        else do {
          (node, h) \<leftarrow> kmalloc sizeof_fs_node (rf_heap st);
          if node = NULL then Some (NULL, st\<lparr>rf_heap := h\<rparr>)
          else Some (node, st\<lparr>rf_heap := h,
            rf_nodes := (rf_nodes st)(node \<mapsto> new_node name flags (next_inode st) impl),
            next_inode := next_inode st + 1,
            ramfs_nodes := ramfs_nodes st @ [\<lparr>re_node = node, re_parent = parent, re_capacity = 0\<rparr>]\<rparr>)
        }
      })"

definition ramfs_create :: "ptr \<Rightarrow> string \<Rightarrow> ramfs \<Rightarrow> (ptr \<times> ramfs) option" where
  "ramfs_create parent name st =
     (if ramfs_find_index parent st < 0 then Some (NULL, st)
      else ramfs_create_node parent name FS_FILE RAMFS_DYNAMIC st)"

text \<open>\<open>kfree\<close> of the buffer and of the node, then the entries behind move up.\<close>

definition ramfs_remove_node :: "ptr \<Rightarrow> ramfs \<Rightarrow> (int \<times> ramfs) option" where
  "ramfs_remove_node node st =
     (let index = ramfs_find_index node st in
      if index \<le> 0 then Some (- 1, st)
      else do {
        n \<leftarrow> rf_nodes st node;
        if n_impl n AND RAMFS_DYNAMIC = 0 \<or> n_impl n AND NOT RAMFS_DYNAMIC \<noteq> 0 then Some (- 1, st)
        else do {
          h1 \<leftarrow> kfree (n_ptr n) (rf_heap st);
          h2 \<leftarrow> kfree node h1;
          Some (0, st\<lparr>rf_heap := h2, rf_data := (rf_data st)(n_ptr n := None), rf_nodes := (rf_nodes st)(node := None),
            ramfs_nodes := take (nat index) (ramfs_nodes st) @ drop (nat index + 1) (ramfs_nodes st)\<rparr>)
        }
      })"

definition ramfs_unlink :: "ptr \<Rightarrow> string \<Rightarrow> ramfs \<Rightarrow> (int \<times> ramfs) option" where
  "ramfs_unlink parent name st =
     (if ramfs_find_index parent st < 0 then Some (- 1, st)
      else do {
        node \<leftarrow> ramfs_find_child parent name st;
        if node = NULL then Some (- 1, st)
        else do {
          n \<leftarrow> rf_nodes st node;
          if n_flags n \<noteq> FS_FILE then Some (- 1, st) else ramfs_remove_node node st
        }
      })"

definition ramfs_mkdir :: "ptr \<Rightarrow> string \<Rightarrow> ramfs \<Rightarrow> (int \<times> ramfs) option" where
  "ramfs_mkdir parent name st =
     (if ramfs_find_index parent st < 0 then Some (- 1, st)
      else do {
        (node, st1) \<leftarrow> ramfs_create_node parent name FS_DIRECTORY RAMFS_DYNAMIC st;
        Some (if node \<noteq> NULL then 0 else - 1, st1)
      })"

definition remove_dir :: "ptr \<Rightarrow> ramfs \<Rightarrow> (int \<times> ramfs) option" where
  "remove_dir node st =
     (if node = NULL \<or> node = fs_root st then Some (- 1, st)
      else do {
        n \<leftarrow> rf_nodes st node;
        if n_flags n \<noteq> FS_DIRECTORY \<or> ramfs_has_children node st then Some (- 1, st)
        else ramfs_remove_node node st
      })"

definition ramfs_rmdir :: "ptr \<Rightarrow> string \<Rightarrow> ramfs \<Rightarrow> (int \<times> ramfs) option" where
  "ramfs_rmdir parent name st =
     (if ramfs_find_index parent st < 0 then Some (- 1, st)
      else do { node \<leftarrow> ramfs_find_child parent name st; remove_dir node st })"

section \<open>Operations on paths\<close>

definition ramfs_create_file :: "string option \<Rightarrow> ramfs \<Rightarrow> (ptr \<times> ramfs) option" where
  "ramfs_create_file path st = do {
     (parent, name) \<leftarrow> ramfs_resolve_parent path st;
     if parent = NULL then Some (NULL, st) else ramfs_create_node parent name FS_FILE RAMFS_DYNAMIC st
   }"

definition ramfs_create_static_file :: "string option \<Rightarrow> ptr \<Rightarrow> u32 \<Rightarrow> ramfs \<Rightarrow> (ptr \<times> ramfs) option" where
  "ramfs_create_static_file path data sz st = do {
     (node, st1) \<leftarrow> ramfs_create_file path st;
     if node = NULL then Some (NULL, st1)
     else do {
       st2 \<leftarrow> upd_node node (\<lambda>n. n\<lparr>n_impl := 0, n_write := FN_NULL, n_ptr := data, n_length := sz\<rparr>) st1;
       Some (node, st2)
     }
   }"

definition ramfs_find_node :: "string option \<Rightarrow> ramfs \<Rightarrow> ptr option" where
  "ramfs_find_node path st = ramfs_resolve_path path st"

definition ramfs_find_file :: "string option \<Rightarrow> ramfs \<Rightarrow> ptr option" where
  "ramfs_find_file path st = do {
     node \<leftarrow> ramfs_resolve_path path st;
     if node = NULL then Some NULL
     else do { n \<leftarrow> rf_nodes st node; Some (if n_flags n = FS_FILE then node else NULL) }
   }"

definition ramfs_unlink_file :: "string option \<Rightarrow> ramfs \<Rightarrow> (int \<times> ramfs) option" where
  "ramfs_unlink_file path st = do {
     node \<leftarrow> ramfs_resolve_path path st;
     if node = NULL then Some (- 1, st)
     else do {
       n \<leftarrow> rf_nodes st node;
       if n_flags n \<noteq> FS_FILE then Some (- 1, st) else ramfs_remove_node node st
     }
   }"

definition ramfs_create_directory :: "string option \<Rightarrow> ramfs \<Rightarrow> (int \<times> ramfs) option" where
  "ramfs_create_directory path st = do {
     (parent, name) \<leftarrow> ramfs_resolve_parent path st;
     if parent = NULL then Some (- 1, st)
     else do {
       (node, st1) \<leftarrow> ramfs_create_node parent name FS_DIRECTORY RAMFS_DYNAMIC st;
       Some (if node \<noteq> NULL then 0 else - 1, st1)
     }
   }"

definition ramfs_remove_directory :: "string option \<Rightarrow> ramfs \<Rightarrow> (int \<times> ramfs) option" where
  "ramfs_remove_directory path st = do { node \<leftarrow> ramfs_resolve_path path st; remove_dir node st }"

definition ramfs_mount :: "string option \<Rightarrow> ptr \<Rightarrow> ramfs \<Rightarrow> (int \<times> ramfs) option" where
  "ramfs_mount path node st = do {
     (parent, name) \<leftarrow> ramfs_resolve_parent path st;
     if parent = NULL \<or> node = NULL \<or> length (ramfs_nodes st) \<ge> MAX_RAMFS_NODES then Some (- 1, st)
     else do {
       clash \<leftarrow> ramfs_find_child parent name st;
       if clash \<noteq> NULL then Some (- 1, st)
       else do {
         st1 \<leftarrow> upd_node node (\<lambda>n. n\<lparr>n_name := name\<rparr>) st;
         Some (0, st1\<lparr>ramfs_nodes := ramfs_nodes st1 @ [\<lparr>re_node = node, re_parent = parent, re_capacity = 0\<rparr>]\<rparr>)
       }
     }
   }"

definition ramfs_get_node_count :: "ramfs \<Rightarrow> u32" where
  "ramfs_get_node_count st = of_nat (length (ramfs_nodes st))"

definition ramfs_init :: "ramfs \<Rightarrow> ramfs option" where
  "ramfs_init st = (if fs_root st \<noteq> NULL then Some st
     else do {
       (node, st1) \<leftarrow> ramfs_create_node NULL ''root'' FS_DIRECTORY 0 st;
       Some (st1\<lparr>fs_root := node\<rparr>)
     })"

text \<open>The functions behind the pointers of a \<open>ramfs\<close> node.\<close>

definition ramfs_drivers :: "(nat \<Rightarrow> u8) \<Rightarrow> ramfs drivers" where
  "ramfs_drivers junk = \<lparr>node_at = rf_nodes, root_at = fs_root,
     call_read = (\<lambda>f node offset sz st. if f = FN_RAMFS then ramfs_read node offset sz st else None),
     call_write = (\<lambda>f node offset data st. if f = FN_RAMFS then ramfs_write junk node offset data st else None),
     call_open = (\<lambda>f node st. if f = FN_RAMFS then ramfs_open node st else None),
     call_close = (\<lambda>f node st. if f = FN_RAMFS then ramfs_close node st else None),
     call_readdir = (\<lambda>f node index st. if f = FN_RAMFS then map_option (\<lambda>d. (d, st)) (ramfs_readdir node index st) else None),
     call_finddir = (\<lambda>f node name st. if f = FN_RAMFS then map_option (\<lambda>p. (p, st)) (ramfs_finddir node name st) else None),
     call_create = (\<lambda>f node name st. if f = FN_RAMFS then ramfs_create node name st else None),
     call_unlink = (\<lambda>f node name st. if f = FN_RAMFS then ramfs_unlink node name st else None),
     call_mkdir = (\<lambda>f node name st. if f = FN_RAMFS then ramfs_mkdir node name st else None),
     call_rmdir = (\<lambda>f node name st. if f = FN_RAMFS then ramfs_rmdir node name st else None)\<rparr>"

section \<open>Invariant\<close>

text \<open>
  \<open>D\<close> is the set of the addresses of the device nodes that other drivers mount; they are static
  objects, not heap blocks. Every other node is a heap block, and so is the buffer of every file
  that was created empty (\<open>RAMFS_DYNAMIC\<close>); all these blocks are distinct and live. A buffer has the
  recorded capacity, and what lies beyond the end of the file is zero.
\<close>

definition dynamic :: "fs_node \<Rightarrow> bool" where
  "dynamic n \<longleftrightarrow> odd (n_impl n)"

definition buf_ok :: "ramfs \<Rightarrow> ramfs_entry \<Rightarrow> fs_node \<Rightarrow> bool" where
  "buf_ok st e n \<longleftrightarrow>
     (if n_ptr n = NULL then n_length n = 0 \<and> re_capacity e = 0
      else \<exists>b. rf_data st (n_ptr n) = Some b \<and> length b = unat (re_capacity e) \<and> n_length n \<le> re_capacity e \<and>
        drop (unat (n_length n)) b = replicate (length b - unat (n_length n)) 0)"

definition buffers :: "ramfs \<Rightarrow> ramfs_entry \<Rightarrow> ptr list" where
  "buffers st e = (case rf_nodes st (re_node e) of None \<Rightarrow> []
     | Some n \<Rightarrow> if dynamic n \<and> n_ptr n \<noteq> NULL then [n_ptr n] else [])"

definition blocks_of :: "ptr set \<Rightarrow> ramfs \<Rightarrow> ramfs_entry \<Rightarrow> ptr list" where
  "blocks_of D st e = (if re_node e \<in> D then [] else [re_node e]) @ buffers st e"

definition name_at :: "ramfs \<Rightarrow> ptr \<Rightarrow> string" where
  "name_at st p = (case rf_nodes st p of None \<Rightarrow> [] | Some n \<Rightarrow> n_name n)"

definition ramfs_inv :: "ptr set \<Rightarrow> ramfs \<Rightarrow> bool" where
  "ramfs_inv D st \<longleftrightarrow> heap_inv (rf_heap st) \<and> length (ramfs_nodes st) \<le> MAX_RAMFS_NODES \<and>
     distinct (map re_node (ramfs_nodes st)) \<and>
     (\<forall>e \<in> set (ramfs_nodes st). re_node e \<noteq> NULL \<and>
        (\<exists>n. rf_nodes st (re_node e) = Some n \<and> (dynamic n \<longrightarrow> re_node e \<notin> D \<and> buf_ok st e n))) \<and>
     distinct (concat (map (blocks_of D st) (ramfs_nodes st))) \<and>
     set (concat (map (blocks_of D st) (ramfs_nodes st))) \<subseteq> fst ` heap_live (rf_heap st) \<and>
     distinct (map (\<lambda>e. (re_parent e, name_at st (re_node e))) (ramfs_nodes st))"

text \<open>The bytes of a file.\<close>

definition file_bytes :: "ramfs \<Rightarrow> ptr \<Rightarrow> u8 list" where
  "file_bytes st p = (case rf_nodes st p of None \<Rightarrow> []
     | Some n \<Rightarrow> if n_ptr n = NULL then [] else take (unat (n_length n)) (the (rf_data st (n_ptr n))))"

lemma ramfs_invD:
  assumes "ramfs_inv D st"
  shows "heap_inv (rf_heap st)" "length (ramfs_nodes st) \<le> MAX_RAMFS_NODES" "distinct (map re_node (ramfs_nodes st))"
    "e \<in> set (ramfs_nodes st) \<Longrightarrow> re_node e \<noteq> NULL"
    "e \<in> set (ramfs_nodes st) \<Longrightarrow> \<exists>n. rf_nodes st (re_node e) = Some n"
    "e \<in> set (ramfs_nodes st) \<Longrightarrow> rf_nodes st (re_node e) = Some n \<Longrightarrow> dynamic n \<Longrightarrow> re_node e \<notin> D \<and> buf_ok st e n"
    "distinct (concat (map (blocks_of D st) (ramfs_nodes st)))"
    "set (concat (map (blocks_of D st) (ramfs_nodes st))) \<subseteq> fst ` heap_live (rf_heap st)"
    "distinct (map (\<lambda>e. (re_parent e, name_at st (re_node e))) (ramfs_nodes st))"
  using assms by (auto simp: ramfs_inv_def)

section \<open>Lemmas on the table\<close>

lemma index_loop_spec:
  "(\<forall>e \<in> set es. re_node e \<noteq> node) \<and> index_loop node i es = - 1 \<or>
   (\<exists>k < length es. re_node (es ! k) = node \<and> index_loop node i es = int (i + k))"
proof (induction node i es rule: index_loop.induct)
  case (2 node i e es)
  show ?case
  proof (cases "re_node e = node")
    case True
    then show ?thesis by force
  next
    case False
    with 2 show ?thesis by (force simp: nth_Cons')
  qed
qed simp

lemma find_index_spec:
  "(\<forall>e \<in> set (ramfs_nodes st). re_node e \<noteq> node) \<and> ramfs_find_index node st = - 1 \<or>
   (\<exists>k < length (ramfs_nodes st). re_node (ramfs_nodes st ! k) = node \<and> ramfs_find_index node st = int k)"
  using index_loop_spec [of "ramfs_nodes st" node 0] by (simp add: ramfs_find_index_def)

lemma find_child_loop_spec:
  assumes "\<forall>e \<in> set es. re_node e \<noteq> NULL \<and> rf_nodes st (re_node e) \<noteq> None"
  shows "(\<forall>e \<in> set es. re_parent e = parent \<longrightarrow> name_at st (re_node e) \<noteq> name) \<and>
      find_child_loop parent name es st = Some NULL \<or>
    (\<exists>e \<in> set es. re_parent e = parent \<and> name_at st (re_node e) = name \<and>
      find_child_loop parent name es st = Some (re_node e))"
  using assms
proof (induction parent name es st rule: find_child_loop.induct)
  case (2 parent name e es st)
  then obtain n where "rf_nodes st (re_node e) = Some n" by auto
  with 2 show ?case by (cases "re_parent e = parent"; cases "n_name n = name") (auto simp: name_at_def)
qed simp

lemma find_child_spec:
  assumes inv: "ramfs_inv D st" and p: "parent = NULL \<or> rf_nodes st parent \<noteq> None"
  shows "(\<forall>n. rf_nodes st parent = Some n \<longrightarrow> n_flags n = FS_DIRECTORY \<longrightarrow> parent \<noteq> NULL \<longrightarrow>
        (\<forall>e \<in> set (ramfs_nodes st). re_parent e = parent \<longrightarrow> name_at st (re_node e) \<noteq> name)) \<and>
      ramfs_find_child parent name st = Some NULL \<or>
    (\<exists>e \<in> set (ramfs_nodes st). re_parent e = parent \<and> name_at st (re_node e) = name \<and>
      ramfs_find_child parent name st = Some (re_node e))"
proof -
  have "\<forall>e \<in> set (ramfs_nodes st). re_node e \<noteq> NULL \<and> rf_nodes st (re_node e) \<noteq> None"
    using ramfs_invD(4,5) [OF inv] by blast
  note loop = find_child_loop_spec [OF this, of parent name]
  show ?thesis
  proof (cases "\<exists>n. parent \<noteq> NULL \<and> rf_nodes st parent = Some n \<and> n_flags n = FS_DIRECTORY")
    case True
    then have "ramfs_find_child parent name st = find_child_loop parent name (ramfs_nodes st) st"
      by (auto simp: ramfs_find_child_def)
    with loop show ?thesis by auto
  next
    case False
    with p show ?thesis by (auto simp: ramfs_find_child_def)
  qed
qed

lemma even_impl [simp]: "n AND RAMFS_DYNAMIC = 0 \<longleftrightarrow> even n" for n :: u32
  by (simp add: RAMFS_DYNAMIC_def and_one_eq even_iff_mod_2_eq_zero)

section \<open>The capacity\<close>

text \<open>Doubling ends, and never below the length that is needed.\<close>

lemma cap_loop_spec:
  assumes "0 < cap"
  shows "\<exists>c. cap_loop cap len = Some c \<and> len \<le> c"
  using assms
proof (induction "unat len - unat cap" arbitrary: cap rule: less_induct)
  case less
  show ?case
  proof (cases "cap < len \<and> \<not> cap > 0xFFFFFFFF div 2")
    case True
    then have le: "unat cap \<le> 2147483647" by (simp add: word_less_nat_alt word_le_nat_alt not_less)
    have dbl: "unat (cap * 2) = 2 * unat cap" using le by (simp add: unat_mult_no_wrap)
    have pos: "0 < unat cap" using less.prems by (simp add: word_less_nat_alt)
    have "0 < cap * 2" using dbl pos by (simp add: word_less_nat_alt)
    moreover have "unat len - unat (cap * 2) < unat len - unat cap"
      using True pos unfolding dbl by (intro diff_less_mono2) (simp_all add: word_less_nat_alt)
    moreover have "cap_loop cap len = cap_loop (cap * 2) len" using True by (subst cap_loop.simps) simp
    ultimately show ?thesis using less.hyps by simp
  next
    case False
    then show ?thesis by (subst cap_loop.simps) (auto simp: not_less)
  qed
qed

section \<open>Writing\<close>

text \<open>What a write does to the bytes of a file: a gap behind the old end is filled with zeros.\<close>

definition overlay :: "nat \<Rightarrow> u8 list \<Rightarrow> u8 list \<Rightarrow> u8 list" where
  "overlay offset data bs =
     take offset (bs @ replicate (offset - length bs) 0) @ data @ drop (offset + length data) bs"

lemma overlay_length: "length (overlay off data bs) = max (length bs) (off + length data)"
  by (cases "off \<le> length bs") (auto simp: overlay_def max_def min_def)

lemma put_overlay:
  assumes "off + length data \<le> length bs + k"
  shows "put_bytes off data (bs @ replicate k 0) =
    overlay off data bs @ replicate (length bs + k - length (overlay off data bs)) 0"
proof (rule nth_equalityI)
  show "length (put_bytes off data (bs @ replicate k 0)) =
      length (overlay off data bs @ replicate (length bs + k - length (overlay off data bs)) 0)"
    using assms by (simp add: put_bytes_def overlay_length max_def)
  fix i assume "i < length (put_bytes off data (bs @ replicate k 0))"
  then have "i < length bs + k" using assms by (simp add: put_bytes_def)
  with assms show "put_bytes off data (bs @ replicate k 0) ! i =
      (overlay off data bs @ replicate (length bs + k - length (overlay off data bs)) 0) ! i"
    by (cases "off \<le> length bs") (auto simp: put_bytes_def overlay_def nth_append min_def max_def)
qed

text \<open>One file changes: its entry, node and buffer; all other nodes and their buffers stay.\<close>

definition file_update ::
  "nat \<Rightarrow> heap_state \<Rightarrow> (ptr \<Rightarrow> u8 list option) \<Rightarrow> fs_node \<Rightarrow> u32 \<Rightarrow> ramfs \<Rightarrow> ramfs" where
  "file_update i h d n cap st = (let e = ramfs_nodes st ! i in
     st\<lparr>rf_nodes := (rf_nodes st)(re_node e \<mapsto> n), rf_data := d,
       ramfs_nodes := (ramfs_nodes st)[i := e\<lparr>re_capacity := cap\<rparr>], rf_heap := h\<rparr>)"

lemma entry_split:
  assumes "distinct (map re_node es)" "i < length es"
  obtains as bs where "es = as @ es ! i # bs" "length as = i" "\<forall>e \<in> set as \<union> set bs. re_node e \<noteq> re_node (es ! i)"
proof -
  have s: "es = take i es @ es ! i # drop (Suc i) es" using assms(2) by (rule id_take_nth_drop)
  have "distinct (map re_node (take i es @ es ! i # drop (Suc i) es))" using assms(1) by (simp only: s [symmetric])
  then have "re_node (es ! i) \<notin> re_node ` (set (take i es) \<union> set (drop (Suc i) es))" by auto
  then have "\<forall>e \<in> set (take i es) \<union> set (drop (Suc i) es). re_node e \<noteq> re_node (es ! i)" by (metis imageI)
  with s assms(2) show ?thesis by (intro that [of "take i es" "drop (Suc i) es"]) auto
qed

lemma file_update_inv:
  assumes inv: "ramfs_inv D st" and i: "i < length (ramfs_nodes st)"
    and old: "e = ramfs_nodes st ! i" "rf_nodes st (re_node e) = Some n0" "dynamic n0"
    and new: "dynamic n" "n_name n = n_name n0" "buf_ok (st\<lparr>rf_data := d\<rparr>) (e\<lparr>re_capacity := cap\<rparr>) n"
    and heap: "heap_inv h" "(fst ` heap_live (rf_heap st) - set (buffers st e)) \<subseteq> fst ` heap_live h"
    and buf: "n_ptr n = NULL \<or> n_ptr n = n_ptr n0 \<and> h = rf_heap st \<or>
      n_ptr n \<notin> fst ` heap_live (rf_heap st) \<and> n_ptr n \<in> fst ` heap_live h"
    and data: "\<And>p. p \<noteq> n_ptr n0 \<Longrightarrow> p \<noteq> n_ptr n \<Longrightarrow> d p = rf_data st p"
  shows "ramfs_inv D (file_update i h d n cap st)"
    and "e' \<in> set (ramfs_nodes st) \<Longrightarrow> re_node e' \<noteq> re_node e \<Longrightarrow> rf_nodes st (re_node e') = Some n' \<Longrightarrow> dynamic n' \<Longrightarrow>
      file_bytes (file_update i h d n cap st) (re_node e') = file_bytes st (re_node e')"
proof -
  define L where "L = fst ` heap_live (rf_heap st)"
  define L' where "L' = fst ` heap_live h"
  note D = ramfs_invD [OF inv, folded L_def] and heap2 = heap(2) [folded L_def L'_def]
  have buf2: "n_ptr n = NULL \<or> n_ptr n = n_ptr n0 \<and> L' = L \<or> n_ptr n \<notin> L \<and> n_ptr n \<in> L'"
    using buf unfolding L_def L'_def by blast
  let ?st = "file_update i h d n cap st" and ?p = "re_node e"
  obtain as bs where s: "ramfs_nodes st = as @ e # bs" "length as = i" "\<forall>a \<in> set as \<union> set bs. re_node a \<noteq> ?p"
    using entry_split [OF D(3) i] old(1) by metis
  have es: "ramfs_nodes ?st = as @ e\<lparr>re_capacity := cap\<rparr> # bs"
    using s(2) by (auto simp: file_update_def Let_def s(1) nth_append list_update_append)
  have nodes: "rf_nodes ?st = (rf_nodes st)(?p \<mapsto> n)" using old(1) by (simp add: file_update_def Let_def)
  have dat: "rf_data ?st = d" and hp: "rf_heap ?st = h" by (simp_all add: file_update_def Let_def)
  have emem: "e \<in> set (ramfs_nodes st)" using s(1) by simp
  have pD: "?p \<notin> D" using D(6) [OF emem old(2,3)] by blast
  have same: "blocks_of D ?st a = blocks_of D st a" if "a \<in> set as \<union> set bs" for a
    using that s(3) by (auto simp: blocks_of_def buffers_def nodes)
  then have others: "map (blocks_of D ?st) as = map (blocks_of D st) as" "map (blocks_of D ?st) bs = map (blocks_of D st) bs"
    by (simp_all cong: map_cong)
  define A where "A = concat (map (blocks_of D st) as)"
  define B where "B = concat (map (blocks_of D st) bs)"
  have oldblocks: "blocks_of D st e = ?p # (if n_ptr n0 = NULL then [] else [n_ptr n0])"
    using old pD by (simp add: blocks_of_def buffers_def)
  have newblocks: "blocks_of D ?st (e\<lparr>re_capacity := cap\<rparr>) = ?p # (if n_ptr n = NULL then [] else [n_ptr n])"
    using new(1) pD by (simp add: blocks_of_def buffers_def nodes)
  have dist: "distinct (A @ (?p # (if n_ptr n0 = NULL then [] else [n_ptr n0])) @ B)"
    using D(7) unfolding s(1) A_def B_def oldblocks [symmetric] by simp
  have live: "set A \<union> set B \<union> set (?p # (if n_ptr n0 = NULL then [] else [n_ptr n0])) \<subseteq> L"
    using D(8) unfolding s(1) A_def B_def oldblocks [symmetric] by auto
  have bufs: "set (buffers st e) = (if n_ptr n0 = NULL then {} else {n_ptr n0})" using old by (simp add: buffers_def)
  have AB: "set A \<union> set B \<union> {?p} \<subseteq> L'"
    using live dist heap2 bufs by (auto split: if_splits)
  have d1: "distinct (A @ (?p # (if n_ptr n = NULL then [] else [n_ptr n])) @ B)"
    using dist live buf2 by (auto split: if_splits)
  have s1: "set (A @ (?p # (if n_ptr n = NULL then [] else [n_ptr n])) @ B) \<subseteq> L'"
    using AB live buf2 heap2 bufs by (auto split: if_splits)
  have cc: "concat (map (blocks_of D ?st) (ramfs_nodes ?st)) = A @ (?p # (if n_ptr n = NULL then [] else [n_ptr n])) @ B"
    unfolding es A_def B_def by (simp add: others newblocks)
  have keep: "d (n_ptr m) = rf_data st (n_ptr m)"
    if "a \<in> set as \<union> set bs" "rf_nodes st (re_node a) = Some m" "dynamic m" "n_ptr m \<noteq> NULL" for a m
  proof -
    have "n_ptr m \<in> set (A @ B)" using that by (force simp: A_def B_def blocks_of_def buffers_def)
    then have "n_ptr m \<noteq> n_ptr n0" "n_ptr m \<noteq> n_ptr n" "n_ptr m \<noteq> n_ptr n0 \<Longrightarrow> n_ptr m \<noteq> n_ptr n"
      using dist live buf2 that(4) by (auto split: if_splits)
    then show ?thesis by (intro data) auto
  qed
  have ent: "\<forall>a \<in> set (ramfs_nodes ?st). re_node a \<noteq> NULL \<and>
      (\<exists>m. rf_nodes ?st (re_node a) = Some m \<and> (dynamic m \<longrightarrow> re_node a \<notin> D \<and> buf_ok ?st a m))"
  proof
    fix a assume a: "a \<in> set (ramfs_nodes ?st)"
    show "re_node a \<noteq> NULL \<and> (\<exists>m. rf_nodes ?st (re_node a) = Some m \<and> (dynamic m \<longrightarrow> re_node a \<notin> D \<and> buf_ok ?st a m))"
    proof (cases "a \<in> set as \<union> set bs")
      case True
      then have am: "a \<in> set (ramfs_nodes st)" using s(1) by auto
      obtain m where m: "rf_nodes st (re_node a) = Some m" using D(5) [OF am] by blast
      have "buf_ok ?st a m" if "dynamic m"
        using D(6) [OF am m that] keep [OF True m that] by (auto simp: buf_ok_def dat split: if_splits)
      with D(4,6) [OF am] m True s(3) nodes show ?thesis by auto
    next
      case False
      then have "a = e\<lparr>re_capacity := cap\<rparr>" using a es by auto
      with D(4) [OF emem] new(3) pD nodes show ?thesis by (auto simp: buf_ok_def dat)
    qed
  qed
  have mn: "map re_node (ramfs_nodes ?st) = map re_node (ramfs_nodes st)" using es s(1) by simp
  have nm: "map (\<lambda>e. (re_parent e, name_at ?st (re_node e))) (ramfs_nodes ?st) =
      map (\<lambda>e. (re_parent e, name_at st (re_node e))) (ramfs_nodes st)"
    using es s old(2) new(2) by (auto simp: name_at_def nodes)
  have "length (ramfs_nodes ?st) \<le> MAX_RAMFS_NODES" using D(2) es s(1) by simp
  then show "ramfs_inv D ?st"
    unfolding ramfs_inv_def hp L'_def [symmetric] cc mn nm using D(3,9) heap(1) d1 s1 ent by blast
  show "file_bytes ?st (re_node e') = file_bytes st (re_node e')"
    if "e' \<in> set (ramfs_nodes st)" "re_node e' \<noteq> ?p" "rf_nodes st (re_node e') = Some n'" "dynamic n'"
  proof -
    have "e' \<in> set as \<union> set bs" using that(1,2) s(1) by auto
    from keep [OF this that(3,4)] that(2,3) show ?thesis by (auto simp: file_bytes_def nodes dat)
  qed
qed

lemma heap_update_simps [simp]:
  "blocks_of D (st\<lparr>rf_heap := h\<rparr>) = blocks_of D st" "buf_ok (st\<lparr>rf_heap := h\<rparr>) = buf_ok st"
  "name_at (st\<lparr>rf_heap := h\<rparr>) = name_at st"
  by (simp_all add: fun_eq_iff blocks_of_def buffers_def buf_ok_def name_at_def)

lemma inv_heap:
  assumes "ramfs_inv D st" "heap_inv h" "heap_live h = heap_live (rf_heap st)"
  shows "ramfs_inv D (st\<lparr>rf_heap := h\<rparr>)"
  using assms unfolding ramfs_inv_def by simp

lemma file_bytes_heap [simp]: "file_bytes (st\<lparr>rf_heap := h\<rparr>) = file_bytes st"
  by (auto simp: file_bytes_def fun_eq_iff split: option.splits)

lemma buf_split:
  assumes "rf_nodes st p = Some n" "buf_ok st e n" "n_ptr n \<noteq> NULL"
  shows "rf_data st (n_ptr n) = Some (file_bytes st p @ replicate (unat (re_capacity e) - unat (n_length n)) 0)"
    "length (file_bytes st p) = unat (n_length n)" "n_length n \<le> re_capacity e"
proof -
  obtain b where b: "rf_data st (n_ptr n) = Some b" "length b = unat (re_capacity e)" "n_length n \<le> re_capacity e"
    "drop (unat (n_length n)) b = replicate (length b - unat (n_length n)) 0"
    using assms(2,3) by (auto simp: buf_ok_def)
  have f: "file_bytes st p = take (unat (n_length n)) b" using assms(1,3) b(1) by (simp add: file_bytes_def)
  have "b = take (unat (n_length n)) b @ drop (unat (n_length n)) b" by simp
  then show "rf_data st (n_ptr n) = Some (file_bytes st p @ replicate (unat (re_capacity e) - unat (n_length n)) 0)"
    using b f by metis
  show "length (file_bytes st p) = unat (n_length n)" using f b(2,3) by (simp add: word_le_nat_alt)
  show "n_length n \<le> re_capacity e" by fact
qed

lemma find_index_eq:
  assumes "ramfs_inv D st" "i < length (ramfs_nodes st)"
  shows "ramfs_find_index (re_node (ramfs_nodes st ! i)) st = int i"
proof -
  have "distinct (map re_node (ramfs_nodes st))" using ramfs_invD(3) [OF assms(1)] .
  then show ?thesis
    using find_index_spec [of st "re_node (ramfs_nodes st ! i)"] assms(2)
    by (auto simp: distinct_conv_nth)
qed

lemma grow_alloc_spec:
  assumes "heap_inv h" "len \<le> cap"
  shows "\<exists>c p h'. grow_alloc cap len h = Some ((c, p), h') \<and> heap_inv h' \<and>
    (if p = NULL then heap_live h' = heap_live h \<and> (\<exists>h1. heap_live h1 = heap_live h \<and> kmalloc len h1 = Some (NULL, h'))
     else len \<le> c \<and> p \<notin> fst ` heap_live h \<and> fst ` heap_live h' = insert p (fst ` heap_live h))"
proof -
  obtain p1 h1 where a: "kmalloc cap h = Some (p1, h1)" using kheap.alloc_total [OF assms(1)] by blast
  note h1 = kheap.alloc_inv [OF assms(1) a]
  show ?thesis
  proof (cases "p1 = NULL")
    case False
    with a h1 assms(2) kheap.alloc_new [OF assms(1) a] show ?thesis by (auto simp: grow_alloc_def)
  next
    case True
    obtain p2 h2 where b: "kmalloc len h1 = Some (p2, h2)" using kheap.alloc_total [OF h1] by blast
    have l: "heap_live h1 = heap_live h" using kheap.alloc_null [OF assms(1)] a True by simp
    show ?thesis
    proof (cases "p2 = NULL")
      case p2: True
      have "heap_live h2 = heap_live h" using kheap.alloc_null [OF h1] b p2 l by simp
      with a b True p2 l kheap.alloc_inv [OF h1 b] show ?thesis by (auto simp: grow_alloc_def)
    next
      case False
      with a b True l kheap.alloc_new [OF h1 b] kheap.alloc_inv [OF h1 b] show ?thesis by (auto simp: grow_alloc_def)
    qed
  qed
qed

text \<open>The node and buffer of a file once it is long enough for a write that ends at \<open>len\<close>.\<close>

definition extended :: "ramfs \<Rightarrow> nat \<Rightarrow> u32 \<Rightarrow> ramfs \<Rightarrow> bool" where
  "extended st i len st1 \<longleftrightarrow> (\<exists>h d n0 p cap k.
     st1 = file_update i h d (n0\<lparr>n_ptr := p, n_length := max (n_length n0) len\<rparr>) cap st \<and>
     rf_nodes st (re_node (ramfs_nodes st ! i)) = Some n0 \<and> p \<noteq> NULL \<and> max (n_length n0) len \<le> cap \<and>
     d p = Some (file_bytes st (re_node (ramfs_nodes st ! i)) @ replicate k 0) \<and>
     length (file_bytes st (re_node (ramfs_nodes st ! i))) + k = unat cap \<and>
     heap_inv h \<and> fst ` heap_live (rf_heap st) - set (buffers st (ramfs_nodes st ! i)) \<subseteq> fst ` heap_live h \<and>
     (p = n_ptr n0 \<and> h = rf_heap st \<or> p \<notin> fst ` heap_live (rf_heap st) \<and> p \<in> fst ` heap_live h) \<and>
     (\<forall>q. q \<noteq> n_ptr n0 \<longrightarrow> q \<noteq> p \<longrightarrow> d q = rf_data st q))"

lemma file_update_same:
  assumes "i < length (ramfs_nodes st)" "rf_nodes st (re_node (ramfs_nodes st ! i)) = Some n"
  shows "file_update i (rf_heap st) (rf_data st) n (re_capacity (ramfs_nodes st ! i)) st = st"
  using assms by (simp add: file_update_def Let_def fun_upd_idem)

lemma free_old:
  assumes "heap_inv h" "q \<in> fst ` heap_live h"
  shows "\<exists>h1. kfree q h = Some h1 \<and> heap_inv h1 \<and> fst ` heap_live h - {q} \<subseteq> fst ` heap_live h1"
proof -
  obtain k where "(q, k) \<in> heap_live h" using assms(2) by force
  from kheap.release_owned [OF assms(1) this] show ?thesis by force
qed

lemma grow_buffer_spec:
  assumes inv: "ramfs_inv D st" and i: "i < length (ramfs_nodes st)"
    and e: "e = ramfs_nodes st ! i" "rf_nodes st (re_node e) = Some n0" "dynamic n0"
    and len: "n_length n0 < len"
  shows "(\<exists>h h1. grow_buffer junk (re_node e) i len st = Some (False, st\<lparr>rf_heap := h\<rparr>) \<and> heap_inv h \<and>
      heap_live h = heap_live (rf_heap st) \<and> heap_live h1 = heap_live h \<and> kmalloc len h1 = Some (NULL, h)) \<or>
    (\<exists>st1 st2. grow_buffer junk (re_node e) i len st = Some (True, st1) \<and>
      upd_node (re_node e) (\<lambda>n. n\<lparr>n_length := len\<rparr>) st1 = Some st2 \<and> extended st i len st2)"
proof -
  note D = ramfs_invD [OF inv]
  have emem: "e \<in> set (ramfs_nodes st)" using e(1) i by simp
  have ok: "buf_ok st e n0" using D(6) [OF emem e(2,3)] by blast
  let ?cap = "if re_capacity e \<noteq> 0 then re_capacity e else 64"
  have "0 < ?cap" by (auto simp: word_neq_0_conv)
  then obtain c0 where c0: "cap_loop ?cap len = Some c0" "len \<le> c0" using cap_loop_spec by blast
  obtain c p h where g: "grow_alloc c0 len (rf_heap st) = Some ((c, p), h)" "heap_inv h"
    "if p = NULL then heap_live h = heap_live (rf_heap st) \<and>
       (\<exists>h1. heap_live h1 = heap_live (rf_heap st) \<and> kmalloc len h1 = Some (NULL, h))
     else len \<le> c \<and> p \<notin> fst ` heap_live (rf_heap st) \<and> fst ` heap_live h = insert p (fst ` heap_live (rf_heap st))"
    using grow_alloc_spec [OF D(1) c0(2)] by blast
  show ?thesis
  proof (cases "p = NULL")
    case True
    then have "grow_buffer junk (re_node e) i len st = Some (False, st\<lparr>rf_heap := h\<rparr>)"
      using c0(1) g(1) e(2) by (simp add: grow_buffer_def Let_def e(1) [symmetric])
    with True g show ?thesis by auto
  next
    case False
    then have p: "len \<le> c" "p \<notin> fst ` heap_live (rf_heap st)" "fst ` heap_live h = insert p (fst ` heap_live (rf_heap st))"
      using g(3) by auto
    define old where "old = unat (n_length n0)"
    have oldlen: "length (file_bytes st (re_node e)) = old"
      using ok e(2) buf_split(2) [OF e(2) ok] by (cases "n_ptr n0 = NULL") (auto simp: old_def buf_ok_def file_bytes_def)
    have room: "old \<le> unat c" using len p(1) by (simp add: old_def word_less_nat_alt word_le_nat_alt)
    obtain bs h1 d where old: "(if n_ptr n0 \<noteq> NULL then do {
           b \<leftarrow> rf_data st (n_ptr n0);
           h1 \<leftarrow> kfree (n_ptr n0) h;
           Some (take old b, h1, (rf_data st)(n_ptr n0 := None))
         } else Some (map junk [0..<old], h, rf_data st)) = Some (bs, h1, d)"
      "bs = file_bytes st (re_node e)" "heap_inv h1" "p \<in> fst ` heap_live h1"
      "fst ` heap_live (rf_heap st) - set (buffers st e) \<subseteq> fst ` heap_live h1"
      "\<forall>q. q \<noteq> n_ptr n0 \<longrightarrow> d q = rf_data st q"
    proof (cases "n_ptr n0 = NULL")
      case True
      then have "old = 0" "file_bytes st (re_node e) = []" using ok e(2) by (auto simp: buf_ok_def old_def file_bytes_def)
      with True that [of "[]" h "rf_data st"] g(2) p(3) show ?thesis by auto
    next
      case ptr: False
      have "n_ptr n0 \<in> set (blocks_of D st e)" using e(2,3) ptr by (simp add: blocks_of_def buffers_def)
      then have live: "n_ptr n0 \<in> fst ` heap_live (rf_heap st)" using D(8) emem by auto
      then have "n_ptr n0 \<in> fst ` heap_live h" "n_ptr n0 \<noteq> p" using p by auto
      then obtain h1 where h1: "kfree (n_ptr n0) h = Some h1" "heap_inv h1"
        "fst ` heap_live h - {n_ptr n0} \<subseteq> fst ` heap_live h1" using free_old [OF g(2)] by blast
      have "set (buffers st e) = {n_ptr n0}" using e(2,3) ptr by (simp add: buffers_def)
      with ptr h1 p(3) \<open>n_ptr n0 \<noteq> p\<close> buf_split(1,2) [OF e(2) ok ptr]
        that [of "file_bytes st (re_node e)" h1 "(rf_data st)(n_ptr n0 := None)"] show ?thesis
        by (auto simp: old_def)
    qed
    define b where "b = bs @ replicate (unat c - old) 0"
    define st1 where "st1 = st\<lparr>rf_heap := h1, rf_data := d(p \<mapsto> b), rf_nodes := (rf_nodes st)(re_node e \<mapsto> n0\<lparr>n_ptr := p\<rparr>),
      ramfs_nodes := (ramfs_nodes st)[i := e\<lparr>re_capacity := c\<rparr>]\<rparr>"
    define n where "n = n0\<lparr>n_ptr := p, n_length := len\<rparr>"
    have grow: "grow_buffer junk (re_node e) i len st = Some (True, st1)"
      using c0(1) g(1) e(2) False old(1)
      by (cases "n_ptr n0 = NULL")
        (auto simp: grow_buffer_def st1_def b_def old_def Let_def e(1) [symmetric] bind_eq_Some_conv)
    have upd: "upd_node (re_node e) (\<lambda>n. n\<lparr>n_length := len\<rparr>) st1 = Some (file_update i h1 (d(p \<mapsto> b)) n c st)"
      by (simp add: upd_node_def st1_def file_update_def Let_def n_def e(1) [symmetric])
    have "extended st i len (file_update i h1 (d(p \<mapsto> b)) n c st)"
      unfolding extended_def e(1) [symmetric]
      using e(2) False len p(1) room oldlen old
      by (intro exI [of _ h1] exI [of _ "d(p \<mapsto> b)"] exI [of _ n0] exI [of _ p] exI [of _ c] exI [of _ "unat c - old"])
        (auto simp: n_def b_def max_def p(2))
    with grow upd show ?thesis by blast
  qed
qed

lemma put_zeros: "k \<le> m \<Longrightarrow> put_bytes (length bs) (replicate k 0) (bs @ replicate m 0) = bs @ replicate m 0"
  by (simp add: put_bytes_def replicate_add [symmetric])

lemma extend_spec:
  assumes inv: "ramfs_inv D st" and i: "i < length (ramfs_nodes st)"
    and e: "e = ramfs_nodes st ! i" "rf_nodes st (re_node e) = Some n0" "dynamic n0"
    and len: "0 < len" "offset \<le> len"
  shows "(\<exists>h h1. ramfs_extend junk (re_node e) offset len st = Some (False, st\<lparr>rf_heap := h\<rparr>) \<and> heap_inv h \<and>
      heap_live h = heap_live (rf_heap st) \<and> heap_live h1 = heap_live h \<and> kmalloc len h1 = Some (NULL, h) \<and>
      re_capacity e < len) \<or>
    (\<exists>st1. ramfs_extend junk (re_node e) offset len st = Some (True, st1) \<and> extended st i len st1)"
proof -
  note D = ramfs_invD [OF inv]
  have emem: "e \<in> set (ramfs_nodes st)" using e(1) i by simp
  have ok: "buf_ok st e n0" using D(6) [OF emem e(2,3)] by blast
  have idx: "ramfs_find_index (re_node e) st = int i" using find_index_eq [OF inv i] e(1) by simp
  have inplace: "extended st i len (file_update i (rf_heap st) (rf_data st) (n0\<lparr>n_length := max (n_length n0) len\<rparr>) (re_capacity e) st)"
    if fit: "max (n_length n0) len \<le> re_capacity e"
  proof -
    have "n_ptr n0 \<noteq> NULL" using ok fit len(1) by (auto simp: buf_ok_def max_def word_le_nat_alt word_less_nat_alt split: if_splits)
    note b = buf_split [OF e(2) ok this]
    have "unat (n_length n0) \<le> unat (re_capacity e)" using b(3) by (simp add: word_le_nat_alt)
    with b fit e(2) D(1) \<open>n_ptr n0 \<noteq> NULL\<close> show ?thesis
      unfolding extended_def e(1) [symmetric]
      by (intro exI [of _ "rf_heap st"] exI [of _ "rf_data st"] exI [of _ n0] exI [of _ "n_ptr n0"]
          exI [of _ "re_capacity e"] exI [of _ "unat (re_capacity e) - unat (n_length n0)"]) auto
  qed
  consider "len \<le> n_length n0" | "n_length n0 < len" "len \<le> re_capacity e" | "n_length n0 < len" "re_capacity e < len"
    by (meson not_le)
  then show ?thesis
  proof cases
    case 1
    then have "ramfs_extend junk (re_node e) offset len st = Some (True, st)"
      using e(2) by (simp add: ramfs_extend_def leD)
    moreover have "n_length n0 \<le> re_capacity e"
      using ok 1 len(1) by (auto simp: buf_ok_def split: if_splits)
    with inplace 1 file_update_same [OF i] e have "extended st i len st"
      by (simp add: max_absorb1)
    ultimately show ?thesis by blast
  next
    case 2
    then have ptr: "n_ptr n0 \<noteq> NULL" using ok len(1) by (auto simp: buf_ok_def word_le_nat_alt word_less_nat_alt)
    note b = buf_split [OF e(2) ok ptr]
    have gap: "zero_gap (re_node e) offset st = Some st"
    proof (cases "offset > n_length n0")
      case True
      have "unat (offset - n_length n0) \<le> unat (re_capacity e) - unat (n_length n0)"
        using True 2 len(2) by (simp add: unat_sub word_le_nat_alt word_less_nat_alt)
      then have "put_bytes (unat (n_length n0)) (replicate (unat (offset - n_length n0)) 0)
          (file_bytes st (re_node e) @ replicate (unat (re_capacity e) - unat (n_length n0)) 0) =
          file_bytes st (re_node e) @ replicate (unat (re_capacity e) - unat (n_length n0)) 0"
        using put_zeros b(2) by metis
      with True e(2) b(1) show ?thesis by (simp add: zero_gap_def fun_upd_idem)
    qed (use e(2) in \<open>simp add: zero_gap_def\<close>)
    have "upd_node (re_node e) (\<lambda>n. n\<lparr>n_length := len\<rparr>) st =
        Some (file_update i (rf_heap st) (rf_data st) (n0\<lparr>n_length := max (n_length n0) len\<rparr>) (re_capacity e) st)"
      using 2 e i by (simp add: upd_node_def file_update_def Let_def max_absorb2)
    with gap 2 e(2) idx have "ramfs_extend junk (re_node e) offset len st =
        Some (True, file_update i (rf_heap st) (rf_data st) (n0\<lparr>n_length := max (n_length n0) len\<rparr>) (re_capacity e) st)"
      by (simp add: ramfs_extend_def Let_def e(1) [symmetric] leD max_absorb2)
    with inplace 2 show ?thesis by (auto simp: max_absorb2)
  next
    case 3
    have "ramfs_extend junk (re_node e) offset len st = do {
         (ok, st1) \<leftarrow> grow_buffer junk (re_node e) i len st;
         if ok then map_option (Pair True) (upd_node (re_node e) (\<lambda>n. n\<lparr>n_length := len\<rparr>) st1)
         else Some (False, st1) }"
      using 3 e(2) idx by (simp add: ramfs_extend_def Let_def e(1) [symmetric])
    with grow_buffer_spec [OF inv i e 3(1), of junk] 3(2) show ?thesis by auto
  qed
qed

section \<open>The tree\<close>

text \<open>
  The first entry is the root; every other entry hangs below a directory of the table. Only files
  created by \<open>ramfs\<close> have its write function, only directories its directory functions.
\<close>

definition tracked :: "ramfs \<Rightarrow> ptr \<Rightarrow> bool" where
  "tracked st p \<longleftrightarrow> p \<in> re_node ` set (ramfs_nodes st)"

definition dir_at :: "ramfs \<Rightarrow> ptr \<Rightarrow> bool" where
  "dir_at st p \<longleftrightarrow> (\<exists>n. rf_nodes st p = Some n \<and> n_flags n = FS_DIRECTORY)"

definition fns_ok :: "fs_node \<Rightarrow> bool" where
  "fns_ok n \<longleftrightarrow> (n_write n = FN_RAMFS \<longrightarrow> dynamic n) \<and>
     (FN_RAMFS \<in> {n_create n, n_unlink n, n_mkdir n, n_rmdir n} \<longrightarrow> n_flags n = FS_DIRECTORY)"

definition ramfs_tree :: "ramfs \<Rightarrow> bool" where
  "ramfs_tree st \<longleftrightarrow> (if fs_root st = NULL then ramfs_nodes st = []
     else \<exists>e0 es. ramfs_nodes st = e0 # es \<and> re_node e0 = fs_root st \<and> re_parent e0 = NULL \<and> dir_at st (fs_root st) \<and>
       (\<forall>e \<in> set es. tracked st (re_parent e) \<and> dir_at st (re_parent e))) \<and>
     (\<forall>p n. tracked st p \<longrightarrow> rf_nodes st p = Some n \<longrightarrow> fns_ok n)"

lemma tree_heap:
  assumes "ramfs_tree st" shows "ramfs_tree (st\<lparr>rf_heap := h\<rparr>)"
proof -
  have "tracked (st\<lparr>rf_heap := h\<rparr>) = tracked st" "dir_at (st\<lparr>rf_heap := h\<rparr>) = dir_at st"
    by (auto simp: fun_eq_iff tracked_def dir_at_def)
  with assms show ?thesis unfolding ramfs_tree_def by simp
qed

lemma tree_file_update:
  assumes tree: "ramfs_tree st" and i: "i < length (ramfs_nodes st)"
    and n: "rf_nodes st (re_node (ramfs_nodes st ! i)) = Some n0" "n_flags n = n_flags n0" "fns_ok n0 \<Longrightarrow> fns_ok n"
  shows "ramfs_tree (file_update i h d n cap st)"
proof -
  let ?st = "file_update i h d n cap st" and ?e = "ramfs_nodes st ! i"
  have es: "ramfs_nodes ?st = (ramfs_nodes st)[i := ?e\<lparr>re_capacity := cap\<rparr>]" and root: "fs_root ?st = fs_root st"
    and nd: "rf_nodes ?st = (rf_nodes st)(re_node ?e \<mapsto> n)" by (simp_all add: file_update_def Let_def)
  have mapn: "map re_node (ramfs_nodes ?st) = map re_node (ramfs_nodes st)"
    and mapp: "map re_parent (ramfs_nodes ?st) = map re_parent (ramfs_nodes st)"
    using i by (simp_all add: es map_update list_update_same_conv)
  have tr: "tracked ?st = tracked st" using mapn by (simp add: fun_eq_iff tracked_def) (metis list.set_map)
  have dr: "dir_at ?st = dir_at st" using n by (auto simp: fun_eq_iff dir_at_def nd)
  have tl: "\<exists>e1 es1. ramfs_nodes ?st = e1 # es1 \<and> re_node e1 = fs_root st \<and> re_parent e1 = NULL \<and>
      (\<forall>e \<in> set es1. tracked st (re_parent e) \<and> dir_at st (re_parent e))"
    if a: "ramfs_nodes st = e0 # es" "re_node e0 = fs_root st" "re_parent e0 = NULL"
      "\<forall>e \<in> set es. tracked st (re_parent e) \<and> dir_at st (re_parent e)" for e0 es
  proof -
    obtain e1 es1 where c: "ramfs_nodes ?st = e1 # es1" using mapn a(1) by (cases "ramfs_nodes ?st") auto
    have "re_parent ` set es1 = re_parent ` set es" using mapp c a(1) by (metis list.set_map list.map(2) list.inject)
    with c a mapn mapp show ?thesis by (simp add: set_eq_iff) (metis imageE imageI)
  qed
  have "\<forall>p m. tracked st p \<longrightarrow> rf_nodes ?st p = Some m \<longrightarrow> fns_ok m"
  proof -
    have fn: "\<forall>p m. tracked st p \<longrightarrow> rf_nodes st p = Some m \<longrightarrow> fns_ok m" using tree by (simp add: ramfs_tree_def)
    moreover have "tracked st (re_node ?e)" using i by (simp add: tracked_def)
    ultimately show ?thesis using n unfolding nd by auto
  qed
  moreover have "ramfs_nodes st = [] \<Longrightarrow> ramfs_nodes ?st = []" using es by simp
  ultimately show ?thesis
    using tree tl unfolding ramfs_tree_def root tr dr by (cases "fs_root st = NULL") auto
qed

section \<open>Writing and reading\<close>

text \<open>A write neither adds nor removes nodes, and files stay files.\<close>

definition keeps :: "ramfs \<Rightarrow> ramfs \<Rightarrow> bool" where
  "keeps st st' \<longleftrightarrow> tracked st' = tracked st \<and>
     (\<forall>q n. rf_nodes st q = Some n \<longrightarrow> dynamic n \<longrightarrow> (\<exists>n'. rf_nodes st' q = Some n' \<and> dynamic n'))"

lemma keeps_refl [simp]: "keeps st st"
  by (simp add: keeps_def)

lemma keeps_heap: "keeps st (st\<lparr>rf_heap := h\<rparr>)"
  by (simp add: keeps_def tracked_def fun_eq_iff)

lemma keeps_file_update:
  assumes "i < length (ramfs_nodes st)" "dynamic n"
  shows "keeps st (file_update i h d n cap st)"
proof -
  have "map re_node ((ramfs_nodes st)[i := (ramfs_nodes st ! i)\<lparr>re_capacity := cap\<rparr>]) = map re_node (ramfs_nodes st)"
    using assms(1) by (simp add: map_update list_update_same_conv)
  then have "re_node ` set ((ramfs_nodes st)[i := (ramfs_nodes st ! i)\<lparr>re_capacity := cap\<rparr>]) = re_node ` set (ramfs_nodes st)"
    by (metis list.set_map)
  with assms(2) show ?thesis by (simp add: keeps_def tracked_def fun_eq_iff file_update_def Let_def)
qed

lemma bytes_length:
  assumes "ramfs_inv D st" "e \<in> set (ramfs_nodes st)" "rf_nodes st (re_node e) = Some n" "dynamic n"
  shows "length (file_bytes st (re_node e)) = unat (n_length n)"
  using ramfs_invD(6) [OF assms] buf_split(2) [OF assms(3)] assms(3)
  by (cases "n_ptr n = NULL") (auto simp: buf_ok_def file_bytes_def)

text \<open>Filling a long enough buffer.\<close>

lemma extended_put:
  assumes inv: "ramfs_inv D st" and i: "i < length (ramfs_nodes st)"
    and e: "e = ramfs_nodes st ! i" "rf_nodes st (re_node e) = Some n0" "dynamic n0"
    and ext: "extended st i len st1" and len: "unat off + length data = unat len"
  obtains n b where "rf_nodes st1 (re_node e) = Some n" "rf_data st1 (n_ptr n) = Some b"
    "ramfs_inv D (st1\<lparr>rf_data := (rf_data st1)(n_ptr n \<mapsto> put_bytes (unat off) data b)\<rparr>)"
    "file_bytes (st1\<lparr>rf_data := (rf_data st1)(n_ptr n \<mapsto> put_bytes (unat off) data b)\<rparr>) (re_node e) =
       overlay (unat off) data (file_bytes st (re_node e))"
    "\<And>e' n'. e' \<in> set (ramfs_nodes st) \<Longrightarrow> re_node e' \<noteq> re_node e \<Longrightarrow> rf_nodes st (re_node e') = Some n' \<Longrightarrow> dynamic n' \<Longrightarrow>
       file_bytes (st1\<lparr>rf_data := (rf_data st1)(n_ptr n \<mapsto> put_bytes (unat off) data b)\<rparr>) (re_node e') = file_bytes st (re_node e')"
    "ramfs_tree st \<Longrightarrow> ramfs_tree (st1\<lparr>rf_data := (rf_data st1)(n_ptr n \<mapsto> put_bytes (unat off) data b)\<rparr>)"
    "keeps st (st1\<lparr>rf_data := (rf_data st1)(n_ptr n \<mapsto> put_bytes (unat off) data b)\<rparr>)"
proof -
  have emem: "e \<in> set (ramfs_nodes st)" using e(1) i by simp
  let ?bs = "file_bytes st (re_node e)"
  obtain h d p cap k where y: "st1 = file_update i h d (n0\<lparr>n_ptr := p, n_length := max (n_length n0) len\<rparr>) cap st"
    "p \<noteq> NULL" "max (n_length n0) len \<le> cap"
    "d p = Some (?bs @ replicate k 0)" "length ?bs + k = unat cap" "heap_inv h"
    "fst ` heap_live (rf_heap st) - set (buffers st e) \<subseteq> fst ` heap_live h"
    "p = n_ptr n0 \<and> h = rf_heap st \<or> p \<notin> fst ` heap_live (rf_heap st) \<and> p \<in> fst ` heap_live h"
    "\<And>q. q \<noteq> n_ptr n0 \<Longrightarrow> q \<noteq> p \<Longrightarrow> d q = rf_data st q"
    using ext unfolding extended_def e(1) [symmetric] e(2) option.inject by blast
  define n where "n = n0\<lparr>n_ptr := p, n_length := max (n_length n0) len\<rparr>"
  have [simp]: "n_ptr n = p" "n_length n = max (n_length n0) len" by (simp_all add: n_def)
  let ?o = "overlay (unat off) data ?bs"
  define B where "B = put_bytes (unat off) data (?bs @ replicate k 0)"
  define d2 where "d2 = d(p \<mapsto> B)"
  have ol: "length ?o = unat (n_length n)"
    unfolding overlay_length bytes_length [OF inv emem e(2,3)] len
    by (auto simp: max_def word_le_nat_alt)
  have fit: "unat off + length data \<le> length ?bs + k"
    using y(3,5) len by (auto simp: max_def word_le_nat_alt split: if_splits)
  have B: "B = ?o @ replicate (unat cap - unat (n_length n)) 0"
    unfolding B_def put_overlay [OF fit] ol y(5) ..
  have le: "unat (n_length n) \<le> unat cap" using y(3) by (simp add: word_le_nat_alt)
  have new: "dynamic n" "n_name n = n_name n0" using e(3) by (simp_all add: n_def dynamic_def)
  have ok: "buf_ok (st\<lparr>rf_data := d2\<rparr>) (e\<lparr>re_capacity := cap\<rparr>) n"
    using y(2,3) le ol by (simp add: buf_ok_def d2_def B)
  have data: "d2 q = rf_data st q" if "q \<noteq> n_ptr n0" "q \<noteq> n_ptr n" for q
    using y(9) that by (simp add: d2_def)
  have nd: "rf_nodes st1 (re_node e) = Some n" using y(1) e(1) by (simp add: file_update_def Let_def n_def)
  have dt: "rf_data st1 (n_ptr n) = Some (?bs @ replicate k 0)" using y(1,4) by (simp add: file_update_def Let_def)
  have fin: "st1\<lparr>rf_data := (rf_data st1)(n_ptr n \<mapsto> put_bytes (unat off) data (?bs @ replicate k 0))\<rparr> = file_update i h d2 n cap st"
    unfolding y(1) by (simp add: n_def file_update_def Let_def d2_def B_def)
  have buf: "n_ptr n = NULL \<or> n_ptr n = n_ptr n0 \<and> h = rf_heap st \<or>
      n_ptr n \<notin> fst ` heap_live (rf_heap st) \<and> n_ptr n \<in> fst ` heap_live h" using y(8) by simp
  note fu = file_update_inv [OF inv i e new ok y(6,7) buf data]
  have "file_bytes (file_update i h d2 n cap st) (re_node e) = ?o"
    using y(2) ol by (simp add: file_bytes_def file_update_def Let_def e(1) [symmetric] d2_def B)
  moreover have "ramfs_tree st \<Longrightarrow> ramfs_tree (file_update i h d2 n cap st)"
    by (rule tree_file_update [OF _ i e(2) [unfolded e(1)]]) (use new(1) in \<open>simp_all add: n_def fns_ok_def\<close>)
  ultimately show ?thesis using fu nd dt keeps_file_update [OF i new(1), of h d2 cap] that [of n "?bs @ replicate k 0"] unfolding fin by blast
qed

lemma inv_heap_bytes [simp]: "file_bytes (st\<lparr>rf_heap := h\<rparr>) p = file_bytes st p"
  by (simp add: file_bytes_def)

lemma write_spec:
  assumes inv: "ramfs_inv D st" and i: "i < length (ramfs_nodes st)"
    and e: "e = ramfs_nodes st ! i" "rf_nodes st (re_node e) = Some n0" "dynamic n0"
    and sz: "length data < 2 ^ 32"
  shows "\<exists>r st'. ramfs_write junk (re_node e) off data st = Some (r, st') \<and> ramfs_inv D st' \<and> (ramfs_tree st \<longrightarrow> ramfs_tree st') \<and> keeps st st' \<and>
    (\<forall>e' n'. e' \<in> set (ramfs_nodes st) \<longrightarrow> re_node e' \<noteq> re_node e \<longrightarrow> rf_nodes st (re_node e') = Some n' \<longrightarrow> dynamic n' \<longrightarrow>
       file_bytes st' (re_node e') = file_bytes st (re_node e')) \<and>
    (r = of_nat (length data) \<and> data \<noteq> [] \<and> file_bytes st' (re_node e) = overlay (unat off) data (file_bytes st (re_node e)) \<or>
     r = 0 \<and> file_bytes st' (re_node e) = file_bytes st (re_node e) \<and>
       (data = [] \<or> 2 ^ 32 \<le> unat off + length data \<or>
        (\<exists>h1. heap_live h1 = heap_live (rf_heap st) \<and> kmalloc (off + of_nat (length data)) h1 = Some (NULL, rf_heap st') \<and>
           re_capacity e < off + of_nat (length data))))"
proof -
  let ?sz = "of_nat (length data) :: u32"
  have uoff: "unat off < 2 ^ 32" using unsigned_less [of off] by simp
  have usz: "unat ?sz = length data" using sz by (simp add: unat_of_nat)
  consider "data = []" | "data \<noteq> []" "?sz > 0xFFFFFFFF - off" | "data \<noteq> []" "\<not> ?sz > 0xFFFFFFFF - off" by blast
  then show ?thesis
  proof cases
    case 1
    with inv show ?thesis by (auto simp: ramfs_write_def)
  next
    case 2
    have "2 ^ 32 \<le> unat off + length data"
      using 2(2) usz uoff unat_sub [of off "0xFFFFFFFF"] by (simp add: word_less_nat_alt word_le_nat_alt)
    with 2 inv show ?thesis by (auto simp: ramfs_write_def Let_def)
  next
    case 3
    have le: "unat off + length data < 2 ^ 32"
      using 3(2) usz uoff unat_sub [of off "0xFFFFFFFF"] by (simp add: word_less_nat_alt word_le_nat_alt)
    have len: "unat off + length data = unat (off + ?sz)" using le usz by (simp add: unat_word_ariths)
    have pos: "0 < off + ?sz" "off \<le> off + ?sz" using 3(1) len by (simp_all add: word_less_nat_alt word_le_nat_alt flip: len)
    have "?sz \<noteq> 0" using usz 3(1) by auto
    then have w: "ramfs_write junk (re_node e) off data st = do {
        (ok, st1) \<leftarrow> ramfs_extend junk (re_node e) off (off + ?sz) st;
        if \<not> ok then Some (0, st1)
        else do {
          n \<leftarrow> rf_nodes st1 (re_node e);
          b \<leftarrow> rf_data st1 (n_ptr n);
          Some (?sz, st1\<lparr>rf_data := (rf_data st1)(n_ptr n \<mapsto> put_bytes (unat off) data b)\<rparr>)
        }}"
      using 3(2) by (simp add: ramfs_write_def Let_def)
    from extend_spec [OF inv i e pos, of junk] show ?thesis
    proof (elim disjE exE conjE)
      fix h h1
      assume a: "ramfs_extend junk (re_node e) off (off + ?sz) st = Some (False, st\<lparr>rf_heap := h\<rparr>)" "heap_inv h"
        "heap_live h = heap_live (rf_heap st)" "heap_live h1 = heap_live h" "kmalloc (off + ?sz) h1 = Some (NULL, h)"
        "re_capacity e < off + ?sz"
      then show ?thesis unfolding w
        by (intro exI [of _ 0] exI [of _ "st\<lparr>rf_heap := h\<rparr>"]) (auto intro!: inv_heap [OF inv] tree_heap keeps_heap)
    next
      fix st1 assume a: "ramfs_extend junk (re_node e) off (off + ?sz) st = Some (True, st1)" "extended st i (off + ?sz) st1"
      show ?thesis
        by (rule extended_put [OF inv i e a(2) len]) (use a(1) 3(1) in \<open>auto simp: w\<close>)
    qed
  qed
qed

text \<open>Reading returns the part of the contents that the file has there.\<close>

lemma read_spec:
  assumes inv: "ramfs_inv D st" and e: "e \<in> set (ramfs_nodes st)" "rf_nodes st (re_node e) = Some n" "dynamic n"
  shows "ramfs_read (re_node e) off sz st = Some (take (unat sz) (drop (unat off) (file_bytes st (re_node e))), st)"
proof (cases "n_length n \<le> off")
  case True
  then show ?thesis using bytes_length [OF inv e] e(2) by (simp add: ramfs_read_def word_le_nat_alt)
next
  case False
  have ok: "buf_ok st e n" using ramfs_invD(6) [OF inv e] by blast
  have ptr: "n_ptr n \<noteq> NULL" using False ok by (auto simp: buf_ok_def)
  note b = buf_split [OF e(2) ok ptr]
  have u: "unat (n_length n - off) = unat (n_length n) - unat off" using False by (simp add: unat_sub)
  let ?bs = "file_bytes st (re_node e)"
  have "take (unat (if sz > n_length n - off then n_length n - off else sz)) (drop (unat off) (?bs @ z)) =
      take (unat sz) (drop (unat off) ?bs)" for z
    using False b(2) u by (auto simp: word_le_nat_alt word_less_nat_alt not_le)
  with False b(1) e(2) show ?thesis by (simp add: ramfs_read_def Let_def del: take_append drop_append)
qed

section \<open>Creating, mounting and removing\<close>

text \<open>A new entry at the end of the table.\<close>

lemma append_inv:
  assumes inv: "ramfs_inv D st" and room: "length (ramfs_nodes st) < MAX_RAMFS_NODES"
    and p: "re_node e \<noteq> NULL" "re_node e \<notin> re_node ` set (ramfs_nodes st)"
    and n: "dynamic n \<longrightarrow> re_node e \<notin> D \<and> n_ptr n = NULL \<and> n_length n = 0 \<and> re_capacity e = 0"
    and heap: "heap_inv h" "fst ` heap_live (rf_heap st) \<subseteq> fst ` heap_live h"
      "re_node e \<in> D \<or> re_node e \<in> fst ` heap_live h \<and> re_node e \<notin> fst ` heap_live (rf_heap st)"
    and name: "\<forall>a \<in> set (ramfs_nodes st). re_parent a = re_parent e \<longrightarrow> name_at st (re_node a) \<noteq> n_name n"
  shows "ramfs_inv D (st\<lparr>rf_heap := h, rf_nodes := (rf_nodes st)(re_node e \<mapsto> n), next_inode := x,
    ramfs_nodes := ramfs_nodes st @ [e]\<rparr>)"
proof -
  define L where "L = fst ` heap_live (rf_heap st)"
  define L' where "L' = fst ` heap_live h"
  note D = ramfs_invD [OF inv, folded L_def] and h2 = heap(2,3) [folded L_def L'_def]
  let ?st = "st\<lparr>rf_heap := h, rf_nodes := (rf_nodes st)(re_node e \<mapsto> n), next_inode := x, ramfs_nodes := ramfs_nodes st @ [e]\<rparr>"
  have ne: "re_node a \<noteq> re_node e" if "a \<in> set (ramfs_nodes st)" for a using p(2) imageI [OF that, of re_node] by metis
  have same: "blocks_of D ?st a = blocks_of D st a" "name_at ?st (re_node a) = name_at st (re_node a)"
    "buf_ok ?st a m = buf_ok st a m" if "a \<in> set (ramfs_nodes st)" for a m
    using ne [OF that] by (simp_all add: blocks_of_def buffers_def name_at_def buf_ok_def)
  then have bl: "map (blocks_of D ?st) (ramfs_nodes st) = map (blocks_of D st) (ramfs_nodes st)" by simp
  have nb: "blocks_of D ?st e = (if re_node e \<in> D then [] else [re_node e])" using n by (simp add: blocks_of_def buffers_def)
  have d: "distinct (concat (map (blocks_of D ?st) (ramfs_nodes ?st)))"
    using D(7,8) h2(2) by (auto simp: bl nb)
  have l: "set (concat (map (blocks_of D ?st) (ramfs_nodes ?st))) \<subseteq> L'"
    using D(8) h2 by (auto simp: bl nb)
  have nm: "distinct (map (\<lambda>e. (re_parent e, name_at ?st (re_node e))) (ramfs_nodes ?st))"
  proof -
    have "map (\<lambda>e. (re_parent e, name_at ?st (re_node e))) (ramfs_nodes ?st) =
        map (\<lambda>e. (re_parent e, name_at st (re_node e))) (ramfs_nodes st) @ [(re_parent e, n_name n)]"
      using same(2) by (simp add: name_at_def)
    moreover have "(re_parent e, n_name n) \<notin> set (map (\<lambda>e. (re_parent e, name_at st (re_node e))) (ramfs_nodes st))"
      using name by auto
    ultimately show ?thesis using D(9) by (simp only: distinct_append) simp
  qed
  have ent: "\<forall>a \<in> set (ramfs_nodes ?st). re_node a \<noteq> NULL \<and>
      (\<exists>m. rf_nodes ?st (re_node a) = Some m \<and> (dynamic m \<longrightarrow> re_node a \<notin> D \<and> buf_ok ?st a m))"
  proof
    fix a assume "a \<in> set (ramfs_nodes ?st)"
    then consider "a \<in> set (ramfs_nodes st)" | "a = e" by auto
    then show "re_node a \<noteq> NULL \<and> (\<exists>m. rf_nodes ?st (re_node a) = Some m \<and> (dynamic m \<longrightarrow> re_node a \<notin> D \<and> buf_ok ?st a m))"
    proof cases
      case 1
      from D(4,5,6) [OF this] same(3) [OF this] ne [OF this] show ?thesis by fastforce
    qed (use p n in \<open>auto simp: buf_ok_def\<close>)
  qed
  show ?thesis
    unfolding ramfs_inv_def using d l nm ent heap(1) room D(3) p(2) by (auto simp: L'_def)
qed

text \<open>An entry is taken out of the table, its blocks are freed.\<close>

lemma remove_inv:
  assumes inv: "ramfs_inv D st" and s: "ramfs_nodes st = as @ e # bs"
    and heap: "heap_inv h" "fst ` heap_live (rf_heap st) - set (blocks_of D st e) \<subseteq> fst ` heap_live h"
    and e: "rf_nodes st (re_node e) = Some n" "dynamic n"
  shows "ramfs_inv D (st\<lparr>rf_heap := h, rf_data := (rf_data st)(n_ptr n := None), rf_nodes := (rf_nodes st)(re_node e := None),
    ramfs_nodes := as @ bs\<rparr>)"
proof -
  define L where "L = fst ` heap_live (rf_heap st)"
  define L' where "L' = fst ` heap_live h"
  note D = ramfs_invD [OF inv, folded L_def] and h2 = heap(2) [folded L_def L'_def]
  let ?st = "st\<lparr>rf_heap := h, rf_data := (rf_data st)(n_ptr n := None), rf_nodes := (rf_nodes st)(re_node e := None),
    ramfs_nodes := as @ bs\<rparr>"
  have ne: "re_node a \<noteq> re_node e" if "a \<in> set (as @ bs)" for a
    using D(3) that imageI [of a _ re_node] unfolding s by (auto simp: image_iff)
  have same: "blocks_of D ?st a = blocks_of D st a" "name_at ?st (re_node a) = name_at st (re_node a)"
    if "a \<in> set (as @ bs)" for a
    using ne [OF that] by (simp_all add: blocks_of_def buffers_def name_at_def)
  have bl: "map (blocks_of D ?st) (as @ bs) = map (blocks_of D st) (as @ bs)"
    and nm: "map (\<lambda>e. (re_parent e, name_at ?st (re_node e))) (as @ bs) = map (\<lambda>e. (re_parent e, name_at st (re_node e))) (as @ bs)"
    using same by auto
  have other: "n_ptr m \<noteq> n_ptr n" if "a \<in> set (as @ bs)" "rf_nodes st (re_node a) = Some m" "dynamic m" "n_ptr m \<noteq> NULL" for a m
  proof
    assume eq: "n_ptr m = n_ptr n"
    have "n_ptr m \<in> set (blocks_of D st a)" using that by (simp add: blocks_of_def buffers_def)
    then have "n_ptr m \<in> set (concat (map (blocks_of D st) (as @ bs)))" using that(1) by auto
    moreover have "n_ptr m \<in> set (blocks_of D st e)" using e eq that(4) by (simp add: blocks_of_def buffers_def)
    ultimately show False using D(7) unfolding s by auto
  qed
  have ent: "\<forall>a \<in> set (as @ bs). re_node a \<noteq> NULL \<and>
      (\<exists>m. rf_nodes ?st (re_node a) = Some m \<and> (dynamic m \<longrightarrow> re_node a \<notin> D \<and> buf_ok ?st a m))"
  proof
    fix a assume a: "a \<in> set (as @ bs)"
    then have am: "a \<in> set (ramfs_nodes st)" using s by auto
    obtain m where m: "rf_nodes st (re_node a) = Some m" using D(5) [OF am] by blast
    have "buf_ok ?st a m" if "dynamic m"
      using D(6) [OF am m that] other [OF a m that] by (auto simp: buf_ok_def)
    with D(4,6) [OF am] m ne [OF a] show "re_node a \<noteq> NULL \<and>
      (\<exists>m. rf_nodes ?st (re_node a) = Some m \<and> (dynamic m \<longrightarrow> re_node a \<notin> D \<and> buf_ok ?st a m))" by auto
  qed
  have "set (concat (map (blocks_of D st) (as @ bs))) \<subseteq> L'"
  proof -
    have "set (concat (map (blocks_of D st) (as @ bs))) \<subseteq> L - set (blocks_of D st e)"
      using D(7,8) unfolding s by auto
    with h2 show ?thesis by blast
  qed
  moreover have "distinct (concat (map (blocks_of D st) (as @ bs)))" using D(7) unfolding s by auto
  moreover have "distinct (map (\<lambda>e. (re_parent e, name_at st (re_node e))) (as @ bs))" using D(9) unfolding s by auto
  ultimately show ?thesis
    unfolding ramfs_inv_def using ent heap(1) D(2,3) unfolding s
    by (simp add: bl nm L'_def [symmetric] del: map_append concat_append set_append) auto
qed

text \<open>A node is changed without touching its name and buffer.\<close>

lemma node_inv:
  assumes inv: "ramfs_inv D st" and n: "rf_nodes st p = Some n"
    and f: "n_name (f n) = n_name n" "dynamic (f n) \<Longrightarrow> dynamic n \<and> n_ptr (f n) = n_ptr n \<and> n_length (f n) = n_length n"
      "dynamic n \<Longrightarrow> \<not> dynamic (f n) \<Longrightarrow> n_ptr n = NULL"
  shows "ramfs_inv D (st\<lparr>rf_nodes := (rf_nodes st)(p \<mapsto> f n)\<rparr>)"
proof -
  let ?st = "st\<lparr>rf_nodes := (rf_nodes st)(p \<mapsto> f n)\<rparr>"
  have "blocks_of D ?st = blocks_of D st" "name_at ?st = name_at st"
    using n f by (auto simp: fun_eq_iff blocks_of_def buffers_def name_at_def)
  moreover have "(\<exists>m. rf_nodes ?st (re_node a) = Some m \<and> (dynamic m \<longrightarrow> re_node a \<notin> D \<and> buf_ok ?st a m))"
    if "\<exists>m. rf_nodes st (re_node a) = Some m \<and> (dynamic m \<longrightarrow> re_node a \<notin> D \<and> buf_ok st a m)" for a
    using that n f by (cases "re_node a = p") (auto simp: buf_ok_def)
  ultimately show ?thesis using inv unfolding ramfs_inv_def by auto
qed

section \<open>Walking the tree\<close>

lemma tracked_node:
  assumes "ramfs_inv D st" "tracked st p"
  obtains e n where "e \<in> set (ramfs_nodes st)" "re_node e = p" "p \<noteq> NULL" "rf_nodes st p = Some n"
  using assms ramfs_invD(4,5) [OF assms(1)] by (fastforce simp: tracked_def)

lemma tree_root: "ramfs_tree st \<Longrightarrow> fs_root st \<noteq> NULL \<Longrightarrow> tracked st (fs_root st) \<and> dir_at st (fs_root st)"
  by (auto simp: ramfs_tree_def tracked_def)

lemma dir_atD: "dir_at st p \<Longrightarrow> \<exists>n. rf_nodes st p = Some n \<and> n_flags n = FS_DIRECTORY"
  by (simp add: dir_at_def)

lemma find_child_total:
  assumes "ramfs_inv D st" "tracked st parent"
  shows "\<exists>q. ramfs_find_child parent name st = Some q \<and> (q = NULL \<or> tracked st q)"
proof -
  obtain n where "rf_nodes st parent = Some n" using tracked_node [OF assms] by metis
  then show ?thesis using find_child_spec [OF assms(1), of parent name] by (auto simp: tracked_def)
qed

lemma resolve_loop_total:
  assumes inv: "ramfs_inv D st" and "tracked st node"
  shows "\<exists>q. ramfs_resolve_loop node cursor st = Some q \<and> (q = NULL \<or> tracked st q)"
  using assms(2)
proof (induction "length cursor" arbitrary: node cursor rule: less_induct)
  case less
  show ?case
  proof (cases "ramfs_parse_component cursor")
    case None
    with less.prems show ?thesis by (auto simp: ramfs_resolve_loop.simps [of node])
  next
    case (Some r)
    obtain name rest where r: "r = (name, rest)" by (cases r)
    have shorter: "length rest < length cursor" "length (tl rest) < length cursor"
      using ramfs_parse_component_shorter [of cursor name rest] Some r by auto
    obtain q where "ramfs_find_child node name st = Some q" "q = NULL \<or> tracked st q"
      using find_child_total [OF inv less.prems] by blast
    with Some r less.hyps [of "[]" q] less.hyps [OF shorter(2), of q] less.prems shorter show ?thesis
      by (auto simp: ramfs_resolve_loop.simps [of node])
  qed
qed

lemma parent_loop_total:
  assumes inv: "ramfs_inv D st" and "tracked st parent" "dir_at st parent"
  shows "\<exists>q name. ramfs_parent_loop parent cursor st = Some (q, name) \<and>
    (q = NULL \<or> tracked st q \<and> dir_at st q \<and> ramfs_component_valid name)"
  using assms(2,3)
proof (induction "length cursor" arbitrary: parent cursor rule: less_induct)
  case less
  show ?case
  proof (cases "ramfs_parse_component cursor")
    case None
    then show ?thesis by (auto simp: ramfs_parent_loop.simps [of parent])
  next
    case (Some r)
    obtain name rest where r: "r = (name, rest)" by (cases r)
    have shorter: "length (tl rest) < length cursor"
      using ramfs_parse_component_shorter [of cursor name rest] Some r by auto
    have valid: "ramfs_component_valid name"
      using Some r by (auto simp: ramfs_parse_component_def split: option.splits if_splits)
    obtain q where q: "ramfs_find_child parent name st = Some q" "q = NULL \<or> tracked st q"
      using find_child_total [OF inv less.prems(1)] by blast
    show ?thesis
    proof (cases "q = NULL")
      case False
      with q obtain n where n: "tracked st q" "rf_nodes st q = Some n" using tracked_node [OF inv] by metis
      with False q Some r valid less.prems less.hyps [OF shorter n(1)] show ?thesis
        by (auto simp: ramfs_parent_loop.simps [of parent] dir_at_def)
    qed (use q(1) Some r valid less.prems in \<open>auto simp: ramfs_parent_loop.simps [of parent]\<close>)
  qed
qed

lemma resolve_path_total:
  assumes "ramfs_inv D st" "ramfs_tree st"
  shows "\<exists>q. ramfs_resolve_path path st = Some q \<and> (q = NULL \<or> tracked st q)"
  using resolve_loop_total [OF assms(1)] tree_root [OF assms(2)]
  by (auto simp: ramfs_resolve_path_def split: option.splits)

lemma resolve_parent_total:
  assumes "ramfs_inv D st" "ramfs_tree st"
  shows "\<exists>q name. ramfs_resolve_parent path st = Some (q, name) \<and>
    (q = NULL \<or> tracked st q \<and> dir_at st q \<and> ramfs_component_valid name)"
proof (cases "fs_root st = NULL")
  case False
  then show ?thesis
    using parent_loop_total [OF assms(1)] tree_root [OF assms(2) False]
    by (auto simp: ramfs_resolve_parent_def Let_def split: option.splits)
qed (auto simp: ramfs_resolve_parent_def split: option.splits)

lemma tree_append:
  assumes tree: "ramfs_tree st" and root: "fs_root st \<noteq> NULL" and new: "\<not> tracked st (re_node e)"
    and par: "tracked st (re_parent e)" "dir_at st (re_parent e)" and n: "fns_ok n"
  shows "ramfs_tree (st\<lparr>rf_heap := h, rf_nodes := (rf_nodes st)(re_node e \<mapsto> n), next_inode := x,
    ramfs_nodes := ramfs_nodes st @ [e]\<rparr>)"
proof -
  let ?st = "st\<lparr>rf_heap := h, rf_nodes := (rf_nodes st)(re_node e \<mapsto> n), next_inode := x, ramfs_nodes := ramfs_nodes st @ [e]\<rparr>"
  obtain e0 es where t: "ramfs_nodes st = e0 # es" "re_node e0 = fs_root st" "re_parent e0 = NULL" "dir_at st (fs_root st)"
    "\<forall>e \<in> set es. tracked st (re_parent e) \<and> dir_at st (re_parent e)" "\<forall>p n. tracked st p \<longrightarrow> rf_nodes st p = Some n \<longrightarrow> fns_ok n"
    using tree root unfolding ramfs_tree_def by (simp only: if_False) blast
  have tr: "tracked ?st q \<longleftrightarrow> tracked st q \<or> q = re_node e" for q by (auto simp: tracked_def)
  have dr: "dir_at ?st q" if "tracked st q" "dir_at st q" for q using that new by (auto simp: dir_at_def)
  have "\<forall>a \<in> set (es @ [e]). tracked ?st (re_parent a) \<and> dir_at ?st (re_parent a)"
    using t(5) par dr tr by auto
  moreover have "dir_at ?st (fs_root ?st)" using dr tree_root [OF tree root] by simp
  moreover have "\<forall>p m. tracked ?st p \<longrightarrow> rf_nodes ?st p = Some m \<longrightarrow> fns_ok m"
    using t(6) tr n by auto
  ultimately show ?thesis
    unfolding ramfs_tree_def using root t(1-3) by auto
qed

lemma tree_remove:
  assumes tree: "ramfs_tree st" and s: "ramfs_nodes st = as @ e # bs" "as \<noteq> []" "distinct (map re_node (ramfs_nodes st))"
    and leaf: "\<forall>a \<in> set (ramfs_nodes st). re_parent a \<noteq> re_node e"
  shows "ramfs_tree (st\<lparr>rf_heap := h, rf_data := d, rf_nodes := (rf_nodes st)(re_node e := None), ramfs_nodes := as @ bs\<rparr>)"
proof -
  let ?st = "st\<lparr>rf_heap := h, rf_data := d, rf_nodes := (rf_nodes st)(re_node e := None), ramfs_nodes := as @ bs\<rparr>"
  have root: "fs_root st \<noteq> NULL" using tree s(1) by (auto simp: ramfs_tree_def split: if_splits)
  obtain e0 es where t: "ramfs_nodes st = e0 # es" "re_node e0 = fs_root st" "re_parent e0 = NULL" "dir_at st (fs_root st)"
    "\<forall>e \<in> set es. tracked st (re_parent e) \<and> dir_at st (re_parent e)" "\<forall>p n. tracked st p \<longrightarrow> rf_nodes st p = Some n \<longrightarrow> fns_ok n"
    using tree root unfolding ramfs_tree_def by (simp only: if_False) blast
  obtain as' where as: "as = e0 # as'" "es = as' @ e # bs" using s t(1) by (cases as) auto
  have tr: "tracked ?st q \<longleftrightarrow> tracked st q \<and> q \<noteq> re_node e" for q
    using s(3) unfolding tracked_def s(1) by (auto simp: image_iff)
  have dr: "dir_at ?st q \<longleftrightarrow> dir_at st q \<and> q \<noteq> re_node e" for q by (auto simp: dir_at_def)
  have "re_node e0 \<noteq> re_node e" using s(3) unfolding s(1) as(1) by auto
  then have "dir_at ?st (fs_root ?st)" using t(2,4) dr by simp
  moreover have "\<forall>a \<in> set (as' @ bs). tracked ?st (re_parent a) \<and> dir_at ?st (re_parent a)"
    using t(1,5) leaf unfolding tr dr t(1) as(2) by auto
  moreover have "\<forall>p m. tracked ?st p \<longrightarrow> rf_nodes ?st p = Some m \<longrightarrow> fns_ok m"
    using t(6) tr by auto
  ultimately show ?thesis unfolding ramfs_tree_def using root t(2,3) as(1) by auto
qed

lemma tree_node:
  assumes tree: "ramfs_tree st" and n: "rf_nodes st p = Some n" and f: "n_flags (f n) = n_flags n" "fns_ok n \<Longrightarrow> fns_ok (f n)"
  shows "ramfs_tree (st\<lparr>rf_nodes := (rf_nodes st)(p \<mapsto> f n)\<rparr>)"
proof -
  let ?st = "st\<lparr>rf_nodes := (rf_nodes st)(p \<mapsto> f n)\<rparr>"
  have "tracked ?st = tracked st" "dir_at ?st = dir_at st" using n f(1) by (auto simp: fun_eq_iff tracked_def dir_at_def)
  moreover have "\<forall>q m. tracked st q \<longrightarrow> rf_nodes st q = Some m \<longrightarrow> fns_ok m" using tree by (simp add: ramfs_tree_def)
  then have "\<forall>q m. tracked st q \<longrightarrow> rf_nodes ?st q = Some m \<longrightarrow> fns_ok m" using n f(2) by auto
  ultimately show ?thesis using tree unfolding ramfs_tree_def by simp
qed

text \<open>Heap blocks are not device nodes.\<close>

definition heap_avoids :: "ptr set \<Rightarrow> ramfs \<Rightarrow> bool" where
  "heap_avoids D st \<longleftrightarrow> (case kmalloc sizeof_fs_node (rf_heap st) of None \<Rightarrow> True | Some (node, h) \<Rightarrow> node \<notin> D)"

definition created :: "ptr \<Rightarrow> heap_state \<Rightarrow> ptr \<Rightarrow> string \<Rightarrow> u32 \<Rightarrow> u32 \<Rightarrow> ramfs \<Rightarrow> ramfs" where
  "created node h parent name flags impl st = st\<lparr>rf_heap := h,
     rf_nodes := (rf_nodes st)(node \<mapsto> new_node name flags (next_inode st) impl), next_inode := next_inode st + 1,
     ramfs_nodes := ramfs_nodes st @ [\<lparr>re_node = node, re_parent = parent, re_capacity = 0\<rparr>]\<rparr>"

lemma new_node_simps [simp]:
  "n_name (new_node name flags inode impl) = name" "n_flags (new_node name flags inode impl) = flags"
  "n_ptr (new_node name flags inode impl) = NULL" "n_length (new_node name flags inode impl) = 0"
  "n_impl (new_node name flags inode impl) = impl" "dynamic (new_node name flags inode impl) = odd impl"
  by (simp_all add: new_node_def Let_def dynamic_def)

lemma fns_ok_new: "odd impl \<Longrightarrow> fns_ok (new_node name flags inode impl)"
  by (auto simp: fns_ok_def new_node_def Let_def dynamic_def)

lemma created_inv:
  assumes inv: "ramfs_inv D st" and room: "length (ramfs_nodes st) < MAX_RAMFS_NODES" and avoid: "heap_avoids D st"
    and al: "kmalloc sizeof_fs_node (rf_heap st) = Some (node, h)" "node \<noteq> NULL"
    and name: "\<forall>a \<in> set (ramfs_nodes st). re_parent a = parent \<longrightarrow> name_at st (re_node a) \<noteq> name"
  shows "ramfs_inv D (created node h parent name flags impl st)" "\<not> tracked st node"
proof -
  note D = ramfs_invD [OF inv]
  have node: "node \<notin> D" using avoid al by (simp add: heap_avoids_def)
  obtain k where k: "heap_live h = insert (node, k) (heap_live (rf_heap st))" "node \<notin> fst ` heap_live (rf_heap st)"
    using kheap.alloc_new [OF D(1) al] by blast
  show new: "\<not> tracked st node"
  proof
    assume "tracked st node"
    then obtain e where e: "e \<in> set (ramfs_nodes st)" "re_node e = node" by (auto simp: tracked_def)
    then have "node \<in> set (blocks_of D st e)" using node by (simp add: blocks_of_def)
    then have "node \<in> set (concat (map (blocks_of D st) (ramfs_nodes st)))" using e(1) by auto
    with D(8) k(2) show False by blast
  qed
  show "ramfs_inv D (created node h parent name flags impl st)"
    unfolding created_def
    using append_inv [OF inv room, of "\<lparr>re_node = node, re_parent = parent, re_capacity = 0\<rparr>" "new_node name flags (next_inode st) impl" h]
      al(2) new kheap.alloc_inv [OF D(1) al(1)] k node name by (simp add: tracked_def) blast
qed

lemma create_node_spec:
  assumes inv: "ramfs_inv D st" and tree: "ramfs_tree st" and avoid: "heap_avoids D st"
    and par: "tracked st parent" "dir_at st parent" and impl: "odd impl"
  shows "(\<exists>h. ramfs_create_node parent name flags impl st = Some (NULL, st\<lparr>rf_heap := h\<rparr>) \<and>
      ramfs_inv D (st\<lparr>rf_heap := h\<rparr>) \<and> ramfs_tree (st\<lparr>rf_heap := h\<rparr>)) \<or>
    (\<exists>node h. ramfs_create_node parent name flags impl st = Some (node, created node h parent name flags impl st) \<and>
      node \<noteq> NULL \<and> ramfs_component_valid name \<and> \<not> tracked st node \<and> ramfs_find_child parent name st = Some NULL \<and>
      ramfs_inv D (created node h parent name flags impl st) \<and> ramfs_tree (created node h parent name flags impl st))"
proof -
  note D = ramfs_invD [OF inv]
  obtain n where n: "rf_nodes st parent = Some n" "n_flags n = FS_DIRECTORY" using par(2) by (auto simp: dir_at_def)
  have pn: "parent \<noteq> NULL" using tracked_node [OF inv par(1)] by metis
  obtain q where q: "ramfs_find_child parent name st = Some q" using find_child_total [OF inv par(1)] by blast
  obtain node h where al: "kmalloc sizeof_fs_node (rf_heap st) = Some (node, h)"
    using kheap.alloc_total [OF D(1)] by blast
  consider "\<not> ramfs_component_valid name \<or> length (ramfs_nodes st) \<ge> MAX_RAMFS_NODES \<or> q \<noteq> NULL"
    | "ramfs_component_valid name" "length (ramfs_nodes st) < MAX_RAMFS_NODES" "q = NULL" "node = NULL"
    | "ramfs_component_valid name" "length (ramfs_nodes st) < MAX_RAMFS_NODES" "q = NULL" "node \<noteq> NULL"
    by linarith
  then show ?thesis
  proof cases
    case 1
    then have "ramfs_create_node parent name flags impl st = Some (NULL, st\<lparr>rf_heap := rf_heap st\<rparr>)"
      using q pn by (auto simp: ramfs_create_node_def)
    then show ?thesis using inv tree by (intro disjI1 exI [of _ "rf_heap st"]) simp
  next
    case 2
    with al have al0: "kmalloc sizeof_fs_node (rf_heap st) = Some (NULL, h)" by simp
    have "ramfs_create_node parent name flags impl st = Some (NULL, st\<lparr>rf_heap := h\<rparr>)"
      using 2 q al0 pn by (simp add: ramfs_create_node_def)
    then show ?thesis
      using inv_heap [OF inv kheap.alloc_inv [OF D(1) al0] kheap.alloc_null [OF D(1) al0]] tree_heap [OF tree] by blast
  next
    case 3
    have name: "\<forall>a \<in> set (ramfs_nodes st). re_parent a = parent \<longrightarrow> name_at st (re_node a) \<noteq> name"
      using find_child_spec [OF inv, of parent name] n pn q 3(3) D(4) by auto
    note c = created_inv [OF inv 3(2) avoid al 3(4) name]
    have "fs_root st \<noteq> NULL" using tree par(1) by (auto simp: ramfs_tree_def tracked_def split: if_splits)
    then have "ramfs_tree (created node h parent name flags impl st)"
      unfolding created_def using tree_append [OF tree, of "\<lparr>re_node = node, re_parent = parent, re_capacity = 0\<rparr>"]
        c(2) par fns_ok_new [OF impl] by simp
    moreover have "ramfs_create_node parent name flags impl st = Some (node, created node h parent name flags impl st)"
      using 3 q al pn by (simp add: ramfs_create_node_def created_def)
    ultimately show ?thesis using 3 q c by blast
  qed
qed

lemma and_not_one: "odd x \<Longrightarrow> x AND NOT RAMFS_DYNAMIC = 0 \<longleftrightarrow> x = 1" for x :: u32
proof -
  assume "odd x"
  then have "x AND 1 = 1" by (simp add: and_one_eq odd_iff_mod_2_eq_one)
  moreover have "(x AND 1) OR (x AND NOT 1) = x" by (rule bit_eqI) (auto simp: bit_simps)
  ultimately show ?thesis by (auto simp: RAMFS_DYNAMIC_def)
qed

definition removed :: "ramfs_entry list \<Rightarrow> ramfs_entry list \<Rightarrow> ramfs_entry \<Rightarrow> fs_node \<Rightarrow> heap_state \<Rightarrow> ramfs \<Rightarrow> ramfs" where
  "removed as bs e n h st = st\<lparr>rf_heap := h, rf_data := (rf_data st)(n_ptr n := None),
     rf_nodes := (rf_nodes st)(re_node e := None), ramfs_nodes := as @ bs\<rparr>"

lemma remove_node_spec:
  assumes inv: "ramfs_inv D st" and tree: "ramfs_tree st" and p: "tracked st p"
    and leaf: "\<forall>a \<in> set (ramfs_nodes st). re_parent a \<noteq> p"
  shows "ramfs_remove_node p st = Some (- 1, st) \<or>
    (\<exists>as e bs n h. ramfs_nodes st = as @ e # bs \<and> re_node e = p \<and> as \<noteq> [] \<and> rf_nodes st p = Some n \<and> n_impl n = RAMFS_DYNAMIC \<and>
       ramfs_remove_node p st = Some (0, removed as bs e n h st) \<and>
       ramfs_inv D (removed as bs e n h st) \<and> ramfs_tree (removed as bs e n h st))"
proof -
  note D = ramfs_invD [OF inv]
  obtain i where i: "i < length (ramfs_nodes st)" "re_node (ramfs_nodes st ! i) = p"
    using p by (auto simp: tracked_def in_set_conv_nth)
  obtain n where n: "rf_nodes st p = Some n" using tracked_node [OF inv p] by metis
  have idx: "ramfs_find_index p st = int i" using find_index_eq [OF inv i(1)] i(2) by simp
  show ?thesis
  proof (cases "i = 0 \<or> even (n_impl n) \<or> n_impl n \<noteq> 1")
    case True
    then show ?thesis using idx n and_not_one [of "n_impl n"] by (auto simp: ramfs_remove_node_def Let_def)
  next
    case False
    then have dyn: "dynamic n" "n_impl n = RAMFS_DYNAMIC" by (auto simp: dynamic_def RAMFS_DYNAMIC_def)
    obtain as bs e where s: "ramfs_nodes st = as @ e # bs" "length as = i" "e = ramfs_nodes st ! i"
      using entry_split [OF D(3) i(1)] by metis
    have e: "e \<in> set (ramfs_nodes st)" "re_node e = p" using s i by auto
    have bl: "blocks_of D st e = p # (if n_ptr n = NULL then [] else [n_ptr n])"
      using D(6) [OF e(1)] e(2) n dyn(1) by (simp add: blocks_of_def buffers_def)
    have live: "set (blocks_of D st e) \<subseteq> fst ` heap_live (rf_heap st)" "distinct (blocks_of D st e)"
      using D(7,8) unfolding s(1) by auto
    obtain h1 where h1: "kfree (n_ptr n) (rf_heap st) = Some h1" "heap_inv h1"
      "fst ` heap_live (rf_heap st) - (set (blocks_of D st e) - {p}) \<subseteq> fst ` heap_live h1"
    proof (cases "n_ptr n = NULL")
      case True
      then show ?thesis using that [of "rf_heap st"] D(1) by (auto simp: kfree_def)
    next
      case False
      with live bl have "n_ptr n \<in> fst ` heap_live (rf_heap st)" by simp
      from free_old [OF D(1) this] live(2) False that show ?thesis unfolding bl by auto
    qed
    have "p \<in> fst ` heap_live h1" using h1(3) live(1) unfolding bl by auto
    from free_old [OF h1(2) this] obtain h where h: "kfree p h1 = Some h" "heap_inv h"
      "fst ` heap_live h1 - {p} \<subseteq> fst ` heap_live h" by blast
    have sub: "fst ` heap_live (rf_heap st) - set (blocks_of D st e) \<subseteq> fst ` heap_live h"
    proof -
      have "p \<in> set (blocks_of D st e)" by (simp add: bl)
      with h(3) h1(3) show ?thesis by blast
    qed
    have "as \<noteq> []" using False s(2) by auto
    moreover have "ramfs_remove_node p st = Some (0, removed as bs e n h st)"
      using False idx n h1(1) h(1) s(1,2) e(2) dyn and_not_one [of "n_impl n"]
      by (simp add: ramfs_remove_node_def Let_def removed_def RAMFS_DYNAMIC_def)
    moreover have "ramfs_inv D (removed as bs e n h st)"
      unfolding removed_def using remove_inv [OF inv s(1) h(2) sub _ dyn(1)] n e(2) by simp
    moreover have "ramfs_tree (removed as bs e n h st)"
      unfolding removed_def using tree_remove [OF tree s(1) _ D(3)] leaf e(2) \<open>as \<noteq> []\<close> by simp
    ultimately show ?thesis using s(1) e(2) n dyn(2) by blast
  qed
qed

section \<open>Every operation keeps the invariant\<close>

datatype ramfs_op = Init | CreateFile "string option" | CreateStatic "string option" ptr u32 | CreateDir "string option"
  | UnlinkFile "string option" | RemoveDir "string option" | Mount "string option" ptr
  | Open ptr | Close ptr | Write ptr u32 "u8 list"
  | NodeCreate ptr string | NodeUnlink ptr string | NodeMkdir ptr string | NodeRmdir ptr string

fun exec_op :: "(nat \<Rightarrow> u8) \<Rightarrow> ramfs_op \<Rightarrow> ramfs \<Rightarrow> ramfs option" where
  "exec_op junk Init st = ramfs_init st"
| "exec_op junk (CreateFile path) st = map_option snd (ramfs_create_file path st)"
| "exec_op junk (CreateStatic path data sz) st = map_option snd (ramfs_create_static_file path data sz st)"
| "exec_op junk (CreateDir path) st = map_option snd (ramfs_create_directory path st)"
| "exec_op junk (UnlinkFile path) st = map_option snd (ramfs_unlink_file path st)"
| "exec_op junk (RemoveDir path) st = map_option snd (ramfs_remove_directory path st)"
| "exec_op junk (Mount path node) st = map_option snd (ramfs_mount path node st)"
| "exec_op junk (Open node) st = ramfs_open node st"
| "exec_op junk (Close node) st = ramfs_close node st"
| "exec_op junk (Write node offset data) st = map_option snd (ramfs_write junk node offset data st)"
| "exec_op junk (NodeCreate parent name) st = map_option snd (ramfs_create parent name st)"
| "exec_op junk (NodeUnlink parent name) st = map_option snd (ramfs_unlink parent name st)"
| "exec_op junk (NodeMkdir parent name) st = map_option snd (ramfs_mkdir parent name st)"
| "exec_op junk (NodeRmdir parent name) st = map_option snd (ramfs_rmdir parent name st)"

text \<open>
  When an operation is called: on any path; on a node that is in the table and has the function
  concerned; to mount a device node that is not mounted yet and has none of the functions.
\<close>

definition has_fn :: "ramfs \<Rightarrow> (fs_node \<Rightarrow> fnptr) \<Rightarrow> ptr \<Rightarrow> bool" where
  "has_fn st sel p \<longleftrightarrow> tracked st p \<and> (\<exists>n. rf_nodes st p = Some n \<and> sel n = FN_RAMFS)"

fun op_allowed :: "ptr set \<Rightarrow> ramfs_op \<Rightarrow> ramfs \<Rightarrow> bool" where
  "op_allowed D (Mount path node) st \<longleftrightarrow> node = NULL \<or> node \<in> D \<and> \<not> tracked st node \<and>
     (\<exists>n. rf_nodes st node = Some n \<and> \<not> dynamic n \<and> n_write n \<noteq> FN_RAMFS \<and>
       FN_RAMFS \<notin> {n_create n, n_unlink n, n_mkdir n, n_rmdir n})"
| "op_allowed D (Open node) st \<longleftrightarrow> has_fn st n_open node"
| "op_allowed D (Close node) st \<longleftrightarrow> has_fn st n_close node"
| "op_allowed D (Write node offset data) st \<longleftrightarrow> has_fn st n_write node \<and> length data < 2 ^ 32"
| "op_allowed D (NodeCreate parent name) st \<longleftrightarrow> has_fn st n_create parent"
| "op_allowed D (NodeUnlink parent name) st \<longleftrightarrow> has_fn st n_unlink parent"
| "op_allowed D (NodeMkdir parent name) st \<longleftrightarrow> has_fn st n_mkdir parent"
| "op_allowed D (NodeRmdir parent name) st \<longleftrightarrow> has_fn st n_rmdir parent"
| "op_allowed D _ st \<longleftrightarrow> True"

definition ramfs_ok :: "ptr set \<Rightarrow> ramfs \<Rightarrow> bool" where
  "ramfs_ok D st \<longleftrightarrow> ramfs_inv D st \<and> ramfs_tree st"

lemma has_fn_dir:
  assumes "ramfs_tree st" "has_fn st sel p" "sel \<in> {n_create, n_unlink, n_mkdir, n_rmdir}"
  shows "tracked st p \<and> dir_at st p"
  using assms by (auto simp: has_fn_def ramfs_tree_def fns_ok_def dir_at_def)

lemma find_index_tracked:
  assumes "tracked st p"
  shows "\<not> ramfs_find_index p st < 0"
  using find_index_spec [of st p] assms by (auto simp: tracked_def)

lemma create_node_ok:
  assumes "ramfs_ok D st" "heap_avoids D st" "tracked st parent" "dir_at st parent" "odd impl"
  shows "\<exists>node st'. ramfs_create_node parent name flags impl st = Some (node, st') \<and> ramfs_ok D st'"
  using create_node_spec [OF _ _ assms(2-5)] assms(1) unfolding ramfs_ok_def by blast

lemma remove_node_ok:
  assumes "ramfs_ok D st" "tracked st p" "\<forall>a \<in> set (ramfs_nodes st). re_parent a \<noteq> p"
  shows "\<exists>r st'. ramfs_remove_node p st = Some (r, st') \<and> ramfs_ok D st'"
  using remove_node_spec [OF _ _ assms(2,3)] assms(1) unfolding ramfs_ok_def by blast

text \<open>A file has no children, so unlinking it leaves no orphans.\<close>

lemma file_leaf:
  assumes "ramfs_ok D st" "rf_nodes st p = Some n" "n_flags n \<noteq> FS_DIRECTORY" "p \<noteq> NULL"
  shows "\<forall>a \<in> set (ramfs_nodes st). re_parent a \<noteq> p"
  using assms unfolding ramfs_ok_def ramfs_tree_def dir_at_def by (fastforce split: if_splits)

lemma file_not_dir [simp]: "FS_FILE \<noteq> FS_DIRECTORY"
  by (simp add: FS_FILE_def FS_DIRECTORY_def)

lemma unlink_ok:
  assumes ok: "ramfs_ok D st" and p: "tracked st p" "rf_nodes st p = Some n" "n_flags n = FS_FILE"
  shows "\<exists>r st'. ramfs_remove_node p st = Some (r, st') \<and> ramfs_ok D st'"
proof -
  have "p \<noteq> NULL" using tracked_node [OF _ p(1)] ok unfolding ramfs_ok_def by metis
  from file_leaf [OF ok p(2) _ this] p(3) show ?thesis by (intro remove_node_ok [OF ok p(1)]) auto
qed

lemma remove_dir_ok:
  assumes ok: "ramfs_ok D st" and p: "p = NULL \<or> tracked st p"
  shows "\<exists>r st'. remove_dir p st = Some (r, st') \<and> ramfs_ok D st'"
proof (cases "p = NULL \<or> p = fs_root st")
  case False
  then obtain n where "rf_nodes st p = Some n" "tracked st p"
    using p tracked_node [of D st p] ok unfolding ramfs_ok_def by metis
  with False ok remove_node_ok [OF ok, of p] show ?thesis
    by (auto simp: remove_dir_def ramfs_has_children_def list_ex_iff)
qed (use ok in \<open>auto simp: remove_dir_def\<close>)

lemma in_parent_ok:
  assumes ok: "ramfs_ok D st" and avoid: "heap_avoids D st"
  shows "\<exists>node st'. ramfs_create_file path st = Some (node, st') \<and> ramfs_ok D st'"
    and "\<exists>r st'. ramfs_create_directory path st = Some (r, st') \<and> ramfs_ok D st'"
proof -
  obtain q name where q: "ramfs_resolve_parent path st = Some (q, name)" "q = NULL \<or> tracked st q \<and> dir_at st q"
    using resolve_parent_total ok unfolding ramfs_ok_def by blast
  have dyn: "odd RAMFS_DYNAMIC" by (simp add: RAMFS_DYNAMIC_def)
  show "\<exists>node st'. ramfs_create_file path st = Some (node, st') \<and> ramfs_ok D st'"
    using q create_node_ok [OF ok avoid _ _ dyn, of q name FS_FILE] ok by (auto simp: ramfs_create_file_def)
  show "\<exists>r st'. ramfs_create_directory path st = Some (r, st') \<and> ramfs_ok D st'"
    using q create_node_ok [OF ok avoid _ _ dyn, of q name FS_DIRECTORY] ok by (fastforce simp: ramfs_create_directory_def)
qed

lemma create_static_ok:
  assumes ok: "ramfs_ok D st" and avoid: "heap_avoids D st"
  shows "\<exists>node st'. ramfs_create_static_file path data sz st = Some (node, st') \<and> ramfs_ok D st'"
proof -
  obtain q name where q: "ramfs_resolve_parent path st = Some (q, name)" "q = NULL \<or> tracked st q \<and> dir_at st q"
    using resolve_parent_total ok unfolding ramfs_ok_def by blast
  let ?f = "\<lambda>n. n\<lparr>n_impl := 0, n_write := FN_NULL, n_ptr := data, n_length := sz\<rparr>"
  show ?thesis
  proof (cases "q = NULL")
    case False
    have dyn: "odd RAMFS_DYNAMIC" by (simp add: RAMFS_DYNAMIC_def)
    from create_node_spec [OF _ _ avoid _ _ dyn, of q name FS_FILE] ok q False
    consider h where "ramfs_create_node q name FS_FILE RAMFS_DYNAMIC st = Some (NULL, st\<lparr>rf_heap := h\<rparr>)" "ramfs_ok D (st\<lparr>rf_heap := h\<rparr>)"
      | node h where "ramfs_create_node q name FS_FILE RAMFS_DYNAMIC st = Some (node, created node h q name FS_FILE RAMFS_DYNAMIC st)"
        "node \<noteq> NULL" "ramfs_ok D (created node h q name FS_FILE RAMFS_DYNAMIC st)"
      unfolding ramfs_ok_def by blast
    then show ?thesis
    proof cases
      case 1
      then show ?thesis using q(1) False by (auto simp: ramfs_create_static_file_def ramfs_create_file_def)
    next
      case 2
      let ?c = "created node h q name FS_FILE RAMFS_DYNAMIC st" and ?n = "new_node name FS_FILE (next_inode st) RAMFS_DYNAMIC"
      have n: "rf_nodes ?c node = Some ?n" by (simp add: created_def)
      have "ramfs_inv D (?c\<lparr>rf_nodes := (rf_nodes ?c)(node \<mapsto> ?f ?n)\<rparr>)"
        using 2(3) node_inv [OF _ n, of D ?f] by (simp add: ramfs_ok_def dynamic_def)
      moreover have "ramfs_tree (?c\<lparr>rf_nodes := (rf_nodes ?c)(node \<mapsto> ?f ?n)\<rparr>)"
        using 2(3) tree_node [OF _ n, of ?f] by (simp add: ramfs_ok_def fns_ok_def)
      ultimately show ?thesis
        using 2(1,2) q(1) False n by (simp add: ramfs_create_static_file_def ramfs_create_file_def upd_node_def ramfs_ok_def)
    qed
  qed (use q(1) ok in \<open>simp add: ramfs_create_static_file_def ramfs_create_file_def\<close>)
qed

lemma mount_ok:
  assumes ok: "ramfs_ok D st" and al: "op_allowed D (Mount path node) st"
  shows "\<exists>r st'. ramfs_mount path node st = Some (r, st') \<and> ramfs_ok D st'"
proof -
  have inv: "ramfs_inv D st" and tree: "ramfs_tree st" using ok by (simp_all add: ramfs_ok_def)
  note D = ramfs_invD [OF inv]
  obtain q name where q: "ramfs_resolve_parent path st = Some (q, name)" "q = NULL \<or> tracked st q \<and> dir_at st q"
    using resolve_parent_total [OF inv tree] by blast
  show ?thesis
  proof (cases "q = NULL \<or> node = NULL \<or> length (ramfs_nodes st) \<ge> MAX_RAMFS_NODES")
    case False
    then obtain n where n: "node \<in> D" "\<not> tracked st node" "rf_nodes st node = Some n" "\<not> dynamic n" "n_write n \<noteq> FN_RAMFS"
      "FN_RAMFS \<notin> {n_create n, n_unlink n, n_mkdir n, n_rmdir n}" using al by auto
    have par: "tracked st q" "dir_at st q" using q(2) False by auto
    obtain c where c: "ramfs_find_child q name st = Some c" using find_child_total [OF inv par(1)] by blast
    show ?thesis
    proof (cases "c = NULL")
      case True
      let ?e = "\<lparr>re_node = node, re_parent = q, re_capacity = 0\<rparr>"
      obtain m where m: "rf_nodes st q = Some m" "n_flags m = FS_DIRECTORY" using par(2) by (auto simp: dir_at_def)
      have name: "\<forall>a \<in> set (ramfs_nodes st). re_parent a = q \<longrightarrow> name_at st (re_node a) \<noteq> name"
        using find_child_spec [OF inv, of q name] m False c True D(4) by auto
      have root: "fs_root st \<noteq> NULL" using tree par(1) by (auto simp: ramfs_tree_def tracked_def split: if_splits)
      have "ramfs_inv D (st\<lparr>rf_heap := rf_heap st, rf_nodes := (rf_nodes st)(re_node ?e \<mapsto> n\<lparr>n_name := name\<rparr>),
          next_inode := next_inode st, ramfs_nodes := ramfs_nodes st @ [?e]\<rparr>)"
        using append_inv [OF inv, of ?e "n\<lparr>n_name := name\<rparr>" "rf_heap st" "next_inode st"] False n D(1) name
        by (simp add: tracked_def dynamic_def)
      moreover have "ramfs_tree (st\<lparr>rf_heap := rf_heap st, rf_nodes := (rf_nodes st)(re_node ?e \<mapsto> n\<lparr>n_name := name\<rparr>),
          next_inode := next_inode st, ramfs_nodes := ramfs_nodes st @ [?e]\<rparr>)"
        using tree_append [OF tree root, of ?e "n\<lparr>n_name := name\<rparr>" "next_inode st" "rf_heap st"] n par by (simp add: fns_ok_def)
      ultimately show ?thesis using q(1) False c True n(3) by (simp add: ramfs_mount_def upd_node_def ramfs_ok_def)
    qed (use q(1) False c ok in \<open>simp add: ramfs_mount_def\<close>)
  qed (use q(1) ok in \<open>auto simp: ramfs_mount_def\<close>)
qed

lemma root_update_inv: "ramfs_inv D (st\<lparr>fs_root := p\<rparr>) \<longleftrightarrow> ramfs_inv D st"
proof -
  have "blocks_of D (st\<lparr>fs_root := p\<rparr>) = blocks_of D st" "buf_ok (st\<lparr>fs_root := p\<rparr>) = buf_ok st"
    "name_at (st\<lparr>fs_root := p\<rparr>) = name_at st"
    by (simp_all add: fun_eq_iff blocks_of_def buffers_def buf_ok_def name_at_def)
  then show ?thesis by (simp add: ramfs_inv_def)
qed

lemma init_ok:
  assumes ok: "ramfs_ok D st" and avoid: "heap_avoids D st"
  shows "\<exists>st'. ramfs_init st = Some st' \<and> ramfs_ok D st'"
proof (cases "fs_root st = NULL")
  case True
  have inv: "ramfs_inv D st" and tree: "ramfs_tree st" using ok by (simp_all add: ramfs_ok_def)
  note D = ramfs_invD [OF inv]
  have e: "ramfs_nodes st = []" using True tree by (simp add: ramfs_tree_def)
  obtain node h where al: "kmalloc sizeof_fs_node (rf_heap st) = Some (node, h)" using kheap.alloc_total [OF D(1)] by blast
  have valid: "ramfs_component_valid ''root''" by (simp add: ramfs_component_valid_def FS_NAME_SIZE_def)
  have room: "length (ramfs_nodes st) < MAX_RAMFS_NODES" by (simp add: e MAX_RAMFS_NODES_def)
  show ?thesis
  proof (cases "node = NULL")
    case node: True
    with al have al0: "kmalloc sizeof_fs_node (rf_heap st) = Some (NULL, h)" by simp
    have "ramfs_init st = Some (st\<lparr>rf_heap := h\<rparr>)"
      using True al0 valid room by (simp add: ramfs_init_def ramfs_create_node_def)
    then show ?thesis
      using inv_heap [OF inv kheap.alloc_inv [OF D(1) al0] kheap.alloc_null [OF D(1) al0]] tree_heap [OF tree]
      by (simp add: ramfs_ok_def)
  next
    case False
    let ?c = "created node h NULL ''root'' FS_DIRECTORY 0 st"
    have r: "ramfs_init st = Some (?c\<lparr>fs_root := node\<rparr>)"
      using True al valid room False by (simp add: ramfs_init_def ramfs_create_node_def created_def)
    have "ramfs_inv D ?c" using created_inv(1) [OF inv room avoid al False] e by simp
    then have "ramfs_inv D (?c\<lparr>fs_root := node\<rparr>)" by (simp add: root_update_inv)
    moreover have "ramfs_tree (?c\<lparr>fs_root := node\<rparr>)"
      using False e by (auto simp: ramfs_tree_def created_def tracked_def dir_at_def fns_ok_def new_node_def Let_def)
    ultimately show ?thesis using r by (simp add: ramfs_ok_def)
  qed
qed (use ok in \<open>simp add: ramfs_init_def\<close>)

lemma open_close_ok:
  assumes ok: "ramfs_ok D st" and p: "tracked st p"
  shows "\<exists>st'. ramfs_open p st = Some st' \<and> ramfs_ok D st'" "\<exists>st'. ramfs_close p st = Some st' \<and> ramfs_ok D st'"
proof -
  have inv: "ramfs_inv D st" and tree: "ramfs_tree st" using ok by (simp_all add: ramfs_ok_def)
  obtain n where n: "p \<noteq> NULL" "rf_nodes st p = Some n" using tracked_node [OF inv p] by metis
  have upd: "ramfs_ok D (st\<lparr>rf_nodes := (rf_nodes st)(p \<mapsto> f n)\<rparr>)"
    if f: "f n = n\<lparr>n_impl := x\<rparr>" "odd x \<longleftrightarrow> odd (n_impl n)" for f x
    using node_inv [OF inv n(2), of f] tree_node [OF tree n(2), of f] f by (simp add: ramfs_ok_def dynamic_def fns_ok_def)
  let ?o = "\<lambda>n. if n_impl n \<le> 0xFFFFFFFD then n\<lparr>n_impl := n_impl n + RAMFS_OPEN_REF\<rparr> else n"
  let ?c = "\<lambda>n. if n_impl n \<ge> RAMFS_OPEN_REF then n\<lparr>n_impl := n_impl n - RAMFS_OPEN_REF\<rparr> else n"
  have "ramfs_ok D (st\<lparr>rf_nodes := (rf_nodes st)(p \<mapsto> ?o n)\<rparr>)"
    by (rule upd [of ?o "if n_impl n \<le> 0xFFFFFFFD then n_impl n + RAMFS_OPEN_REF else n_impl n"]) (auto simp: RAMFS_OPEN_REF_def)
  then show "\<exists>st'. ramfs_open p st = Some st' \<and> ramfs_ok D st'" using n by (simp add: ramfs_open_def upd_node_def)
  have "ramfs_ok D (st\<lparr>rf_nodes := (rf_nodes st)(p \<mapsto> ?c n)\<rparr>)"
    by (rule upd [of ?c "if n_impl n \<ge> RAMFS_OPEN_REF then n_impl n - RAMFS_OPEN_REF else n_impl n"]) (auto simp: RAMFS_OPEN_REF_def)
  then show "\<exists>st'. ramfs_close p st = Some st' \<and> ramfs_ok D st'" using n by (simp add: ramfs_close_def upd_node_def)
qed

lemma write_ok:
  assumes ok: "ramfs_ok D st" and w: "has_fn st n_write p" "length data < 2 ^ 32"
  shows "\<exists>r st'. ramfs_write junk p off data st = Some (r, st') \<and> ramfs_ok D st'"
proof -
  have inv: "ramfs_inv D st" and tree: "ramfs_tree st" using ok by (simp_all add: ramfs_ok_def)
  obtain i where i: "i < length (ramfs_nodes st)" "re_node (ramfs_nodes st ! i) = p"
    using w(1) by (auto simp: has_fn_def tracked_def in_set_conv_nth)
  obtain n where n: "rf_nodes st p = Some n" "dynamic n"
    using w(1) tree by (auto simp: has_fn_def ramfs_tree_def fns_ok_def)
  from write_spec [OF inv i(1) refl _ n(2) w(2), of junk off] i(2) n(1) tree show ?thesis by (auto simp: ramfs_ok_def)
qed

lemma exec_op_ok:
  assumes ok: "ramfs_ok D st" and avoid: "heap_avoids D st" and al: "op_allowed D op st"
  shows "\<exists>st'. exec_op junk op st = Some st' \<and> ramfs_ok D st'"
proof -
  have inv: "ramfs_inv D st" and tree: "ramfs_tree st" using ok by (simp_all add: ramfs_ok_def)
  have dyn: "odd RAMFS_DYNAMIC" by (simp add: RAMFS_DYNAMIC_def)
  note nodes = has_fn_dir [OF tree] find_index_tracked create_node_ok [OF ok avoid _ _ dyn]
  show ?thesis
  proof (cases op)
    case (UnlinkFile path)
    obtain q where q: "ramfs_resolve_path path st = Some q" "q = NULL \<or> tracked st q"
      using resolve_path_total [OF inv tree] by blast
    show ?thesis
    proof (cases "q = NULL")
      case False
      then obtain n where n: "tracked st q" "rf_nodes st q = Some n" using q(2) tracked_node [OF inv] by metis
      with False q(1) UnlinkFile unlink_ok [OF ok n] ok show ?thesis by (auto simp: ramfs_unlink_file_def)
    qed (use q(1) UnlinkFile ok in \<open>simp add: ramfs_unlink_file_def\<close>)
  next
    case (RemoveDir path)
    obtain q where "ramfs_resolve_path path st = Some q" "q = NULL \<or> tracked st q"
      using resolve_path_total [OF inv tree] by blast
    with RemoveDir remove_dir_ok [OF ok, of q] show ?thesis by (auto simp: ramfs_remove_directory_def)
  next
    case (NodeUnlink parent name)
    then have par: "tracked st parent" "dir_at st parent" using al has_fn_dir [OF tree, of n_unlink] by auto
    obtain q where q: "ramfs_find_child parent name st = Some q" "q = NULL \<or> tracked st q"
      using find_child_total [OF inv par(1)] by blast
    show ?thesis
    proof (cases "q = NULL")
      case False
      then obtain n where n: "tracked st q" "rf_nodes st q = Some n" using q(2) tracked_node [OF inv] by metis
      with False q(1) NodeUnlink unlink_ok [OF ok n] ok find_index_tracked [OF par(1)] show ?thesis
        by (auto simp: ramfs_unlink_def)
    qed (use q(1) NodeUnlink ok in \<open>simp add: ramfs_unlink_def\<close>)
  next
    case (NodeRmdir parent name)
    then have par: "tracked st parent" using al has_fn_dir [OF tree, of n_rmdir] by auto
    obtain q where "ramfs_find_child parent name st = Some q" "q = NULL \<or> tracked st q"
      using find_child_total [OF inv par] by blast
    with NodeRmdir remove_dir_ok [OF ok, of q] find_index_tracked [OF par] show ?thesis by (auto simp: ramfs_rmdir_def)
  next
    case (NodeCreate parent name)
    then have par: "tracked st parent" "dir_at st parent" using al has_fn_dir [OF tree, of n_create] by auto
    with NodeCreate nodes(3) [OF par, of name FS_FILE] show ?thesis by (auto simp: ramfs_create_def find_index_tracked)
  next
    case (NodeMkdir parent name)
    then have par: "tracked st parent" "dir_at st parent" using al has_fn_dir [OF tree, of n_mkdir] by auto
    with NodeMkdir nodes(3) [OF par, of name FS_DIRECTORY] show ?thesis by (auto simp: ramfs_mkdir_def find_index_tracked)
  qed (use init_ok [OF ok avoid] in_parent_ok [OF ok avoid] create_static_ok [OF ok avoid] mount_ok [OF ok]
      open_close_ok [OF ok] write_ok [OF ok] al in \<open>fastforce simp: has_fn_def\<close>)+
qed

section \<open>Lookup after creation and removal\<close>

lemma find_child_loop_append:
  "find_child_loop parent name (as @ bs) st =
     (case find_child_loop parent name as st of None \<Rightarrow> None
      | Some q \<Rightarrow> if (\<exists>e \<in> set as. re_node e = q \<and> re_parent e = parent \<and> name_at st (re_node e) = name) then Some q
          else find_child_loop parent name bs st)"
  if "\<forall>e \<in> set as. rf_nodes st (re_node e) \<noteq> None \<and> re_node e \<noteq> NULL"
  using that
proof (induction as)
  case (Cons a as)
  then obtain n where "rf_nodes st (re_node a) = Some n" by auto
  with Cons show ?case
    by (cases "re_parent a = parent"; cases "n_name n = name") (auto simp: name_at_def split: option.splits)
qed simp

lemma find_child_loop_cong:
  assumes "\<forall>e \<in> set es. rf_nodes st' (re_node e) = rf_nodes st (re_node e)"
  shows "find_child_loop parent name es st' = find_child_loop parent name es st"
  using assms by (induction es) (auto split: option.splits)

text \<open>Lookup only depends on the table and on the nodes in it.\<close>

lemma find_child_cong:
  assumes "ramfs_nodes st' = ramfs_nodes st" "\<forall>q. tracked st q \<longrightarrow> rf_nodes st' q = rf_nodes st q" "tracked st parent"
  shows "ramfs_find_child parent name st' = ramfs_find_child parent name st"
proof -
  have "find_child_loop parent name (ramfs_nodes st) st' = find_child_loop parent name (ramfs_nodes st) st"
    using assms(2) by (intro find_child_loop_cong) (simp add: tracked_def)
  with assms show ?thesis by (cases "rf_nodes st parent") (simp_all add: ramfs_find_child_def)
qed

lemma find_child_created:
  assumes inv: "ramfs_inv D st" and new: "\<not> tracked st node" and a: "tracked st a" "ramfs_find_child a c st = Some r"
    and node: "node \<noteq> NULL"
  shows "r \<noteq> NULL \<Longrightarrow> ramfs_find_child a c (created node h parent name flags impl st) = Some r"
    and "r = NULL \<Longrightarrow> a = parent \<Longrightarrow> c = name \<Longrightarrow> dir_at st parent \<Longrightarrow>
      ramfs_find_child a c (created node h parent name flags impl st) = Some node"
proof -
  let ?c = "created node h parent name flags impl st" and ?e = "\<lparr>re_node = node, re_parent = parent, re_capacity = 0\<rparr>"
  have es: "ramfs_nodes ?c = ramfs_nodes st @ [?e]" by (simp add: created_def)
  have other: "rf_nodes ?c q = rf_nodes st q" if "tracked st q" for q using that new by (auto simp: created_def)
  have loop: "find_child_loop a c (ramfs_nodes st) ?c = find_child_loop a c (ramfs_nodes st) st"
    using other by (intro find_child_loop_cong) (simp add: tracked_def)
  have all: "\<forall>e \<in> set (ramfs_nodes st). rf_nodes ?c (re_node e) \<noteq> None \<and> re_node e \<noteq> NULL"
    using ramfs_invD(4,5) [OF inv] other by (fastforce simp: tracked_def)
  obtain n where n: "rf_nodes st a = Some n" "a \<noteq> NULL" using tracked_node [OF inv a(1)] by metis
  have find: "ramfs_find_child a c ?c = (if n_flags n \<noteq> FS_DIRECTORY then Some NULL else find_child_loop a c (ramfs_nodes st @ [?e]) ?c)"
    using n other [OF a(1)] by (simp add: ramfs_find_child_def es)
  have old: "Some r = (if n_flags n \<noteq> FS_DIRECTORY then Some NULL else find_child_loop a c (ramfs_nodes st) st)"
    using a(2) n by (simp add: ramfs_find_child_def)
  have nm: "name_at ?c (re_node e) = name_at st (re_node e)" if "e \<in> set (ramfs_nodes st)" for e
    using other [of "re_node e"] that by (simp add: name_at_def tracked_def)
  have old2: "\<forall>e \<in> set (ramfs_nodes st). re_node e \<noteq> NULL \<and> rf_nodes st (re_node e) \<noteq> None"
    using ramfs_invD(4,5) [OF inv] by fastforce
  note spec = find_child_loop_spec [OF old2, of a c]
  show "ramfs_find_child a c ?c = Some r" if r: "r \<noteq> NULL"
  proof -
    have d: "n_flags n = FS_DIRECTORY" "find_child_loop a c (ramfs_nodes st) st = Some r"
      using old r by (auto split: if_splits)
    with spec r have "\<exists>e \<in> set (ramfs_nodes st). re_node e = r \<and> re_parent e = a \<and> name_at ?c (re_node e) = c"
      using nm by auto
    with d show ?thesis unfolding find find_child_loop_append [OF all] loop by simp
  qed
  show "ramfs_find_child a c ?c = Some node" if r: "r = NULL" "a = parent" "c = name" "dir_at st parent"
  proof -
    have d: "n_flags n = FS_DIRECTORY" using r n by (simp add: dir_at_def)
    with old r have "find_child_loop a c (ramfs_nodes st) st = Some NULL" by simp
    with d r node all show ?thesis unfolding find find_child_loop_append [OF all] loop by (auto simp: created_def)
  qed
qed

text \<open>The two walks over a path agree, also after a change that keeps what lookup finds.\<close>

lemma parent_loop_resolve:
  assumes inv: "ramfs_inv D st" and agree: "\<And>a c r. tracked st a \<Longrightarrow> ramfs_find_child a c st = Some r \<Longrightarrow> r \<noteq> NULL \<Longrightarrow>
      ramfs_find_child a c st' = Some r"
    and "tracked st p" "ramfs_parent_loop p cursor st = Some (q, name)" "q \<noteq> NULL"
  shows "ramfs_resolve_loop p cursor st' = ramfs_find_child q name st'"
  using assms(3-5)
proof (induction "length cursor" arbitrary: p cursor rule: less_induct)
  case less
  obtain c rest where r: "cursor \<noteq> []" "ramfs_parse_component cursor = Some (c, rest)"
    using less.prems(2,3) by (subst (asm) ramfs_parent_loop.simps) (auto split: if_splits option.splits)
  show ?case
  proof (cases "rest = []")
    case True
    then have "q = p" "name = c" using less.prems r by (auto simp: ramfs_parent_loop.simps [of p])
    with r True show ?thesis
      by (simp add: ramfs_resolve_loop.simps [of p] ramfs_resolve_loop.simps [of _ "[]"] split: option.splits)
  next
    case False
    obtain a where a: "ramfs_find_child p c st = Some a" "a = NULL \<or> tracked st a" using find_child_total [OF inv less.prems(1)] by blast
    have shorter: "length (tl rest) < length cursor" using ramfs_parse_component_shorter [OF r(2)] by simp
    have nx: "\<not> (tl rest = [] \<or> hd (tl rest) = slash)" "a \<noteq> NULL" "ramfs_parent_loop a (tl rest) st = Some (q, name)"
      using less.prems(2,3) r False a(1)
      by (auto simp: ramfs_parent_loop.simps [of p] split: if_splits option.splits)
    have "ramfs_find_child p c st' = Some a" using agree [OF less.prems(1) a(1) nx(2)] .
    with r False nx a(2) less.hyps [OF shorter _ nx(3) less.prems(3)] show ?thesis
      by (simp add: ramfs_resolve_loop.simps [of p])
  qed
qed

lemma resolve_parent_path:
  assumes inv: "ramfs_inv D st" and tree: "ramfs_tree st"
    and agree: "\<And>a c r. tracked st a \<Longrightarrow> ramfs_find_child a c st = Some r \<Longrightarrow> r \<noteq> NULL \<Longrightarrow>
      ramfs_find_child a c st' = Some r"
    and par: "ramfs_resolve_parent path st = Some (q, name)" "q \<noteq> NULL" and root: "fs_root st' = fs_root st"
  shows "ramfs_resolve_path path st' = ramfs_find_child q name st'"
proof -
  obtain p where p: "path = Some p" "fs_root st \<noteq> NULL" "p \<noteq> []" "length p < MAX_RAMFS_PATH"
    "ramfs_parent_loop (fs_root st) (if hd p = slash then tl p else p) st = Some (q, name)"
    using par by (cases path) (auto simp: ramfs_resolve_parent_def Let_def not_le split: if_splits)
  have "tracked st (fs_root st)" using tree_root [OF tree p(2)] by blast
  from parent_loop_resolve [OF inv agree this p(5) par(2)] p(1-4) root show ?thesis
    by (simp add: ramfs_resolve_path_def)
qed

section \<open>Properties\<close>

inductive ramfs_reach :: "(nat \<Rightarrow> u8) \<Rightarrow> ptr set \<Rightarrow> ramfs \<Rightarrow> bool" for junk D where
  start: "ramfs_nodes st = [] \<Longrightarrow> fs_root st = NULL \<Longrightarrow> heap_inv (rf_heap st) \<Longrightarrow> ramfs_reach junk D st"
| step: "ramfs_reach junk D st \<Longrightarrow> heap_avoids D st \<Longrightarrow> op_allowed D op st \<Longrightarrow> exec_op junk op st = Some st' \<Longrightarrow>
    ramfs_reach junk D st'"

lemma start_ok:
  assumes "ramfs_nodes st = []" "fs_root st = NULL" "heap_inv (rf_heap st)"
  shows "ramfs_ok D st"
  using assms by (simp add: ramfs_ok_def ramfs_inv_def ramfs_tree_def tracked_def)


lemma overlay_nonempty: "data \<noteq> [] \<Longrightarrow> length data < 2 ^ 32 \<Longrightarrow> (of_nat (length data) :: u32) \<noteq> 0"
  by (metis length_0_conv unat_of_nat32 unat_0)

lemma read_file:
  assumes ok: "ramfs_ok D st" and p: "tracked st p" "rf_nodes st p = Some n" "dynamic n"
  shows "ramfs_read p off sz st = Some (take (unat sz) (drop (unat off) (file_bytes st p)), st)"
proof -
  obtain e where "e \<in> set (ramfs_nodes st)" "re_node e = p" using p(1) by (auto simp: tracked_def)
  with read_spec [of D st e n off sz] ok p show ?thesis by (simp add: ramfs_ok_def)
qed

lemma has_write_dynamic:
  assumes "ramfs_ok D st" "has_fn st n_write p"
  obtains n where "tracked st p" "rf_nodes st p = Some n" "dynamic n"
  using assms by (auto simp: ramfs_ok_def ramfs_tree_def has_fn_def fns_ok_def)

text \<open>
  C34. A write puts its bytes at the offset, with zeros in a gap behind the old end, or writes nothing
  because there is nothing to write, the end would pass 4 GiB or the heap has no block of the needed
  size; reads then return exactly these contents, and those of all other files are as before.
\<close>

theorem ramfs_write_read:
  assumes ok: "ramfs_ok D st" and p: "has_fn st n_write p" and len: "length data < 2 ^ 32"
  shows "\<exists>r st'. ramfs_write junk p off data st = Some (r, st') \<and> ramfs_ok D st' \<and>
    (r = of_nat (length data) \<or>
     r = 0 \<and> (2 ^ 32 \<le> unat off + length data \<or> (\<exists>h1. kmalloc (off + of_nat (length data)) h1 = Some (NULL, rf_heap st')))) \<and>
    (\<forall>o' sz. ramfs_read p o' sz st' =
       Some (take (unat sz) (drop (unat o') (if r = 0 then file_bytes st p else overlay (unat off) data (file_bytes st p))), st')) \<and>
    (\<forall>q o' sz. q \<noteq> p \<longrightarrow> has_fn st n_write q \<longrightarrow>
       ramfs_read q o' sz st' = Some (take (unat sz) (drop (unat o') (file_bytes st q)), st'))"
proof -
  have inv: "ramfs_inv D st" and tree: "ramfs_tree st" using ok by (simp_all add: ramfs_ok_def)
  obtain n where n: "tracked st p" "rf_nodes st p = Some n" "dynamic n" by (rule has_write_dynamic [OF ok p])
  obtain i where i: "i < length (ramfs_nodes st)" "re_node (ramfs_nodes st ! i) = p"
    using n(1) by (auto simp: tracked_def in_set_conv_nth)
  from write_spec [OF inv i(1) refl _ n(3) len, of junk off, unfolded i(2)] n(2) tree
  obtain r st' where w: "ramfs_write junk p off data st = Some (r, st')" "ramfs_ok D st'" "keeps st st'"
    "\<forall>e' n'. e' \<in> set (ramfs_nodes st) \<longrightarrow> re_node e' \<noteq> p \<longrightarrow> rf_nodes st (re_node e') = Some n' \<longrightarrow> dynamic n' \<longrightarrow>
       file_bytes st' (re_node e') = file_bytes st (re_node e')"
    "r = of_nat (length data) \<and> data \<noteq> [] \<and> file_bytes st' p = overlay (unat off) data (file_bytes st p) \<or>
     r = 0 \<and> file_bytes st' p = file_bytes st p \<and>
       (data = [] \<or> 2 ^ 32 \<le> unat off + length data \<or>
        (\<exists>h1. kmalloc (off + of_nat (length data)) h1 = Some (NULL, rf_heap st')))"
    unfolding ramfs_ok_def by blast
  have read: "ramfs_read q o' sz st' = Some (take (unat sz) (drop (unat o') (file_bytes st' q)), st')"
    if "tracked st q" "rf_nodes st q = Some m" "dynamic m" for q m o' sz
    using read_file [OF w(2)] w(3) that unfolding keeps_def by metis
  have "file_bytes st' p = (if r = 0 then file_bytes st p else overlay (unat off) data (file_bytes st p))"
    using w(5) overlay_nonempty [OF _ len] by auto
  moreover have "ramfs_read q o' sz st' = Some (take (unat sz) (drop (unat o') (file_bytes st q)), st')"
    if q: "q \<noteq> p" "has_fn st n_write q" for q o' sz
  proof -
    obtain m where m: "tracked st q" "rf_nodes st q = Some m" "dynamic m" by (rule has_write_dynamic [OF ok q(2)])
    then have "file_bytes st' q = file_bytes st q" using w(4) q(1) by (fastforce simp: tracked_def)
    with read [OF m] show ?thesis by simp
  qed
  ultimately show ?thesis using w(1,2,5) read [OF n] by auto
qed

text \<open>Taking the newest node out again.\<close>

lemma remove_created:
  assumes inv: "ramfs_inv D st" and ne: "ramfs_nodes st \<noteq> []" and new: "\<not> tracked st node" "node \<noteq> NULL"
    and inv1: "ramfs_inv D (created node h parent name flags RAMFS_DYNAMIC st)"
    and al: "kmalloc sizeof_fs_node (rf_heap st) = Some (node, h)"
  obtains st2 where "ramfs_remove_node node (created node h parent name flags RAMFS_DYNAMIC st) = Some (0, st2)"
    "ramfs_nodes st2 = ramfs_nodes st" "fs_root st2 = fs_root st" "\<forall>q. tracked st q \<longrightarrow> rf_nodes st2 q = rf_nodes st q"
    "heap_live (rf_heap st2) = heap_live (rf_heap st)"
proof -
  let ?c = "created node h parent name flags RAMFS_DYNAMIC st"
  have len: "length (ramfs_nodes st) < length (ramfs_nodes ?c)" by (simp add: created_def)
  have "ramfs_nodes ?c ! length (ramfs_nodes st) = \<lparr>re_node = node, re_parent = parent, re_capacity = 0\<rparr>" by (simp add: created_def)
  with find_index_eq [OF inv1 len] have idx: "ramfs_find_index node ?c = int (length (ramfs_nodes st))" by simp
  obtain u where u: "kfree node h = Some u" "heap_live u = heap_live (rf_heap st)"
    using kheap.release_alloc [OF ramfs_invD(1) [OF inv] al new(2)] by blast
  have "ramfs_remove_node node ?c = Some (0, ?c\<lparr>rf_heap := u, rf_data := (rf_data st)(NULL := None),
      rf_nodes := (rf_nodes ?c)(node := None), ramfs_nodes := ramfs_nodes st\<rparr>)"
    using idx ne u(1) and_not_one [of RAMFS_DYNAMIC]
    by (simp add: ramfs_remove_node_def Let_def created_def kfree_def RAMFS_DYNAMIC_def)
  then show ?thesis by (rule that) (use u(2) new(1) in \<open>auto simp: created_def\<close>)
qed

lemma create_file_kmalloc:
  assumes "ramfs_create_node parent name flags impl st = Some (node, st1)" "node \<noteq> NULL"
  shows "kmalloc sizeof_fs_node (rf_heap st) = Some (node, rf_heap st1)"
  using assms by (auto simp: ramfs_create_node_def bind_eq_Some_conv split: if_splits)

text \<open>
  C35. A file that was created is found under its path, empty; unlinking the path removes it again:
  the path is free, the table is the old one and the heap has the blocks it had before.
\<close>

theorem ramfs_create_unlink:
  assumes ok: "ramfs_ok D st" and avoid: "heap_avoids D st"
    and c: "ramfs_create_file path st = Some (node, st1)" "node \<noteq> NULL"
  shows "ramfs_find_file path st = Some NULL \<and> ramfs_find_file path st1 = Some node \<and> file_bytes st1 node = [] \<and>
    (\<exists>st2. ramfs_unlink_file path st1 = Some (0, st2) \<and> ramfs_find_file path st2 = Some NULL \<and>
       ramfs_nodes st2 = ramfs_nodes st \<and> heap_live (rf_heap st2) = heap_live (rf_heap st))"
proof -
  have inv: "ramfs_inv D st" and tree: "ramfs_tree st" using ok by (simp_all add: ramfs_ok_def)
  obtain q name where q: "ramfs_resolve_parent path st = Some (q, name)" "q = NULL \<or> tracked st q \<and> dir_at st q"
    using resolve_parent_total [OF inv tree] by blast
  have qn: "q \<noteq> NULL" and cn: "ramfs_create_node q name FS_FILE RAMFS_DYNAMIC st = Some (node, st1)"
    using c q(1) by (auto simp: ramfs_create_file_def split: if_splits)
  have par: "tracked st q" "dir_at st q" using q(2) qn by auto
  have dyn: "odd RAMFS_DYNAMIC" by (simp add: RAMFS_DYNAMIC_def)
  obtain h where h: "st1 = created node h q name FS_FILE RAMFS_DYNAMIC st" "\<not> tracked st node" "ramfs_find_child q name st = Some NULL"
    "ramfs_inv D st1"
    using create_node_spec [OF inv tree avoid par dyn, of name FS_FILE] cn c(2) by auto
  note al = create_file_kmalloc [OF cn c(2)]
  have n1: "rf_nodes st1 node = Some (new_node name FS_FILE (next_inode st) RAMFS_DYNAMIC)" by (simp add: h(1) created_def)
  have "ramfs_resolve_path path st = Some NULL"
    using resolve_parent_path [OF inv tree _ q(1) qn refl] h(3) by simp
  then have f0: "ramfs_find_file path st = Some NULL" by (simp add: ramfs_find_file_def)
  have r1: "ramfs_resolve_path path st1 = Some node"
    using resolve_parent_path [OF inv tree find_child_created(1) [OF inv h(2) _ _ c(2)] q(1) qn, of h q name FS_FILE RAMFS_DYNAMIC]
      find_child_created(2) [OF inv h(2) par(1) h(3) c(2) refl refl refl par(2)] by (simp add: h(1) created_def)
  have "rf_heap st1 = h" by (simp add: h(1) created_def)
  with remove_created [OF inv _ h(2) c(2) h(4) [unfolded h(1)]] al par(1) obtain st2 where
    st2: "ramfs_remove_node node st1 = Some (0, st2)" "ramfs_nodes st2 = ramfs_nodes st" "fs_root st2 = fs_root st"
      "\<forall>q. tracked st q \<longrightarrow> rf_nodes st2 q = rf_nodes st q" "heap_live (rf_heap st2) = heap_live (rf_heap st)"
    by (metis h(1) tracked_def empty_iff empty_set image_empty)
  note cong = find_child_cong [OF st2(2,4)]
  have "ramfs_resolve_path path st2 = Some NULL"
    using resolve_parent_path [OF inv tree _ q(1) qn st2(3)] cong [OF par(1)] cong h(3) by simp
  then have "ramfs_find_file path st2 = Some NULL" by (simp add: ramfs_find_file_def)
  moreover have "ramfs_unlink_file path st1 = Some (0, st2)" using r1 n1 st2(1) c(2) by (simp add: ramfs_unlink_file_def)
  moreover have "ramfs_find_file path st1 = Some node" using r1 n1 c(2) by (simp add: ramfs_find_file_def)
  moreover have "file_bytes st1 node = []" using n1 by (simp add: file_bytes_def)
  ultimately show ?thesis using f0 st2(2,5) by blast
qed

subsection \<open>Concrete instances\<close>

text \<open>The file system on the small machine: empty, with its root, and with one file.\<close>

definition ram_empty :: ramfs where
  "ram_empty = \<lparr>rf_nodes = Map.empty, rf_data = Map.empty, ramfs_nodes = [], next_inode = 1, fs_root = NULL, rf_heap = heap_small\<rparr>"

definition ram_heap1 :: heap_state where
  "ram_heap1 = heap_small\<lparr>hdr := [4308 \<mapsto> \<lparr>blk_size = 3872, blk_is_free = True, blk_next = NULL\<rparr>,
     4096 \<mapsto> \<lparr>blk_size = 200, blk_is_free = False, blk_next = 4308\<rparr>]\<rparr>"

definition ram_heap2 :: heap_state where
  "ram_heap2 = heap_small\<lparr>hdr := [4520 \<mapsto> \<lparr>blk_size = 3660, blk_is_free = True, blk_next = NULL\<rparr>,
     4308 \<mapsto> \<lparr>blk_size = 200, blk_is_free = False, blk_next = 4520\<rparr>,
     4096 \<mapsto> \<lparr>blk_size = 200, blk_is_free = False, blk_next = 4308\<rparr>]\<rparr>"

definition ram_root :: ramfs where
  "ram_root = created 4108 ram_heap1 NULL ''root'' FS_DIRECTORY 0 ram_empty\<lparr>fs_root := 4108\<rparr>"

definition ram_file :: ramfs where
  "ram_file = created 4320 ram_heap2 4108 ''a'' FS_FILE RAMFS_DYNAMIC ram_root"

lemma ram_kmalloc:
  "kmalloc sizeof_fs_node heap_small = Some (4108, ram_heap1)" "kmalloc sizeof_fs_node ram_heap1 = Some (4320, ram_heap2)"
  by (simp_all add: kmalloc_def kmalloc_sized_def find_fit.simps take_block_def heap_small_def sizeof_fs_node_def
      ram_heap1_def ram_heap2_def HDR_def fun_upd_twist)

lemma ram_empty_ok: "ramfs_ok {} ram_empty"
  by (rule start_ok) (simp_all add: ram_empty_def heap_small_inv)

lemma avoids_none [simp]: "heap_avoids {} st"
  by (simp add: heap_avoids_def split: option.splits)

lemma ram_init: "ramfs_init ram_empty = Some ram_root"
  by (simp add: ramfs_init_def ramfs_create_node_def ram_empty_def ram_kmalloc ram_root_def created_def
      ramfs_component_valid_def FS_NAME_SIZE_def MAX_RAMFS_NODES_def)

lemma ram_create: "ramfs_create_file (Some ''/a'') ram_root = Some (4320, ram_file)"
  by (simp add: ramfs_create_file_def ramfs_resolve_parent_def ramfs_parent_loop.simps ramfs_parse_component_def
      ramfs_component_valid_def FS_NAME_SIZE_def MAX_RAMFS_NODES_def MAX_RAMFS_PATH_def ramfs_create_node_def
      ramfs_find_child_def ram_root_def ram_file_def created_def ram_empty_def ram_kmalloc Let_def)

lemma ram_root_ok: "ramfs_ok {} ram_root"
  using init_ok [OF ram_empty_ok] ram_init by simp

lemma ram_file_ok: "ramfs_ok {} ram_file"
  using in_parent_ok(1) [OF ram_root_ok, of "Some ''/a''"] ram_create by simp

lemma ram_file_write: "has_fn ram_file n_write 4320"
  by (simp add: has_fn_def tracked_def ram_file_def created_def new_node_def Let_def)


theorem ramfs_write_read_witness:
  "ramfs_ok {} ram_file \<and> has_fn ram_file n_write 4320 \<and>
   (\<exists>r st'. ramfs_write (\<lambda>i. 7) 4320 3 [1, 2] ram_file = Some (r, st') \<and> r \<in> {0, 2} \<and>
     (r = 2 \<longrightarrow> ramfs_read 4320 1 100 st' = Some ([0, 0, 1, 2], st')))"
proof -
  have empty: "file_bytes ram_file 4320 = []" by (simp add: file_bytes_def ram_file_def created_def)
  have over: "take (unat (100 :: u32)) (drop (unat (1 :: u32)) (overlay (unat (3 :: u32)) [1, 2] [])) = [0, 0, 1, 2]"
    by code_simp
  obtain r st' where w: "ramfs_write (\<lambda>i. 7) 4320 3 [1, 2] ram_file = Some (r, st')" "r = 2 \<or> r = 0"
    "ramfs_read 4320 1 100 st' = Some (take (unat (100 :: u32)) (drop (unat (1 :: u32))
      (if r = 0 then [] else overlay (unat (3 :: u32)) [1, 2] [])), st')"
    using ramfs_write_read [OF ram_file_ok ram_file_write, of "[1, 2]" "\<lambda>i. 7" 3, unfolded empty] by auto
  then show ?thesis using ram_file_ok ram_file_write over by auto
qed

theorem ramfs_create_unlink_witness:
  "ramfs_ok {} ram_root \<and> heap_avoids {} ram_root \<and> ramfs_create_file (Some ''/a'') ram_root = Some (4320, ram_file) \<and>
   ramfs_find_file (Some ''/a'') ram_file = Some 4320 \<and>
   (\<exists>st2. ramfs_unlink_file (Some ''/a'') ram_file = Some (0, st2) \<and> ramfs_find_file (Some ''/a'') st2 = Some NULL)"
  using ramfs_create_unlink [OF ram_root_ok avoids_none ram_create] ram_root_ok ram_create by auto

end
