(* ===== verification/Vga.thy ===== *)
theory Vga
  imports Utils
begin

text \<open>
  The text console (src/vga.c): the 80 by 25 cells of the screen, the cursor, the colour, and the
  bytes sent to the debug port. Rows scroll up when the cursor leaves the last one. The nested
  loops over cells are folds in the order of the source; the lemmas give their effect as list
  operations, that the cursor never leaves the screen, and what the decimal printers show.
\<close>

section \<open>State and operations\<close>

definition VGA_WIDTH :: nat where
  "VGA_WIDTH = 80"

definition VGA_HEIGHT :: nat where
  "VGA_HEIGHT = 25"

record terminal =
  terminal_row :: nat
  terminal_column :: nat
  terminal_color :: u8
  terminal_buffer :: "u16 list"
  debug_port :: "u8 list"

definition vga_entry_color :: "u8 \<Rightarrow> u8 \<Rightarrow> u8" where
  "vga_entry_color fg bg = fg OR push_bit 4 bg"

definition vga_entry :: "u8 \<Rightarrow> u8 \<Rightarrow> u16" where
  "vga_entry uc color = ucast uc OR push_bit 8 (ucast color)"

definition VGA_COLOR_BLACK :: u8 where
  "VGA_COLOR_BLACK = 0"

definition VGA_COLOR_LIGHT_GREY :: u8 where
  "VGA_COLOR_LIGHT_GREY = 7"

definition terminal_clear :: "terminal \<Rightarrow> terminal" where
  "terminal_clear t = t\<lparr>terminal_row := 0, terminal_column := 0,
     terminal_buffer := fold (\<lambda>y. fold (\<lambda>x cells. cells[y * VGA_WIDTH + x := vga_entry 32 (terminal_color t)])
       [0..<VGA_WIDTH]) [0..<VGA_HEIGHT] (terminal_buffer t)\<rparr>"

text \<open>\<open>screen\<close> stands for what the 2000 cells at 0xB8000 hold.\<close>

definition terminal_initialize :: "u16 list \<Rightarrow> terminal \<Rightarrow> terminal" where
  "terminal_initialize screen t = terminal_clear (t\<lparr>
     terminal_color := vga_entry_color VGA_COLOR_LIGHT_GREY VGA_COLOR_BLACK, terminal_buffer := screen\<rparr>)"

definition terminal_setcolor :: "u8 \<Rightarrow> terminal \<Rightarrow> terminal" where
  "terminal_setcolor color t = t\<lparr>terminal_color := color\<rparr>"

definition terminal_putentryat :: "u8 \<Rightarrow> u8 \<Rightarrow> nat \<Rightarrow> nat \<Rightarrow> terminal \<Rightarrow> terminal" where
  "terminal_putentryat c color x y t =
     t\<lparr>terminal_buffer := (terminal_buffer t)[y * VGA_WIDTH + x := vga_entry c color]\<rparr>"

definition terminal_scroll :: "terminal \<Rightarrow> terminal" where
  "terminal_scroll t =
     (let moved = fold (\<lambda>y. fold (\<lambda>x cells. cells[(y - 1) * VGA_WIDTH + x := cells ! (y * VGA_WIDTH + x)])
            [0..<VGA_WIDTH]) [1..<VGA_HEIGHT] (terminal_buffer t);
          blanked = fold (\<lambda>x cells. cells[(VGA_HEIGHT - 1) * VGA_WIDTH + x := vga_entry 32 (terminal_color t)])
            [0..<VGA_WIDTH] moved
      in t\<lparr>terminal_buffer := blanked, terminal_row := VGA_HEIGHT - 1\<rparr>)"

definition next_row :: "terminal \<Rightarrow> terminal" where
  "next_row t = (let t1 = t\<lparr>terminal_column := 0, terminal_row := terminal_row t + 1\<rparr>
     in if terminal_row t1 = VGA_HEIGHT then terminal_scroll t1 else t1)"

definition terminal_putchar :: "u8 \<Rightarrow> terminal \<Rightarrow> terminal" where
  "terminal_putchar c t0 =
     (let t = t0\<lparr>debug_port := debug_port t0 @ [c]\<rparr> in
      if c = 8 then
        (if terminal_column t > 0 then
           let t1 = t\<lparr>terminal_column := terminal_column t - 1\<rparr>
           in terminal_putentryat 32 (terminal_color t1) (terminal_column t1) (terminal_row t1) t1
         else t)
      else if c = 10 then next_row t
      else
        let t1 = terminal_putentryat c (terminal_color t) (terminal_column t) (terminal_row t) t;
            t2 = t1\<lparr>terminal_column := terminal_column t1 + 1\<rparr>
        in if terminal_column t2 = VGA_WIDTH then next_row t2 else t2)"

text \<open>A string is given by its characters before the terminating zero.\<close>

definition terminal_write :: "u8 list \<Rightarrow> terminal \<Rightarrow> terminal" where
  "terminal_write data t = fold terminal_putchar data t"

definition terminal_writestring :: "u8 list \<Rightarrow> terminal \<Rightarrow> terminal" where
  "terminal_writestring data t = terminal_write (takeWhile (\<lambda>c. c \<noteq> 0) data) t"

function dec_loop :: "u32 \<Rightarrow> u8 list" where
  "dec_loop n = (if n > 0 then (48 + ucast (n mod 10)) # dec_loop (n div 10) else [])"
  by auto
termination
proof (relation "measure unat")
  fix n :: u32 assume "n > 0"
  then have "unat n > 0" by (simp add: word_less_nat_alt)
  then show "(n div 10, n) \<in> measure unat" by (simp add: unat_div)
qed simp

declare dec_loop.simps [simp del]

definition terminal_write_dec :: "u32 \<Rightarrow> terminal \<Rightarrow> terminal" where
  "terminal_write_dec n t = (if n = 0 then terminal_putchar 48 t else fold terminal_putchar (rev (dec_loop n)) t)"

fun pad_loop :: "nat \<Rightarrow> u32 \<Rightarrow> u8 list \<Rightarrow> u8 list" where
  "pad_loop 0 n buf = buf"
| "pad_loop (Suc i) n buf = pad_loop i (n div 10) (buf[i := 48 + ucast (n mod 10)])"

definition terminal_write_dec_pad :: "u32 \<Rightarrow> int \<Rightarrow> u8 list \<Rightarrow> terminal \<Rightarrow> terminal" where
  "terminal_write_dec_pad n width junk t =
     (if width \<le> 0 \<or> width \<ge> 16 then terminal_write_dec n t
      else terminal_writestring (pad_loop (nat width) n (junk[nat width := 0])) t)"

section \<open>The loops over cells\<close>

lemma fold_blank:
  "a + n \<le> length cells \<Longrightarrow> fold (\<lambda>x cells. cells[a + x := b]) [0..<n] cells =
     take a cells @ replicate n b @ drop (a + n) cells"
proof (induction n)
  case (Suc n)
  then have "drop (a + n) cells = cells ! (a + n) # drop (Suc (a + n)) cells"
    by (simp add: Cons_nth_drop_Suc)
  with Suc show ?case
    by (simp add: list_update_append replicate_append_same [symmetric] min_def)
qed simp

lemma fold_move:
  "n \<le> w \<Longrightarrow> a + w + n \<le> length cells \<Longrightarrow>
     fold (\<lambda>x cells. cells[a + x := cells ! (a + w + x)]) [0..<n] cells =
     take a cells @ take n (drop (a + w) cells) @ drop (a + n) cells"
proof (induction n)
  case (Suc n)
  let ?c = "take a cells @ take n (drop (a + w) cells) @ drop (a + n) cells"
  have "?c ! (a + w + n) = cells ! (a + w + n)"
    using Suc.prems by (simp add: nth_append ac_simps)
  moreover have "drop (a + n) cells = cells ! (a + n) # drop (Suc (a + n)) cells"
    using Suc.prems by (simp add: Cons_nth_drop_Suc)
  moreover have "take (Suc n) (drop (a + w) cells) = take n (drop (a + w) cells) @ [cells ! (a + w + n)]"
    using Suc.prems by (simp add: take_Suc_conv_app_nth)
  moreover have "min (length cells - (a + w)) n = n" "min (length cells) a = a" using Suc.prems by auto
  ultimately show ?case
    using Suc by (simp add: list_update_append)
qed simp

lemma fold_move_rows:
  "length cells = h * w \<Longrightarrow> k < h \<Longrightarrow>
     fold (\<lambda>y. fold (\<lambda>x cells. cells[(y - 1) * w + x := cells ! (y * w + x)]) [0..<w]) [1..<Suc k] cells =
     take (k * w) (drop w cells) @ drop (k * w) cells"
proof (induction k)
  case (Suc k)
  let ?c = "take (k * w) (drop w cells) @ drop (k * w) cells"
  have room: "k * w + w + w \<le> length cells"
    using Suc.prems mult_le_mono1 [of "k + 2" h w] by (simp add: algebra_simps)
  have len: "length ?c = length cells" using room by simp
  have split: "[1..<Suc (Suc k)] = [1..<Suc k] @ [Suc k]" by simp
  have "fold (\<lambda>x cells. cells[k * w + x := cells ! (k * w + w + x)]) [0..<w] ?c =
      take (k * w) ?c @ take w (drop (k * w + w) ?c) @ drop (k * w + w) ?c"
    using room len by (intro fold_move) auto
  also have "\<dots> = take (Suc k * w) (drop w cells) @ drop (Suc k * w) cells"
    using room take_add [of "k * w" w "drop w cells"] by (simp add: ac_simps)
  finally show ?case
    unfolding split fold_append using Suc by (simp add: add.commute [of w "k * w"] del: upt_Suc)
qed simp

section \<open>The cursor stays on the screen\<close>

definition terminal_ok :: "terminal \<Rightarrow> bool" where
  "terminal_ok t \<longleftrightarrow> terminal_row t < VGA_HEIGHT \<and> terminal_column t < VGA_WIDTH \<and>
     length (terminal_buffer t) = VGA_HEIGHT * VGA_WIDTH"

text \<open>The rows of the screen from top to bottom.\<close>

definition row_of :: "nat \<Rightarrow> terminal \<Rightarrow> u16 list" where
  "row_of y t = take VGA_WIDTH (drop (y * VGA_WIDTH) (terminal_buffer t))"

lemma scroll_buffer:
  assumes "length (terminal_buffer t) = VGA_HEIGHT * VGA_WIDTH"
  shows "terminal_buffer (terminal_scroll t) =
    drop VGA_WIDTH (terminal_buffer t) @ replicate VGA_WIDTH (vga_entry 32 (terminal_color t))"
proof -
  let ?b = "terminal_buffer t"
  have h: "VGA_HEIGHT = Suc 24" "length ?b = 25 * VGA_WIDTH" "24 * VGA_WIDTH \<le> length (drop VGA_WIDTH ?b)"
    using assms by (simp_all add: VGA_HEIGHT_def VGA_WIDTH_def)
  have "fold (\<lambda>y. fold (\<lambda>x cells. cells[(y - 1) * VGA_WIDTH + x := cells ! (y * VGA_WIDTH + x)])
      [0..<VGA_WIDTH]) [1..<VGA_HEIGHT] ?b = take (24 * VGA_WIDTH) (drop VGA_WIDTH ?b) @ drop (24 * VGA_WIDTH) ?b"
    unfolding h(1) using h(2) by (intro fold_move_rows [where h = 25]) auto
  moreover have "take (24 * VGA_WIDTH) (drop VGA_WIDTH ?b) = drop VGA_WIDTH ?b" using h(2) by simp
  ultimately show ?thesis
    unfolding terminal_scroll_def using h(2)
    by (simp add: h(1) fold_blank)
qed

lemma scroll_row_of:
  assumes "length (terminal_buffer t) = VGA_HEIGHT * VGA_WIDTH" "y < VGA_HEIGHT"
  shows "row_of y (terminal_scroll t) =
    (if y + 1 < VGA_HEIGHT then row_of (y + 1) t else replicate VGA_WIDTH (vga_entry 32 (terminal_color t)))"
proof -
  have "y = 24 \<or> y < 24" using assms(2) by (auto simp: VGA_HEIGHT_def)
  then show ?thesis
    using assms(1) unfolding row_of_def scroll_buffer [OF assms(1)]
    by (auto simp: VGA_HEIGHT_def VGA_WIDTH_def algebra_simps)
qed

lemma next_row_ok: "terminal_row t < VGA_HEIGHT \<Longrightarrow> length (terminal_buffer t) = VGA_HEIGHT * VGA_WIDTH \<Longrightarrow>
  terminal_ok (next_row t)"
proof (cases "terminal_row t + 1 = VGA_HEIGHT")
  case True
  assume "length (terminal_buffer t) = VGA_HEIGHT * VGA_WIDTH"
  then have "length (terminal_buffer (terminal_scroll (t\<lparr>terminal_column := 0, terminal_row := Suc (terminal_row t)\<rparr>)))
      = VGA_HEIGHT * VGA_WIDTH"
    by (subst scroll_buffer) (simp_all add: VGA_HEIGHT_def VGA_WIDTH_def)
  with True show ?thesis
    by (simp add: next_row_def terminal_ok_def) (simp add: terminal_scroll_def VGA_HEIGHT_def VGA_WIDTH_def)
qed (auto simp: next_row_def terminal_ok_def VGA_WIDTH_def)

lemma putchar_ok: "terminal_ok t \<Longrightarrow> terminal_ok (terminal_putchar c t)"
  unfolding terminal_putchar_def Let_def
  by (auto simp: terminal_putentryat_def intro!: next_row_ok) (auto simp: terminal_ok_def)

lemma next_row_port [simp]: "debug_port (next_row t) = debug_port t"
  by (simp add: next_row_def terminal_scroll_def Let_def)

lemma putchar_port [simp]: "debug_port (terminal_putchar c t) = debug_port t @ [c]"
  by (auto simp: terminal_putchar_def terminal_putentryat_def Let_def)

lemma write_port: "debug_port (fold terminal_putchar cs t) = debug_port t @ cs"
  by (induction cs arbitrary: t) auto

section \<open>Decimal numbers\<close>

lemma uint_digit: "uint (48 + ucast (n mod 10) :: u8) = uint n mod 10 + 48" for n :: u32
proof -
  have m: "uint (n mod 10) = uint n mod 10" by (simp add: uint_mod)
  have "0 \<le> uint n mod 10" "uint n mod 10 < 10" by simp_all
  then have "uint (ucast (n mod 10) :: u8) = uint n mod 10"
    by (simp add: unsigned_ucast_eq m take_bit_int_eq_self)
  moreover have "(48 + uint n mod 10) mod 256 = uint n mod 10 + 48"
    using \<open>0 \<le> uint n mod 10\<close> \<open>uint n mod 10 < 10\<close> by (simp add: mod_pos_pos_trivial)
  ultimately show ?thesis by (simp add: uint_word_ariths(1))
qed

lemma digits_loop_pos: "0 \<le> m \<Longrightarrow> digits_loop m = (m mod 10 + 48) # (if m div 10 > 0 then digits_loop (m div 10) else [])"
  by (subst digits_loop.simps) (simp add: signed_divide_int_def signed_modulo_int_def sgn_if split: if_splits)

text \<open>The digits are those of the signed printer, which is right on positive numbers.\<close>

lemma dec_loop_digits_loop: "n > 0 \<Longrightarrow> map uint (dec_loop n) = digits_loop (uint n)"
proof (induction n rule: dec_loop.induct)
  case (1 n)
  have d: "uint (n div 10) = uint n div 10" by (simp add: uint_div)
  have "n div 10 > 0 \<longleftrightarrow> uint n div 10 > 0" by (simp add: word_less_def d)
  with 1 show ?case
    by (subst dec_loop.simps, subst digits_loop_pos)
      (auto simp: uint_digit d [symmetric] dec_loop.simps [of "n div 10"])
qed

lemma dec_loop_length: "unat n < 10 ^ k \<Longrightarrow> length (dec_loop n) \<le> k"
proof (induction k arbitrary: n)
  case 0
  then have "n = 0" by (simp add: unat_eq_zero)
  then show ?case by (simp add: dec_loop.simps)
next
  case (Suc k)
  have "unat (n div 10) < 10 ^ k" using Suc.prems by (simp add: unat_div less_mult_imp_div_less)
  with Suc.IH show ?case by (subst dec_loop.simps) simp
qed

lemma digits_loop_text:
  assumes "0 < m"
  shows "ascii_to_int (rev (digits_loop m)) = m" "\<forall>d \<in> set (digits_loop m). 48 \<le> d \<and> d \<le> 57" "last (digits_loop m) \<noteq> 48"
proof -
  note v = digits_loop_value [of m]
  have ne: "digits_loop m \<noteq> []" by (subst digits_loop.simps) simp
  show r: "\<forall>d \<in> set (digits_loop m). 48 \<le> d \<and> d \<le> 57" and "last (digits_loop m) \<noteq> 48" using v assms by auto
  obtain c cs where c: "rev (digits_loop m) = c # cs" using ne by (cases "rev (digits_loop m)") auto
  then have "c \<in> set (digits_loop m)" by (metis list.set_intros(1) set_rev)
  then have "c \<noteq> 45" using r by force
  then have "ascii_to_int (rev (digits_loop m)) = digits_value (rev (rev (digits_loop m)))"
    unfolding c by (simp add: ascii_to_int_def)
  then show "ascii_to_int (rev (digits_loop m)) = m" using v assms by simp
qed

section \<open>Properties\<close>

text \<open>
  The unsigned printer shows every 32-bit number: the characters it sends to the console read
  back as the number, there are no leading zeros, and its buffer of 11 characters is never
  exceeded.
\<close>

theorem terminal_write_dec_correct:
  "\<exists>cs. debug_port (terminal_write_dec n t) = debug_port t @ cs \<and> ascii_to_int (map uint cs) = uint n \<and>
     (\<forall>c \<in> set cs. 48 \<le> uint c \<and> uint c \<le> 57) \<and> (n \<noteq> 0 \<longrightarrow> hd cs \<noteq> 48) \<and> length (dec_loop n) \<le> 10"
proof (cases "n = 0")
  case True
  then show ?thesis by (simp add: terminal_write_dec_def ascii_to_int_def dec_loop.simps)
next
  case False
  then have pos: "n > 0" "0 < uint n" by (simp_all add: word_neq_0_conv word_less_def)
  let ?cs = "rev (dec_loop n)"
  note m = dec_loop_digits_loop [OF pos(1)] and t = digits_loop_text [OF pos(2)]
  have chars: "map uint ?cs = rev (digits_loop (uint n))" unfolding m [symmetric] by (rule rev_map [symmetric])
  have range: "\<forall>c \<in> set ?cs. 48 \<le> uint c \<and> uint c \<le> 57"
    using t(2) unfolding m [symmetric] by simp
  have "dec_loop n \<noteq> []" using pos(1) by (subst dec_loop.simps) simp
  then have "uint (hd ?cs) = last (digits_loop (uint n))" unfolding m [symmetric] by (simp add: hd_rev last_map)
  then have "hd ?cs \<noteq> 48" using t(3) by auto
  moreover have "unat n < 10 ^ 10" using unat_lt_2p32 [of n] by simp
  then have "length (dec_loop n) \<le> 10" by (rule dec_loop_length)
  ultimately show ?thesis
    using False chars t(1) range by (intro exI [of _ ?cs]) (simp add: terminal_write_dec_def write_port)
qed


definition terminal_blank :: terminal where
  "terminal_blank = \<lparr>terminal_row = 24, terminal_column = 79, terminal_color = 7,
     terminal_buffer = replicate 2000 0, debug_port = []\<rparr>"

theorem terminal_write_dec_correct_witness:
  "\<exists>cs. debug_port (terminal_write_dec 4294967295 terminal_blank) = debug_port terminal_blank @ cs \<and>
     ascii_to_int (map uint cs) = 4294967295 \<and> hd cs \<noteq> 48"
  using terminal_write_dec_correct [of 4294967295 terminal_blank] by auto


end
