(* ===== verification/Paging.thy ===== *)
theory Paging
  imports Heap Vga "HOL-Library.Multiset" "HOL-Library.Monad_Syntax"
begin

text \<open>
  Address spaces (src/paging.c, src/paging.h): the kernel's identity map of the first 32 MB, user
  address spaces with a private table for the low 4 MB and one for the region of \<open>mmap\<close>, copy on
  write after \<open>fork\<close>, shared pages, demand paging in the page-fault handler.

  Page tables, directories and address-space objects are stores by address; the frames that hold
  user data are a map from frame numbers to bytes. Frames come from the page allocator that also
  serves the kernel heap, so both live in one state. \<open>tlb\<close> is what the processor may have cached of
  the active space.
\<close>

section \<open>State\<close>

definition PAGE_PRESENT :: u32 where "PAGE_PRESENT = 0x01"
definition PAGE_RW :: u32 where "PAGE_RW = 0x02"
definition PAGE_USER :: u32 where "PAGE_USER = 0x04"

record page_entry =
  present :: bool
  rw :: bool
  user :: bool
  accessed :: bool
  dirty :: bool
  unused :: "6 word"
  shared :: bool
  frame :: u32

definition zero_entry :: page_entry where
  "zero_entry = \<lparr>present = False, rw = False, user = False, accessed = False, dirty = False, unused = 0,
     shared = False, frame = 0\<rparr>"

record address_space =
  as_directory :: ptr
  as_first_table :: ptr
  as_ext_table :: ptr
  as_owns_tables :: bool

definition sizeof_address_space :: u32 where "sizeof_address_space = 16"

definition USER_STACK_TOP :: u32 where "USER_STACK_TOP = 0x3F0000"
definition USER_STACK_PAGES :: u32 where "USER_STACK_PAGES = 8"
definition USER_STACK_BOTTOM :: u32 where "USER_STACK_BOTTOM = USER_STACK_TOP - USER_STACK_PAGES * 0x1000"
definition USER_EXT_BASE :: u32 where "USER_EXT_BASE = 0x2000000"
definition USER_EXT_TOP :: u32 where "USER_EXT_TOP = 0x2400000"
definition USER_EXT_DIR :: nat where "USER_EXT_DIR = 8"

definition KERNEL_IDENTITY_TABLES :: nat where "KERNEL_IDENTITY_TABLES = 8"
definition FRAME_COUNT :: nat where "FRAME_COUNT = 8192"

text \<open>\<open>kernel_directory\<close>, \<open>kernel_tables\<close> and \<open>kernel_space\<close> are the addresses of the static objects.\<close>

record paging =
  page_tables :: "ptr \<Rightarrow> page_entry list option"
  page_directories :: "ptr \<Rightarrow> u32 list option"
  address_spaces :: "ptr \<Rightarrow> address_space option"
  frame_data :: "u32 \<Rightarrow> u8 list"
  kernel_directory :: ptr
  kernel_tables :: ptr
  kernel_space_at :: ptr
  pg_active :: ptr
  user_space_count :: u32
  page_ref :: "u16 list"
  cr3 :: ptr
  tlb :: "u32 \<Rightarrow> page_entry option"
  pg_heap :: heap_state

text \<open>Entries of page tables are named by the address of the table and the index.\<close>

type_synonym pte_ref = "ptr \<times> nat"

definition read_pte :: "pte_ref \<Rightarrow> paging \<Rightarrow> page_entry option" where
  "read_pte r st = do { t \<leftarrow> page_tables st (fst r); if snd r < length t then Some (t ! snd r) else None }"

definition write_pte :: "pte_ref \<Rightarrow> page_entry \<Rightarrow> paging \<Rightarrow> paging option" where
  "write_pte r e st = do {
     t \<leftarrow> page_tables st (fst r);
     if snd r < length t then Some (st\<lparr>page_tables := (page_tables st)(fst r \<mapsto> t[snd r := e])\<rparr>) else None
   }"

text \<open>Calls of the page allocator.\<close>

definition alloc_frame :: "paging \<Rightarrow> ptr \<times> paging" where
  "alloc_frame st = (let (p, pm) = pmm_alloc_block (heap_pmm (pg_heap st))
     in (p, st\<lparr>pg_heap := (pg_heap st)\<lparr>heap_pmm := pm\<rparr>\<rparr>))"

definition free_frame :: "ptr \<Rightarrow> paging \<Rightarrow> paging" where
  "free_frame p st = st\<lparr>pg_heap := (pg_heap st)\<lparr>heap_pmm := pmm_free_block p (heap_pmm (pg_heap st))\<rparr>\<rparr>"

section \<open>Operations\<close>

definition cow_ref_inc :: "u32 \<Rightarrow> paging \<Rightarrow> paging" where
  "cow_ref_inc f st = (if unat f < FRAME_COUNT
     then st\<lparr>page_ref := (page_ref st)[unat f := page_ref st ! unat f + 1]\<rparr> else st)"

definition cow_ref_release :: "u32 \<Rightarrow> paging \<Rightarrow> bool \<times> paging" where
  "cow_ref_release f st = (if unat f < FRAME_COUNT \<and> page_ref st ! unat f > 0
     then (False, st\<lparr>page_ref := (page_ref st)[unat f := page_ref st ! unat f - 1]\<rparr>) else (True, st))"

definition paging_invlpg :: "u32 \<Rightarrow> paging \<Rightarrow> paging" where
  "paging_invlpg vaddr st = st\<lparr>tlb := (tlb st)(drop_bit 12 vaddr := None)\<rparr>"

definition load_cr3 :: "ptr \<Rightarrow> paging \<Rightarrow> paging" where
  "load_cr3 directory st = st\<lparr>cr3 := directory, tlb := Map.empty\<rparr>"

definition paging_flush_tlb :: "paging \<Rightarrow> paging option" where
  "paging_flush_tlb st = (if pg_active st \<noteq> NULL
     then map_option (\<lambda>sp. load_cr3 (as_directory sp) st) (address_spaces st (pg_active st)) else Some st)"

text \<open>The inner \<open>None\<close> is the null pointer, the outer one a dangling \<open>space\<close>.\<close>

definition user_pte :: "ptr \<Rightarrow> u32 \<Rightarrow> paging \<Rightarrow> pte_ref option option" where
  "user_pte space vaddr st =
     (if space = NULL then Some None
      else do {
        sp \<leftarrow> address_spaces st space;
        if vaddr < 0x400000 then
          Some (if as_first_table sp \<noteq> NULL then Some (as_first_table sp, unat (drop_bit 12 vaddr)) else None)
        else if vaddr \<ge> USER_EXT_BASE \<and> vaddr < USER_EXT_TOP then
          Some (if as_ext_table sp \<noteq> NULL then Some (as_ext_table sp, unat (drop_bit 12 (vaddr - USER_EXT_BASE))) else None)
        else Some None
      })"

text \<open>A zeroed frame is put into an entry; \<open>False\<close> when there is no frame.\<close>

definition map_fresh :: "bool \<Rightarrow> pte_ref \<Rightarrow> page_entry \<Rightarrow> paging \<Rightarrow> (bool \<times> paging) option" where
  "map_fresh is_shared r page st =
     (let (f, st1) = alloc_frame st in
      if f = NULL then Some (False, st1)
      else do {
        let n = drop_bit 12 f;
        st2 \<leftarrow> write_pte r (page\<lparr>frame := n, present := True, rw := True, user := True, accessed := False,
          dirty := False, shared := is_shared\<rparr>) (st1\<lparr>frame_data := (frame_data st1)(n := replicate 4096 0)\<rparr>);
        Some (True, st2)
      })"

definition paging_map_user_page :: "ptr \<Rightarrow> u32 \<Rightarrow> paging \<Rightarrow> (bool \<times> paging) option" where
  "paging_map_user_page space vaddr st =
     (if space = NULL then Some (False, st)
      else do {
        sp \<leftarrow> address_spaces st space;
        if \<not> as_owns_tables sp then Some (False, st)
        else do {
          p \<leftarrow> user_pte space vaddr st;
          case p of None \<Rightarrow> Some (False, st)
          | Some r \<Rightarrow> do {
              page \<leftarrow> read_pte r st;
              if present page \<and> user page then Some (True, st) else map_fresh False r page st
            }
        }
      })"

definition paging_demand_map :: "u32 \<Rightarrow> paging \<Rightarrow> (bool \<times> paging) option" where
  "paging_demand_map addr st =
     (if pg_active st = NULL then Some (False, st)
      else do {
        sp \<leftarrow> address_spaces st (pg_active st);
        if \<not> as_owns_tables sp then Some (False, st)
        else do {
          p \<leftarrow> user_pte (pg_active st) addr st;
          case p of None \<Rightarrow> Some (False, st)
          | Some r \<Rightarrow> do {
              page \<leftarrow> read_pte r st;
              if present page \<and> user page then Some (False, st)
              else do {
                (ok, st1) \<leftarrow> paging_map_user_page (pg_active st) (addr AND NOT 0xFFF) st;
                if \<not> ok then Some (False, st1) else Some (True, paging_invlpg (addr AND NOT 0xFFF) st1)
              }
            }
        }
      })"

text \<open>The private copy of a shared frame; \<open>None\<close> inside when there is no frame for it.\<close>

definition cow_copy :: "page_entry \<Rightarrow> paging \<Rightarrow> (page_entry option \<times> paging) option" where
  "cow_copy page st =
     (if unat (frame page) < length (page_ref st) then
        if page_ref st ! unat (frame page) > 0 then
          let (f, st1) = alloc_frame st in
          if f = NULL then Some (None, st1)
          else Some (Some (page\<lparr>frame := drop_bit 12 f\<rparr>),
            st1\<lparr>frame_data := (frame_data st1)(drop_bit 12 f := frame_data st1 (frame page)),
              page_ref := (page_ref st1)[unat (frame page) := page_ref st1 ! unat (frame page) - 1]\<rparr>)
        else Some (Some page, st)
      else None)"

definition paging_try_cow :: "u32 \<Rightarrow> paging \<Rightarrow> (bool \<times> paging) option" where
  "paging_try_cow addr st = do {
     p \<leftarrow> (if pg_active st \<noteq> NULL then user_pte (pg_active st) addr st else Some None);
     case p of None \<Rightarrow> Some (False, st)
     | Some r \<Rightarrow> do {
         page \<leftarrow> read_pte r st;
         if \<not> present page \<or> \<not> user page \<or> rw page then Some (False, st)
         else do {
           (copy, st1) \<leftarrow> cow_copy page st;
           case copy of None \<Rightarrow> Some (False, st1)
           | Some page1 \<Rightarrow> do {
               st2 \<leftarrow> write_pte r (page1\<lparr>rw := True\<rparr>) st1;
               Some (True, paging_invlpg (addr AND NOT 0xFFF) st2)
             }
         }
       }
   }"

definition user_pointer :: "ptr \<Rightarrow> u32 \<Rightarrow> paging \<Rightarrow> u32 option option" where
  "user_pointer space vaddr st = do {
     p \<leftarrow> user_pte space vaddr st;
     case p of None \<Rightarrow> Some None
     | Some r \<Rightarrow> do {
         page \<leftarrow> read_pte r st;
         Some (if \<not> present page \<or> \<not> user page then None
           else Some (push_bit 12 (frame page) OR (vaddr AND 0xFFF)))
       }
   }"

text \<open>The identity map of the kernel: \<open>kernel_tables[table]\<close> lies 4096 bytes behind the one before.\<close>

definition identity_entry :: "nat \<Rightarrow> page_entry" where
  "identity_entry f = zero_entry\<lparr>frame := of_nat f, present := True, rw := True, user := False\<rparr>"

definition kernel_table :: "nat \<Rightarrow> page_entry list" where
  "kernel_table table = map (\<lambda>page. identity_entry (table * 1024 + page)) [0..<1024]"

definition kernel_table_at :: "nat \<Rightarrow> paging \<Rightarrow> ptr" where
  "kernel_table_at table st = kernel_tables st + of_nat (table * 4096)"

definition install_table :: "nat \<Rightarrow> paging \<Rightarrow> paging" where
  "install_table table st = st\<lparr>page_tables := (page_tables st)(kernel_table_at table st \<mapsto> kernel_table table),
     page_directories := (page_directories st)(kernel_directory st \<mapsto>
       (the (page_directories st (kernel_directory st)))[table := kernel_table_at table st OR PAGE_PRESENT OR PAGE_RW])\<rparr>"

definition enable_paging :: "ptr \<Rightarrow> paging \<Rightarrow> paging" where
  "enable_paging directory_address st = st\<lparr>cr3 := directory_address, tlb := Map.empty\<rparr>"

definition paging_install :: "paging \<Rightarrow> paging" where
  "paging_install st =
     (let st1 = fold install_table [0..<KERNEL_IDENTITY_TABLES]
        (st\<lparr>page_directories := (page_directories st)(kernel_directory st \<mapsto> replicate 1024 0)\<rparr>);
        st2 = st1\<lparr>address_spaces := (address_spaces st1)(kernel_space_at st \<mapsto>
          \<lparr>as_directory = kernel_directory st, as_first_table = kernel_table_at 0 st, as_ext_table = NULL, as_owns_tables = False\<rparr>),
          pg_active := kernel_space_at st\<rparr>
      in enable_paging (kernel_directory st) st2)"

definition paging_get_kernel_address_space :: "paging \<Rightarrow> ptr" where
  "paging_get_kernel_address_space st = kernel_space_at st"

text \<open>The early exit when one of the three frames is missing.\<close>

definition create_undo :: "ptr \<Rightarrow> ptr \<Rightarrow> ptr \<Rightarrow> ptr \<Rightarrow> paging \<Rightarrow> paging option" where
  "create_undo space d f e st =
     (let st1 = (if d \<noteq> NULL then free_frame d st else st);
          st2 = (if f \<noteq> NULL then free_frame f st1 else st1);
          st3 = (if e \<noteq> NULL then free_frame e st2 else st2)
      in map_option (\<lambda>h. st3\<lparr>pg_heap := h\<rparr>) (kfree space (pg_heap st3)))"

definition paging_create_user_address_space :: "paging \<Rightarrow> (ptr \<times> paging) option" where
  "paging_create_user_address_space st = do {
     (space, h) \<leftarrow> kmalloc sizeof_address_space (pg_heap st);
     if space = NULL then Some (NULL, st\<lparr>pg_heap := h\<rparr>)
     else do {
       let (d, st1) = alloc_frame (st\<lparr>pg_heap := h\<rparr>);
       let (f, st2) = alloc_frame st1;
       let (e, st3) = alloc_frame st2;
       if d = NULL \<or> f = NULL \<or> e = NULL then map_option (Pair NULL) (create_undo space d f e st3)
       else do {
         kdir \<leftarrow> page_directories st3 (kernel_directory st3);
         ktab \<leftarrow> page_tables st3 (kernel_table_at 0 st3);
         Some (space, st3\<lparr>
           address_spaces := (address_spaces st3)(space \<mapsto>
             \<lparr>as_directory = d, as_first_table = f, as_ext_table = e, as_owns_tables = True\<rparr>),
           page_directories := (page_directories st3)(d \<mapsto>
             kdir[0 := f OR PAGE_PRESENT OR PAGE_RW OR PAGE_USER,
                  USER_EXT_DIR := e OR PAGE_PRESENT OR PAGE_RW OR PAGE_USER]),
           page_tables := (page_tables st3)(f \<mapsto> ktab, e \<mapsto> replicate 1024 zero_entry),
           user_space_count := user_space_count st3 + 1\<rparr>)
       }
     }
   }"

text \<open>One entry of \<open>paging_cow_clone_table\<close>.\<close>

definition clone_entry :: "ptr \<Rightarrow> ptr \<Rightarrow> nat \<Rightarrow> paging \<Rightarrow> paging option" where
  "clone_entry src_t dst_t i st = do {
     src \<leftarrow> read_pte (src_t, i) st;
     if \<not> present src \<or> \<not> user src then Some st
     else if shared src then do {
       st1 \<leftarrow> write_pte (dst_t, i) src st;
       Some (cow_ref_inc (frame src) st1)
     } else do {
       st1 \<leftarrow> write_pte (src_t, i) (src\<lparr>rw := False\<rparr>) st;
       st2 \<leftarrow> write_pte (dst_t, i) (src\<lparr>rw := False\<rparr>) st1;
       Some (cow_ref_inc (frame src) st2)
     }
   }"

fun clone_loop :: "ptr \<Rightarrow> ptr \<Rightarrow> nat list \<Rightarrow> paging \<Rightarrow> paging option" where
  "clone_loop src_t dst_t [] st = Some st"
| "clone_loop src_t dst_t (i # is) st = do { st1 \<leftarrow> clone_entry src_t dst_t i st; clone_loop src_t dst_t is st1 }"

definition paging_cow_clone_table :: "ptr \<Rightarrow> ptr \<Rightarrow> paging \<Rightarrow> paging option" where
  "paging_cow_clone_table src_t dst_t st =
     (if src_t = NULL \<or> dst_t = NULL then Some st else clone_loop src_t dst_t [0..<1024] st)"

definition paging_clone_address_space :: "ptr \<Rightarrow> paging \<Rightarrow> (ptr \<times> paging) option" where
  "paging_clone_address_space parent st =
     (if parent = NULL then Some (NULL, st)
      else do {
        par \<leftarrow> address_spaces st parent;
        if as_first_table par = NULL then Some (NULL, st)
        else do {
          (child, st1) \<leftarrow> paging_create_user_address_space st;
          if child = NULL then Some (NULL, st1)
          else do {
            ch \<leftarrow> address_spaces st1 child;
            st2 \<leftarrow> paging_cow_clone_table (as_first_table par) (as_first_table ch) st1;
            st3 \<leftarrow> paging_cow_clone_table (as_ext_table par) (as_ext_table ch) st2;
            st4 \<leftarrow> paging_flush_tlb st3;
            Some (child, st4)
          }
        }
      })"

definition paging_activate_address_space :: "ptr \<Rightarrow> paging \<Rightarrow> paging option" where
  "paging_activate_address_space space st =
     (let space1 = (if space = NULL then kernel_space_at st else space) in
      if space1 = pg_active st then Some st
      else do {
        sp \<leftarrow> address_spaces st space1;
        Some (load_cr3 (as_directory sp) (st\<lparr>pg_active := space1\<rparr>))
      })"

text \<open>Releasing the frame behind an entry.\<close>

definition release_frame_of :: "page_entry \<Rightarrow> paging \<Rightarrow> paging" where
  "release_frame_of page st = (let (last, st1) = cow_ref_release (frame page) st
     in if last then free_frame (push_bit 12 (frame page)) st1 else st1)"

fun destroy_loop :: "ptr \<Rightarrow> nat list \<Rightarrow> paging \<Rightarrow> paging option" where
  "destroy_loop t [] st = Some st"
| "destroy_loop t (i # is) st = do {
     page \<leftarrow> read_pte (t, i) st;
     st1 \<leftarrow> (if present page \<and> user page
       then write_pte (t, i) (page\<lparr>user := False\<rparr>) (release_frame_of page st) else Some st);
     destroy_loop t is st1
   }"

definition paging_destroy_user_address_space :: "ptr \<Rightarrow> paging \<Rightarrow> paging option" where
  "paging_destroy_user_address_space space st =
     (if space = NULL then Some st
      else do {
        sp \<leftarrow> address_spaces st space;
        if \<not> as_owns_tables sp then Some st
        else do {
          st1 \<leftarrow> (if space = pg_active st then paging_activate_address_space (kernel_space_at st) st else Some st);
          st2 \<leftarrow> (if as_first_table sp \<noteq> NULL then destroy_loop (as_first_table sp) [0..<1024] st1 else Some st1);
          st3 \<leftarrow> (if as_ext_table sp \<noteq> NULL then destroy_loop (as_ext_table sp) [0..<1024] st2 else Some st2);
          let st4 = free_frame (as_first_table sp) (st3\<lparr>page_tables := (page_tables st3)(as_first_table sp := None)\<rparr>);
          let st5 = (if as_ext_table sp \<noteq> NULL
            then free_frame (as_ext_table sp) (st4\<lparr>page_tables := (page_tables st4)(as_ext_table sp := None)\<rparr>) else st4);
          let st6 = free_frame (as_directory sp) (st5\<lparr>page_directories := (page_directories st5)(as_directory sp := None)\<rparr>);
          h \<leftarrow> kfree space (pg_heap st6);
          Some (st6\<lparr>pg_heap := h, address_spaces := (address_spaces st6)(space := None),
            user_space_count := user_space_count st6 - 1\<rparr>)
        }
      })"

definition paging_unmap_user_page :: "ptr \<Rightarrow> u32 \<Rightarrow> paging \<Rightarrow> paging option" where
  "paging_unmap_user_page space vaddr st =
     (if space = NULL then Some st
      else do {
        sp \<leftarrow> address_spaces st space;
        if \<not> as_owns_tables sp then Some st
        else do {
          p \<leftarrow> user_pte space vaddr st;
          case p of None \<Rightarrow> Some st
          | Some r \<Rightarrow> do {
              page \<leftarrow> read_pte r st;
              if \<not> present page \<or> \<not> user page then Some st
              else do {
                st1 \<leftarrow> write_pte r zero_entry (release_frame_of page st);
                Some (if space = pg_active st then paging_invlpg (vaddr AND NOT 0xFFF) st1 else st1)
              }
            }
        }
      })"

definition paging_share_page :: "u32 \<Rightarrow> paging \<Rightarrow> (bool \<times> paging) option" where
  "paging_share_page vaddr st =
     (if pg_active st = NULL then Some (False, st)
      else do {
        sp \<leftarrow> address_spaces st (pg_active st);
        if \<not> as_owns_tables sp \<or> vaddr \<ge> 0x400000 then Some (False, st)
        else do {
          let r = (as_first_table sp, unat (drop_bit 12 vaddr));
          page \<leftarrow> read_pte r st;
          if present page \<and> user page then Some (shared page, st)
          else do {
            (ok, st1) \<leftarrow> map_fresh True r page st;
            Some (ok, if ok then paging_invlpg (vaddr AND NOT 0xFFF) st1 else st1)
          }
        }
      })"

text \<open>
  \<open>memset\<close> and \<open>memcpy\<close> to an address that \<open>user_pointer\<close> gave; a chunk never leaves its frame.
\<close>

definition poke :: "u32 \<Rightarrow> u8 list \<Rightarrow> paging \<Rightarrow> paging" where
  "poke dest bs st = (let f = drop_bit 12 dest in
     st\<lparr>frame_data := (frame_data st)(f := put_bytes (unat (dest AND 0xFFF)) bs (frame_data st f))\<rparr>)"

definition chunk_at :: "u32 \<Rightarrow> u32 \<Rightarrow> u32" where
  "chunk_at vaddr sz = (let chunk = 4096 - (vaddr AND 0xFFF) in if chunk > sz then sz else chunk)"

lemma chunk_at_le: "chunk_at vaddr sz \<le> sz"
  by (auto simp: chunk_at_def Let_def not_less)

lemma chunk_at_pos: "0 < sz \<Longrightarrow> 0 < chunk_at vaddr sz"
proof -
  assume "0 < sz"
  have "vaddr AND 0xFFF \<le> 0xFFF" by (metis and.commute word_and_le1)
  then have "unat (4096 - (vaddr AND 0xFFF)) = 4096 - unat (vaddr AND 0xFFF)" "unat (vaddr AND 0xFFF) \<le> 4095"
    by (simp_all add: unat_sub word_le_nat_alt)
  with \<open>0 < sz\<close> show ?thesis by (simp add: chunk_at_def Let_def word_less_nat_alt)
qed

lemma chunk_at_less: "0 < sz \<Longrightarrow> unat (sz - chunk_at vaddr sz) < unat sz"
  using chunk_at_le [of vaddr sz] chunk_at_pos [of sz vaddr]
  by (simp add: unat_sub word_less_nat_alt word_le_nat_alt)

function zero_loop :: "ptr \<Rightarrow> u32 \<Rightarrow> u32 \<Rightarrow> paging \<Rightarrow> (bool \<times> paging) option" where
  "zero_loop space vaddr sz st =
     (if sz > 0 then
        (case user_pointer space vaddr st of None \<Rightarrow> None
         | Some None \<Rightarrow> Some (False, st)
         | Some (Some dest) \<Rightarrow>
             let chunk = chunk_at vaddr sz
             in zero_loop space (vaddr + chunk) (sz - chunk) (poke dest (replicate (unat chunk) 0) st))
      else Some (True, st))"
  by auto
termination
  by (relation "measure (\<lambda>(space, vaddr, sz, st). unat sz)") (auto simp: chunk_at_less)

declare zero_loop.simps [simp del]

definition paging_zero_user :: "ptr \<Rightarrow> u32 \<Rightarrow> u32 \<Rightarrow> paging \<Rightarrow> (bool \<times> paging) option" where
  "paging_zero_user space vaddr sz st =
     (if sz > 0xFFFFFFFF - vaddr then Some (False, st) else zero_loop space vaddr sz st)"

function copy_loop :: "ptr \<Rightarrow> u32 \<Rightarrow> u8 list \<Rightarrow> u32 \<Rightarrow> paging \<Rightarrow> (bool \<times> paging) option" where
  "copy_loop space vaddr src sz st =
     (if sz > 0 then
        (case user_pointer space vaddr st of None \<Rightarrow> None
         | Some None \<Rightarrow> Some (False, st)
         | Some (Some dest) \<Rightarrow>
             let chunk = chunk_at vaddr sz
             in copy_loop space (vaddr + chunk) (drop (unat chunk) src) (sz - chunk) (poke dest (take (unat chunk) src) st))
      else Some (True, st))"
  by auto
termination
  by (relation "measure (\<lambda>(space, vaddr, src, sz, st). unat sz)") (auto simp: chunk_at_less)

declare copy_loop.simps [simp del]

definition paging_copy_to_user :: "ptr \<Rightarrow> u32 \<Rightarrow> u8 list option \<Rightarrow> u32 \<Rightarrow> paging \<Rightarrow> (bool \<times> paging) option" where
  "paging_copy_to_user space vaddr src sz st =
     (if src = None \<and> sz > 0 \<or> sz > 0xFFFFFFFF - vaddr then Some (False, st)
      else copy_loop space vaddr (the src) sz st)"

fun range_loop :: "nat list \<Rightarrow> paging \<Rightarrow> bool option" where
  "range_loop [] st = Some True"
| "range_loop (idx # is) st = do {
     p \<leftarrow> user_pte (pg_active st) (push_bit 12 (of_nat idx)) st;
     case p of None \<Rightarrow> Some False
     | Some r \<Rightarrow> do {
         page \<leftarrow> read_pte r st;
         if \<not> present page \<or> \<not> user page then Some False else range_loop is st
       }
   }"

definition paging_user_range_mapped :: "u32 \<Rightarrow> u32 \<Rightarrow> paging \<Rightarrow> bool option" where
  "paging_user_range_mapped vaddr sz st =
     (if sz = 0 then Some True
      else if pg_active st = NULL \<or> sz > 0xFFFFFFFF - vaddr then Some False
      else range_loop [unat (drop_bit 12 vaddr)..<unat (drop_bit 12 (vaddr + sz - 1)) + 1] st)"

definition count_user :: "ptr \<Rightarrow> paging \<Rightarrow> u32 option" where
  "count_user t st = (if t = NULL then Some 0
     else map_option (\<lambda>es. of_nat (length (filter (\<lambda>e. present e \<and> user e) es))) (page_tables st t))"

definition paging_get_user_page_count :: "paging \<Rightarrow> u32 option" where
  "paging_get_user_page_count st =
     (if pg_active st = NULL then Some 0
      else do {
        sp \<leftarrow> address_spaces st (pg_active st);
        n \<leftarrow> count_user (as_first_table sp) st;
        m \<leftarrow> count_user (as_ext_table sp) st;
        Some (n + m)
      })"

definition paging_get_user_space_count :: "paging \<Rightarrow> u32" where
  "paging_get_user_space_count st = user_space_count st"

text \<open>
  The page-fault handler. \<open>proc\<close> is what it asks of the current process: the bounds of its heap and
  which addresses \<open>mmap\<close> has reserved. It returns to the faulting instruction, ends the user program
  through \<open>task_exit(-1)\<close>, or halts the machine.
\<close>

datatype fault_result = Resumed | Exit_Program int | System_Halted

record fault_process =
  fp_heap_start :: u32
  fp_heap_break :: u32
  fp_ext_reserved :: "u32 \<Rightarrow> bool"

definition user_fault_text :: "u32 \<Rightarrow> terminal \<Rightarrow> terminal" where
  "user_fault_text addr t = terminal_setcolor 15 (terminal_writestring (map of_char (''\<newline>Terminating user program.\<newline>''))
     (terminal_write_dec addr (terminal_writestring (map of_char (''\<newline>USER PAGE FAULT at address '')) (terminal_setcolor 4 t))))"

definition kernel_fault_text :: "u32 \<Rightarrow> u32 \<Rightarrow> terminal \<Rightarrow> terminal" where
  "kernel_fault_text err addr t =
     (let put = (\<lambda>b s t. if b then terminal_writestring (map of_char s) t else t) in
      put True ''\<newline>System Halted.\<newline>'' (terminal_write_dec addr (put True '') at address ''
        (put (err AND 0x8 \<noteq> 0) ''reserved '' (put (err AND 0x4 \<noteq> 0) ''user-mode '' (put (err AND 0x2 \<noteq> 0) ''write ''
          (put (err AND 0x1 = 0) ''not-present '' (put True ''\<newline>PAGE FAULT! ( '' (terminal_setcolor 4 t)))))))))"

definition page_fault_handler ::
  "u32 \<Rightarrow> u32 \<Rightarrow> u32 \<Rightarrow> fault_process option \<Rightarrow> paging \<Rightarrow> terminal \<Rightarrow> (fault_result \<times> paging \<times> terminal) option" where
  "page_fault_handler addr err cs proc st t = do {
     (done1, st1) \<leftarrow> (if err AND 0x2 \<noteq> 0 then paging_try_cow addr st else Some (False, st));
     if done1 then Some (Resumed, st1, t)
     else do {
       (done2, st2) \<leftarrow> (if addr \<ge> USER_STACK_BOTTOM \<and> addr < USER_STACK_TOP then paging_demand_map addr st1 else Some (False, st1));
       if done2 then Some (Resumed, st2, t)
       else do {
         (done3, st3) \<leftarrow> (case proc of None \<Rightarrow> Some (False, st2)
           | Some p \<Rightarrow> if addr \<ge> fp_heap_start p \<and> addr < fp_heap_break p then paging_demand_map addr st2 else Some (False, st2));
         if done3 then Some (Resumed, st3, t)
         else do {
           (done4, st4) \<leftarrow> (case proc of None \<Rightarrow> Some (False, st3)
             | Some p \<Rightarrow> if fp_ext_reserved p addr then paging_demand_map addr st3 else Some (False, st3));
           if done4 then Some (Resumed, st4, t)
           else if cs AND 0x3 = 0x3 then Some (Exit_Program (- 1), st4, user_fault_text addr t)
           else Some (System_Halted, st4, kernel_fault_text err addr t)
         }
       }
     }
   }"

end
