(* ===== verification/Paging_Refs.thy ===== *)
theory Paging_Refs
  imports Paging
begin

text \<open>
  The sharing counts behind copy on write, for the entries of all address spaces as lists: the count
  of a frame is the number of spaces that map it less one, and a page that is writable and not shared
  memory is mapped once. The lemmas say which changes of one entry keep this.
\<close>

section \<open>Sharing counts\<close>

definition is_user :: "page_entry \<Rightarrow> bool" where
  "is_user e \<longleftrightarrow> present e \<and> user e"

definition uframes :: "page_entry list \<Rightarrow> u32 list" where
  "uframes es = map frame (filter is_user es)"

text \<open>All mappings of frames by the spaces \<open>us\<close>, whose entries \<open>sl\<close> gives.\<close>

definition mappings :: "ptr list \<Rightarrow> (ptr \<Rightarrow> page_entry list) \<Rightarrow> u32 multiset" where
  "mappings us sl = mset (concat (map (\<lambda>p. uframes (sl p)) us))"

definition private_ok :: "ptr list \<Rightarrow> (ptr \<Rightarrow> page_entry list) \<Rightarrow> bool" where
  "private_ok us sl \<longleftrightarrow> (\<forall>p \<in> set us. \<forall>e \<in> set (sl p). is_user e \<longrightarrow>
     (rw e \<and> \<not> shared e \<longrightarrow> count (mappings us sl) (frame e) = 1) \<and>
     (shared e \<longrightarrow> rw e \<and> (\<forall>q \<in> set us. \<forall>d \<in> set (sl q). is_user d \<longrightarrow> frame d = frame e \<longrightarrow> shared d)))"

definition counts_ok :: "ptr list \<Rightarrow> (ptr \<Rightarrow> page_entry list) \<Rightarrow> u16 list \<Rightarrow> bool" where
  "counts_ok us sl pr \<longleftrightarrow> length pr = FRAME_COUNT \<and> distinct us \<and>
     (\<forall>f. unat f < FRAME_COUNT \<longrightarrow> unat (pr ! unat f) = count (mappings us sl) f - 1) \<and>
     (\<forall>p \<in> set us. distinct (uframes (sl p)))"

definition entry_mset :: "page_entry \<Rightarrow> u32 multiset" where
  "entry_mset e = (if is_user e then {#frame e#} else {#})"

lemma uframes_simps [simp]:
  "uframes [] = []" "uframes (e # es) = (if is_user e then frame e # uframes es else uframes es)"
  "uframes (as @ bs) = uframes as @ uframes bs"
  by (simp_all add: uframes_def)

lemma mset_uframes: "mset (uframes es) = (\<Sum>e\<leftarrow>es. entry_mset e)"
  by (induction es) (auto simp: entry_mset_def)

lemma in_uframes: "f \<in> set (uframes es) \<longleftrightarrow> (\<exists>e \<in> set es. is_user e \<and> frame e = f)"
  by (auto simp: uframes_def)

lemma uframes_update:
  assumes "i < length es"
  shows "mset (uframes (es[i := e])) + entry_mset (es ! i) = mset (uframes es) + entry_mset e"
proof -
  have s: "es = take i es @ es ! i # drop (Suc i) es" using assms by (rule id_take_nth_drop)
  have u: "es[i := e] = take i es @ e # drop (Suc i) es" using assms by (rule upd_conv_take_nth_drop)
  have "mset (uframes (take i es @ e # drop (Suc i) es)) + entry_mset (es ! i) =
      mset (uframes (take i es @ es ! i # drop (Suc i) es)) + entry_mset e"
    by (simp add: entry_mset_def)
  then show ?thesis unfolding u [symmetric] s [symmetric] .
qed

lemma mappings_Cons [simp]: "mappings (p # us) sl = mset (uframes (sl p)) + mappings us sl"
  by (simp add: mappings_def)

lemma mappings_other: "p \<notin> set us \<Longrightarrow> mappings us (sl(p := es)) = mappings us sl"
  unfolding mappings_def by (auto intro!: arg_cong [where f = "\<lambda>xs. mset (concat xs)"])

lemma mappings_update:
  assumes "distinct us" "p \<in> set us" "i < length (sl p)"
  shows "mappings us (sl(p := (sl p)[i := e])) + entry_mset (sl p ! i) = mappings us sl + entry_mset e"
  using assms(1,2)
proof (induction us)
  case (Cons q us)
  show ?case
  proof (cases "q = p")
    case True
    with Cons have "p \<notin> set us" by auto
    with True have "mappings (q # us) (sl(p := (sl p)[i := e])) + entry_mset (sl p ! i) =
        (mset (uframes ((sl p)[i := e])) + entry_mset (sl p ! i)) + mappings us sl"
      by (simp add: mappings_other ac_simps)
    also have "\<dots> = mappings (q # us) sl + entry_mset e"
      unfolding uframes_update [OF assms(3)] using True by (simp add: ac_simps)
    finally show ?thesis .
  next
    case False
    with Cons show ?thesis by (auto simp: add.assoc)
  qed
qed simp

lemma in_mappings: "f \<in># mappings us sl \<longleftrightarrow> (\<exists>p \<in> set us. \<exists>e \<in> set (sl p). is_user e \<and> frame e = f)"
  by (auto simp: mappings_def in_uframes)

text \<open>A space maps a frame at most once, so a count is the number of spaces that map the frame.\<close>

lemma count_spaces:
  assumes "\<forall>p \<in> set us. distinct (uframes (sl p))"
  shows "count (mappings us sl) f = length (filter (\<lambda>p. f \<in> set (uframes (sl p))) us)"
  using assms
proof (induction us)
  case (Cons p us)
  have "count (mset (uframes (sl p))) f = (if f \<in> set (uframes (sl p)) then 1 else 0)"
    using Cons.prems by (simp add: distinct_count_atmost_1 count_eq_zero_iff)
  with Cons show ?case by simp
qed (simp add: mappings_def)

lemma count_le:
  assumes "\<forall>p \<in> set us. distinct (uframes (sl p))"
  shows "count (mappings us sl) f \<le> length us"
  unfolding count_spaces [OF assms] by simp

lemma counts_okD:
  assumes "counts_ok us sl pr"
  shows "length pr = FRAME_COUNT" "distinct us" "unat f < FRAME_COUNT \<Longrightarrow> unat (pr ! unat f) = count (mappings us sl) f - 1"
    "\<forall>p \<in> set us. distinct (uframes (sl p))"
  using assms by (simp_all add: counts_ok_def)

lemma private_okD:
  assumes "private_ok us sl" "p \<in> set us" "e \<in> set (sl p)" "is_user e"
  shows "rw e \<Longrightarrow> \<not> shared e \<Longrightarrow> count (mappings us sl) (frame e) = 1" "shared e \<Longrightarrow> rw e"
    "shared e \<Longrightarrow> q \<in> set us \<Longrightarrow> d \<in> set (sl q) \<Longrightarrow> is_user d \<Longrightarrow> frame d = frame e \<Longrightarrow> shared d"
  using assms unfolding private_ok_def by blast+

lemma count_pos: "q \<in> set us \<Longrightarrow> d \<in> set (sl q) \<Longrightarrow> is_user d \<Longrightarrow> 0 < count (mappings us sl) (frame d)"
  using in_mappings [of "frame d" us sl] by (auto simp: count_greater_zero_iff)

lemma uframes_inj:
  assumes d: "distinct (uframes es)" and i: "i < length es" "is_user (es ! i)" and j: "j < length es" "is_user (es ! j)"
    and eq: "frame (es ! i) = frame (es ! j)"
  shows "i = j"
proof (rule ccontr)
  assume "i \<noteq> j"
  let ?f = "frame (es ! i)" and ?es = "es[i := zero_entry]"
  have "count (mset (uframes es)) ?f \<le> 1" using d by (simp add: distinct_count_atmost_1)
  moreover have "mset (uframes ?es) + entry_mset (es ! i) = mset (uframes es) + entry_mset zero_entry" by (rule uframes_update [OF i(1)])
  then have "count (mset (uframes ?es) + entry_mset (es ! i)) ?f = count (mset (uframes es) + entry_mset zero_entry) ?f" by (rule arg_cong)
  then have "count (mset (uframes ?es)) ?f + 1 = count (mset (uframes es)) ?f"
    using i(2) by (simp add: entry_mset_def is_user_def zero_entry_def)
  moreover have "?es ! j = es ! j" "j < length ?es" using \<open>i \<noteq> j\<close> j(1) by simp_all
  then have "?f \<in> set (uframes ?es)" using j(2) eq unfolding in_uframes by (metis nth_mem)
  then have "0 < count (mset (uframes ?es)) ?f" by (simp only: count_greater_zero_iff set_mset_mset)
  ultimately show False by linarith
qed

text \<open>The only mapping of a frame.\<close>

lemma sole_mapping:
  assumes c: "counts_ok us sl pr" and one: "count (mappings us sl) f = 1"
    and p: "p \<in> set us" "i < length (sl p)" "is_user (sl p ! i)" "frame (sl p ! i) = f"
    and q: "q \<in> set us" "j < length (sl q)" "is_user (sl q ! j)" "frame (sl q ! j) = f"
  shows "q = p \<and> j = i"
proof -
  note D = counts_okD [OF c]
  have "f \<in> set (uframes (sl p))" "f \<in> set (uframes (sl q))" using p q by (auto simp: in_uframes)
  then have "{p, q} \<subseteq> set (filter (\<lambda>p. f \<in> set (uframes (sl p))) us)" using p(1) q(1) by simp
  moreover have "length (filter (\<lambda>p. f \<in> set (uframes (sl p))) us) = 1" using one count_spaces [OF D(4)] by simp
  then obtain y where "filter (\<lambda>p. f \<in> set (uframes (sl p))) us = [y]" by (auto simp: length_Suc_conv)
  ultimately have "q = p" by (simp only: list.set) blast
  moreover have "j = i" using uframes_inj [of "sl p" j i] D(4) p q \<open>q = p\<close> by simp
  ultimately show ?thesis ..
qed

text \<open>A frame is read-only to all who map it, or shared memory to all.\<close>

lemma same_rights:
  assumes c: "counts_ok us sl pr" and pv: "private_ok us sl" and p: "p \<in> set us" "i < length (sl p)" "is_user (sl p ! i)" "shared (sl p ! i) = rw (sl p ! i)"
    and q: "q \<in> set us" "d \<in> set (sl q)" "is_user d" "frame d = frame (sl p ! i)"
  shows "shared d = shared (sl p ! i) \<and> rw d = rw (sl p ! i)"
proof (cases "shared (sl p ! i)")
  case True
  from private_okD(3) [OF pv p(1) nth_mem [OF p(2)] p(3) True q] have "shared d" .
  with private_okD(2) [OF pv q(1-3)] True p(4) show ?thesis by simp
next
  case False
  then have ns: "\<not> shared d" using private_okD(3) [OF pv q(1-3) _ p(1) nth_mem [OF p(2)] p(3)] q(4) by auto
  obtain j where j: "j < length (sl q)" "sl q ! j = d" using q(2) by (auto simp: in_set_conv_nth)
  have "\<not> rw d"
  proof
    assume "rw d"
    then have "count (mappings us sl) (frame d) = 1" using private_okD(1) [OF pv q(1-3)] ns by simp
    from sole_mapping [OF c this p(1-3) q(4) [symmetric] q(1) j(1)] j(2) q(3) have "q = p \<and> j = i" by simp
    with j(2) \<open>rw d\<close> False p(4) show False by simp
  qed
  with ns False p(4) show ?thesis by simp
qed

subsection \<open>Changes of one entry\<close>

lemma count_entry [simp]: "count (entry_mset e) f = (if is_user e \<and> frame e = f then 1 else 0)"
  by (simp add: entry_mset_def)

lemma count_update:
  assumes "distinct us" "p \<in> set us" "i < length (sl p)"
  shows "count (mappings us (sl(p := (sl p)[i := e]))) f + (if is_user (sl p ! i) \<and> frame (sl p ! i) = f then 1 else 0) =
    count (mappings us sl) f + (if is_user e \<and> frame e = f then 1 else 0)"
proof -
  have "count (mappings us (sl(p := (sl p)[i := e])) + entry_mset (sl p ! i)) f = count (mappings us sl + entry_mset e) f"
    using mappings_update [of us p i sl e, OF assms] by (rule arg_cong)
  then show ?thesis by (simp only: count_union count_entry)
qed

lemma distinct_iff_count: "distinct xs \<longleftrightarrow> (\<forall>x. count (mset xs) x \<le> 1)"
proof
  assume "\<forall>x. count (mset xs) x \<le> 1"
  then show "distinct xs"
  proof (induction xs)
    case (Cons a xs)
    from Cons.prems have "count (mset xs) a = 0" by (auto dest: spec [of _ a])
    moreover have "\<forall>x. count (mset xs) x \<le> 1"
    proof
      fix x
      have "count (mset xs) x \<le> count (mset (a # xs)) x" by simp
      also have "\<dots> \<le> 1" using Cons.prems by blast
      finally show "count (mset xs) x \<le> 1" .
    qed
    ultimately show ?case using Cons.IH by (simp add: count_eq_zero_iff)
  qed simp
qed (auto simp: distinct_count_atmost_1)

lemma distinct_update:
  assumes d: "distinct (uframes es)" and i: "i < length es"
    and e: "is_user e \<Longrightarrow> frame e \<notin> set (uframes es) \<or> is_user (es ! i) \<and> frame (es ! i) = frame e"
  shows "distinct (uframes (es[i := e]))"
  unfolding distinct_iff_count
proof
  fix f
  have "count (mset (uframes (es[i := e])) + entry_mset (es ! i)) f = count (mset (uframes es) + entry_mset e) f"
    using uframes_update [OF i] by (rule arg_cong)
  then have c: "count (mset (uframes (es[i := e]))) f + (if is_user (es ! i) \<and> frame (es ! i) = f then 1 else 0) =
      count (mset (uframes es)) f + (if is_user e \<and> frame e = f then 1 else 0)" by (simp only: count_union count_entry)
  have "count (mset (uframes es)) f \<le> 1" using d by (simp add: distinct_iff_count)
  moreover have "is_user e \<Longrightarrow> frame e = f \<Longrightarrow> f \<notin> set (uframes es) \<Longrightarrow> count (mset (uframes es)) f = 0"
    by (simp add: count_eq_zero_iff)
  ultimately show "count (mset (uframes (es[i := e]))) f \<le> 1" using c e by (auto split: if_splits)
qed

lemma update_mem:
  "d \<in> set ((sl(p := (sl p)[i := e])) q) \<Longrightarrow> d \<in> set (sl q) \<or> d = e \<and> q = p"
  by (cases "q = p") (auto dest: subsetD [OF set_update_subset_insert])

lemma distinct_all_update:
  assumes "\<forall>p \<in> set us. distinct (uframes (sl p))" "i < length (sl p)"
    and "p \<in> set us \<Longrightarrow> is_user e \<Longrightarrow> frame e \<notin> set (uframes (sl p)) \<or> is_user (sl p ! i) \<and> frame (sl p ! i) = frame e"
  shows "\<forall>q \<in> set us. distinct (uframes ((sl(p := (sl p)[i := e])) q))"
  using assms distinct_update [of "sl p" i e] by auto

text \<open>A new mapping of a frame that was not mapped.\<close>

lemma fresh_ok:
  assumes c: "counts_ok us sl pr" and pv: "private_ok us sl" and p: "p \<in> set us" "i < length (sl p)" "\<not> is_user (sl p ! i)"
    and e: "is_user e" "rw e" "frame e \<notin># mappings us sl"
  shows "counts_ok us (sl(p := (sl p)[i := e])) pr" "private_ok us (sl(p := (sl p)[i := e]))"
proof -
  note D = counts_okD [OF c]
  let ?sl = "sl(p := (sl p)[i := e])"
  have cnt: "count (mappings us ?sl) f = count (mappings us sl) f + (if frame e = f then 1 else 0)" for f
    using count_update [of us p i sl e f, OF D(2) p(1,2)] p(3) e(1) by simp
  have zero: "count (mappings us sl) (frame e) = 0" using e(3) by (simp add: not_in_iff)
  have "frame e \<notin> set (uframes (sl p))" using e(3) p(1) in_mappings by (auto simp: in_uframes)
  then have "\<forall>q \<in> set us. distinct (uframes (?sl q))" using distinct_all_update [OF D(4) p(2)] by blast
  then show "counts_ok us ?sl pr" using c zero by (auto simp: counts_ok_def cnt simp del: fun_upd_apply)
  show "private_ok us ?sl"
    unfolding private_ok_def
  proof (intro ballI impI)
    fix q d assume q: "q \<in> set us" "d \<in> set (?sl q)" and d: "is_user d"
    from update_mem [OF q(2)] consider "d \<in> set (sl q)" | "d = e" by blast
    then show "(rw d \<and> \<not> shared d \<longrightarrow> count (mappings us ?sl) (frame d) = 1) \<and>
      (shared d \<longrightarrow> rw d \<and> (\<forall>q \<in> set us. \<forall>d' \<in> set (?sl q). is_user d' \<longrightarrow> frame d' = frame d \<longrightarrow> shared d'))"
    proof cases
      case 1
      then have "frame d \<noteq> frame e" using count_pos [of q us d sl, OF q(1) 1 d] zero by (metis less_not_refl)
      with private_okD [OF pv q(1) 1 d] show ?thesis by (auto simp: cnt dest!: update_mem simp del: fun_upd_apply)
    next
      case 2
      have "shared d'" if "shared e" "r \<in> set us" "d' \<in> set (?sl r)" "is_user d'" "frame d' = frame e" for r d'
        using update_mem [OF that(3)] count_pos [of r us d' sl, OF that(2) _ that(4)] zero that(1,5) by (metis less_not_refl)
      with 2 e(2) zero show ?thesis by (auto simp: cnt)
    qed
  qed
qed

text \<open>The count after a release; \<open>last\<close> says that the frame is no longer mapped.\<close>

definition released :: "u32 \<Rightarrow> u16 list \<Rightarrow> u16 list" where
  "released f pr = (if pr ! unat f > 0 then pr[unat f := pr ! unat f - 1] else pr)"

lemma drop_ok:
  assumes c: "counts_ok us sl pr" and pv: "private_ok us sl" and p: "p \<in> set us" "i < length (sl p)" "is_user (sl p ! i)"
    and e: "\<not> is_user e" and small: "unat (frame (sl p ! i)) < FRAME_COUNT"
  shows "counts_ok us (sl(p := (sl p)[i := e])) (released (frame (sl p ! i)) pr)" "private_ok us (sl(p := (sl p)[i := e]))"
    "pr ! unat (frame (sl p ! i)) = 0 \<longleftrightarrow> frame (sl p ! i) \<notin># mappings us (sl(p := (sl p)[i := e]))"
    "mappings us sl = add_mset (frame (sl p ! i)) (mappings us (sl(p := (sl p)[i := e])))"
proof -
  note D = counts_okD [OF c]
  let ?sl = "sl(p := (sl p)[i := e])" and ?f = "frame (sl p ! i)"
  have cnt: "count (mappings us sl) f = count (mappings us ?sl) f + (if ?f = f then 1 else 0)" for f
    using count_update [of us p i sl e f, OF D(2) p(1,2)] p(3) e by simp
  then show add: "mappings us sl = add_mset ?f (mappings us ?sl)" by (intro multiset_eqI) simp
  have pr: "unat (pr ! unat ?f) = count (mappings us ?sl) ?f" using D(3) [OF small] cnt [of ?f] by simp
  have "pr ! unat ?f = 0 \<longleftrightarrow> unat (pr ! unat ?f) = 0" by (simp add: unat_eq_0)
  then show "pr ! unat ?f = 0 \<longleftrightarrow> ?f \<notin># mappings us ?sl" using pr by (simp add: not_in_iff)
  have "unat (released ?f pr ! unat g) = count (mappings us ?sl) g - 1" if g: "unat g < FRAME_COUNT" for g
  proof (cases "g = ?f")
    case True
    show ?thesis
    proof (cases "pr ! unat ?f > 0")
      case pos: True
      then have "unat (pr ! unat ?f - 1) = unat (pr ! unat ?f) - 1" by (simp add: unat_minus_one word_neq_0_conv)
      with True pos pr D(1) small show ?thesis by (simp add: released_def)
    next
      case False
      then have "pr ! unat ?f = 0" by (simp add: word_gt_0)
      with True False pr show ?thesis by (simp add: released_def)
    qed
  next
    case False
    then have "unat g \<noteq> unat ?f" by (simp add: word_unat_eq_iff)
    with False D(3) [OF g] cnt [of g] show ?thesis by (simp add: released_def)
  qed
  moreover have "\<forall>q \<in> set us. distinct (uframes (?sl q))" using distinct_all_update [OF D(4) p(2)] e by blast
  ultimately show "counts_ok us ?sl (released ?f pr)" using D(1,2) by (simp add: counts_ok_def released_def)
  show "private_ok us ?sl"
    unfolding private_ok_def
  proof (intro ballI impI)
    fix q d assume q: "q \<in> set us" "d \<in> set (?sl q)" and d: "is_user d"
    have dm: "d \<in> set (sl q)" using update_mem [OF q(2)] d e by auto
    have "count (mappings us sl) (frame d) = 1 \<Longrightarrow> count (mappings us ?sl) (frame d) = 1"
      using count_pos [of q us d ?sl, OF q d] cnt [of "frame d"] by linarith
    moreover have "d' \<in> set (sl r)" if "d' \<in> set (?sl r)" "is_user d'" for d' r using update_mem [OF that(1)] that(2) e by auto
    ultimately show "(rw d \<and> \<not> shared d \<longrightarrow> count (mappings us ?sl) (frame d) = 1) \<and>
      (shared d \<longrightarrow> rw d \<and> (\<forall>q \<in> set us. \<forall>d' \<in> set (?sl q). is_user d' \<longrightarrow> frame d' = frame d \<longrightarrow> shared d'))"
      using private_okD [OF pv q(1) dm d] by blast
  qed
qed

text \<open>Another access right to the same frame.\<close>

lemma rights_ok:
  assumes c: "counts_ok us sl pr" and pv: "private_ok us sl" and p: "p \<in> set us" "i < length (sl p)"
    and e: "is_user e = is_user (sl p ! i)" "frame e = frame (sl p ! i)" "shared e = shared (sl p ! i)"
      "is_user e \<Longrightarrow> rw e \<Longrightarrow> \<not> shared e \<Longrightarrow> count (mappings us sl) (frame e) = 1" "is_user e \<Longrightarrow> shared e \<Longrightarrow> rw e"
  shows "counts_ok us (sl(p := (sl p)[i := e])) pr" "private_ok us (sl(p := (sl p)[i := e]))"
    "mappings us (sl(p := (sl p)[i := e])) = mappings us sl"
proof -
  note D = counts_okD [OF c]
  let ?sl = "sl(p := (sl p)[i := e])"
  have "count (mappings us ?sl) f = count (mappings us sl) f" for f
    using count_update [of us p i sl e f, OF D(2) p] e(1,2) by simp
  then show m: "mappings us ?sl = mappings us sl" by (rule multiset_eqI)
  have "\<forall>q \<in> set us. distinct (uframes (?sl q))" using distinct_all_update [OF D(4) p(2), of e] e(1,2) by auto
  then show "counts_ok us ?sl pr" using D(1-3) unfolding counts_ok_def m by blast
  have old: "sl p ! i \<in> set (sl p)" using p(2) by simp
  have sh: "shared d'" if s: "\<exists>r \<in> set us. \<exists>a \<in> set (sl r). is_user a \<and> shared a \<and> frame a = frame d'" and r: "r \<in> set us" "d' \<in> set (?sl r)" "is_user d'" for r d'
  proof -
    obtain u a where a: "u \<in> set us" "a \<in> set (sl u)" "is_user a" "shared a" "frame a = frame d'" using s by blast
    from update_mem [OF r(2)] show ?thesis
    proof
      assume "d' \<in> set (sl r)"
      then show ?thesis using private_okD(3) [OF pv a(1-4) r(1) _ r(3)] a(5) by simp
    next
      assume d: "d' = e \<and> r = p"
      then show ?thesis using private_okD(3) [OF pv a(1-4) p(1) old] a(5) r(3) e(1-3) by simp
    qed
  qed
  show "private_ok us ?sl"
    unfolding private_ok_def m
  proof (intro ballI impI)
    fix q d assume q: "q \<in> set us" "d \<in> set (?sl q)" and d: "is_user d"
    have all: "shared d \<Longrightarrow> \<forall>q \<in> set us. \<forall>d' \<in> set (?sl q). is_user d' \<longrightarrow> frame d' = frame d \<longrightarrow> shared d'"
    proof (intro ballI impI)
      fix r d' assume s: "shared d" and r: "r \<in> set us" "d' \<in> set (?sl r)" "is_user d'" "frame d' = frame d"
      have "\<exists>r \<in> set us. \<exists>a \<in> set (sl r). is_user a \<and> shared a \<and> frame a = frame d'"
        using update_mem [OF q(2)] q(1) d s r(4) old p(1) e(1-3) by metis
      from sh [OF this r(1-3)] show "shared d'" .
    qed
    from update_mem [OF q(2)] show "(rw d \<and> \<not> shared d \<longrightarrow> count (mappings us sl) (frame d) = 1) \<and>
      (shared d \<longrightarrow> rw d \<and> (\<forall>q \<in> set us. \<forall>d' \<in> set (?sl q). is_user d' \<longrightarrow> frame d' = frame d \<longrightarrow> shared d'))"
    proof
      assume "d \<in> set (sl q)"
      from private_okD(1,2) [OF pv q(1) this d] all show ?thesis by blast
    next
      assume "d = e \<and> q = p"
      with e(4,5) d all show ?thesis by blast
    qed
  qed
qed

text \<open>One more space maps a frame that all its users see read-only or all see as shared memory.\<close>

lemma share_ok:
  assumes c: "counts_ok us sl pr" and pv: "private_ok us sl" and few: "length us < 65536"
    and p: "p \<in> set us" "i < length (sl p)" "\<not> is_user (sl p ! i)"
    and e: "is_user e" "shared e = rw e" "frame e \<notin> set (uframes (sl p))" "frame e \<in># mappings us sl" "unat (frame e) < FRAME_COUNT"
    and all: "\<And>q d. q \<in> set us \<Longrightarrow> d \<in> set (sl q) \<Longrightarrow> is_user d \<Longrightarrow> frame d = frame e \<Longrightarrow> shared d = shared e \<and> rw d = rw e"
  defines "n \<equiv> unat (frame e)"
  shows "counts_ok us (sl(p := (sl p)[i := e])) (pr[n := pr ! n + 1])" "private_ok us (sl(p := (sl p)[i := e]))"
    "mappings us (sl(p := (sl p)[i := e])) = add_mset (frame e) (mappings us sl)"
proof -
  note D = counts_okD [OF c]
  let ?sl = "sl(p := (sl p)[i := e])"
  have cnt: "count (mappings us ?sl) f = count (mappings us sl) f + (if frame e = f then 1 else 0)" for f
    using count_update [of us p i sl e f, OF D(2) p(1,2)] p(3) e(1) by simp
  then show "mappings us ?sl = add_mset (frame e) (mappings us sl)" by (intro multiset_eqI) simp
  have dis: "\<forall>q \<in> set us. distinct (uframes (?sl q))" using distinct_all_update [OF D(4) p(2)] e(3) by blast
  have pos: "0 < count (mappings us sl) (frame e)" using e(4) by (simp only: count_greater_zero_iff)
  have old: "unat (pr ! n) = count (mappings us sl) (frame e) - 1" using D(3) [OF e(5)] by (simp add: n_def)
  have "count (mappings us sl) (frame e) \<le> length us" by (rule count_le [OF D(4)])
  then have "unat (pr ! n) + 1 < 2 ^ 16" using old few by simp
  then have new: "unat (pr ! n + 1) = count (mappings us sl) (frame e)" using old pos by (simp add: unat_word_ariths)
  have "unat ((pr[n := pr ! n + 1]) ! unat g) = count (mappings us ?sl) g - 1" if g: "unat g < FRAME_COUNT" for g
  proof (cases "g = frame e")
    case True
    then show ?thesis using new D(1) g by (simp add: n_def cnt)
  next
    case False
    then have "unat g \<noteq> n" by (simp add: n_def word_unat_eq_iff)
    with False D(3) [OF g] show ?thesis by (simp add: cnt)
  qed
  with D(1,2) dis show "counts_ok us ?sl (pr[n := pr ! n + 1])" by (simp add: counts_ok_def)
  show "private_ok us ?sl"
    unfolding private_ok_def
  proof (intro ballI impI)
    fix q d assume q: "q \<in> set us" "d \<in> set (?sl q)" and d: "is_user d"
    show "(rw d \<and> \<not> shared d \<longrightarrow> count (mappings us ?sl) (frame d) = 1) \<and>
      (shared d \<longrightarrow> rw d \<and> (\<forall>q \<in> set us. \<forall>d' \<in> set (?sl q). is_user d' \<longrightarrow> frame d' = frame d \<longrightarrow> shared d'))"
    proof (cases "frame d = frame e")
      case True
      have same: "shared d' = shared e \<and> rw d' = rw e" if "r \<in> set us" "d' \<in> set (?sl r)" "is_user d'" "frame d' = frame e" for r d'
        using update_mem [OF that(2)] all [OF that(1) _ that(3,4)] by blast
      from same [OF q d True] same e(2) True show ?thesis by metis
    next
      case False
      then have dm: "d \<in> set (sl q)" using update_mem [OF q(2)] by auto
      have "d' \<in> set (sl r)" if "d' \<in> set (?sl r)" "frame d' = frame d" for d' r using update_mem [OF that(1)] that(2) False by auto
      with private_okD [OF pv q(1) dm d] False show ?thesis by (simp add: cnt del: fun_upd_apply)
    qed
  qed
qed

end
