(* ===== verification/Paging_Inv.thy ===== *)
theory Paging_Inv
  imports Paging_Refs
begin

text \<open>
  What keeps address spaces apart: the sharing counts agree with the page tables, and every frame has
  one owner, be it the kernel, the kernel heap, the paging structures or user data. The lemmas lift
  the changes of one entry to the operations of the paging code.
\<close>

section \<open>The invariant\<close>

text \<open>The entries of a space: the low 4 MB, then the region of \<open>mmap\<close>.\<close>

definition slots :: "paging \<Rightarrow> ptr \<Rightarrow> page_entry list" where
  "slots st p = (case address_spaces st p of None \<Rightarrow> []
     | Some a \<Rightarrow> the (page_tables st (as_first_table a)) @ the (page_tables st (as_ext_table a)))"

definition slot_ref :: "address_space \<Rightarrow> nat \<Rightarrow> pte_ref" where
  "slot_ref a i = (if i < 1024 then (as_first_table a, i) else (as_ext_table a, i - 1024))"

definition space_structs :: "paging \<Rightarrow> ptr \<Rightarrow> ptr list" where
  "space_structs st p = (case address_spaces st p of None \<Rightarrow> []
     | Some a \<Rightarrow> [as_directory a, as_first_table a, as_ext_table a])"

definition structs :: "paging \<Rightarrow> ptr list \<Rightarrow> ptr list" where
  "structs st us = concat (map (space_structs st) us)"

definition frame_no :: "ptr \<Rightarrow> nat" where
  "frame_no p = unat p div 4096"

definition kernel_frames :: "paging \<Rightarrow> nat set" where
  "kernel_frames st = frame_no ` ({kernel_directory st, kernel_space_at st} \<union> (\<lambda>i. kernel_table_at i st) ` {..<KERNEL_IDENTITY_TABLES})"

definition kernel_ok :: "paging \<Rightarrow> bool" where
  "kernel_ok st \<longleftrightarrow> kernel_space_at st \<noteq> NULL \<and> kernel_directory st \<noteq> NULL \<and> kernel_table_at 0 st \<noteq> NULL \<and>
     address_spaces st (kernel_space_at st) = Some \<lparr>as_directory = kernel_directory st,
       as_first_table = kernel_table_at 0 st, as_ext_table = NULL, as_owns_tables = False\<rparr> \<and>
     page_tables st (kernel_table_at 0 st) = Some (kernel_table 0) \<and>
     (\<exists>kd. page_directories st (kernel_directory st) = Some kd \<and> length kd = 1024)"

definition space_ok :: "paging \<Rightarrow> ptr \<Rightarrow> bool" where
  "space_ok st p \<longleftrightarrow> (\<exists>a t x d. address_spaces st p = Some a \<and> as_owns_tables a \<and>
     page_tables st (as_first_table a) = Some t \<and> length t = 1024 \<and>
     page_tables st (as_ext_table a) = Some x \<and> length x = 1024 \<and>
     page_directories st (as_directory a) = Some d \<and> length d = 1024)"

definition spaces_ok :: "paging \<Rightarrow> ptr list \<Rightarrow> bool" where
  "spaces_ok st us \<longleftrightarrow> NULL \<notin> set us \<and> dom (address_spaces st) = insert (kernel_space_at st) (set us) \<and>
     (\<forall>p \<in> set us. space_ok st p) \<and> distinct (structs st us) \<and>
     (\<forall>q \<in> set (structs st us). q \<noteq> NULL \<and> unat q mod 4096 = 0)"

definition mapped :: "paging \<Rightarrow> ptr list \<Rightarrow> nat set" where
  "mapped st us = unat ` set_mset (mappings us (slots st))"

text \<open>Everybody's frames are marked used, and no frame has two owners.\<close>

definition frames_ok :: "paging \<Rightarrow> ptr list \<Rightarrow> bool" where
  "frames_ok st us \<longleftrightarrow>
     frame_no ` set (structs st us) \<subseteq> frames_used (heap_pmm (pg_heap st)) \<and>
     mapped st us \<subseteq> frames_used (heap_pmm (pg_heap st)) \<and> kernel_frames st \<subseteq> frames_used (heap_pmm (pg_heap st)) \<and>
     frame_no ` set (structs st us) \<inter> mapped st us = {} \<and> 0 \<notin> mapped st us \<and>
     heap_frames (pg_heap st) \<inter> (frame_no ` set (structs st us) \<union> mapped st us) = {} \<and>
     kernel_frames st \<inter> (frame_no ` set (structs st us) \<union> mapped st us \<union> heap_frames (pg_heap st)) = {}"

definition paging_inv :: "paging \<Rightarrow> ptr list \<Rightarrow> bool" where
  "paging_inv st us \<longleftrightarrow> heap_inv (pg_heap st) \<and> set us \<subseteq> fst ` heap_live (pg_heap st) \<and> kernel_ok st \<and>
     kernel_space_at st \<notin> set us \<and> spaces_ok st us \<and> frames_ok st us \<and>
     counts_ok us (slots st) (page_ref st) \<and> private_ok us (slots st) \<and>
     (\<forall>f \<in># mappings us (slots st). length (frame_data st f) = 4096)"

lemma paging_invD:
  assumes "paging_inv st us"
  shows "heap_inv (pg_heap st)" "set us \<subseteq> fst ` heap_live (pg_heap st)" "kernel_ok st" "kernel_space_at st \<notin> set us"
    "spaces_ok st us" "frames_ok st us" "counts_ok us (slots st) (page_ref st)" "private_ok us (slots st)"
    "f \<in># mappings us (slots st) \<Longrightarrow> length (frame_data st f) = 4096" "distinct us"
  using assms counts_okD(2) by (auto simp: paging_inv_def)

lemma spaceD:
  assumes "paging_inv st us" "p \<in> set us"
  obtains a t x d where "address_spaces st p = Some a" "as_owns_tables a" "p \<noteq> NULL"
    "page_tables st (as_first_table a) = Some t" "length t = 1024"
    "page_tables st (as_ext_table a) = Some x" "length x = 1024" "slots st p = t @ x"
    "page_directories st (as_directory a) = Some d" "length d = 1024"
    "{as_directory a, as_first_table a, as_ext_table a} \<subseteq> set (structs st us)"
proof -
  have s: "space_ok st p" "p \<noteq> NULL" using paging_invD(5) [OF assms(1)] assms(2) by (auto simp: spaces_ok_def)
  then obtain a t x d where a: "address_spaces st p = Some a" "as_owns_tables a"
    "page_tables st (as_first_table a) = Some t" "length t = 1024"
    "page_tables st (as_ext_table a) = Some x" "length x = 1024"
    "page_directories st (as_directory a) = Some d" "length d = 1024" by (auto simp: space_ok_def)
  have "set (space_structs st p) \<subseteq> set (structs st us)" using assms(2) by (auto simp: structs_def)
  with a s show ?thesis by (intro that [of a t x d]) (simp_all add: slots_def space_structs_def)
qed

lemma slots_length: "paging_inv st us \<Longrightarrow> p \<in> set us \<Longrightarrow> length (slots st p) = 2048"
  by (metis (no_types, lifting) spaceD length_append numeral_Bit0)

text \<open>There are fewer spaces than frames, so the 16-bit counts never overflow.\<close>

lemma structs_frames_inj:
  assumes "spaces_ok st us"
  shows "inj_on frame_no (set (structs st us))"
proof (rule inj_onI)
  fix p q assume "p \<in> set (structs st us)" "q \<in> set (structs st us)" "frame_no p = frame_no q"
  with assms have "unat p mod 4096 = 0" "unat q mod 4096 = 0" "unat p div 4096 = unat q div 4096"
    by (auto simp: spaces_ok_def frame_no_def)
  then have "unat p = unat q" by (metis div_mult_mod_eq)
  then show "p = q" by (simp add: word_unat_eq_iff)
qed

lemma structs_length:
  assumes "\<forall>p \<in> set us. space_ok st p"
  shows "length (structs st us) = 3 * length us"
  using assms by (induction us) (auto simp: structs_def space_structs_def space_ok_def)

lemma few_spaces:
  assumes "paging_inv st us"
  shows "length us < 65536"
proof -
  note D = paging_invD [OF assms]
  have pm: "pmm_inv (heap_pmm (pg_heap st))" using D(1) heap_blocksD(4) by (auto simp: heap_inv_def)
  have "3 * length us = card (set (structs st us))"
    using D(5) structs_length [of us st] by (simp add: spaces_ok_def distinct_card)
  also have "\<dots> = card (frame_no ` set (structs st us))"
    using structs_frames_inj [OF D(5)] by (simp add: card_image)
  also have "\<dots> \<le> card (frames_used (heap_pmm (pg_heap st)))"
    using D(6) by (intro card_mono) (auto simp: frames_ok_def)
  also have "\<dots> \<le> 8192"
    using card_frames_used_le [of "heap_pmm (pg_heap st)"] pmm.limit_bound [OF pm] by (simp add: PMM_MAX_BLOCKS_def)
  finally show ?thesis by simp
qed

subsection \<open>Reading and writing entries\<close>

text \<open>The number of the entry behind a user address.\<close>

definition vslot :: "u32 \<Rightarrow> nat option" where
  "vslot vaddr = (if vaddr < 0x400000 then Some (unat (drop_bit 12 vaddr))
     else if vaddr \<ge> USER_EXT_BASE \<and> vaddr < USER_EXT_TOP then Some (1024 + unat (drop_bit 12 (vaddr - USER_EXT_BASE)))
     else None)"

lemma unat_page: "unat (drop_bit 12 v) = unat v div 4096" for v :: u32
  by (simp add: drop_bit_eq_div unat_div)

lemma vslot_bound: "vslot vaddr = Some i \<Longrightarrow> i < 2048"
proof -
  assume v: "vslot vaddr = Some i"
  have "unat (vaddr - USER_EXT_BASE) < 4194304" if "vaddr \<ge> USER_EXT_BASE" "vaddr < USER_EXT_TOP"
    using that by (simp add: unat_sub USER_EXT_BASE_def USER_EXT_TOP_def word_le_nat_alt word_less_nat_alt)
  with v show ?thesis
    by (auto simp: vslot_def unat_page word_less_nat_alt div_less_iff_less_mult split: if_splits)
qed

lemma user_pte_slot:
  assumes inv: "paging_inv st us" and p: "p \<in> set us" and a: "address_spaces st p = Some a"
  shows "user_pte p vaddr st = Some (map_option (slot_ref a) (vslot vaddr))"
proof -
  obtain b where b: "address_spaces st p = Some b" "p \<noteq> NULL" "{as_directory b, as_first_table b, as_ext_table b} \<subseteq> set (structs st us)"
    using spaceD [OF inv p] by metis
  with a paging_invD(5) [OF inv] have nn: "as_first_table a \<noteq> NULL" "as_ext_table a \<noteq> NULL" by (auto simp: spaces_ok_def)
  have low: "unat (drop_bit 12 vaddr) < 1024" if "vaddr < 0x400000"
    using that by (simp add: unat_page word_less_nat_alt div_less_iff_less_mult)
  show ?thesis
    using a nn b(2) low by (auto simp: user_pte_def vslot_def slot_ref_def)
qed

definition set_slot :: "pte_ref \<Rightarrow> page_entry \<Rightarrow> paging \<Rightarrow> paging" where
  "set_slot r e st = st\<lparr>page_tables := (page_tables st)(fst r \<mapsto> (the (page_tables st (fst r)))[snd r := e])\<rparr>"

lemma set_slot_simps [simp]:
  "address_spaces (set_slot r e st) = address_spaces st" "page_directories (set_slot r e st) = page_directories st"
  "frame_data (set_slot r e st) = frame_data st" "page_ref (set_slot r e st) = page_ref st" "pg_heap (set_slot r e st) = pg_heap st"
  "pg_active (set_slot r e st) = pg_active st" "kernel_space_at (set_slot r e st) = kernel_space_at st"
  "kernel_directory (set_slot r e st) = kernel_directory st" "kernel_tables (set_slot r e st) = kernel_tables st"
  "tlb (set_slot r e st) = tlb st" "cr3 (set_slot r e st) = cr3 st" "user_space_count (set_slot r e st) = user_space_count st"
  by (simp_all add: set_slot_def)

lemma slot_access:
  assumes inv: "paging_inv st us" and p: "p \<in> set us" and a: "address_spaces st p = Some a" and i: "i < 2048"
  shows "read_pte (slot_ref a i) st = Some (slots st p ! i)" "write_pte (slot_ref a i) e st = Some (set_slot (slot_ref a i) e st)"
proof -
  obtain t x where "page_tables st (as_first_table a) = Some t" "length t = 1024"
    "page_tables st (as_ext_table a) = Some x" "length x = 1024" "slots st p = t @ x"
    using spaceD [OF inv p] a by (metis option.inject)
  with i show "read_pte (slot_ref a i) st = Some (slots st p ! i)" "write_pte (slot_ref a i) e st = Some (set_slot (slot_ref a i) e st)"
    by (auto simp: read_pte_def write_pte_def set_slot_def slot_ref_def nth_append)
qed

text \<open>Tables of different spaces are different, and none is the kernel's.\<close>

lemma structs_distinct:
  assumes "distinct (structs st us)" "p \<in> set us" "q \<in> set us" "p \<noteq> q"
  shows "set (space_structs st p) \<inter> set (space_structs st q) = {}"
proof -
  obtain as bs where us: "us = as @ p # bs" using assms(2) by (auto dest: split_list)
  then have "q \<in> set (as @ bs)" using assms(3,4) by auto
  with assms(1) us show ?thesis by (auto simp: structs_def)
qed

lemma kernel_not_struct:
  assumes "paging_inv st us" "q \<in> set (structs st us)"
  shows "q \<noteq> kernel_table_at 0 st" "q \<noteq> kernel_directory st" "q \<noteq> NULL"
proof -
  have "frame_no q \<notin> kernel_frames st" using paging_invD(6) [OF assms(1)] assms(2) by (auto simp: frames_ok_def)
  then show "q \<noteq> kernel_table_at 0 st" "q \<noteq> kernel_directory st"
    by (auto simp: kernel_frames_def KERNEL_IDENTITY_TABLES_def)
  show "q \<noteq> NULL" using paging_invD(5) [OF assms(1)] assms(2) by (auto simp: spaces_ok_def)
qed

lemma slots_set_slot:
  assumes inv: "paging_inv st us" and p: "p \<in> set us" and a: "address_spaces st p = Some a" and i: "i < 2048"
  shows "slots (set_slot (slot_ref a i) e st) = (slots st)(p := (slots st p)[i := e])"
proof
  fix q
  note D = paging_invD [OF inv]
  obtain t x where t: "page_tables st (as_first_table a) = Some t" "length t = 1024"
    "page_tables st (as_ext_table a) = Some x" "length x = 1024" "slots st p = t @ x"
    "{as_directory a, as_first_table a, as_ext_table a} \<subseteq> set (structs st us)"
    using spaceD [OF inv p] a by (metis option.inject)
  have ne: "as_first_table a \<noteq> as_ext_table a"
  proof -
    obtain as bs where "us = as @ p # bs" using p by (auto dest: split_list)
    then show ?thesis using D(5) a by (auto simp: spaces_ok_def structs_def space_structs_def)
  qed
  show "slots (set_slot (slot_ref a i) e st) q = ((slots st)(p := (slots st p)[i := e])) q"
  proof (cases "q = p")
    case True
    then show ?thesis
      using a t(1-5) ne i by (auto simp: slots_def set_slot_def slot_ref_def list_update_append)
  next
    case False
    have other: "as_first_table b \<notin> {as_first_table a, as_ext_table a} \<and> as_ext_table b \<notin> {as_first_table a, as_ext_table a}"
      if b: "address_spaces st q = Some b" for b
    proof -
      have "q \<in> insert (kernel_space_at st) (set us)" using D(5) b by (auto simp: spaces_ok_def)
      then show ?thesis
      proof
        assume "q = kernel_space_at st"
        then have "as_first_table b = kernel_table_at 0 st" "as_ext_table b = NULL" using D(3) b by (auto simp: kernel_ok_def)
        with t(6) kernel_not_struct [OF inv] show ?thesis by (metis insert_iff insert_subset singletonD)
      next
        assume "q \<in> set us"
        moreover have "distinct (structs st us)" using D(5) by (simp add: spaces_ok_def)
        ultimately have "set (space_structs st p) \<inter> set (space_structs st q) = {}" using structs_distinct p False by metis
        then show ?thesis using a b by (auto simp: space_structs_def)
      qed
    qed
    have "fst (slot_ref a i) \<in> {as_first_table a, as_ext_table a}" by (simp add: slot_ref_def)
    with False other show ?thesis by (auto simp: slots_def set_slot_def split: option.splits)
  qed
qed

subsection \<open>Changing the state\<close>

text \<open>What the invariant does not look at.\<close>

lemma slots_ignores [simp]:
  "slots (st\<lparr>tlb := x\<rparr>) = slots st" "slots (st\<lparr>cr3 := y\<rparr>) = slots st" "slots (st\<lparr>pg_active := z\<rparr>) = slots st"
  "slots (st\<lparr>user_space_count := n\<rparr>) = slots st" "slots (st\<lparr>page_ref := r\<rparr>) = slots st" "slots (st\<lparr>frame_data := d\<rparr>) = slots st"
  "slots (st\<lparr>pg_heap := h\<rparr>) = slots st"
  by (simp_all add: slots_def fun_eq_iff split: option.splits)

lemma structs_ignores:
  "structs (st\<lparr>tlb := x\<rparr>) = structs st" "structs (st\<lparr>cr3 := y\<rparr>) = structs st" "structs (st\<lparr>pg_active := z\<rparr>) = structs st"
  "structs (st\<lparr>user_space_count := n\<rparr>) = structs st"
  by (simp_all add: structs_def space_structs_def [abs_def] fun_eq_iff)

lemmas inv_parts = paging_inv_def kernel_ok_def kernel_table_at_def spaces_ok_def space_ok_def frames_ok_def mapped_def kernel_frames_def

lemma inv_ignores [simp]:
  "paging_inv (st\<lparr>tlb := x\<rparr>) us = paging_inv st us" "paging_inv (st\<lparr>cr3 := y\<rparr>) us = paging_inv st us"
  "paging_inv (st\<lparr>pg_active := z\<rparr>) us = paging_inv st us" "paging_inv (st\<lparr>user_space_count := n\<rparr>) us = paging_inv st us"
  by (simp_all add: inv_parts structs_ignores)

lemma inv_cong:
  assumes "address_spaces st' = address_spaces st" "page_directories st' = page_directories st"
    "kernel_space_at st' = kernel_space_at st" "kernel_directory st' = kernel_directory st" "kernel_tables st' = kernel_tables st"
  shows "structs st' us = structs st us" "kernel_frames st' = kernel_frames st" "kernel_table_at i st' = kernel_table_at i st"
  using assms by (simp_all add: structs_def space_structs_def [abs_def] kernel_frames_def kernel_table_at_def)

lemma pmm_ok: "heap_inv h \<Longrightarrow> pmm_inv (heap_pmm h)"
  using heap_blocksD(4) by (auto simp: heap_inv_def)

text \<open>A new entry, with the sharing counts, frame contents and frame allocation that go with it.\<close>

definition slot_step :: "pte_ref \<Rightarrow> page_entry \<Rightarrow> u16 list \<Rightarrow> (u32 \<Rightarrow> u8 list) \<Rightarrow> pmm_state \<Rightarrow> paging \<Rightarrow> paging" where
  "slot_step r e pr fd pm st = (set_slot r e st)\<lparr>page_ref := pr, frame_data := fd, pg_heap := (pg_heap st)\<lparr>heap_pmm := pm\<rparr>\<rparr>"

lemma inv_slot_step:
  assumes inv: "paging_inv st us" and p: "p \<in> set us" and a: "address_spaces st p = Some a" and i: "i < 2048"
    and sl: "sl = (slots st)(p := (slots st p)[i := e])" and c: "counts_ok us sl pr" "private_ok us sl"
    and pm: "pmm_inv pm" "frame_no ` set (structs st us) \<union> kernel_frames st \<union> heap_frames (pg_heap st) \<subseteq> frames_used pm"
    and m: "unat ` set_mset (mappings us sl) \<subseteq> frames_used pm" "0 \<notin> unat ` set_mset (mappings us sl)"
      "unat ` set_mset (mappings us sl) \<inter> (frame_no ` set (structs st us) \<union> kernel_frames st \<union> heap_frames (pg_heap st)) = {}"
    and fd: "\<forall>f \<in># mappings us sl. length (fd f) = 4096"
  shows "paging_inv (slot_step (slot_ref a i) e pr fd pm st) us" "slots (slot_step (slot_ref a i) e pr fd pm st) = sl"
proof -
  let ?st = "slot_step (slot_ref a i) e pr fd pm st" and ?h = "(pg_heap st)\<lparr>heap_pmm := pm\<rparr>"
  note D = paging_invD [OF inv]
  show slots: "slots ?st = sl" unfolding sl slot_step_def using slots_set_slot [OF inv p a i] by simp
  have heap: "heap_inv ?h" "heap_live ?h = heap_live (pg_heap st)" "heap_frames ?h = heap_frames (pg_heap st)"
    using heap_other_frames [OF D(1) pm(1)] pm(2) by auto
  have st: "address_spaces ?st = address_spaces st" "page_directories ?st = page_directories st" "pg_heap ?st = ?h"
    "kernel_space_at ?st = kernel_space_at st" "kernel_directory ?st = kernel_directory st" "kernel_tables ?st = kernel_tables st"
    "page_ref ?st = pr" "frame_data ?st = fd" by (simp_all add: slot_step_def)
  note cong = inv_cong [OF st(1,2,4,5,6)]
  have dom: "page_tables ?st q = (if q = fst (slot_ref a i) then Some ((the (page_tables st q))[snd (slot_ref a i) := e]) else page_tables st q)" for q
    by (simp add: slot_step_def set_slot_def)
  obtain t x where t: "page_tables st (as_first_table a) = Some t" "page_tables st (as_ext_table a) = Some x"
    "{as_directory a, as_first_table a, as_ext_table a} \<subseteq> set (structs st us)"
    using spaceD [OF inv p] a by (metis option.inject)
  have tab: "map_option length (page_tables ?st q) = map_option length (page_tables st q)" for q
    unfolding dom using t by (auto simp: slot_ref_def)
  have len: "\<exists>t'. page_tables ?st q = Some t' \<and> length t' = n" if "page_tables st q = Some t" "length t = n" for q t n
    using tab [of q] that by auto
  have "fst (slot_ref a i) \<in> set (structs st us)" using t(3) by (simp add: slot_ref_def)
  then have "kernel_table_at 0 st \<noteq> fst (slot_ref a i)" using kernel_not_struct [OF inv] by metis
  then have "kernel_ok ?st" using D(3) by (simp add: kernel_ok_def cong st dom)
  moreover have "space_ok ?st q" if "q \<in> set us" for q
  proof (rule spaceD [OF inv that])
    fix b t x d
    assume "address_spaces st q = Some b" "as_owns_tables b" "page_tables st (as_first_table b) = Some t" "length t = 1024"
      "page_tables st (as_ext_table b) = Some x" "length x = 1024" "page_directories st (as_directory b) = Some d" "length d = 1024"
    with len [of "as_first_table b" t] len [of "as_ext_table b" x] show "space_ok ?st q" unfolding space_ok_def st by blast
  qed
  then have "spaces_ok ?st us" using D(5) unfolding spaces_ok_def st cong by blast
  moreover have "frames_ok ?st us"
  proof -
    have old: "heap_frames (pg_heap st) \<inter> frame_no ` set (structs st us) = {}"
      "kernel_frames st \<inter> (frame_no ` set (structs st us) \<union> heap_frames (pg_heap st)) = {}"
      using D(6) unfolding frames_ok_def by blast+
    define S where "S = frame_no ` set (structs st us)"
    define M where "M = unat ` set_mset (mappings us sl)"
    have pmm: "heap_pmm ?h = pm" by simp
    show ?thesis
      unfolding frames_ok_def st cong mapped_def slots heap pmm
      using old pm(2) m unfolding S_def [symmetric] M_def [symmetric] by blast
  qed
  ultimately show "paging_inv ?st us"
    unfolding paging_inv_def slots st heap using D(2,4) heap(1) c fd by simp
qed

section \<open>The operations keep the invariant\<close>

lemma write_pte_tables:
  assumes "page_tables st1 = page_tables st" "write_pte r e st = Some (set_slot r e st)"
  shows "write_pte r e st1 = Some (set_slot r e st1)"
  using assms by (auto simp: write_pte_def set_slot_def bind_eq_Some_conv split: if_splits)

lemma alloc_frame_spec:
  assumes inv: "heap_inv (pg_heap st)" and al: "alloc_frame st = (p, st1)"
  shows "p = NULL \<Longrightarrow> st1 = st"
    and "p \<noteq> NULL \<Longrightarrow> \<exists>pm. st1 = st\<lparr>pg_heap := (pg_heap st)\<lparr>heap_pmm := pm\<rparr>\<rparr> \<and> pmm_inv pm \<and>
      frames_used pm = insert (frame_no p) (frames_used (heap_pmm (pg_heap st))) \<and> max_blocks pm = max_blocks (heap_pmm (pg_heap st)) \<and>
      frame_no p \<notin> frames_used (heap_pmm (pg_heap st)) \<and> 0 < frame_no p \<and> frame_no p < FRAME_COUNT \<and> unat p mod 4096 = 0"
proof -
  let ?pm = "heap_pmm (pg_heap st)"
  obtain pm where pm: "pmm_alloc_blocks 1 ?pm = (p, pm)" "st1 = st\<lparr>pg_heap := (pg_heap st)\<lparr>heap_pmm := pm\<rparr>\<rparr>"
    using al by (auto simp: alloc_frame_def pmm_alloc_block_def split: prod.splits)
  note ok = pmm_ok [OF inv]
  show "st1 = st" if "p = NULL" using pmm.alloc_null [OF ok] pm that by simp
  have run: "frame_run p 1 = {frame_no p}" by (auto simp: frame_run_def frame_no_def PMM_BLOCK_SIZE_def)
  assume p: "p \<noteq> NULL"
  have "frame_no p \<in> {1..<unat (max_blocks ?pm)}" using pmm.alloc_run [OF ok pm(1) p] unfolding run by simp
  moreover have "unat (max_blocks ?pm) \<le> FRAME_COUNT" using pmm.limit_bound [OF ok] by (simp add: PMM_MAX_BLOCKS_def FRAME_COUNT_def)
  moreover have "frames_used pm = insert (frame_no p) (frames_used ?pm)" "frame_no p \<notin> frames_used ?pm"
    using pmm.alloc_owned [OF ok pm(1) p] pmm.alloc_fresh [OF ok pm(1) p] unfolding run by auto
  moreover have "unat p mod 4096 = 0" using pmm.alloc_aligned [OF ok pm(1) p] by (simp add: PMM_BLOCK_SIZE_def)
  ultimately show "\<exists>pm. st1 = st\<lparr>pg_heap := (pg_heap st)\<lparr>heap_pmm := pm\<rparr>\<rparr> \<and> pmm_inv pm \<and>
      frames_used pm = insert (frame_no p) (frames_used (heap_pmm (pg_heap st))) \<and> max_blocks pm = max_blocks (heap_pmm (pg_heap st)) \<and>
      frame_no p \<notin> frames_used (heap_pmm (pg_heap st)) \<and> 0 < frame_no p \<and> frame_no p < FRAME_COUNT \<and> unat p mod 4096 = 0"
    using pm(2) pmm.alloc_inv [OF ok pm(1)] pmm_alloc_blocks_spec(8) [OF ok pm(1) p] by (intro exI [of _ pm]) simp
qed

lemma frame_number [simp]: "unat (drop_bit 12 p) = frame_no p" for p :: u32
  by (simp add: frame_no_def unat_page)

lemma invariant_sets:
  assumes "paging_inv st us"
  shows "frame_no ` set (structs st us) \<union> kernel_frames st \<union> heap_frames (pg_heap st) \<subseteq> frames_used (heap_pmm (pg_heap st))"
    "mapped st us \<subseteq> frames_used (heap_pmm (pg_heap st))" "0 \<notin> mapped st us"
    "mapped st us \<inter> (frame_no ` set (structs st us) \<union> kernel_frames st \<union> heap_frames (pg_heap st)) = {}"
    "heap_frames (pg_heap st) \<inter> frame_no ` set (structs st us) = {}"
    "kernel_frames st \<inter> (frame_no ` set (structs st us) \<union> heap_frames (pg_heap st)) = {}"
proof -
  let ?S = "frame_no ` set (structs st us)" and ?M = "mapped st us" and ?K = "kernel_frames st" and ?H = "heap_frames (pg_heap st)"
  let ?U = "frames_used (heap_pmm (pg_heap st))"
  have F: "?S \<subseteq> ?U" "?M \<subseteq> ?U" "?K \<subseteq> ?U" "?S \<inter> ?M = {}" "0 \<notin> ?M" "?H \<inter> (?S \<union> ?M) = {}" "?K \<inter> (?S \<union> ?M \<union> ?H) = {}"
    using paging_invD(6) [OF assms, unfolded frames_ok_def] by simp_all
  have "?H \<subseteq> ?U" by (rule heap_frames_used [OF paging_invD(1) [OF assms]])
  with F(1,3) show "?S \<union> ?K \<union> ?H \<subseteq> ?U" by (simp only: Un_subset_iff)
  show "?M \<subseteq> ?U" "0 \<notin> ?M" by (fact F(2), fact F(5))
  show "?M \<inter> (?S \<union> ?K \<union> ?H) = {}" using F(4,6,7) by (simp only: Int_Un_distrib Un_empty Int_commute)
  show "?H \<inter> ?S = {}" "?K \<inter> (?S \<union> ?H) = {}" using F(6,7) by (simp_all only: Int_Un_distrib Un_empty)
qed

lemma mapped_small:
  assumes "paging_inv st us" "f \<in># mappings us (slots st)"
  shows "unat f < FRAME_COUNT"
proof -
  note ok = pmm_ok [OF paging_invD(1) [OF assms(1)]]
  have "unat f \<in> frames_used (heap_pmm (pg_heap st))" using invariant_sets(2) [OF assms(1)] assms(2) by (auto simp: mapped_def)
  then show ?thesis using pmm.limit_bound [OF ok] by (simp add: frames_used_mem PMM_MAX_BLOCKS_def FRAME_COUNT_def)
qed

lemma slot_mapped:
  assumes "paging_inv st us" "p \<in> set us" "i < 2048" "is_user (slots st p ! i)"
  shows "frame (slots st p ! i) \<in># mappings us (slots st)"
proof -
  have "slots st p ! i \<in> set (slots st p)" using slots_length [OF assms(1,2)] assms(3) by simp
  with assms(2,4) show ?thesis using in_mappings by blast
qed

text \<open>A zeroed frame behind an entry that maps nothing.\<close>

definition fresh_entry :: "bool \<Rightarrow> u32 \<Rightarrow> page_entry \<Rightarrow> page_entry" where
  "fresh_entry sh f e = e\<lparr>frame := f, present := True, rw := True, user := True, accessed := False, dirty := False, shared := sh\<rparr>"

lemma map_fresh_spec:
  assumes inv: "paging_inv st us" and p: "p \<in> set us" and a: "address_spaces st p = Some a" and i: "i < 2048"
    and nu: "\<not> is_user (slots st p ! i)"
  shows "map_fresh sh (slot_ref a i) (slots st p ! i) st = Some (False, st) \<or>
    (\<exists>f pm. map_fresh sh (slot_ref a i) (slots st p ! i) st =
        Some (True, slot_step (slot_ref a i) (fresh_entry sh f (slots st p ! i)) (page_ref st) ((frame_data st)(f := replicate 4096 0)) pm st) \<and>
      f \<notin># mappings us (slots st) \<and>
      paging_inv (slot_step (slot_ref a i) (fresh_entry sh f (slots st p ! i)) (page_ref st) ((frame_data st)(f := replicate 4096 0)) pm st) us \<and>
      slots (slot_step (slot_ref a i) (fresh_entry sh f (slots st p ! i)) (page_ref st) ((frame_data st)(f := replicate 4096 0)) pm st) =
        (slots st)(p := (slots st p)[i := fresh_entry sh f (slots st p ! i)]))"
proof -
  note D = paging_invD [OF inv] and S = invariant_sets [OF inv]
  obtain q st1 where al: "alloc_frame st = (q, st1)" by fastforce
  show ?thesis
  proof (cases "q = NULL")
    case True
    then show ?thesis using alloc_frame_spec(1) [OF D(1) al] al by (simp add: map_fresh_def)
  next
    case False
    let ?f = "drop_bit 12 q" and ?pg = "slots st p ! i"
    let ?e = "fresh_entry sh ?f ?pg" and ?fd = "(frame_data st)(?f := replicate 4096 0)"
    obtain pm where pm: "st1 = st\<lparr>pg_heap := (pg_heap st)\<lparr>heap_pmm := pm\<rparr>\<rparr>" "pmm_inv pm"
      "frames_used pm = insert (frame_no q) (frames_used (heap_pmm (pg_heap st)))" "frame_no q \<notin> frames_used (heap_pmm (pg_heap st))"
      "0 < frame_no q" using alloc_frame_spec(2) [OF D(1) al False] by blast
    have new: "frame_no q \<notin> mapped st us" using S(2) pm(4) by blast
    then have nm: "?f \<notin># mappings us (slots st)" by (force simp: mapped_def)
    have e: "is_user ?e" "rw ?e" "frame ?e = ?f" by (simp_all add: fresh_entry_def is_user_def)
    let ?sl = "(slots st)(p := (slots st p)[i := ?e])"
    have il: "i < length (slots st p)" using slots_length [OF inv p] i by simp
    note fresh = fresh_ok [OF D(7,8) p il nu e(1,2), unfolded e(3), OF nm]
    have m: "mappings us ?sl = add_mset ?f (mappings us (slots st))"
      using mappings_update [of us p i "slots st" ?e, OF D(10) p il] nu e by (simp add: entry_mset_def)
    have um: "unat ` set_mset (mappings us ?sl) = insert (frame_no q) (mapped st us)" unfolding m by (simp add: mapped_def)
    have w: "map_fresh sh (slot_ref a i) ?pg st = Some (True, slot_step (slot_ref a i) ?e (page_ref st) ?fd pm st)"
      using al False pm(1) write_pte_tables [OF _ slot_access(2) [OF inv p a i]]
      by (simp add: map_fresh_def slot_step_def set_slot_def fresh_entry_def Let_def)
    have step: "paging_inv (slot_step (slot_ref a i) ?e (page_ref st) ?fd pm st) us \<and>
      slots (slot_step (slot_ref a i) ?e (page_ref st) ?fd pm st) = ?sl"
    proof (intro conjI)
      have c1: "frame_no ` set (structs st us) \<union> kernel_frames st \<union> heap_frames (pg_heap st) \<subseteq> frames_used pm"
        using S(1) pm(3) by blast
      have c2: "unat ` set_mset (mappings us ?sl) \<subseteq> frames_used pm" unfolding um using S(2) pm(3) by blast
      have c3: "0 \<notin> unat ` set_mset (mappings us ?sl)" unfolding um using S(3) pm(5) by auto
      have c4: "unat ` set_mset (mappings us ?sl) \<inter> (frame_no ` set (structs st us) \<union> kernel_frames st \<union> heap_frames (pg_heap st)) = {}"
        unfolding um using S(1,4) pm(4) by blast
      have c5: "\<forall>f \<in># mappings us ?sl. length (?fd f) = 4096" unfolding m using D(9) by simp
      note step = inv_slot_step [OF inv p a i refl fresh pm(2) c1 c2 c3 c4 c5]
      show "paging_inv (slot_step (slot_ref a i) ?e (page_ref st) ?fd pm st) us" by (rule step(1))
      show "slots (slot_step (slot_ref a i) ?e (page_ref st) ?fd pm st) = ?sl" by (rule step(2))
    qed
    show ?thesis by (intro disjI2 exI [of _ ?f] exI [of _ pm]) (use w nm step in blast)
  qed
qed

text \<open>A mapping goes away; its frame is freed exactly when it was the last one.\<close>

lemma free_frame_spec:
  assumes ok: "pmm_inv pm" and f: "unat f \<in> frames_used pm" "0 < unat f"
  shows "pmm_inv (pmm_free_block (push_bit 12 f) pm)" "frames_used (pmm_free_block (push_bit 12 f) pm) = frames_used pm - {unat f}"
proof -
  have lim: "unat f < unat (max_blocks pm)" "unat (max_blocks pm) \<le> 8192"
    using f(1) pmm.limit_bound [OF ok] by (simp_all add: frames_used_mem PMM_MAX_BLOCKS_def)
  have u: "unat (push_bit 12 f) = unat f * 4096"
    using lim by (simp add: push_bit_eq_mult unat_mult_no_wrap)
  then have run: "frame_run (push_bit 12 f) 1 = {unat f}" by (auto simp: frame_run_def PMM_BLOCK_SIZE_def)
  show "pmm_inv (pmm_free_block (push_bit 12 f) pm)" unfolding pmm_free_block_def by (rule pmm.free_inv [OF ok])
  have "frames_used (pmm_free_blocks (push_bit 12 f) 1 pm) = frames_used pm - frame_run (push_bit 12 f) 1"
    by (rule pmm.free_owned [OF ok]) (use u run lim f(2) in \<open>simp_all add: PMM_BLOCK_SIZE_def\<close>)
  then show "frames_used (pmm_free_block (push_bit 12 f) pm) = frames_used pm - {unat f}" by (simp add: pmm_free_block_def run)
qed

definition drop_step :: "pte_ref \<Rightarrow> page_entry \<Rightarrow> u32 \<Rightarrow> paging \<Rightarrow> paging" where
  "drop_step r e f st = slot_step r e (released f (page_ref st)) (frame_data st)
     (if page_ref st ! unat f = 0 then pmm_free_block (push_bit 12 f) (heap_pmm (pg_heap st)) else heap_pmm (pg_heap st)) st"

lemma drop_slot:
  assumes inv: "paging_inv st us" and p: "p \<in> set us" and a: "address_spaces st p = Some a" and i: "i < 2048"
    and u: "is_user (slots st p ! i)" and e: "\<not> is_user e"
  defines "f \<equiv> frame (slots st p ! i)" and "sl \<equiv> (slots st)(p := (slots st p)[i := e])"
  shows "write_pte (slot_ref a i) e (release_frame_of (slots st p ! i) st) = Some (drop_step (slot_ref a i) e f st)"
    "paging_inv (drop_step (slot_ref a i) e f st) us" "slots (drop_step (slot_ref a i) e f st) = sl"
    "mappings us (slots st) = add_mset f (mappings us sl)"
    "frames_used (heap_pmm (pg_heap (drop_step (slot_ref a i) e f st))) =
       frames_used (heap_pmm (pg_heap st)) - (if f \<in># mappings us sl then {} else {unat f})"
proof -
  note D = paging_invD [OF inv] and S = invariant_sets [OF inv]
  have il: "i < length (slots st p)" using slots_length [OF inv p] i by simp
  have fm: "f \<in># mappings us (slots st)" unfolding f_def by (rule slot_mapped [OF inv p i u])
  have small: "unat f < FRAME_COUNT" by (rule mapped_small [OF inv fm])
  note drop = drop_ok [OF D(7,8) p il u e small [unfolded f_def], folded f_def sl_def]
  show m: "mappings us (slots st) = add_mset f (mappings us sl)" by (rule drop(4))
  let ?pm = "heap_pmm (pg_heap st)"
  define pm where "pm = (if page_ref st ! unat f = 0 then pmm_free_block (push_bit 12 f) ?pm else ?pm)"
  have fu: "unat f \<in> frames_used ?pm" "0 < unat f" using S(2,3) fm by (force simp: mapped_def)+
  note free = free_frame_spec [OF pmm_ok [OF D(1)] fu]
  have pm1: "pmm_inv pm" "frames_used pm = frames_used ?pm - (if f \<in># mappings us sl then {} else {unat f})"
    using free drop(3) pmm_ok [OF D(1)] by (auto simp: pm_def)
  have um: "unat ` set_mset (mappings us sl) \<subseteq> mapped st us" unfolding mapped_def m by auto
  have nf: "unat f \<notin> frame_no ` set (structs st us) \<union> kernel_frames st \<union> heap_frames (pg_heap st)"
    using S(4) fm by (auto simp: mapped_def)
  have c1: "frame_no ` set (structs st us) \<union> kernel_frames st \<union> heap_frames (pg_heap st) \<subseteq> frames_used pm"
    unfolding pm1(2) using S(1) nf by (cases "f \<in># mappings us sl") (simp_all only: if_True if_False Diff_empty subset_Diff_insert simp_thms)
  have c2: "unat ` set_mset (mappings us sl) \<subseteq> frames_used pm"
  proof
    fix x assume "x \<in> unat ` set_mset (mappings us sl)"
    then obtain g where g: "x = unat g" "g \<in># mappings us sl" by auto
    then have "x \<in> frames_used ?pm" using um S(2) by blast
    moreover have "f \<notin># mappings us sl \<Longrightarrow> x \<noteq> unat f" using g by (metis word_unat_eq_iff)
    ultimately show "x \<in> frames_used pm" unfolding pm1(2) by auto
  qed
  have c3: "0 \<notin> unat ` set_mset (mappings us sl)" using um S(3) by blast
  have c4: "unat ` set_mset (mappings us sl) \<inter> (frame_no ` set (structs st us) \<union> kernel_frames st \<union> heap_frames (pg_heap st)) = {}"
    using um S(4) by blast
  have c5: "\<forall>g \<in># mappings us sl. length (frame_data st g) = 4096" using D(9) by (simp add: m)
  note step = inv_slot_step [OF inv p a i meta_eq_to_obj_eq [OF sl_def] drop(1,2) pm1(1) c1 c2 c3 c4 c5]
  have ds: "drop_step (slot_ref a i) e f st = slot_step (slot_ref a i) e (released f (page_ref st)) (frame_data st) pm st"
    by (simp add: drop_step_def pm_def)
  show "paging_inv (drop_step (slot_ref a i) e f st) us" "slots (drop_step (slot_ref a i) e f st) = sl"
    unfolding ds by (rule step(1), rule step(2))
  show "frames_used (heap_pmm (pg_heap (drop_step (slot_ref a i) e f st))) =
      frames_used ?pm - (if f \<in># mappings us sl then {} else {unat f})"
    unfolding ds slot_step_def using pm1(2) by simp
  have rel: "release_frame_of (slots st p ! i) st = st\<lparr>page_ref := released f (page_ref st), pg_heap := (pg_heap st)\<lparr>heap_pmm := pm\<rparr>\<rparr>"
    using small by (cases "page_ref st ! unat f = 0")
      (simp_all add: release_frame_of_def cow_ref_release_def released_def pm_def f_def [symmetric] free_frame_def word_gt_0)
  show "write_pte (slot_ref a i) e (release_frame_of (slots st p ! i) st) = Some (drop_step (slot_ref a i) e f st)"
    unfolding ds rel using write_pte_tables [OF _ slot_access(2) [OF inv p a i]] by (simp add: slot_step_def set_slot_def)
qed

text \<open>Copy on write: afterwards the page is writable, has the old contents and is mapped once.\<close>

definition cow_done :: "ptr list \<Rightarrow> ptr \<Rightarrow> nat \<Rightarrow> paging \<Rightarrow> paging \<Rightarrow> bool" where
  "cow_done us p i st st' \<longleftrightarrow> (\<exists>e. paging_inv st' us \<and> slots st' = (slots st)(p := (slots st p)[i := e]) \<and> is_user e \<and> rw e \<and>
     \<not> shared e \<and> frame_data st' (frame e) = frame_data st (frame (slots st p ! i)) \<and>
     (\<forall>g \<in># mappings us (slots st). frame_data st' g = frame_data st g) \<and>
     count (mappings us (slots st')) (frame e) = 1 \<and>
     address_spaces st' = address_spaces st \<and> pg_active st' = pg_active st \<and> kernel_space_at st' = kernel_space_at st)"

lemma grant_slot:
  assumes inv: "paging_inv st us" and p: "p \<in> set us" and a: "address_spaces st p = Some a" and i: "i < 2048"
    and u: "is_user (slots st p ! i)" "\<not> rw (slots st p ! i)" and one: "page_ref st ! unat (frame (slots st p ! i)) = 0"
  shows "cow_done us p i st (set_slot (slot_ref a i) ((slots st p ! i)\<lparr>rw := True\<rparr>) st)"
proof -
  note D = paging_invD [OF inv] and S = invariant_sets [OF inv]
  let ?pg = "slots st p ! i"
  let ?e = "?pg\<lparr>rw := True\<rparr>" and ?f = "frame ?pg"
  let ?sl = "(slots st)(p := (slots st p)[i := ?e])"
  have il: "i < length (slots st p)" using slots_length [OF inv p] i by simp
  have fm: "?f \<in># mappings us (slots st)" by (rule slot_mapped [OF inv p i u(1)])
  have small: "unat ?f < FRAME_COUNT" by (rule mapped_small [OF inv fm])
  have "unat (page_ref st ! unat ?f) = count (mappings us (slots st)) ?f - 1" by (rule counts_okD(3) [OF D(7) small])
  then have "count (mappings us (slots st)) ?f - 1 = 0" unfolding one by simp
  moreover have "0 < count (mappings us (slots st)) ?f" using fm by (simp only: count_greater_zero_iff)
  ultimately have c1: "count (mappings us (slots st)) ?f = 1" by linarith
  have ns: "\<not> shared ?pg" using private_okD(2) [OF D(8) p _ u(1)] u(2) il by force
  have e: "is_user ?e = is_user ?pg" "frame ?e = ?f" "shared ?e = shared ?pg" by (simp_all add: is_user_def)
  have r: "counts_ok us ?sl (page_ref st)" "private_ok us ?sl" "mappings us ?sl = mappings us (slots st)"
    by (rule rights_ok [OF D(7,8) p il e]; use c1 ns in simp)+
  have m: "unat ` set_mset (mappings us ?sl) = mapped st us" by (simp add: r(3) mapped_def)
  have step: "set_slot (slot_ref a i) ?e st = slot_step (slot_ref a i) ?e (page_ref st) (frame_data st) (heap_pmm (pg_heap st)) st"
    by (simp add: slot_step_def set_slot_def)
  note inv1 = inv_slot_step [OF inv p a i refl r(1,2) pmm_ok [OF D(1)] S(1) S(2) [folded m] S(3) [folded m] S(4) [folded m]]
  have "\<forall>f \<in># mappings us ?sl. length (frame_data st f) = 4096" using D(9) by (simp add: r(3))
  note inv2 = inv1 [OF this, folded step]
  show ?thesis unfolding cow_done_def
    by (intro exI [of _ ?e]) (use inv2 u(1) ns c1 r(3) e in simp)
qed

lemma copy_slot:
  assumes inv: "paging_inv st us" and p: "p \<in> set us" and a: "address_spaces st p = Some a" and i: "i < 2048"
    and u: "is_user (slots st p ! i)" "\<not> rw (slots st p ! i)" and many: "page_ref st ! unat (frame (slots st p ! i)) > 0"
    and al: "alloc_frame st = (q, st1)" "q \<noteq> NULL"
  defines "f \<equiv> frame (slots st p ! i)"
  defines "st2 \<equiv> st1\<lparr>frame_data := (frame_data st1)(drop_bit 12 q := frame_data st1 f),
    page_ref := (page_ref st1)[unat f := page_ref st1 ! unat f - 1]\<rparr>"
  shows "cow_done us p i st (set_slot (slot_ref a i) ((slots st p ! i)\<lparr>frame := drop_bit 12 q, rw := True\<rparr>) st2)"
    "page_tables st2 = page_tables st"
proof -
  note D = paging_invD [OF inv] and S = invariant_sets [OF inv]
  let ?pg = "slots st p ! i"
  let ?gone = "?pg\<lparr>user := False\<rparr>" and ?e = "?pg\<lparr>frame := drop_bit 12 q, rw := True\<rparr>"
  let ?sg = "(slots st)(p := (slots st p)[i := ?gone])" and ?sl = "(slots st)(p := (slots st p)[i := ?e])"
  obtain pm where pm: "st1 = st\<lparr>pg_heap := (pg_heap st)\<lparr>heap_pmm := pm\<rparr>\<rparr>" "pmm_inv pm"
    "frames_used pm = insert (frame_no q) (frames_used (heap_pmm (pg_heap st)))" "frame_no q \<notin> frames_used (heap_pmm (pg_heap st))"
    "0 < frame_no q" using alloc_frame_spec(2) [OF D(1) al] by blast
  show "page_tables st2 = page_tables st" by (simp add: st2_def pm(1))
  have il: "i < length (slots st p)" using slots_length [OF inv p] i by simp
  have fm: "f \<in># mappings us (slots st)" unfolding f_def by (rule slot_mapped [OF inv p i u(1)])
  have small: "unat f < FRAME_COUNT" by (rule mapped_small [OF inv fm])
  have e0: "\<not> is_user ?gone" by (simp add: is_user_def)
  note drop = drop_ok [OF D(7,8) p il u(1) e0 small [unfolded f_def], folded f_def]
  have rel: "released f (page_ref st) = (page_ref st)[unat f := page_ref st ! unat f - 1]" using many by (simp add: released_def f_def)
  have "frame_no q \<notin> mapped st us" using S(2) pm(4) by blast
  then have nm: "drop_bit 12 q \<notin># mappings us (slots st)" by (force simp: mapped_def)
  have ns: "\<not> shared ?pg" using private_okD(2) [OF D(8) p _ u(1)] u(2) il by force
  have e: "is_user ?e" "rw ?e" "frame ?e \<notin># mappings us ?sg" using u(1) nm drop(4) by (simp_all add: is_user_def)
  have p0: "i < length (?sg p)" "\<not> is_user (?sg p ! i)" using il e0 by simp_all
  have eq: "?sg(p := (?sg p)[i := ?e]) = ?sl" by simp
  note fresh = fresh_ok [OF drop(1,2) p p0 e, unfolded eq rel]
  have m: "mappings us ?sl = add_mset (drop_bit 12 q) (mappings us ?sg)"
    using mappings_update [of us p i ?sg ?e, OF D(10) p p0(1)] p0(2) e(1) unfolding eq by (simp add: entry_mset_def)
  have sub: "set_mset (mappings us ?sg) \<subseteq> set_mset (mappings us (slots st))" using drop(4) by auto
  then have um: "unat ` set_mset (mappings us ?sl) \<subseteq> insert (frame_no q) (mapped st us)" unfolding m mapped_def by auto
  have c1: "frame_no ` set (structs st us) \<union> kernel_frames st \<union> heap_frames (pg_heap st) \<subseteq> frames_used pm" using S(1) pm(3) by blast
  have c2: "unat ` set_mset (mappings us ?sl) \<subseteq> frames_used pm" unfolding pm(3) by (rule order_trans [OF um insert_mono [OF S(2)]])
  have c3: "0 \<notin> unat ` set_mset (mappings us ?sl)"
  proof
    assume "0 \<in> unat ` set_mset (mappings us ?sl)"
    from subsetD [OF um this] show False using S(3) pm(5) by simp
  qed
  have c4: "unat ` set_mset (mappings us ?sl) \<inter> (frame_no ` set (structs st us) \<union> kernel_frames st \<union> heap_frames (pg_heap st)) = {}"
  proof -
    have "frame_no q \<notin> frame_no ` set (structs st us) \<union> kernel_frames st \<union> heap_frames (pg_heap st)" using S(1) pm(4) by (rule contra_subsetD)
    with S(4) have "insert (frame_no q) (mapped st us) \<inter> (frame_no ` set (structs st us) \<union> kernel_frames st \<union> heap_frames (pg_heap st)) = {}"
      by (simp only: Int_insert_left if_False)
    with um show ?thesis by (simp only: disjoint_iff subset_iff) blast
  qed
  let ?fd = "(frame_data st)(drop_bit 12 q := frame_data st f)"
  have c5: "\<forall>g \<in># mappings us ?sl. length (?fd g) = 4096" unfolding m using D(9) fm sub by auto
  note inv1 = inv_slot_step [where fd = ?fd, OF inv p a i refl fresh pm(2) c1 c2 c3 c4 c5]
  have step: "set_slot (slot_ref a i) ?e st2 = slot_step (slot_ref a i) ?e ((page_ref st)[unat f := page_ref st ! unat f - 1]) ?fd pm st"
    by (simp add: slot_step_def set_slot_def st2_def pm(1))
  have fd: "\<forall>g \<in># mappings us (slots st). ?fd g = frame_data st g" using nm by auto
  have "drop_bit 12 q \<notin># mappings us ?sg" using nm sub by blast
  then have one: "count (mappings us ?sl) (drop_bit 12 q) = 1" unfolding m by (simp add: not_in_iff)
  show "cow_done us p i st (set_slot (slot_ref a i) ?e st2)"
    unfolding step cow_done_def inv1(2)
    using inv1(1) by (intro exI [of _ ?e] conjI) (use e(1) ns one fd in \<open>simp_all add: slot_step_def f_def [symmetric]\<close>)
qed

lemma try_cow_spec:
  assumes inv: "paging_inv st us" and p: "pg_active st = p" "p \<in> set us" and v: "vslot addr = Some i"
    and u: "is_user (slots st p ! i)" "\<not> rw (slots st p ! i)"
  shows "(\<exists>pm. paging_try_cow addr st = Some (False, st) \<and> pmm_alloc_block (heap_pmm (pg_heap st)) = (NULL, pm)) \<or>
    (\<exists>st'. paging_try_cow addr st = Some (True, paging_invlpg (addr AND NOT 0xFFF) st') \<and> cow_done us p i st st')"
proof -
  obtain a where a: "address_spaces st p = Some a" "p \<noteq> NULL" using spaceD [OF inv p(2)] by metis
  have i: "i < 2048" by (rule vslot_bound [OF v])
  let ?pg = "slots st p ! i"
  have pte: "user_pte p addr st = Some (Some (slot_ref a i))" using user_pte_slot [OF inv p(2) a(1), of addr] v by simp
  have small: "unat (frame ?pg) < length (page_ref st)"
    using mapped_small [OF inv slot_mapped [OF inv p(2) i u(1)]] counts_okD(1) [OF paging_invD(7) [OF inv]] by simp
  have cow: "paging_try_cow addr st = do {
      (copy, st1) \<leftarrow> cow_copy ?pg st;
      case copy of None \<Rightarrow> Some (False, st1)
      | Some page1 \<Rightarrow> do {
          st2 \<leftarrow> write_pte (slot_ref a i) (page1\<lparr>rw := True\<rparr>) st1;
          Some (True, paging_invlpg (addr AND NOT 0xFFF) st2) } }"
    using p(1) a(2) pte slot_access(1) [OF inv p(2) a(1) i] u by (simp add: paging_try_cow_def is_user_def)
  show ?thesis
  proof (cases "page_ref st ! unat (frame ?pg) > 0")
    case many: True
    obtain q st1 where al: "alloc_frame st = (q, st1)" by fastforce
    show ?thesis
    proof (cases "q = NULL")
      case True
      then have "st1 = st" using alloc_frame_spec(1) [OF paging_invD(1) [OF inv] al] by simp
      with True al many small cow show ?thesis
        by (auto simp: cow_copy_def alloc_frame_def split: prod.splits)
    next
      case False
      note c = copy_slot [OF inv p(2) a(1) i u many al False]
      from write_pte_tables [OF c(2) slot_access(2) [OF inv p(2) a(1) i]] c(1) al False many small cow show ?thesis
        by (auto simp: cow_copy_def Let_def)
    qed
  next
    case False
    then have z: "page_ref st ! unat (frame ?pg) = 0" by (simp add: word_gt_0)
    from grant_slot [OF inv p(2) a(1) i u z] slot_access(2) [OF inv p(2) a(1) i] False small cow show ?thesis
      by (auto simp: cow_copy_def)
  qed
qed

end
