(* ===== verification/Paging_Spaces.thy ===== *)
theory Paging_Spaces
  imports Paging_Inv
begin

text \<open>
  Creating, cloning and destroying address spaces keep the invariant of paging, and every address
  space keeps its own view of memory.
\<close>

section \<open>Address spaces come and go\<close>

lemma live_frame:
  assumes "heap_inv h" "p \<in> fst ` heap_live h"
  shows "frame_no p \<in> heap_frames h"
proof -
  obtain bs where bs: "heap_blocks h bs" using assms(1) by (auto simp: heap_inv_def)
  note D = heap_blocksD [OF bs]
  obtain n where n: "(p, n) \<in> live bs" using assms(2) heap_live_eq [OF bs] by auto
  then have a: "(p - HDR, n, False) \<in> set bs" by (simp add: live_iff)
  have "0 < unat n" by (rule layout_mem(4) [OF D(2) a])
  then have "unat p \<in> payload p n" by (simp add: payload_def)
  then have "unat p \<in> block_bytes (p - HDR, n, False)" by (rule subsetD [OF live_payload(1) [OF D(2) n]])
  with a have "unat p \<in> all_bytes bs" unfolding all_bytes_def by (rule UN_I)
  from imageI [OF this, of "\<lambda>x. x div 4096"] show ?thesis unfolding heap_frames_eq [OF bs] frames_of_def frame_no_def .
qed

text \<open>The heap and the page allocator go on, the frames of the spaces stay theirs.\<close>

lemma inv_heap_step:
  assumes inv: "paging_inv st us" and h: "heap_inv h" "set us \<subseteq> fst ` heap_live h"
    and used: "frame_no ` set (structs st us) \<union> mapped st us \<union> kernel_frames st \<subseteq> frames_used (heap_pmm h)"
    and dis: "heap_frames h \<inter> (frame_no ` set (structs st us) \<union> mapped st us \<union> kernel_frames st) = {}"
  shows "paging_inv (st\<lparr>pg_heap := h\<rparr>) us"
proof -
  note D = paging_invD [OF inv] and S = invariant_sets [OF inv]
  let ?st = "st\<lparr>pg_heap := h\<rparr>"
  have cong: "structs ?st us = structs st us" "kernel_frames ?st = kernel_frames st" "mapped ?st us = mapped st us"
    using inv_cong [of ?st st] by (simp_all add: mapped_def)
  have "kernel_ok ?st" using D(3) by (simp add: kernel_ok_def kernel_table_at_def)
  moreover have "spaces_ok ?st us" using D(5) unfolding spaces_ok_def cong by (simp add: space_ok_def)
  moreover have "frames_ok ?st us"
  proof -
    define A where "A = frame_no ` set (structs st us)"
    define B where "B = mapped st us"
    define K where "K = kernel_frames st"
    have x: "A \<union> B \<union> K \<subseteq> frames_used (heap_pmm h)" "heap_frames h \<inter> (A \<union> B \<union> K) = {}" "0 \<notin> B" "B \<inter> (A \<union> K) = {}" "K \<inter> A = {}"
      using used dis S(3,4,6) unfolding A_def [symmetric] B_def [symmetric] K_def [symmetric] by blast+
    show ?thesis
      unfolding frames_ok_def cong A_def [symmetric] B_def [symmetric] K_def [symmetric] using x by simp blast
  qed
  ultimately show ?thesis unfolding paging_inv_def using D(4,7,8,9) h by simp
qed

lemma kmalloc_inv:
  assumes inv: "paging_inv st us" and al: "kmalloc n (pg_heap st) = Some (p, h)"
  shows "paging_inv (st\<lparr>pg_heap := h\<rparr>) us" "p \<noteq> NULL \<Longrightarrow> p \<in> fst ` heap_live h \<and> p \<notin> fst ` heap_live (pg_heap st)"
    "fst ` heap_live (pg_heap st) \<subseteq> fst ` heap_live h" "frames_used (heap_pmm (pg_heap st)) \<subseteq> frames_used (heap_pmm h)"
proof -
  note D = paging_invD [OF inv] and S = invariant_sets [OF inv]
  obtain N where N: "N \<inter> frames_used (heap_pmm (pg_heap st)) = {}" "frames_used (heap_pmm h) = frames_used (heap_pmm (pg_heap st)) \<union> N"
    "heap_frames h = heap_frames (pg_heap st) \<union> N" by (rule kmalloc_frames [OF D(1) al])
  show new: "p \<noteq> NULL \<Longrightarrow> p \<in> fst ` heap_live h \<and> p \<notin> fst ` heap_live (pg_heap st)"
    using kheap.alloc_new [OF D(1) al] by force
  show sub: "fst ` heap_live (pg_heap st) \<subseteq> fst ` heap_live h"
  proof (cases "p = NULL")
    case True
    then show ?thesis using kheap.alloc_null [OF D(1)] al by simp
  next
    case False
    then show ?thesis using kheap.alloc_new [OF D(1) al] by auto
  qed
  show "frames_used (heap_pmm (pg_heap st)) \<subseteq> frames_used (heap_pmm h)" using N(2) by blast
  define A where "A = frame_no ` set (structs st us) \<union> mapped st us \<union> kernel_frames st"
  have A: "A \<subseteq> frames_used (heap_pmm (pg_heap st))" unfolding A_def using S(1,2) by (simp only: Un_subset_iff)
  have "heap_frames (pg_heap st) \<inter> A = {}" unfolding A_def using S(4,5,6) by blast
  with A N have "A \<subseteq> frames_used (heap_pmm h)" "heap_frames h \<inter> A = {}" by blast+
  then show "paging_inv (st\<lparr>pg_heap := h\<rparr>) us"
    unfolding A_def using D(2) sub kheap.alloc_inv [OF D(1) al] by (intro inv_heap_step [OF inv]) auto
qed

lemma pmm_step_inv:
  assumes inv: "paging_inv st us" and pm: "pmm_inv pm"
    "frame_no ` set (structs st us) \<union> mapped st us \<union> kernel_frames st \<union> heap_frames (pg_heap st) \<subseteq> frames_used pm"
  shows "paging_inv (st\<lparr>pg_heap := (pg_heap st)\<lparr>heap_pmm := pm\<rparr>\<rparr>) us"
proof -
  note D = paging_invD [OF inv] and S = invariant_sets [OF inv]
  define A where "A = frame_no ` set (structs st us) \<union> mapped st us \<union> kernel_frames st"
  have hf: "heap_frames (pg_heap st) \<subseteq> frames_used pm" and A: "A \<subseteq> frames_used pm" using pm(2) unfolding A_def by blast+
  note h = heap_other_frames [OF D(1) pm(1) hf]
  have "heap_frames (pg_heap st) \<inter> A = {}" unfolding A_def using S(4,5,6) by blast
  then show ?thesis using A unfolding A_def using h D(2) by (intro inv_heap_step [OF inv]) simp_all
qed

lemma alloc_frame_inv:
  assumes inv: "paging_inv st us" and al: "alloc_frame st = (q, st1)" "q \<noteq> NULL"
  shows "paging_inv st1 us"
proof -
  note D = paging_invD [OF inv] and S = invariant_sets [OF inv]
  obtain pm where "st1 = st\<lparr>pg_heap := (pg_heap st)\<lparr>heap_pmm := pm\<rparr>\<rparr>" "pmm_inv pm"
    "frames_used pm = insert (frame_no q) (frames_used (heap_pmm (pg_heap st)))"
    using alloc_frame_spec(2) [OF D(1) al] by blast
  with pmm_step_inv [OF inv, of pm] S(1,2) show ?thesis by blast
qed

text \<open>A frame that nobody owns is given back.\<close>

lemma free_frame_inv:
  assumes inv: "paging_inv st us" and q: "unat q mod 4096 = 0" "q \<noteq> NULL" "frame_no q \<in> frames_used (heap_pmm (pg_heap st))"
    "frame_no q \<notin> frame_no ` set (structs st us) \<union> mapped st us \<union> kernel_frames st \<union> heap_frames (pg_heap st)"
  shows "paging_inv (free_frame q st) us"
    "frames_used (heap_pmm (pg_heap (free_frame q st))) = frames_used (heap_pmm (pg_heap st)) - {frame_no q}"
    "heap_live (pg_heap (free_frame q st)) = heap_live (pg_heap st)" "heap_frames (pg_heap (free_frame q st)) = heap_frames (pg_heap st)"
proof -
  note D = paging_invD [OF inv] and S = invariant_sets [OF inv]
  let ?pm = "heap_pmm (pg_heap st)" and ?f = "drop_bit 12 q"
  have "push_bit 12 ?f = q"
  proof -
    have "unat q = frame_no q * 4096" using q(1) div_mult_mod_eq [of "unat q" 4096] by (simp add: frame_no_def)
    moreover have "unat (push_bit 12 ?f) = frame_no q * 4096"
      using unat_lt_2p32 [of q] by (simp add: push_bit_eq_mult unat_mult_no_wrap frame_no_def)
    ultimately show ?thesis by (simp add: word_unat_eq_iff)
  qed
  moreover have "0 < frame_no q"
  proof -
    have "unat q \<noteq> 0" using q(2) by (simp add: unat_eq_0)
    with q(1) show ?thesis by (auto simp: frame_no_def div_eq_0_iff)
  qed
  ultimately have f: "pmm_inv (pmm_free_block q ?pm)" "frames_used (pmm_free_block q ?pm) = frames_used ?pm - {frame_no q}"
    using free_frame_spec [OF pmm_ok [OF D(1)], of ?f] q(3) by simp_all
  show "frames_used (heap_pmm (pg_heap (free_frame q st))) = frames_used ?pm - {frame_no q}" using f(2) by (simp add: free_frame_def)
  define A where "A = frame_no ` set (structs st us) \<union> mapped st us \<union> kernel_frames st \<union> heap_frames (pg_heap st)"
  have "A \<subseteq> frames_used ?pm" unfolding A_def using S(1,2) by (simp only: Un_subset_iff)
  then have "A \<subseteq> frames_used (pmm_free_block q ?pm)" unfolding f(2) using q(4) [folded A_def] by blast
  then show "paging_inv (free_frame q st) us" unfolding A_def free_frame_def by (rule pmm_step_inv [OF inv f(1)])
  have "heap_frames (pg_heap st) \<subseteq> A" unfolding A_def by blast
  then have "heap_frames (pg_heap st) \<subseteq> frames_used (pmm_free_block q ?pm)" using \<open>A \<subseteq> frames_used (pmm_free_block q ?pm)\<close> by (rule order_trans)
  from heap_other_frames(2,3) [OF D(1) f(1) this]
  show "heap_live (pg_heap (free_frame q st)) = heap_live (pg_heap st)" "heap_frames (pg_heap (free_frame q st)) = heap_frames (pg_heap st)"
    by (simp_all add: free_frame_def)
qed

subsection \<open>Creating a space\<close>

lemma no_user_frames: "\<forall>e \<in> set es. \<not> is_user e \<Longrightarrow> uframes es = []"
  by (auto simp: uframes_def)

lemma empty_space_counts:
  assumes "counts_ok us sl pr" "private_ok us sl" "p \<notin> set us" and es: "\<forall>e \<in> set es. \<not> is_user e"
  shows "counts_ok (p # us) (sl(p := es)) pr" "private_ok (p # us) (sl(p := es))" "mappings (p # us) (sl(p := es)) = mappings us sl"
proof -
  note E = no_user_frames [OF es]
  show m: "mappings (p # us) (sl(p := es)) = mappings us sl" using assms(3) by (simp add: E mappings_other)
  show "counts_ok (p # us) (sl(p := es)) pr" using assms(1,3) unfolding counts_ok_def m by (auto simp: E)
  have same: "q \<in> set us \<Longrightarrow> (sl(p := es)) q = sl q" for q using assms(3) by auto
  show "private_ok (p # us) (sl(p := es))"
    using assms(2) es same unfolding private_ok_def m by simp
qed

definition new_space :: "ptr \<Rightarrow> address_space \<Rightarrow> u32 list \<Rightarrow> page_entry list \<Rightarrow> page_entry list \<Rightarrow> paging \<Rightarrow> paging" where
  "new_space p a kd t x st = st\<lparr>address_spaces := (address_spaces st)(p \<mapsto> a),
     page_directories := (page_directories st)(as_directory a \<mapsto> kd),
     page_tables := (page_tables st)(as_first_table a \<mapsto> t, as_ext_table a \<mapsto> x)\<rparr>"

lemma new_space_simps [simp]:
  "address_spaces (new_space p a kd t x st) = (address_spaces st)(p \<mapsto> a)" "frame_data (new_space p a kd t x st) = frame_data st"
  "page_ref (new_space p a kd t x st) = page_ref st" "pg_heap (new_space p a kd t x st) = pg_heap st"
  "pg_active (new_space p a kd t x st) = pg_active st" "kernel_space_at (new_space p a kd t x st) = kernel_space_at st"
  "kernel_directory (new_space p a kd t x st) = kernel_directory st" "kernel_tables (new_space p a kd t x st) = kernel_tables st"
  by (simp_all add: new_space_def)

text \<open>Three fresh frames for the structures of a space.\<close>

definition fresh_structs :: "paging \<Rightarrow> ptr list \<Rightarrow> ptr list \<Rightarrow> bool" where
  "fresh_structs st us qs \<longleftrightarrow> distinct qs \<and> (\<forall>q \<in> set qs. q \<noteq> NULL \<and> unat q mod 4096 = 0 \<and>
     frame_no q \<in> frames_used (heap_pmm (pg_heap st)) \<and>
     frame_no q \<notin> frame_no ` set (structs st us) \<union> mapped st us \<union> kernel_frames st \<union> heap_frames (pg_heap st))"

lemma new_space_tables:
  assumes inv: "paging_inv st us" and q: "q \<in> insert NULL (set (structs st us) \<union> {kernel_table_at 0 st, kernel_directory st})"
    and fr: "fresh_structs st us qs"
  shows "q \<notin> set qs"
proof
  assume "q \<in> set qs"
  with fr have n: "q \<noteq> NULL" "frame_no q \<notin> frame_no ` set (structs st us)" "frame_no q \<notin> kernel_frames st"
    unfolding fresh_structs_def by (metis UnCI)+
  have "frame_no (kernel_table_at 0 st) \<in> kernel_frames st" "frame_no (kernel_directory st) \<in> kernel_frames st"
    by (simp_all add: kernel_frames_def KERNEL_IDENTITY_TABLES_def)
  with q n show False by auto
qed

lemma new_space_slots:
  assumes inv: "paging_inv st us" and p: "p \<notin> insert (kernel_space_at st) (set us)"
    and fr: "fresh_structs st us [as_directory a, as_first_table a, as_ext_table a]"
  shows "slots (new_space p a kd t x st) = (slots st)(p := t @ x)"
    "q \<in> set us \<Longrightarrow> page_tables (new_space p a kd t x st) (as_first_table (the (address_spaces st q))) = page_tables st (as_first_table (the (address_spaces st q)))"
    "q \<in> set us \<Longrightarrow> page_tables (new_space p a kd t x st) (as_ext_table (the (address_spaces st q))) = page_tables st (as_ext_table (the (address_spaces st q)))"
    "q \<in> set us \<Longrightarrow> page_directories (new_space p a kd t x st) (as_directory (the (address_spaces st q))) = page_directories st (as_directory (the (address_spaces st q)))"
proof -
  note D = paging_invD [OF inv] and N = new_space_tables [OF inv _ fr]
  have fe: "as_first_table a \<noteq> as_ext_table a" using fr by (auto simp: fresh_structs_def)
  have old: "page_tables (new_space p a kd t x st) r = page_tables st r" "page_directories (new_space p a kd t x st) r = page_directories st r"
    if "r \<in> insert NULL (set (structs st us) \<union> {kernel_table_at 0 st, kernel_directory st})" for r
    using N [OF that] by (auto simp: new_space_def)
  have b: "{as_directory b, as_first_table b, as_ext_table b} \<subseteq> set (structs st us)" if "q \<in> set us" "address_spaces st q = Some b" for q b
    using spaceD [OF inv that(1)] that(2) by (metis option.inject)
  show "slots (new_space p a kd t x st) = (slots st)(p := t @ x)"
  proof
    fix q show "slots (new_space p a kd t x st) q = ((slots st)(p := t @ x)) q"
    proof (cases "q = p")
      case True
      then show ?thesis using fe by (simp add: slots_def new_space_def)
    next
      case False
      show ?thesis
      proof (cases "address_spaces st q")
        case None
        then show ?thesis using False by (simp add: slots_def)
      next
        case (Some c)
        then have "q \<in> insert (kernel_space_at st) (set us)" using D(5) by (auto simp: spaces_ok_def)
        then have "as_first_table c \<in> insert NULL (set (structs st us) \<union> {kernel_table_at 0 st, kernel_directory st}) \<and>
            as_ext_table c \<in> insert NULL (set (structs st us) \<union> {kernel_table_at 0 st, kernel_directory st})"
          using b [of q c] Some D(3) by (auto simp: kernel_ok_def)
        with False Some show ?thesis by (simp add: slots_def old)
      qed
    qed
  qed
  assume q: "q \<in> set us"
  then obtain c where "address_spaces st q = Some c" using spaceD [OF inv q] by metis
  with b [OF q this] show
    "page_tables (new_space p a kd t x st) (as_first_table (the (address_spaces st q))) = page_tables st (as_first_table (the (address_spaces st q)))"
    "page_tables (new_space p a kd t x st) (as_ext_table (the (address_spaces st q))) = page_tables st (as_ext_table (the (address_spaces st q)))"
    "page_directories (new_space p a kd t x st) (as_directory (the (address_spaces st q))) = page_directories st (as_directory (the (address_spaces st q)))"
    by (simp_all add: old)
qed

lemma new_space_structs:
  assumes "p \<notin> set us"
  shows "structs (new_space p a kd t x st) (p # us) = [as_directory a, as_first_table a, as_ext_table a] @ structs st us"
proof -
  have "map (space_structs (new_space p a kd t x st)) us = map (space_structs st) us"
    using assms by (intro map_cong) (auto simp: space_structs_def)
  then show ?thesis unfolding structs_def by (simp add: space_structs_def [of _ p] del: map_eq_conv)
qed

lemma new_space_inv:
  assumes inv: "paging_inv st us" and p: "p \<notin> insert (kernel_space_at st) (set us)" "p \<noteq> NULL" "p \<in> fst ` heap_live (pg_heap st)"
    and fr: "fresh_structs st us [as_directory a, as_first_table a, as_ext_table a]" and own: "as_owns_tables a"
    and len: "length t = 1024" "length x = 1024" "length kd = 1024" and es: "\<forall>e \<in> set (t @ x). \<not> is_user e"
  shows "paging_inv (new_space p a kd t x st) (p # us)"
proof -
  note D = paging_invD [OF inv] and N = new_space_tables [OF inv _ fr] and sl = new_space_slots [where kd = kd and t = t and x = x, OF inv p(1) fr]
  let ?st = "new_space p a kd t x st" and ?qs = "[as_directory a, as_first_table a, as_ext_table a]"
  have pu: "p \<notin> set us" using p(1) by simp
  note st = new_space_structs [OF pu, of a kd t x st] and c = empty_space_counts [OF D(7,8) pu es, folded sl(1)]
  have kf: "kernel_frames ?st = kernel_frames st" "kernel_table_at i ?st = kernel_table_at i st" for i
    by (simp_all add: kernel_frames_def kernel_table_at_def)
  have m: "mapped ?st (p # us) = mapped st us" unfolding mapped_def c(3) ..
  have fq: "q \<in> set ?qs \<Longrightarrow> q \<noteq> NULL \<and> unat q mod 4096 = 0" for q using fr unfolding fresh_structs_def by metis
  have "kernel_ok ?st"
    using D(3) p(1) N [of "kernel_table_at 0 st"] N [of "kernel_directory st"] by (auto simp: kernel_ok_def kernel_table_at_def new_space_def)
  moreover have "spaces_ok ?st (p # us)"
  proof -
    have "space_ok ?st p" using own len fr by (auto simp: space_ok_def new_space_def fresh_structs_def)
    moreover have "space_ok ?st q" if q: "q \<in> set us" for q
    proof -
      have "q \<noteq> p" "space_ok st q" using q pu D(5) by (auto simp: spaces_ok_def)
      with sl(2-4) [OF q] show ?thesis unfolding space_ok_def by auto
    qed
    moreover have "distinct (structs ?st (p # us))"
    proof -
      have "distinct ?qs" using fr by (simp add: fresh_structs_def)
      moreover have "set ?qs \<inter> set (structs st us) = {}" using N by auto
      ultimately show ?thesis using D(5) unfolding st distinct_append spaces_ok_def by simp
    qed
    moreover have "\<forall>q \<in> set (structs ?st (p # us)). q \<noteq> NULL \<and> unat q mod 4096 = 0"
      using D(5) fq unfolding st spaces_ok_def by auto
    ultimately show ?thesis using D(5) p unfolding spaces_ok_def by auto
  qed
  moreover have "frames_ok ?st (p # us)"
  proof -
    note S = invariant_sets [OF inv]
    define A where "A = frame_no ` set (structs st us)"
    define B where "B = mapped st us"
    define K where "K = kernel_frames st"
    define H where "H = heap_frames (pg_heap st)"
    define Q where "Q = frame_no ` set ?qs"
    define U where "U = frames_used (heap_pmm (pg_heap st))"
    have q: "Q \<subseteq> U" "Q \<inter> (A \<union> B \<union> K \<union> H) = {}"
      using fr unfolding fresh_structs_def Q_def A_def B_def K_def H_def U_def by (auto simp del: Un_iff)
    have sets: "frame_no ` set (structs ?st (p # us)) = Q \<union> A" unfolding st Q_def A_def set_append image_Un ..
    have hp: "pg_heap ?st = pg_heap st" by simp
    show ?thesis
      unfolding frames_ok_def sets m kf(1) hp B_def [symmetric] K_def [symmetric] H_def [symmetric] U_def [symmetric]
      using q S [folded A_def B_def K_def H_def U_def] by (intro conjI) blast+
  qed
  ultimately show ?thesis
    unfolding paging_inv_def c(3) using D(1,2,4) D(9) c(1,2) p by (simp add: eq_commute [of "kernel_space_at st" p])
qed

text \<open>Frames allocated and given back while a space is built.\<close>

abbreviation non_null :: "ptr list \<Rightarrow> ptr list" where
  "non_null qs \<equiv> filter (\<lambda>q. q \<noteq> NULL) qs"

definition heap_step :: "paging \<Rightarrow> paging \<Rightarrow> bool" where
  "heap_step st st' \<longleftrightarrow> (\<exists>h. st' = st\<lparr>pg_heap := h\<rparr> \<and> heap_live h = heap_live (pg_heap st))"

lemma heap_step_refl: "heap_step st st"
  unfolding heap_step_def by (rule exI [of _ "pg_heap st"]) simp

lemma heap_step_trans: "heap_step st st1 \<Longrightarrow> heap_step st1 st2 \<Longrightarrow> heap_step st st2"
  unfolding heap_step_def by auto

lemma heap_step_same:
  assumes "heap_step st st'"
  shows "structs st' us = structs st us" "mapped st' us = mapped st us" "kernel_frames st' = kernel_frames st" "slots st' = slots st"
  using assms inv_cong [of st' st] unfolding heap_step_def by (auto simp: mapped_def)

lemma alloc_frame_step:
  assumes inv: "paging_inv st us" and fr: "fresh_structs st us qs" and al: "alloc_frame st = (q, st1)"
  shows "paging_inv st1 us \<and> fresh_structs st1 us (non_null (qs @ [q])) \<and> heap_step st st1"
proof (cases "q = NULL")
  case True
  have "non_null qs = qs" using fr by (auto simp: fresh_structs_def filter_id_conv)
  with True fr inv alloc_frame_spec(1) [OF paging_invD(1) [OF inv] al] show ?thesis by (simp add: heap_step_refl)
next
  case False
  note D = paging_invD [OF inv] and S = invariant_sets [OF inv]
  obtain pm where pm: "st1 = st\<lparr>pg_heap := (pg_heap st)\<lparr>heap_pmm := pm\<rparr>\<rparr>" "pmm_inv pm"
    "frames_used pm = insert (frame_no q) (frames_used (heap_pmm (pg_heap st)))" "frame_no q \<notin> frames_used (heap_pmm (pg_heap st))"
    "unat q mod 4096 = 0" using alloc_frame_spec(2) [OF D(1) al False] by metis
  define A where "A = frame_no ` set (structs st us) \<union> mapped st us \<union> kernel_frames st \<union> heap_frames (pg_heap st)"
  have A: "A \<subseteq> frames_used (heap_pmm (pg_heap st))" unfolding A_def using S(1,2) by (simp only: Un_subset_iff)
  have h: "heap_frames (pg_heap st) \<subseteq> frames_used pm" using S(1) pm(3) by blast
  note oh = heap_other_frames [OF D(1) pm(2) h]
  have hs: "heap_step st st1" unfolding heap_step_def pm(1) using oh(2) by blast
  have eqA: "frame_no ` set (structs st1 us) \<union> mapped st1 us \<union> kernel_frames st1 \<union> heap_frames (pg_heap st1) = A"
    unfolding heap_step_same [OF hs] A_def by (simp add: pm(1) oh(3))
  have used: "frames_used (heap_pmm (pg_heap st1)) = insert (frame_no q) (frames_used (heap_pmm (pg_heap st)))" using pm(1,3) by simp
  have old: "r \<noteq> NULL \<and> unat r mod 4096 = 0 \<and> frame_no r \<in> frames_used (heap_pmm (pg_heap st)) \<and> frame_no r \<notin> A" if "r \<in> set qs" for r
    using fr that unfolding fresh_structs_def A_def by blast
  have "q \<notin> set qs" using old pm(4) by blast
  moreover have "distinct qs" using fr by (simp add: fresh_structs_def)
  moreover have "frame_no q \<notin> A" using A pm(4) by blast
  ultimately have "fresh_structs st1 us (non_null (qs @ [q]))"
    unfolding fresh_structs_def eqA used using False pm(5) old by auto
  then show ?thesis using hs alloc_frame_inv [OF inv al False] by blast
qed

lemma free_frame_step:
  assumes inv: "paging_inv st us" and fr: "fresh_structs st us (non_null (q # qs))"
    and st1: "st1 = (if q \<noteq> NULL then free_frame q st else st)"
  shows "paging_inv st1 us \<and> fresh_structs st1 us (non_null qs) \<and> heap_step st st1"
proof (cases "q = NULL")
  case True
  with fr inv st1 show ?thesis by (simp add: heap_step_refl)
next
  case False
  define A where "A = frame_no ` set (structs st us) \<union> mapped st us \<union> kernel_frames st \<union> heap_frames (pg_heap st)"
  note F = fr [unfolded fresh_structs_def, folded A_def]
  have mem: "q \<in> set (non_null (q # qs))" "\<And>r. r \<in> set (non_null qs) \<Longrightarrow> r \<in> set (non_null (q # qs))" using False by simp_all
  have q: "unat q mod 4096 = 0" "frame_no q \<in> frames_used (heap_pmm (pg_heap st))" "frame_no q \<notin> A"
    using bspec [OF conjunct2 [OF F] mem(1)] by simp_all
  have qs: "q \<notin> set (non_null qs)" "distinct (non_null qs)" using conjunct1 [OF F] False by simp_all
  have old: "r \<noteq> NULL \<and> unat r mod 4096 = 0 \<and> frame_no r \<in> frames_used (heap_pmm (pg_heap st)) \<and> frame_no r \<notin> A" if "r \<in> set (non_null qs)" for r
    by (rule bspec [OF conjunct2 [OF F] mem(2) [OF that]])
  have e: "st1 = free_frame q st" using st1 False by simp
  note f = free_frame_inv [OF inv q(1) False q(2) q(3) [unfolded A_def], folded e]
  have hs: "heap_step st st1" unfolding heap_step_def using f(3) by (intro exI [of _ "pg_heap st1"]) (simp add: e free_frame_def)
  have eqA: "frame_no ` set (structs st1 us) \<union> mapped st1 us \<union> kernel_frames st1 \<union> heap_frames (pg_heap st1) = A"
    unfolding heap_step_same [OF hs] A_def f(4) ..
  have "frame_no r \<noteq> frame_no q" if "r \<in> set (non_null qs)" for r
  proof
    assume "frame_no r = frame_no q"
    then have "unat r div 4096 = unat q div 4096" "unat r mod 4096 = unat q mod 4096" using old [OF that] q(1) by (simp_all add: frame_no_def)
    then have "unat r = unat q" by (metis div_mult_mod_eq)
    then have "r = q" by (simp add: word_unat_eq_iff)
    with that qs(1) show False by simp
  qed
  with old have "fresh_structs st1 us (non_null qs)" unfolding fresh_structs_def eqA f(2) using qs(2) by blast
  with hs f(1) show ?thesis by blast
qed

lemma kfree_step:
  assumes inv: "paging_inv st us" and p: "p \<in> fst ` heap_live (pg_heap st)" "p \<notin> set us"
  shows "\<exists>h. kfree p (pg_heap st) = Some h \<and> paging_inv (st\<lparr>pg_heap := h\<rparr>) us \<and> frames_used (heap_pmm h) = frames_used (heap_pmm (pg_heap st))"
proof -
  note D = paging_invD [OF inv] and S = invariant_sets [OF inv]
  obtain k where k: "(p, k) \<in> heap_live (pg_heap st)" using p by auto
  obtain h where h: "kfree p (pg_heap st) = Some h" "heap_inv h" "heap_live h = heap_live (pg_heap st) - {(p, k)}"
    using kheap.release_owned [OF D(1) k] by blast
  note fr = kfree_frames [OF D(1) k h(1)]
  have "set us \<subseteq> fst ` heap_live h"
  proof
    fix q assume q: "q \<in> set us"
    then obtain m where "(q, m) \<in> heap_live (pg_heap st)" using D(2) by auto
    moreover have "q \<noteq> p" using q p(2) by blast
    ultimately have "(q, m) \<in> heap_live h" using h(3) by simp
    then show "q \<in> fst ` heap_live h" by force
  qed
  moreover have "frame_no ` set (structs st us) \<union> mapped st us \<union> kernel_frames st \<subseteq> frames_used (heap_pmm h)"
    unfolding fr(1) using S(1,2) by (simp only: Un_subset_iff)
  moreover have "heap_frames h \<inter> (frame_no ` set (structs st us) \<union> mapped st us \<union> kernel_frames st) = {}"
    unfolding fr(2) using S(4,5,6) by blast
  ultimately have "paging_inv (st\<lparr>pg_heap := h\<rparr>) us" by (rule inv_heap_step [OF inv h(2)])
  with h(1) fr(1) show ?thesis by blast
qed

lemma create_undo_spec:
  assumes inv: "paging_inv st us" and fr: "fresh_structs st us (non_null [d, f, e])" and p: "p \<in> fst ` heap_live (pg_heap st)" "p \<notin> set us"
  shows "\<exists>h. create_undo p d f e st = Some (st\<lparr>pg_heap := h\<rparr>) \<and> paging_inv (st\<lparr>pg_heap := h\<rparr>) us"
proof -
  define st1 where "st1 = (if d \<noteq> NULL then free_frame d st else st)"
  define st2 where "st2 = (if f \<noteq> NULL then free_frame f st1 else st1)"
  define st3 where "st3 = (if e \<noteq> NULL then free_frame e st2 else st2)"
  have s1: "paging_inv st1 us \<and> fresh_structs st1 us (non_null [f, e]) \<and> heap_step st st1" by (rule free_frame_step [OF inv fr st1_def])
  then have s2: "paging_inv st2 us \<and> fresh_structs st2 us (non_null [e]) \<and> heap_step st1 st2" using free_frame_step st2_def by blast
  then have s3: "paging_inv st3 us" "heap_step st2 st3" using free_frame_step [of st2 us e "[]"] st3_def by blast+
  have hs: "heap_step st st3" using s1 s2 s3(2) heap_step_trans by blast
  then obtain h0 where h0: "st3 = st\<lparr>pg_heap := h0\<rparr>" "heap_live h0 = heap_live (pg_heap st)" by (auto simp: heap_step_def)
  obtain h where h: "kfree p (pg_heap st3) = Some h" "paging_inv (st3\<lparr>pg_heap := h\<rparr>) us"
    using kfree_step [OF s3(1), of p] p h0 by fastforce
  moreover have "create_undo p d f e st = Some (st3\<lparr>pg_heap := h\<rparr>)"
    unfolding create_undo_def Let_def st1_def [symmetric] st2_def [symmetric] st3_def [symmetric] h(1) by simp
  ultimately show ?thesis by (simp add: h0(1)) blast
qed

text \<open>The entries of a new space: the kernel's identity map, and nothing for \<open>mmap\<close>.\<close>

definition blank_slots :: "page_entry list" where
  "blank_slots = kernel_table 0 @ replicate 1024 zero_entry"

lemma blank_slots_kernel: "\<forall>e \<in> set blank_slots. \<not> is_user e"
  by (auto simp: blank_slots_def kernel_table_def identity_entry_def zero_entry_def is_user_def)

definition created :: "paging \<Rightarrow> ptr list \<Rightarrow> ptr \<Rightarrow> paging \<Rightarrow> bool" where
  "created st us p st' \<longleftrightarrow> p \<noteq> NULL \<and> p \<notin> insert (kernel_space_at st) (set us) \<and> paging_inv st' (p # us) \<and>
     slots st' = (slots st)(p := blank_slots) \<and> frame_data st' = frame_data st \<and> pg_active st' = pg_active st \<and>
     tlb st' = tlb st \<and> cr3 st' = cr3 st \<and> kernel_space_at st' = kernel_space_at st \<and>
     (\<forall>q. q \<noteq> p \<longrightarrow> address_spaces st' q = address_spaces st q)"

lemma create_build:
  assumes inv: "paging_inv st us" and h: "kmalloc n (pg_heap st) = Some (p, h)" "p \<noteq> NULL"
    and inv3: "paging_inv st3 us" and hs: "heap_step (st\<lparr>pg_heap := h\<rparr>) st3"
    and fr: "fresh_structs st3 us [d, f, e]" and kd: "page_directories st3 (kernel_directory st3) = Some kdir"
  shows "created st us p (st3\<lparr>
      address_spaces := (address_spaces st3)(p \<mapsto> \<lparr>as_directory = d, as_first_table = f, as_ext_table = e, as_owns_tables = True\<rparr>),
      page_directories := (page_directories st3)(d \<mapsto> kdir[0 := v, USER_EXT_DIR := w]),
      page_tables := (page_tables st3)(f \<mapsto> kernel_table 0, e \<mapsto> replicate 1024 zero_entry),
      user_space_count := k\<rparr>)" (is "created st us p ?st")
proof -
  let ?a = "\<lparr>as_directory = d, as_first_table = f, as_ext_table = e, as_owns_tables = True\<rparr>"
  let ?ns = "new_space p ?a (kdir[0 := v, USER_EXT_DIR := w]) (kernel_table 0) (replicate 1024 zero_entry) st3"
  note D = paging_invD [OF inv] and D3 = paging_invD [OF inv3] and m = kmalloc_inv [OF inv h(1)]
  obtain h3 where h3: "st3 = st\<lparr>pg_heap := h3\<rparr>" "heap_live h3 = heap_live h" using hs by (auto simp: heap_step_def)
  have st: "?st = ?ns\<lparr>user_space_count := k\<rparr>" by (simp add: new_space_def)
  have live: "p \<in> fst ` heap_live (pg_heap st3)" "p \<notin> fst ` heap_live (pg_heap st)" using m(2) h(2) h3 by simp_all
  have "frame_no p \<in> heap_frames (pg_heap st3)" by (rule live_frame [OF D3(1) live(1)])
  then have "frame_no p \<notin> kernel_frames st3" using invariant_sets(6) [OF inv3] by blast
  then have "p \<noteq> kernel_space_at st" by (auto simp: kernel_frames_def h3)
  then have p: "p \<notin> insert (kernel_space_at st3) (set us)" using live(2) D(2) h3 by auto
  have fr': "fresh_structs st3 us [as_directory ?a, as_first_table ?a, as_ext_table ?a]" using fr by simp
  have kl: "length kdir = 1024" using D3(3) kd by (auto simp: kernel_ok_def)
  have "paging_inv ?ns (p # us)"
    by (rule new_space_inv [OF inv3 p h(2) live(1) fr']) (use kl blank_slots_kernel in \<open>simp_all add: kernel_table_def blank_slots_def\<close>)
  moreover have "slots ?ns = (slots st3)(p := blank_slots)" using new_space_slots(1) [OF inv3 p fr'] by (simp add: blank_slots_def)
  moreover have "slots st3 = slots st" by (simp add: h3)
  ultimately show ?thesis
    unfolding created_def st using p h(2) by (simp add: h3 new_space_def)
qed

lemma create_spec:
  assumes inv: "paging_inv st us"
  shows "(\<exists>h. paging_create_user_address_space st = Some (NULL, st\<lparr>pg_heap := h\<rparr>) \<and> paging_inv (st\<lparr>pg_heap := h\<rparr>) us) \<or>
    (\<exists>p st'. paging_create_user_address_space st = Some (p, st') \<and> created st us p st')"
proof -
  obtain p h where h: "kmalloc sizeof_address_space (pg_heap st) = Some (p, h)" using kheap.alloc_total [OF paging_invD(1) [OF inv]] by blast
  note m = kmalloc_inv [OF inv h]
  show ?thesis
  proof (cases "p = NULL")
    case True
    then show ?thesis using h m(1) by (auto simp: paging_create_user_address_space_def)
  next
    case False
    let ?st = "st\<lparr>pg_heap := h\<rparr>"
    obtain d st1 where a1: "alloc_frame ?st = (d, st1)" by fastforce
    obtain f st2 where a2: "alloc_frame st1 = (f, st2)" by fastforce
    obtain e st3 where a3: "alloc_frame st2 = (e, st3)" by fastforce
    have "fresh_structs ?st us []" by (simp add: fresh_structs_def)
    note s1 = alloc_frame_step [OF m(1) this a1, unfolded append_Nil]
    note s2 = alloc_frame_step [OF conjunct1 [OF s1] conjunct1 [OF conjunct2 [OF s1]] a2]
    note s3 = alloc_frame_step [OF conjunct1 [OF s2] conjunct1 [OF conjunct2 [OF s2]] a3]
    have inv3: "paging_inv st3 us" and fr: "fresh_structs st3 us (non_null [d, f, e])" using s3 by (simp_all split: if_splits)
    have hs: "heap_step ?st st3" using s1 s2 s3 heap_step_trans by blast
    then obtain h3 where h3: "st3 = st\<lparr>pg_heap := h3\<rparr>" "heap_live h3 = heap_live h" by (auto simp: heap_step_def)
    have pl: "p \<in> fst ` heap_live (pg_heap st3)" "p \<notin> set us" using m(2) False h3 paging_invD(2) [OF inv] by auto
    show ?thesis
    proof (cases "d = NULL \<or> f = NULL \<or> e = NULL")
      case True
      then show ?thesis using create_undo_spec [OF inv3 fr pl] False h a1 a2 a3
        by (auto simp: paging_create_user_address_space_def h3)
    next
      case ok: False
      then have fr': "fresh_structs st3 us [d, f, e]" using fr by simp
      obtain kdir where kd: "page_directories st3 (kernel_directory st3) = Some kdir" "page_tables st3 (kernel_table_at 0 st3) = Some (kernel_table 0)"
        using paging_invD(3) [OF inv3] by (auto simp: kernel_ok_def)
      from create_build [OF inv h False inv3 hs fr' kd(1)] ok False kd h a1 a2 a3 show ?thesis
        by (simp add: paging_create_user_address_space_def)
    qed
  qed
qed

subsection \<open>Cloning a space\<close>

lemma shared_slot_step:
  assumes inv: "paging_inv st us" and c: "c \<in> set us" and a: "address_spaces st c = Some a" and i: "i < 2048"
    and nu: "\<not> is_user (slots st c ! i)" and p: "p \<in> set us" "k < 2048" "is_user (slots st p ! k)" "shared (slots st p ! k) = rw (slots st p ! k)"
    and new: "frame (slots st p ! k) \<notin> set (uframes (slots st c))"
  defines "e \<equiv> slots st p ! k"
  defines "st' \<equiv> cow_ref_inc (frame e) (set_slot (slot_ref a i) e st)"
  shows "paging_inv st' us" "slots st' = (slots st)(c := (slots st c)[i := e])"
proof -
  note D = paging_invD [OF inv] and S = invariant_sets [OF inv]
  have il: "i < length (slots st c)" and kl: "k < length (slots st p)" using slots_length [OF inv] c p i by simp_all
  have fm: "frame e \<in># mappings us (slots st)" unfolding e_def by (rule slot_mapped [OF inv p(1-3)])
  have small: "unat (frame e) < FRAME_COUNT" by (rule mapped_small [OF inv fm])
  have e: "is_user e" "shared e = rw e" "frame e \<notin> set (uframes (slots st c))" using p(3,4) new by (simp_all add: e_def)
  let ?sl = "(slots st)(c := (slots st c)[i := e])" and ?n = "unat (frame e)"
  have all: "shared d = shared e \<and> rw d = rw e" if "q \<in> set us" "d \<in> set (slots st q)" "is_user d" "frame d = frame e" for q d
    using same_rights [OF D(7,8) p(1) kl p(3,4), folded e_def, OF that] .
  have sh: "counts_ok us ?sl ((page_ref st)[?n := page_ref st ! ?n + 1])" "private_ok us ?sl"
    "mappings us ?sl = add_mset (frame e) (mappings us (slots st))"
    by (rule share_ok [OF D(7,8) few_spaces [OF inv] c il nu e fm small], rule all, assumption+)+
  have m: "unat ` set_mset (mappings us ?sl) = mapped st us" unfolding sh(3) mapped_def using fm by auto
  have fd: "\<forall>f \<in># mappings us ?sl. length (frame_data st f) = 4096" unfolding sh(3) using D(9) fm by simp
  note step = inv_slot_step [OF inv c a i refl sh(1,2) pmm_ok [OF D(1)] S(1) S(2) [folded m] S(3) [folded m] S(4) [folded m] fd]
  have "st' = slot_step (slot_ref a i) e ((page_ref st)[?n := page_ref st ! ?n + 1]) (frame_data st) (heap_pmm (pg_heap st)) st"
    using small by (simp add: st'_def cow_ref_inc_def slot_step_def set_slot_def)
  with step show "paging_inv st' us" "slots st' = ?sl" by simp_all
qed

lemma read_only_slot:
  assumes inv: "paging_inv st us" and p: "p \<in> set us" and a: "address_spaces st p = Some a" and i: "i < 2048"
    and u: "is_user (slots st p ! i)" "\<not> shared (slots st p ! i)"
  shows "paging_inv (set_slot (slot_ref a i) ((slots st p ! i)\<lparr>rw := False\<rparr>) st) us"
proof -
  note D = paging_invD [OF inv] and S = invariant_sets [OF inv]
  let ?e = "(slots st p ! i)\<lparr>rw := False\<rparr>"
  let ?sl = "(slots st)(p := (slots st p)[i := ?e])"
  have il: "i < length (slots st p)" using slots_length [OF inv p] i by simp
  have r: "counts_ok us ?sl (page_ref st)" "private_ok us ?sl" "mappings us ?sl = mappings us (slots st)"
    by (rule rights_ok [OF D(7,8) p il]; use u in \<open>simp add: is_user_def\<close>)+
  have m: "unat ` set_mset (mappings us ?sl) = mapped st us" by (simp add: r(3) mapped_def)
  have fd: "\<forall>f \<in># mappings us ?sl. length (frame_data st f) = 4096" using D(9) by (simp add: r(3))
  have "set_slot (slot_ref a i) ?e st = slot_step (slot_ref a i) ?e (page_ref st) (frame_data st) (heap_pmm (pg_heap st)) st"
    by (simp add: slot_step_def set_slot_def)
  with inv_slot_step(1) [OF inv p a i refl r(1,2) pmm_ok [OF D(1)] S(1) S(2) [folded m] S(3) [folded m] S(4) [folded m] fd]
  show ?thesis by simp
qed

text \<open>What cloning leaves behind an entry of the parent, and what the child gets.\<close>

definition cloned :: "page_entry \<Rightarrow> page_entry" where
  "cloned e = (if is_user e \<and> \<not> shared e then e\<lparr>rw := False\<rparr> else e)"

lemma cloned_simps [simp]: "is_user (cloned e) = is_user e" "frame (cloned e) = frame e" "shared (cloned e) = shared e"
  by (simp_all add: cloned_def is_user_def)

lemma cow_ref_inc_simps [simp]:
  "address_spaces (cow_ref_inc f st) = address_spaces st" "frame_data (cow_ref_inc f st) = frame_data st"
  "pg_active (cow_ref_inc f st) = pg_active st" "tlb (cow_ref_inc f st) = tlb st" "cr3 (cow_ref_inc f st) = cr3 st"
  "kernel_space_at (cow_ref_inc f st) = kernel_space_at st"
  by (simp_all add: cow_ref_inc_def)

definition same_machine :: "paging \<Rightarrow> paging \<Rightarrow> bool" where
  "same_machine st st' \<longleftrightarrow> frame_data st' = frame_data st \<and> address_spaces st' = address_spaces st \<and> pg_active st' = pg_active st \<and>
     cr3 st' = cr3 st \<and> tlb st' = tlb st \<and> kernel_space_at st' = kernel_space_at st"

lemma clone_entry_spec:
  assumes inv: "paging_inv st us" and pc: "p \<in> set us" "c \<in> set us" "p \<noteq> c" and k: "k < 2048"
    and a: "address_spaces st p = Some a" "address_spaces st c = Some ch"
    and e: "e = slots st p ! k" and nu: "\<not> is_user (slots st c ! k)" and new: "is_user e \<Longrightarrow> frame e \<notin> set (uframes (slots st c))"
  shows "\<exists>st'. clone_entry (fst (slot_ref a k)) (fst (slot_ref ch k)) (snd (slot_ref a k)) st = Some st' \<and> paging_inv st' us \<and>
    slots st' = (if is_user e then (slots st)(p := (slots st p)[k := cloned e], c := (slots st c)[k := cloned e]) else slots st) \<and>
    same_machine st st'"
proof -
  have r: "(fst (slot_ref a k), snd (slot_ref a k)) = slot_ref a k" "(fst (slot_ref ch k), snd (slot_ref a k)) = slot_ref ch k"
    by (simp_all add: slot_ref_def)
  note rd = slot_access(1) [OF inv pc(1) a(1) k]
  have kl: "k < length (slots st p)" using slots_length [OF inv pc(1)] k by simp
  consider (kernel) "\<not> is_user e" | (shared) "is_user e" "shared e" | (priv) "is_user e" "\<not> shared e" by blast
  then show ?thesis
  proof cases
    case kernel
    then show ?thesis using rd inv by (auto simp: clone_entry_def r e is_user_def same_machine_def)
  next
    case shared
    have "rw e" using private_okD(2) [OF paging_invD(8) [OF inv] pc(1) nth_mem [OF kl]] shared e by simp
    with shared e new shared_slot_step [OF inv pc(2) a(2) k nu pc(1) k] slot_access(2) [OF inv pc(2) a(2) k] rd show ?thesis
      by (auto simp: clone_entry_def r is_user_def cloned_def same_machine_def)
  next
    case priv
    let ?e = "e\<lparr>rw := False\<rparr>"
    define st1 where "st1 = set_slot (slot_ref a k) ?e st"
    have w1: "write_pte (slot_ref a k) ?e st = Some st1" unfolding st1_def by (rule slot_access(2) [OF inv pc(1) a(1) k])
    have inv1: "paging_inv st1 us" unfolding st1_def e using read_only_slot [OF inv pc(1) a(1) k] priv e by simp
    have s1: "slots st1 = (slots st)(p := (slots st p)[k := ?e])" unfolding st1_def by (rule slots_set_slot [OF inv pc(1) a(1) k])
    have a1: "address_spaces st1 c = Some ch" using a(2) by (simp add: st1_def)
    have c1: "slots st1 c = slots st c" and p1: "slots st1 p ! k = ?e" using s1 pc(3) kl by auto
    have ue: "is_user ?e" using priv(1) by (simp add: is_user_def)
    have n1: "\<not> is_user (slots st1 c ! k)" using nu c1 by simp
    have q1: "is_user (slots st1 p ! k)" "shared (slots st1 p ! k) = rw (slots st1 p ! k)" "frame (slots st1 p ! k) \<notin> set (uframes (slots st1 c))"
      using ue priv new c1 p1 by simp_all
    note sh = shared_slot_step [OF inv1 pc(2) a1 k n1 pc(1) k q1, unfolded p1]
    have w2: "write_pte (slot_ref ch k) ?e st1 = Some (set_slot (slot_ref ch k) ?e st1)" by (rule slot_access(2) [OF inv1 pc(2) a1 k])
    have "clone_entry (fst (slot_ref a k)) (fst (slot_ref ch k)) (snd (slot_ref a k)) st = Some (cow_ref_inc (frame ?e) (set_slot (slot_ref ch k) ?e st1))"
      unfolding clone_entry_def r using rd e priv w1 w2 by (simp add: is_user_def)
    moreover have "cloned e = ?e" using priv by (simp add: cloned_def)
    moreover have "same_machine st (cow_ref_inc (frame ?e) (set_slot (slot_ref ch k) ?e st1))" by (simp add: same_machine_def st1_def)
    ultimately show ?thesis using sh s1 c1 priv(1) by (simp add: fun_upd_twist)
  qed
qed

text \<open>The entries below \<open>k\<close> are cloned.\<close>

definition cloning :: "ptr list \<Rightarrow> ptr \<Rightarrow> ptr \<Rightarrow> nat \<Rightarrow> paging \<Rightarrow> paging \<Rightarrow> bool" where
  "cloning us p c k st0 st \<longleftrightarrow> paging_inv st us \<and> same_machine st0 st \<and> (\<forall>q. q \<noteq> p \<and> q \<noteq> c \<longrightarrow> slots st q = slots st0 q) \<and>
     (\<forall>j<2048. slots st p ! j = (if j < k then cloned (slots st0 p ! j) else slots st0 p ! j)) \<and>
     (\<forall>j<2048. slots st c ! j = (if j < k \<and> is_user (slots st0 p ! j) then cloned (slots st0 p ! j) else blank_slots ! j))"

lemma blank_slot: "j < 2048 \<Longrightarrow> \<not> is_user (blank_slots ! j)"
  using bspec [OF blank_slots_kernel nth_mem [of j blank_slots]] by (simp add: blank_slots_def kernel_table_def)

lemma cloning_step:
  assumes cl: "cloning us p c k st0 st" and pc: "p \<in> set us" "c \<in> set us" "p \<noteq> c" and k: "k < 2048"
    and a: "address_spaces st0 p = Some a" "address_spaces st0 c = Some ch"
  shows "\<exists>st'. clone_entry (fst (slot_ref a k)) (fst (slot_ref ch k)) (snd (slot_ref a k)) st = Some st' \<and> cloning us p c (Suc k) st0 st'"
proof -
  note C = cl [unfolded cloning_def]
  have inv: "paging_inv st us" and as: "address_spaces st p = Some a" "address_spaces st c = Some ch"
    using C a by (auto simp: same_machine_def)
  have len: "length (slots st p) = 2048" "length (slots st c) = 2048" using slots_length [OF inv] pc by simp_all
  have e: "slots st p ! k = slots st0 p ! k" using C k by simp
  have nu: "\<not> is_user (slots st c ! k)" using C k blank_slot [OF k] by simp
  have new: "frame (slots st p ! k) \<notin> set (uframes (slots st c))" if u: "is_user (slots st p ! k)"
  proof
    assume "frame (slots st p ! k) \<in> set (uframes (slots st c))"
    then obtain j where j: "j < 2048" "is_user (slots st c ! j)" "frame (slots st c ! j) = frame (slots st p ! k)"
      unfolding in_uframes by (auto simp: in_set_conv_nth len)
    then have jk: "j < k" "is_user (slots st0 p ! j)" "slots st c ! j = cloned (slots st0 p ! j)"
      using C blank_slot by (auto split: if_splits)
    then have "slots st p ! j = slots st c ! j" using C j(1) by simp
    moreover have "distinct (uframes (slots st p))" using counts_okD(4) [OF paging_invD(7) [OF inv]] pc(1) by blast
    ultimately have "j = k" using uframes_inj [of "slots st p" j k] u j k len by simp
    with jk(1) show False by simp
  qed
  obtain st' where st': "clone_entry (fst (slot_ref a k)) (fst (slot_ref ch k)) (snd (slot_ref a k)) st = Some st'" "paging_inv st' us"
    "slots st' = (if is_user (slots st p ! k) then (slots st)(p := (slots st p)[k := cloned (slots st p ! k)], c := (slots st c)[k := cloned (slots st p ! k)]) else slots st)"
    "same_machine st st'"
    using clone_entry_spec [OF inv pc k as refl nu new] by blast
  have "slots st' p ! j = (if j < Suc k then cloned (slots st0 p ! j) else slots st0 p ! j)" if "j < 2048" for j
  proof (cases "j = k")
    case True
    then show ?thesis using st'(3) e pc(3) k len by (auto simp: cloned_def)
  next
    case False
    then have "slots st' p ! j = slots st p ! j" using st'(3) pc(3) by simp
    with False C that show ?thesis by (simp add: less_Suc_eq)
  qed
  moreover have "slots st' c ! j = (if j < Suc k \<and> is_user (slots st0 p ! j) then cloned (slots st0 p ! j) else blank_slots ! j)" if "j < 2048" for j
  proof (cases "j = k")
    case True
    then show ?thesis using st'(3) e pc(3) k len C by auto
  next
    case False
    then have "slots st' c ! j = slots st c ! j" using st'(3) by simp
    with False C that show ?thesis by (simp add: less_Suc_eq)
  qed
  moreover have "slots st' q = slots st0 q" if "q \<noteq> p" "q \<noteq> c" for q using st'(3) C that by simp
  ultimately have "cloning us p c (Suc k) st0 st'"
    using st'(2,4) C unfolding cloning_def by (simp add: same_machine_def)
  with st'(1) show ?thesis by blast
qed

lemma clone_loop_spec:
  assumes pc: "p \<in> set us" "c \<in> set us" "p \<noteq> c" and a: "address_spaces st0 p = Some a" "address_spaces st0 c = Some ch"
    and r: "\<And>j. j < n \<Longrightarrow> slot_ref a (off + j) = (s, j) \<and> slot_ref ch (off + j) = (d, j)" and n: "off + n \<le> 2048"
  shows "i \<le> n \<Longrightarrow> cloning us p c (off + i) st0 st \<Longrightarrow> \<exists>st'. clone_loop s d [i..<n] st = Some st' \<and> cloning us p c (off + n) st0 st'"
proof (induction "n - i" arbitrary: i st)
  case 0
  then show ?case by simp
next
  case (Suc m)
  then have i: "i < n" by simp
  obtain st1 where st1: "clone_entry s d i st = Some st1" "cloning us p c (off + Suc i) st0 st1"
    using cloning_step [OF Suc.prems(2) pc _ a] r [OF i] n i by auto
  have "\<exists>st'. clone_loop s d [Suc i..<n] st1 = Some st' \<and> cloning us p c (off + n) st0 st'"
    using Suc.hyps(1) [of "Suc i" st1] Suc.hyps(2) i st1(2) by simp
  with st1(1) i show ?case by (auto simp: upt_conv_Cons)
qed

lemma clone_spec:
  assumes inv: "paging_inv st us" and p: "p \<in> set us" and act: "pg_active st = NULL \<or> pg_active st \<in> insert (kernel_space_at st) (set us)"
  shows "(\<exists>h. paging_clone_address_space p st = Some (NULL, st\<lparr>pg_heap := h\<rparr>) \<and> paging_inv (st\<lparr>pg_heap := h\<rparr>) us) \<or>
    (\<exists>c st1 st2 st3. paging_clone_address_space p st = Some (c, st3) \<and> created st us c st1 \<and> cloning (c # us) p c 2048 st1 st2 \<and>
       (\<exists>d. st3 = load_cr3 d st2 \<or> st3 = st2 \<and> pg_active st = NULL))"
proof -
  obtain a where a: "address_spaces st p = Some a" "p \<noteq> NULL" "{as_directory a, as_first_table a, as_ext_table a} \<subseteq> set (structs st us)"
    using spaceD [OF inv p] by metis
  then have ft: "as_first_table a \<noteq> NULL" "as_ext_table a \<noteq> NULL" using kernel_not_struct(3) [OF inv] by blast+
  from create_spec [OF inv] show ?thesis
  proof
    assume "\<exists>h. paging_create_user_address_space st = Some (NULL, st\<lparr>pg_heap := h\<rparr>) \<and> paging_inv (st\<lparr>pg_heap := h\<rparr>) us"
    then show ?thesis using a ft by (auto simp: paging_clone_address_space_def)
  next
    assume "\<exists>c st1. paging_create_user_address_space st = Some (c, st1) \<and> created st us c st1"
    then obtain c st1 where cr: "paging_create_user_address_space st = Some (c, st1)" "created st us c st1" by blast
    note C = cr(2) [unfolded created_def]
    have pc: "p \<in> set (c # us)" "c \<in> set (c # us)" "p \<noteq> c" using p C by auto
    have inv1: "paging_inv st1 (c # us)" and a1: "address_spaces st1 p = Some a" using C a(1) pc(3) by simp_all
    obtain ch where ch: "address_spaces st1 c = Some ch" "{as_directory ch, as_first_table ch, as_ext_table ch} \<subseteq> set (structs st1 (c # us))"
      using spaceD [OF inv1 pc(2)] by metis
    then have ct: "as_first_table ch \<noteq> NULL" "as_ext_table ch \<noteq> NULL" using kernel_not_struct(3) [OF inv1] by blast+
    have c0: "cloning (c # us) p c 0 st1 st1" using inv1 C by (simp add: cloning_def same_machine_def)
    obtain s1 where s1: "clone_loop (as_first_table a) (as_first_table ch) [0..<1024] st1 = Some s1" "cloning (c # us) p c 1024 st1 s1"
      using clone_loop_spec [OF pc a1 ch(1), of 1024 0 "as_first_table a" "as_first_table ch" 0 st1] c0 by (auto simp: slot_ref_def)
    obtain s2 where s2: "clone_loop (as_ext_table a) (as_ext_table ch) [0..<1024] s1 = Some s2" "cloning (c # us) p c 2048 st1 s2"
      using clone_loop_spec [OF pc a1 ch(1), of 1024 1024 "as_ext_table a" "as_ext_table ch" 0 s1] s1(2) by (auto simp: slot_ref_def)
    have "\<exists>s3 d. paging_flush_tlb s2 = Some s3 \<and> (s3 = load_cr3 d s2 \<or> s3 = s2 \<and> pg_active st = NULL)"
    proof (cases "pg_active st = NULL")
      case True
      then show ?thesis using s2(2) C by (auto simp: paging_flush_tlb_def cloning_def same_machine_def)
    next
      case False
      have "pg_active s2 = pg_active st" "address_spaces s2 = address_spaces st1" "kernel_space_at st1 = kernel_space_at st"
        using s2(2) C by (auto simp: cloning_def same_machine_def)
      moreover have "pg_active st \<in> dom (address_spaces st1)"
        using act False paging_invD(5) [OF inv1] C by (auto simp: spaces_ok_def)
      ultimately show ?thesis using False by (auto simp: paging_flush_tlb_def)
    qed
    then obtain s3 d where "paging_flush_tlb s2 = Some s3" "s3 = load_cr3 d s2 \<or> s3 = s2 \<and> pg_active st = NULL" by blast
    moreover from this have "paging_clone_address_space p st = Some (c, s3)"
      using a ft cr(1) C ch(1) ct s1(1) s2(1) by (simp add: paging_clone_address_space_def paging_cow_clone_table_def)
    ultimately show ?thesis using cr(2) s2(2) by blast
  qed
qed

subsection \<open>Destroying a space\<close>

definition same_owners :: "paging \<Rightarrow> paging \<Rightarrow> bool" where
  "same_owners st st' \<longleftrightarrow> same_machine st st' \<and> kernel_tables st' = kernel_tables st \<and> kernel_directory st' = kernel_directory st \<and>
     page_directories st' = page_directories st \<and> user_space_count st' = user_space_count st \<and> heap_live (pg_heap st') = heap_live (pg_heap st)"

text \<open>The user entries below \<open>k\<close> are gone, and with them the frames nobody maps any more.\<close>

definition dropping :: "ptr list \<Rightarrow> ptr \<Rightarrow> nat \<Rightarrow> paging \<Rightarrow> paging \<Rightarrow> bool" where
  "dropping us p k st0 st \<longleftrightarrow> paging_inv st us \<and> same_owners st0 st \<and> (\<forall>q. q \<noteq> p \<longrightarrow> slots st q = slots st0 q) \<and>
     (\<forall>j<k. j < 2048 \<longrightarrow> \<not> is_user (slots st p ! j)) \<and> mapped st us \<subseteq> mapped st0 us \<and>
     frames_used (heap_pmm (pg_heap st)) = frames_used (heap_pmm (pg_heap st0)) - (mapped st0 us - mapped st us)"

lemma drop_step_frames:
  assumes inv: "paging_inv st us" and p: "p \<in> set us" and a: "address_spaces st p = Some a" and i: "i < 2048"
    and u: "is_user (slots st p ! i)" and e: "\<not> is_user e"
  defines "st' \<equiv> drop_step (slot_ref a i) e (frame (slots st p ! i)) st"
  shows "same_owners st st'" "mapped st' us \<subseteq> mapped st us"
    "frames_used (heap_pmm (pg_heap st')) = frames_used (heap_pmm (pg_heap st)) - (mapped st us - mapped st' us)"
proof -
  note d = drop_slot [OF inv p a i u e, folded st'_def]
  let ?f = "frame (slots st p ! i)"
  have m: "mapped st us = insert (unat ?f) (mapped st' us)" unfolding mapped_def d(3,4) by simp
  then show "mapped st' us \<subseteq> mapped st us" by blast
  have "?f \<in># mappings us (slots st') \<longleftrightarrow> unat ?f \<in> mapped st' us" unfolding mapped_def by (auto simp: word_unat_eq_iff [symmetric])
  then have "mapped st us - mapped st' us = (if ?f \<in># mappings us (slots st') then {} else {unat ?f})" unfolding m by auto
  with d(5) show "frames_used (heap_pmm (pg_heap st')) = frames_used (heap_pmm (pg_heap st)) - (mapped st us - mapped st' us)"
    unfolding d(3) by simp
  have pm: "pmm_inv (heap_pmm (pg_heap st'))" by (rule pmm_ok [OF paging_invD(1) [OF d(2)]])
  have hp: "pg_heap st' = (pg_heap st)\<lparr>heap_pmm := heap_pmm (pg_heap st')\<rparr>" by (simp add: st'_def drop_step_def slot_step_def)
  have "heap_frames (pg_heap st) \<inter> mapped st us = {}" using invariant_sets(4) [OF inv] by blast
  then have "heap_frames (pg_heap st) \<subseteq> frames_used (heap_pmm (pg_heap st'))"
    using d(5) m invariant_sets(1) [OF inv] by auto
  from heap_other_frames(2) [OF paging_invD(1) [OF inv] pm this] have "heap_live (pg_heap st') = heap_live (pg_heap st)" using hp by simp
  then show "same_owners st st'" by (simp add: same_owners_def same_machine_def st'_def drop_step_def slot_step_def)
qed

lemma same_owners_trans: "same_owners st st1 \<Longrightarrow> same_owners st1 st2 \<Longrightarrow> same_owners st st2"
  by (simp add: same_owners_def same_machine_def)

lemma dropping_step:
  assumes dr: "dropping us p k st0 st" and p: "p \<in> set us" and k: "k < 2048" and a: "address_spaces st0 p = Some a"
  shows "\<exists>st'. (do { page \<leftarrow> read_pte (slot_ref a k) st;
      (if present page \<and> user page then write_pte (slot_ref a k) (page\<lparr>user := False\<rparr>) (release_frame_of page st) else Some st) }) = Some st' \<and>
    dropping us p (Suc k) st0 st'"
proof -
  note D = dr [unfolded dropping_def]
  have inv: "paging_inv st us" and a': "address_spaces st p = Some a" using D a by (auto simp: same_owners_def same_machine_def)
  note rd = slot_access(1) [OF inv p a' k]
  show ?thesis
  proof (cases "is_user (slots st p ! k)")
    case False
    then have "dropping us p (Suc k) st0 st" using D unfolding dropping_def by (auto simp: less_Suc_eq)
    then show ?thesis using False rd by (auto simp: is_user_def)
  next
    case True
    let ?e = "(slots st p ! k)\<lparr>user := False\<rparr>"
    have e: "\<not> is_user ?e" by (simp add: is_user_def)
    define st' where "st' = drop_step (slot_ref a k) ?e (frame (slots st p ! k)) st"
    note d = drop_slot [OF inv p a' k True e, folded st'_def] and f = drop_step_frames [OF inv p a' k True e, folded st'_def]
    have len: "length (slots st p) = 2048" by (rule slots_length [OF inv p])
    have "mapped st us - mapped st' us \<union> (mapped st0 us - mapped st us) = mapped st0 us - mapped st' us" using f(2) D by blast
    then have "frames_used (heap_pmm (pg_heap st')) = frames_used (heap_pmm (pg_heap st0)) - (mapped st0 us - mapped st' us)"
      using f(3) D by blast
    then have "dropping us p (Suc k) st0 st'"
      unfolding dropping_def using d(2,3) f(1,2) D e len k same_owners_trans by (auto simp: less_Suc_eq nth_list_update)
    then show ?thesis using rd True d(1) by (auto simp: is_user_def)
  qed
qed

lemma destroy_loop_spec:
  assumes p: "p \<in> set us" and a: "address_spaces st0 p = Some a"
    and r: "\<And>j. j < n \<Longrightarrow> slot_ref a (off + j) = (t, j)" and n: "off + n \<le> 2048"
  shows "i \<le> n \<Longrightarrow> dropping us p (off + i) st0 st \<Longrightarrow> \<exists>st'. destroy_loop t [i..<n] st = Some st' \<and> dropping us p (off + n) st0 st'"
proof (induction "n - i" arbitrary: i st)
  case 0
  then show ?case by simp
next
  case (Suc m)
  then have i: "i < n" by simp
  obtain st1 where st1: "(do { page \<leftarrow> read_pte (t, i) st;
      (if present page \<and> user page then write_pte (t, i) (page\<lparr>user := False\<rparr>) (release_frame_of page st) else Some st) }) = Some st1"
    "dropping us p (off + Suc i) st0 st1"
    using dropping_step [OF Suc.prems(2) p _ a, unfolded r [OF i]] n i by auto
  have "\<exists>st'. destroy_loop t [Suc i..<n] st1 = Some st' \<and> dropping us p (off + n) st0 st'"
    using Suc.hyps(1) [of "Suc i" st1] Suc.hyps(2) i st1(2) by simp
  moreover obtain page where "read_pte (t, i) st = Some page"
    "(if present page \<and> user page then write_pte (t, i) (page\<lparr>user := False\<rparr>) (release_frame_of page st) else Some st) = Some st1"
    using st1(1) by (auto simp: bind_eq_Some_conv)
  then have "destroy_loop t (i # [Suc i..<n]) st = destroy_loop t [Suc i..<n] st1" by simp
  ultimately show ?case using i by (simp only: upt_conv_Cons)
qed

definition old_space :: "ptr \<Rightarrow> address_space \<Rightarrow> paging \<Rightarrow> paging" where
  "old_space p a st = st\<lparr>address_spaces := (address_spaces st)(p := None), page_directories := (page_directories st)(as_directory a := None),
     page_tables := (page_tables st)(as_first_table a := None, as_ext_table a := None)\<rparr>"

lemma mappings_remove:
  assumes "distinct us" "p \<in> set us" "uframes (sl p) = []"
  shows "mappings (remove1 p us) (sl(p := es)) = mappings us sl"
  using assms by (induction us) (auto simp: mappings_other)

lemma structs_remove:
  assumes "distinct us" "p \<in> set us" "address_spaces st p = Some a"
  shows "mset (structs st us) = mset ([as_first_table a, as_ext_table a, as_directory a] @ structs (old_space p a st) (remove1 p us))"
proof -
  have same: "q \<noteq> p \<Longrightarrow> space_structs (old_space p a st) q = space_structs st q" for q
    by (simp add: space_structs_def old_space_def)
  have "p \<notin> set vs \<Longrightarrow> structs (old_space p a st) vs = structs st vs" for vs
    by (induction vs) (auto simp: structs_def same)
  with assms show ?thesis by (induction us) (auto simp: structs_def same space_structs_def [of st p])
qed

lemma old_space_slots:
  assumes inv: "paging_inv st us" and p: "p \<in> set us" and a: "address_spaces st p = Some a"
  shows "slots (old_space p a st) = (slots st)(p := [])"
    "q \<in> set us \<Longrightarrow> q \<noteq> p \<Longrightarrow> space_ok (old_space p a st) q" "kernel_ok (old_space p a st)"
proof -
  note D = paging_invD [OF inv]
  have sa: "{as_directory a, as_first_table a, as_ext_table a} \<subseteq> set (structs st us)" using spaceD [OF inv p] a by (metis option.inject)
  then have ks: "kernel_table_at 0 st \<notin> {as_first_table a, as_ext_table a}" "kernel_directory st \<noteq> as_directory a"
    "NULL \<notin> {as_first_table a, as_ext_table a}" using kernel_not_struct [OF inv] by blast+
  have dis: "set (space_structs st q) \<inter> {as_directory a, as_first_table a, as_ext_table a} = {}" if "q \<in> set us" "q \<noteq> p" for q
  proof -
    have "distinct (structs st us)" using D(5) by (simp add: spaces_ok_def)
    from structs_distinct [OF this that(1) p that(2)] show ?thesis using a by (simp add: space_structs_def [of st p])
  qed
  have old: "page_tables (old_space p a st) r = page_tables st r" if "r \<notin> {as_first_table a, as_ext_table a}" for r
    using that by (simp add: old_space_def)
  show "space_ok (old_space p a st) q" if q: "q \<in> set us" "q \<noteq> p"
  proof (rule spaceD [OF inv q(1)])
    fix b t x d
    assume b: "address_spaces st q = Some b" "as_owns_tables b" "page_tables st (as_first_table b) = Some t" "length t = 1024"
      "page_tables st (as_ext_table b) = Some x" "length x = 1024" "page_directories st (as_directory b) = Some d" "length d = 1024"
    then have "as_first_table b \<notin> {as_first_table a, as_ext_table a}" "as_ext_table b \<notin> {as_first_table a, as_ext_table a}" "as_directory b \<noteq> as_directory a"
      using dis [OF q] by (auto simp: space_structs_def)
    with b q show ?thesis unfolding space_ok_def by (intro exI [of _ b] exI [of _ t] exI [of _ x] exI [of _ d]) (simp add: old_space_def)
  qed
  have kp: "kernel_space_at st \<noteq> p" using D(4) p by blast
  then show "kernel_ok (old_space p a st)"
    using D(3) ks by (simp add: kernel_ok_def old_space_def kernel_table_at_def)
  show "slots (old_space p a st) = (slots st)(p := [])"
  proof
    fix q show "slots (old_space p a st) q = ((slots st)(p := [])) q"
    proof (cases "address_spaces st q")
      case None
      then show ?thesis by (simp add: slots_def old_space_def)
    next
      case (Some b)
      show ?thesis
      proof (cases "q = p")
        case True
        then show ?thesis by (simp add: slots_def old_space_def)
      next
        case False
        have "q \<in> insert (kernel_space_at st) (set us)" using D(5) Some by (auto simp: spaces_ok_def)
        then have "as_first_table b \<notin> {as_first_table a, as_ext_table a} \<and> as_ext_table b \<notin> {as_first_table a, as_ext_table a}"
          using dis [of q] False Some ks D(3) by (auto simp: space_structs_def kernel_ok_def)
        with False Some show ?thesis by (simp add: slots_def old) (simp add: old_space_def)
      qed
    qed
  qed
qed

lemma old_space_inv:
  assumes inv: "paging_inv st us" and p: "p \<in> set us" and a: "address_spaces st p = Some a" and e: "\<forall>e \<in> set (slots st p). \<not> is_user e"
  shows "paging_inv (old_space p a st) (remove1 p us)" "fresh_structs (old_space p a st) (remove1 p us) [as_first_table a, as_ext_table a, as_directory a]"
    "mapped (old_space p a st) (remove1 p us) = mapped st us"
proof -
  note D = paging_invD [OF inv] and S = invariant_sets [OF inv] and sl = old_space_slots [OF inv p a]
  let ?st = "old_space p a st" and ?us = "remove1 p us" and ?qs = "[as_first_table a, as_ext_table a, as_directory a]"
  have mp: "mappings ?us (slots ?st) = mappings us (slots st)"
    unfolding sl(1) using mappings_remove [of us p "slots st"] D(10) p no_user_frames [OF e] by simp
  show m: "mapped ?st ?us = mapped st us" unfolding mapped_def mp ..
  have us: "set ?us = set us - {p}" by (rule set_remove1_eq [OF D(10)])
  have kf: "kernel_frames ?st = kernel_frames st" by (simp add: kernel_frames_def kernel_table_at_def old_space_def)
  have hp: "pg_heap ?st = pg_heap st" by (simp add: old_space_def)
  note ms = structs_remove [OF D(10) p a]
  have st: "set (structs st us) = set ?qs \<union> set (structs ?st ?us)" using mset_eq_setD [OF ms] by simp
  have "distinct (structs st us)" using D(5) by (simp add: spaces_ok_def)
  then have dis: "distinct ?qs" "distinct (structs ?st ?us)" "set ?qs \<inter> set (structs ?st ?us) = {}"
    using mset_eq_imp_distinct_iff [OF ms] by (simp_all only: distinct_append)
  define A where "A = frame_no ` set (structs ?st ?us)"
  define Q where "Q = frame_no ` set ?qs"
  have AQ: "frame_no ` set (structs st us) = Q \<union> A" unfolding st Q_def A_def by (rule image_Un)
  have "Q \<inter> A = {}"
    unfolding Q_def A_def using dis(3) st structs_frames_inj [OF D(5)] by (subst inj_on_image_Int [symmetric, of _ "set (structs st us)"]) auto
  then have f: "frame_no q \<notin> A \<union> mapped st us \<union> kernel_frames st \<union> heap_frames (pg_heap st) \<and> frame_no q \<in> frames_used (heap_pmm (pg_heap st))"
    if "q \<in> set ?qs" for q
  proof -
    have "frame_no q \<in> Q" unfolding Q_def using that by (rule imageI)
    with \<open>Q \<inter> A = {}\<close> S show ?thesis unfolding AQ by blast
  qed
  have nn: "\<forall>q \<in> set (structs st us). q \<noteq> NULL \<and> unat q mod 4096 = 0" using D(5) unfolding spaces_ok_def by (elim conjE)
  show "fresh_structs ?st ?us ?qs"
    unfolding fresh_structs_def m kf hp A_def [symmetric] using dis(1) f nn st by blast
  have "spaces_ok ?st ?us"
  proof -
    have "dom (address_spaces ?st) = insert (kernel_space_at ?st) (set ?us)"
      using D(4,5) p unfolding us by (auto simp: spaces_ok_def old_space_def)
    moreover have "\<forall>q \<in> set ?us. space_ok ?st q" using sl(2) us by simp
    ultimately show ?thesis using D(5) dis(2) nn us st unfolding spaces_ok_def by auto
  qed
  moreover have "frames_ok ?st ?us"
    unfolding frames_ok_def m kf hp A_def [symmetric] using S unfolding AQ by (intro conjI) blast+
  moreover have "counts_ok ?us (slots ?st) (page_ref ?st)" "private_ok ?us (slots ?st)"
  proof -
    have other: "q \<in> set ?us \<Longrightarrow> slots ?st q = slots st q" for q unfolding sl(1) us by simp
    show "counts_ok ?us (slots ?st) (page_ref ?st)"
      using D(7) other us unfolding counts_ok_def mp by (simp add: old_space_def distinct_remove1)
    show "private_ok ?us (slots ?st)" using D(8) other us unfolding private_ok_def mp by simp blast
  qed
  moreover have "frame_data ?st = frame_data st" "kernel_space_at ?st = kernel_space_at st" by (simp_all add: old_space_def)
  ultimately show "paging_inv ?st ?us"
    unfolding paging_inv_def mp hp using D(1,2,4) D(9) sl(3) us by auto
qed

text \<open>Everything a destroyed space had for itself is free again, and nothing else.\<close>

definition destroyed :: "paging \<Rightarrow> ptr list \<Rightarrow> ptr \<Rightarrow> paging \<Rightarrow> bool" where
  "destroyed st us p st' \<longleftrightarrow> paging_inv st' (remove1 p us) \<and> slots st' = (slots st)(p := []) \<and> frame_data st' = frame_data st \<and>
     kernel_space_at st' = kernel_space_at st \<and>
     mapped st' (remove1 p us) = unat ` set_mset (mappings (remove1 p us) (slots st)) \<and>
     frames_used (heap_pmm (pg_heap st')) = frames_used (heap_pmm (pg_heap st)) - (mapped st us - mapped st' (remove1 p us))
       - frame_no ` set (space_structs st p)"

lemma remove_other: "distinct us \<Longrightarrow> mappings (remove1 p us) (sl(p := es)) = mappings (remove1 p us) sl"
  by (rule mappings_other) simp

lemma free_structs:
  assumes inv: "paging_inv st us" and fr: "fresh_structs st us [f, e, d]" and p: "p \<in> fst ` heap_live (pg_heap st)" "p \<notin> set us"
  shows "\<exists>h. kfree p (pg_heap (free_frame d (free_frame e (free_frame f st)))) = Some h \<and> paging_inv (st\<lparr>pg_heap := h\<rparr>) us \<and>
    frames_used (heap_pmm h) = frames_used (heap_pmm (pg_heap st)) - frame_no ` {d, f, e}"
proof -
  have nn: "f \<noteq> NULL" "e \<noteq> NULL" "d \<noteq> NULL" using fr by (simp_all add: fresh_structs_def)
  define st1 where "st1 = free_frame f st"
  define st2 where "st2 = free_frame e st1"
  define st3 where "st3 = free_frame d st2"
  have F: "paging_inv (free_frame q s) us \<and> fresh_structs (free_frame q s) us qs \<and> heap_step s (free_frame q s) \<and>
      frames_used (heap_pmm (pg_heap (free_frame q s))) = frames_used (heap_pmm (pg_heap s)) - {frame_no q}"
    if "paging_inv s us" "fresh_structs s us (q # qs)" "q \<noteq> NULL" for q qs s
  proof -
    have id: "non_null (q # qs) = q # qs" "non_null qs = qs" using that(2) by (auto simp: fresh_structs_def filter_id_conv)
    have q: "unat q mod 4096 = 0" "frame_no q \<in> frames_used (heap_pmm (pg_heap s))"
      "frame_no q \<notin> frame_no ` set (structs s us) \<union> mapped s us \<union> kernel_frames s \<union> heap_frames (pg_heap s)"
      using that(2) unfolding fresh_structs_def by simp_all
    note free_frame_inv(2) [OF that(1) q(1) that(3) q(2,3)]
    with free_frame_step [OF that(1), of q qs "free_frame q s", unfolded id, OF that(2)] that(3) show ?thesis by simp
  qed
  note f1 = F [OF inv fr nn(1), folded st1_def]
  then have f2: "paging_inv st2 us \<and> fresh_structs st2 us [d] \<and> heap_step st1 st2 \<and>
      frames_used (heap_pmm (pg_heap st2)) = frames_used (heap_pmm (pg_heap st1)) - {frame_no e}"
    unfolding st2_def using F [of st1 e "[d]"] nn(2) by blast
  then have f3: "paging_inv st3 us \<and> heap_step st2 st3 \<and>
      frames_used (heap_pmm (pg_heap st3)) = frames_used (heap_pmm (pg_heap st2)) - {frame_no d}"
    unfolding st3_def using F [of st2 d "[]"] nn(3) by blast
  have "heap_step st st1" "heap_step st1 st2" "heap_step st2 st3" using f1 f2 f3 by simp_all
  then have "heap_step st st3" by (metis heap_step_trans)
  then obtain h0 where h0: "st3 = st\<lparr>pg_heap := h0\<rparr>" "heap_live h0 = heap_live (pg_heap st)" by (auto simp: heap_step_def)
  have "p \<in> fst ` heap_live (pg_heap st3)" using p(1) by (simp add: h0)
  then obtain h where h: "kfree p (pg_heap st3) = Some h" "paging_inv (st3\<lparr>pg_heap := h\<rparr>) us" "frames_used (heap_pmm h) = frames_used (heap_pmm (pg_heap st3))"
    using kfree_step [OF conjunct1 [OF f3] _ p(2)] by blast
  have "frames_used (heap_pmm h) = frames_used (heap_pmm (pg_heap st)) - {frame_no f} - {frame_no e} - {frame_no d}" using f1 f2 f3 h(3) by simp
  also have "\<dots> = frames_used (heap_pmm (pg_heap st)) - frame_no ` {d, f, e}" by auto
  finally show ?thesis
    unfolding st1_def [symmetric] st2_def [symmetric] st3_def [symmetric] using h(1,2) by (simp add: h0(1))
qed

lemma destroy_tail:
  assumes inv: "paging_inv st us" and p: "p \<in> set us" and a: "address_spaces st p = Some a" and e: "\<forall>e \<in> set (slots st p). \<not> is_user e"
  shows "\<exists>h. (do { let st4 = free_frame (as_first_table a) (st\<lparr>page_tables := (page_tables st)(as_first_table a := None)\<rparr>);
      let st5 = (if as_ext_table a \<noteq> NULL
        then free_frame (as_ext_table a) (st4\<lparr>page_tables := (page_tables st4)(as_ext_table a := None)\<rparr>) else st4);
      let st6 = free_frame (as_directory a) (st5\<lparr>page_directories := (page_directories st5)(as_directory a := None)\<rparr>);
      h \<leftarrow> kfree p (pg_heap st6);
      Some (st6\<lparr>pg_heap := h, address_spaces := (address_spaces st6)(p := None), user_space_count := user_space_count st6 - 1\<rparr>) }) =
      Some ((old_space p a st)\<lparr>pg_heap := h, user_space_count := user_space_count st - 1\<rparr>) \<and>
    paging_inv ((old_space p a st)\<lparr>pg_heap := h, user_space_count := user_space_count st - 1\<rparr>) (remove1 p us) \<and>
    frames_used (heap_pmm h) = frames_used (heap_pmm (pg_heap st)) - frame_no ` set (space_structs st p)"
proof -
  note D = paging_invD [OF inv] and o = old_space_inv [OF inv p a e]
  have nn: "as_ext_table a \<noteq> NULL" using o(2) by (simp add: fresh_structs_def)
  have hp: "pg_heap (old_space p a st) = pg_heap st" by (simp add: old_space_def)
  have "p \<in> fst ` heap_live (pg_heap (old_space p a st))" "p \<notin> set (remove1 p us)" using D(2,10) p by (auto simp: hp)
  from free_structs [OF o(1,2) this] obtain h where
    h: "kfree p (pg_heap (free_frame (as_directory a) (free_frame (as_ext_table a) (free_frame (as_first_table a) (old_space p a st))))) = Some h"
      "paging_inv ((old_space p a st)\<lparr>pg_heap := h\<rparr>) (remove1 p us)"
      "frames_used (heap_pmm h) = frames_used (heap_pmm (pg_heap st)) - frame_no ` {as_directory a, as_first_table a, as_ext_table a}"
    unfolding hp by blast
  have k: "kfree p ((pg_heap st)\<lparr>heap_pmm := pmm_free_block (as_directory a) (pmm_free_block (as_ext_table a) (pmm_free_block (as_first_table a) (heap_pmm (pg_heap st))))\<rparr>) = Some h"
    using h(1) by (simp add: free_frame_def hp)
  from h(2) have "paging_inv ((old_space p a st)\<lparr>pg_heap := h, user_space_count := user_space_count st - 1\<rparr>) (remove1 p us)" by simp
  moreover have "frames_used (heap_pmm h) = frames_used (heap_pmm (pg_heap st)) - frame_no ` set (space_structs st p)"
    using h(3) a by (simp add: space_structs_def)
  ultimately show ?thesis by (intro exI [of _ h]) (simp add: Let_def nn k free_frame_def old_space_def)
qed

lemma destroy_spec:
  assumes inv: "paging_inv st us" and p: "p \<in> set us"
  shows "\<exists>st'. paging_destroy_user_address_space p st = Some st' \<and> destroyed st us p st' \<and>
    pg_active st' = (if pg_active st = p then kernel_space_at st else pg_active st) \<and> user_space_count st' = user_space_count st - 1"
proof -
  note D = paging_invD [OF inv]
  obtain a where a: "address_spaces st p = Some a" "as_owns_tables a" "p \<noteq> NULL" "{as_directory a, as_first_table a, as_ext_table a} \<subseteq> set (structs st us)"
    using spaceD [OF inv p] by metis
  then have ft: "as_first_table a \<noteq> NULL" "as_ext_table a \<noteq> NULL" using kernel_not_struct(3) [OF inv] by blast+
  define st1 where "st1 = (if pg_active st = p then load_cr3 (kernel_directory st) (st\<lparr>pg_active := kernel_space_at st\<rparr>) else st)"
  have kp: "kernel_space_at st \<noteq> p" using D(4) p by blast
  have w1: "(if p = pg_active st then paging_activate_address_space (kernel_space_at st) st else Some st) = Some st1"
    using D(3) kp by (auto simp: st1_def paging_activate_address_space_def kernel_ok_def Let_def)
  have inv1: "paging_inv st1 us" using inv by (simp add: st1_def load_cr3_def)
  have s1: "slots st1 = slots st" "mapped st1 us = mapped st us" "frame_data st1 = frame_data st" "pg_heap st1 = pg_heap st" "address_spaces st1 = address_spaces st"
    "kernel_space_at st1 = kernel_space_at st" "space_structs st1 = space_structs st" "user_space_count st1 = user_space_count st"
    by (simp_all add: st1_def load_cr3_def mapped_def space_structs_def [abs_def])
  have a1: "address_spaces st1 p = Some a" using a(1) s1(5) by simp
  have d0: "dropping us p 0 st1 st1" using inv1 by (simp add: dropping_def same_owners_def same_machine_def)
  obtain st2 where st2: "destroy_loop (as_first_table a) [0..<1024] st1 = Some st2" "dropping us p 1024 st1 st2"
    using destroy_loop_spec [OF p a1, of 1024 0 "as_first_table a" 0 st1] d0 by (auto simp: slot_ref_def)
  obtain st3 where st3: "destroy_loop (as_ext_table a) [0..<1024] st2 = Some st3" "dropping us p 2048 st1 st3"
    using destroy_loop_spec [OF p a1, of 1024 1024 "as_ext_table a" 0 st2] st2(2) by (auto simp: slot_ref_def)
  note dr = st3(2) [unfolded dropping_def]
  have inv3: "paging_inv st3 us" and so: "same_owners st1 st3" using dr by simp_all
  have a3: "address_spaces st3 p = Some a" and sp3: "space_structs st3 = space_structs st1"
    using so a1 by (auto simp: same_owners_def same_machine_def space_structs_def [abs_def])
  have e: "\<forall>e \<in> set (slots st3 p). \<not> is_user e" using dr slots_length [OF inv3 p] by (auto simp: in_set_conv_nth)
  obtain h where h: "paging_destroy_user_address_space p st = Some ((old_space p a st3)\<lparr>pg_heap := h, user_space_count := user_space_count st3 - 1\<rparr>)"
    "paging_inv ((old_space p a st3)\<lparr>pg_heap := h, user_space_count := user_space_count st3 - 1\<rparr>) (remove1 p us)"
    "frames_used (heap_pmm h) = frames_used (heap_pmm (pg_heap st3)) - frame_no ` set (space_structs st3 p)"
    using destroy_tail [OF inv3 p a3 e] a ft w1 st2(1) st3(1) by (auto simp: paging_destroy_user_address_space_def)
  let ?st = "(old_space p a st3)\<lparr>pg_heap := h, user_space_count := user_space_count st3 - 1\<rparr>"
  have sl: "slots ?st = (slots st3)(p := [])" using old_space_slots(1) [OF inv3 p a3] by simp
  also have "\<dots> = (slots st)(p := [])" using dr s1(1) by (simp add: fun_eq_iff)
  finally have sl': "slots ?st = (slots st)(p := [])" .
  have m: "mapped ?st (remove1 p us) = mapped st3 us" using old_space_inv(3) [OF inv3 p a3 e] by (simp add: mapped_def)
  have "mapped ?st (remove1 p us) = unat ` set_mset (mappings (remove1 p us) (slots st))"
    unfolding mapped_def sl' using remove_other [OF D(10)] by simp
  moreover have "frames_used (heap_pmm (pg_heap ?st)) = frames_used (heap_pmm (pg_heap st)) - (mapped st us - mapped ?st (remove1 p us)) - frame_no ` set (space_structs st p)"
    unfolding m using h(3) dr s1 sp3 by simp
  moreover have "frame_data ?st = frame_data st" "kernel_space_at ?st = kernel_space_at st" "user_space_count ?st = user_space_count st - 1" "pg_active ?st = pg_active st1"
    using so s1 by (simp_all add: old_space_def same_owners_def same_machine_def)
  moreover have "pg_active st1 = (if pg_active st = p then kernel_space_at st else pg_active st)" by (simp add: st1_def load_cr3_def)
  ultimately show ?thesis using h(1,2) sl' unfolding destroyed_def by (intro exI [of _ ?st]) simp
qed

end
