(* ===== verification/Paging_Views.thy ===== *)
theory Paging_Views
  imports Paging_Spaces
begin

text \<open>
  What the processes see of paging: a store by one program never changes a page of another one,
  whether it hits a private page, a page shared copy on write or a page that is yet to be mapped; a
  cloned space starts with the memory of its parent; a destroyed one gives back exactly what nobody
  else maps.
\<close>

section \<open>Memory as a process sees it\<close>

definition page_view :: "paging \<Rightarrow> ptr \<Rightarrow> nat \<Rightarrow> u8 list option" where
  "page_view st p i = (if is_user (slots st p ! i) then Some (frame_data st (frame (slots st p ! i))) else None)"

lemma page_view_ignores [simp]:
  "page_view (st\<lparr>tlb := x\<rparr>) = page_view st" "page_view (st\<lparr>cr3 := y\<rparr>) = page_view st" "page_view (st\<lparr>pg_heap := h\<rparr>) = page_view st"
  by (simp_all add: page_view_def fun_eq_iff)

definition page_offset :: "u32 \<Rightarrow> nat" where
  "page_offset v = unat (v AND 0xFFF)"

lemma page_offset_less: "page_offset v < 4096"
proof -
  have "v AND 0xFFF \<le> 0xFFF" by (metis and.commute word_and_le1)
  then show ?thesis by (simp add: page_offset_def word_le_nat_alt)
qed

text \<open>
  The processor: a store in user mode needs a writable user page. Without one it faults, and runs
  again when the handler comes back.
\<close>

definition entry_at :: "u32 \<Rightarrow> paging \<Rightarrow> page_entry option" where
  "entry_at v st = (case user_pte (pg_active st) v st of Some (Some r) \<Rightarrow> read_pte r st | _ \<Rightarrow> None)"

definition user_writable :: "u32 \<Rightarrow> paging \<Rightarrow> bool" where
  "user_writable v st = (case entry_at v st of None \<Rightarrow> False | Some e \<Rightarrow> present e \<and> user e \<and> rw e)"

definition cpu_store :: "u32 \<Rightarrow> u8 \<Rightarrow> paging \<Rightarrow> paging" where
  "cpu_store v b st = (case entry_at v st of None \<Rightarrow> st
     | Some e \<Rightarrow> st\<lparr>frame_data := (frame_data st)(frame e := (frame_data st (frame e))[page_offset v := b])\<rparr>)"

lemma cpu_store_simps [simp]: "pg_active (cpu_store v b st) = pg_active st" "kernel_space_at (cpu_store v b st) = kernel_space_at st"
  by (simp_all add: cpu_store_def split: option.splits)

definition fault_code :: "u32 \<Rightarrow> paging \<Rightarrow> u32" where
  "fault_code v st = (case entry_at v st of None \<Rightarrow> 6 | Some e \<Rightarrow> if present e then 7 else 6)"

definition user_store :: "u32 \<Rightarrow> u8 \<Rightarrow> fault_process option \<Rightarrow> paging \<Rightarrow> terminal \<Rightarrow> (bool \<times> paging \<times> terminal) option" where
  "user_store v b proc st t =
     (if user_writable v st then Some (True, cpu_store v b st, t)
      else do {
        (res, st1, t1) \<leftarrow> page_fault_handler v (fault_code v st) 0x1B proc st t;
        Some (if res = Resumed \<and> user_writable v st1 then (True, cpu_store v b st1, t1) else (False, st1, t1))
      })"

lemma entry_at_slot:
  assumes inv: "paging_inv st us" and p: "pg_active st = p" "p \<in> set us" and v: "vslot v = Some i"
  shows "entry_at v st = Some (slots st p ! i)"
proof -
  obtain a where a: "address_spaces st p = Some a" using spaceD [OF inv p(2)] by metis
  show ?thesis
    using user_pte_slot [OF inv p(2) a, of v] slot_access(1) [OF inv p(2) a vslot_bound [OF v]] v p(1) by (simp add: entry_at_def)
qed

lemma inv_frame_data:
  assumes inv: "paging_inv st us" and len: "\<And>f. f \<in># mappings us (slots st) \<Longrightarrow> length (fd f) = 4096"
  shows "paging_inv (st\<lparr>frame_data := fd\<rparr>) us"
proof -
  let ?st = "st\<lparr>frame_data := fd\<rparr>"
  have "structs ?st us = structs st us" "kernel_frames ?st = kernel_frames st"
    using inv_cong [of ?st st] by simp_all
  then show ?thesis using inv len by (simp add: paging_inv_def kernel_ok_def kernel_table_at_def spaces_ok_def space_ok_def frames_ok_def mapped_def)
qed

text \<open>The pages that a store to \<open>(p, i)\<close> must not touch.\<close>

definition other_page :: "paging \<Rightarrow> ptr \<Rightarrow> nat \<Rightarrow> ptr \<Rightarrow> nat \<Rightarrow> bool" where
  "other_page st p i q j \<longleftrightarrow> (q, j) \<noteq> (p, i) \<and> \<not> (is_user (slots st p ! i) \<and> is_user (slots st q ! j) \<and>
     shared (slots st p ! i) \<and> frame (slots st q ! j) = frame (slots st p ! i))"

lemma cpu_store_views:
  assumes inv: "paging_inv st us" and p: "pg_active st = p" "p \<in> set us" and v: "vslot v = Some i"
    and w: "is_user (slots st p ! i)" "rw (slots st p ! i)"
  shows "paging_inv (cpu_store v b st) us" "page_view (cpu_store v b st) p i = Some ((the (page_view st p i))[page_offset v := b])"
    "q \<in> set us \<Longrightarrow> j < 2048 \<Longrightarrow> other_page st p i q j \<Longrightarrow> page_view (cpu_store v b st) q j = page_view st q j"
proof -
  note D = paging_invD [OF inv]
  let ?e = "slots st p ! i"
  have i: "i < 2048" by (rule vslot_bound [OF v])
  have s: "cpu_store v b st = st\<lparr>frame_data := (frame_data st)(frame ?e := (frame_data st (frame ?e))[page_offset v := b])\<rparr>"
    using entry_at_slot [OF inv p v] by (simp add: cpu_store_def)
  show "paging_inv (cpu_store v b st) us" unfolding s by (rule inv_frame_data [OF inv]) (use D(9) in auto)
  show "page_view (cpu_store v b st) p i = Some ((the (page_view st p i))[page_offset v := b])" using w(1) by (simp add: s page_view_def)
  assume q: "q \<in> set us" "j < 2048" and o: "other_page st p i q j"
  have "frame (slots st q ! j) \<noteq> frame ?e" if "is_user (slots st q ! j)"
  proof
    assume f: "frame (slots st q ! j) = frame ?e"
    have len: "i < length (slots st p)" "j < length (slots st q)" using slots_length [OF inv] p(2) q i by simp_all
    have "\<not> shared ?e" using o that f w(1) by (auto simp: other_page_def)
    then have "count (mappings us (slots st)) (frame ?e) = 1" using private_okD(1) [OF D(8) p(2) nth_mem [OF len(1)] w(1)] w(2) by simp
    from sole_mapping [OF D(7) this p(2) len(1) w(1) refl q(1) len(2) that f] o show False by (auto simp: other_page_def)
  qed
  then show "page_view (cpu_store v b st) q j = page_view st q j" by (simp add: s page_view_def)
qed

section \<open>Page faults\<close>

lemma unat_page_base: "unat (v AND NOT 0xFFF) = unat v div 4096 * 4096" for v :: u32
proof -
  have m: "(0xFFF :: u32) = mask 12" by (simp add: mask_eq_exp_minus_1)
  have "v AND NOT (mask 12) = push_bit 12 (drop_bit 12 v)" by (rule bit_word_eqI) (auto simp: bit_simps)
  then have "v AND NOT 0xFFF = push_bit 12 (drop_bit 12 v)" unfolding m [symmetric] .
  then show ?thesis
    using unat_lt_2p32 [of v] by (simp add: push_bit_eq_mult unat_mult_no_wrap unat_page del: frame_number)
qed

lemma vslot_page: "vslot (v AND NOT 0xFFF) = vslot v"
proof -
  define w where "w = v AND NOT 0xFFF"
  have u: "unat w = unat v div 4096 * 4096" unfolding w_def by (rule unat_page_base)
  have low: "w < 0x400000 \<longleftrightarrow> v < 0x400000" unfolding word_less_nat_alt u by (simp add: div_less_iff_less_mult)
  have ext: "USER_EXT_BASE \<le> w \<longleftrightarrow> USER_EXT_BASE \<le> v" "w < USER_EXT_TOP \<longleftrightarrow> v < USER_EXT_TOP"
    unfolding word_less_nat_alt word_le_nat_alt u USER_EXT_BASE_def USER_EXT_TOP_def
    by (simp_all add: div_less_iff_less_mult less_eq_div_iff_mult_less_eq)
  have "unat (w - USER_EXT_BASE) div 4096 = unat (v - USER_EXT_BASE) div 4096" if "USER_EXT_BASE \<le> v"
  proof -
    have "33554432 \<le> unat v" using that by (simp add: USER_EXT_BASE_def word_le_nat_alt)
    then obtain k where k: "unat v = k + 33554432" by (metis le_add_diff_inverse2)
    have "(k + 8192 * 4096) div 4096 = k div 4096 + 8192" by simp
    then show ?thesis using that ext(1) k by (simp add: unat_sub u USER_EXT_BASE_def)
  qed
  then show ?thesis unfolding w_def [symmetric] using low ext by (simp add: vslot_def unat_page u del: frame_number)
qed

text \<open>A zeroed page appears where there was none.\<close>

definition demanded :: "ptr list \<Rightarrow> ptr \<Rightarrow> nat \<Rightarrow> paging \<Rightarrow> paging \<Rightarrow> bool" where
  "demanded us p i st st' \<longleftrightarrow> (\<exists>e. paging_inv st' us \<and> pg_active st' = pg_active st \<and> kernel_space_at st' = kernel_space_at st \<and> \<not> is_user (slots st p ! i) \<and>
     slots st' = (slots st)(p := (slots st p)[i := e]) \<and> is_user e \<and> rw e \<and> \<not> shared e \<and>
     frame e \<notin># mappings us (slots st) \<and> frame_data st' = (frame_data st)(frame e := replicate 4096 0))"

lemma map_user_page_spec:
  assumes inv: "paging_inv st us" and p: "p \<in> set us" and v: "vslot v = Some i"
  shows "is_user (slots st p ! i) \<Longrightarrow> paging_map_user_page p v st = Some (True, st)"
    "\<not> is_user (slots st p ! i) \<Longrightarrow> paging_map_user_page p v st = Some (False, st) \<or>
       (\<exists>st'. paging_map_user_page p v st = Some (True, st') \<and> demanded us p i st st')"
proof -
  obtain a where a: "address_spaces st p = Some a" "as_owns_tables a" "p \<noteq> NULL" using spaceD [OF inv p] by metis
  have i: "i < 2048" by (rule vslot_bound [OF v])
  have m: "paging_map_user_page p v st = (if is_user (slots st p ! i) then Some (True, st) else map_fresh False (slot_ref a i) (slots st p ! i) st)"
    using a user_pte_slot [OF inv p a(1), of v] slot_access(1) [OF inv p a(1) i] v
    by (simp add: paging_map_user_page_def is_user_def)
  show "is_user (slots st p ! i) \<Longrightarrow> paging_map_user_page p v st = Some (True, st)" using m by simp
  assume nu: "\<not> is_user (slots st p ! i)"
  from map_fresh_spec [OF inv p a(1) i nu, of False] show "paging_map_user_page p v st = Some (False, st) \<or>
       (\<exists>st'. paging_map_user_page p v st = Some (True, st') \<and> demanded us p i st st')"
  proof (elim disjE exE conjE)
    assume "map_fresh False (slot_ref a i) (slots st p ! i) st = Some (False, st)"
    then show ?thesis using m nu by simp
  next
    fix f pm
    let ?e = "fresh_entry False f (slots st p ! i)"
    let ?st = "slot_step (slot_ref a i) ?e (page_ref st) ((frame_data st)(f := replicate 4096 0)) pm st"
    assume f: "map_fresh False (slot_ref a i) (slots st p ! i) st = Some (True, ?st)" "f \<notin># mappings us (slots st)"
      "paging_inv ?st us" "slots ?st = (slots st)(p := (slots st p)[i := ?e])"
    have e: "is_user ?e" "rw ?e" "\<not> shared ?e" "frame ?e = f" by (simp_all add: fresh_entry_def is_user_def)
    have "demanded us p i st ?st"
      unfolding demanded_def f(4) using f(2,3) e nu by (intro exI [of _ ?e]) (simp add: slot_step_def)
    then show ?thesis using f(1) m nu by auto
  qed
qed

lemma demanded_tlb: "demanded us p i st st' \<Longrightarrow> demanded us p i st (paging_invlpg v st')"
  unfolding demanded_def paging_invlpg_def by simp

lemma demand_map_spec:
  assumes inv: "paging_inv st us" and p: "pg_active st = p" "p \<in> set us" and v: "vslot v = Some i"
  shows "is_user (slots st p ! i) \<Longrightarrow> paging_demand_map v st = Some (False, st)"
    "\<not> is_user (slots st p ! i) \<Longrightarrow> paging_demand_map v st = Some (False, st) \<or>
       (\<exists>st'. paging_demand_map v st = Some (True, st') \<and> demanded us p i st st')"
proof -
  obtain a where a: "address_spaces st p = Some a" "as_owns_tables a" "p \<noteq> NULL" using spaceD [OF inv p(2)] by metis
  have i: "i < 2048" by (rule vslot_bound [OF v])
  have m: "paging_demand_map v st = (if is_user (slots st p ! i) then Some (False, st) else do {
      (ok, st1) \<leftarrow> paging_map_user_page p (v AND NOT 0xFFF) st;
      if \<not> ok then Some (False, st1) else Some (True, paging_invlpg (v AND NOT 0xFFF) st1) })"
    using a p(1) user_pte_slot [OF inv p(2) a(1), of v] slot_access(1) [OF inv p(2) a(1) i] v
    by (simp add: paging_demand_map_def is_user_def)
  show "is_user (slots st p ! i) \<Longrightarrow> paging_demand_map v st = Some (False, st)" using m by simp
  assume nu: "\<not> is_user (slots st p ! i)"
  have "vslot (v AND NOT 0xFFF) = Some i" using v vslot_page by simp
  from map_user_page_spec(2) [OF inv p(2) this nu] show "paging_demand_map v st = Some (False, st) \<or>
       (\<exists>st'. paging_demand_map v st = Some (True, st') \<and> demanded us p i st st')"
    using m nu demanded_tlb by auto
qed

lemma try_cow_no:
  assumes inv: "paging_inv st us" and p: "pg_active st = p" "p \<in> set us" and v: "vslot v = Some i" and n: "\<not> is_user (slots st p ! i) \<or> rw (slots st p ! i)"
  shows "paging_try_cow v st = Some (False, st)"
proof -
  obtain a where a: "address_spaces st p = Some a" "p \<noteq> NULL" using spaceD [OF inv p(2)] by metis
  show ?thesis using a p(1) user_pte_slot [OF inv p(2) a(1), of v] slot_access(1) [OF inv p(2) a(1) vslot_bound [OF v]] v n
    by (auto simp: paging_try_cow_def is_user_def)
qed

text \<open>The page is there and writable, with the contents it had or with zeros, and no other page changed.\<close>

definition ready :: "ptr list \<Rightarrow> ptr \<Rightarrow> nat \<Rightarrow> paging \<Rightarrow> paging \<Rightarrow> bool" where
  "ready us p i st st' \<longleftrightarrow> paging_inv st' us \<and> pg_active st' = pg_active st \<and> kernel_space_at st' = kernel_space_at st \<and>
     is_user (slots st' p ! i) \<and> rw (slots st' p ! i) \<and> \<not> shared (slots st' p ! i) \<and>
     page_view st' p i = Some (case page_view st p i of Some xs \<Rightarrow> xs | None \<Rightarrow> replicate 4096 0) \<and>
     (\<forall>q \<in> set us. \<forall>j < 2048. (q, j) \<noteq> (p, i) \<longrightarrow> page_view st' q j = page_view st q j)"

lemma slot_changed:
  assumes "slots st' = (slots st)(p := (slots st p)[i := e])" "(q, j) \<noteq> (p, i)"
  shows "slots st' q ! j = slots st q ! j"
  using assms by auto

lemma cow_ready:
  assumes inv: "paging_inv st us" and p: "p \<in> set us" "i < 2048" and c: "cow_done us p i st st'" and u: "is_user (slots st p ! i)"
  shows "ready us p i st st'"
proof -
  obtain e where e: "paging_inv st' us" "slots st' = (slots st)(p := (slots st p)[i := e])" "is_user e" "rw e" "\<not> shared e"
    "frame_data st' (frame e) = frame_data st (frame (slots st p ! i))" "\<forall>g \<in># mappings us (slots st). frame_data st' g = frame_data st g"
    "pg_active st' = pg_active st" "kernel_space_at st' = kernel_space_at st" using c unfolding cow_done_def by blast
  have pi: "slots st' p ! i = e" using e(2) slots_length [OF inv p(1)] p(2) by simp
  have "page_view st' q j = page_view st q j" if "q \<in> set us" "j < 2048" "(q, j) \<noteq> (p, i)" for q j
    unfolding page_view_def slot_changed [OF e(2) that(3)] using slot_mapped [OF inv that(1,2)] e(7) by auto
  then show ?thesis unfolding ready_def using e pi u by (simp add: page_view_def)
qed

lemma demand_ready:
  assumes inv: "paging_inv st us" and p: "p \<in> set us" "i < 2048" and c: "demanded us p i st st'"
  shows "ready us p i st st'"
proof -
  obtain e where e: "paging_inv st' us" "slots st' = (slots st)(p := (slots st p)[i := e])" "is_user e" "rw e" "\<not> shared e"
    "frame_data st' = (frame_data st)(frame e := replicate 4096 0)" "frame e \<notin># mappings us (slots st)"
    "pg_active st' = pg_active st" "\<not> is_user (slots st p ! i)" "kernel_space_at st' = kernel_space_at st" using c unfolding demanded_def by blast
  have pi: "slots st' p ! i = e" using e(2) slots_length [OF inv p(1)] p(2) by simp
  have "page_view st' q j = page_view st q j" if "q \<in> set us" "j < 2048" "(q, j) \<noteq> (p, i)" for q j
    unfolding page_view_def slot_changed [OF e(2) that(3)] using slot_mapped [OF inv that(1,2)] e(6,7) by auto
  then show ?thesis unfolding ready_def using e pi by (simp add: page_view_def)
qed

lemma ready_tlb: "ready us p i st st' \<Longrightarrow> ready us p i st (paging_invlpg v st')"
  unfolding ready_def paging_invlpg_def by simp

lemma fault_spec:
  assumes inv: "paging_inv st us" and p: "pg_active st = p" "p \<in> set us" and v: "vslot v = Some i"
    and n: "\<not> (is_user (slots st p ! i) \<and> rw (slots st p ! i))"
  shows "(\<exists>t1. page_fault_handler v (fault_code v st) 0x1B proc st t = Some (Exit_Program (- 1), st, t1)) \<or>
    (\<exists>st1. page_fault_handler v (fault_code v st) 0x1B proc st t = Some (Resumed, st1, t) \<and> ready us p i st st1)"
proof -
  have i: "i < 2048" by (rule vslot_bound [OF v])
  have wr: "fault_code v st AND 0x2 \<noteq> 0" by (simp add: fault_code_def split: option.splits)
  show ?thesis
  proof (cases "is_user (slots st p ! i)")
    case True
    then have ro: "\<not> rw (slots st p ! i)" using n by simp
    note no = demand_map_spec(1) [OF inv p v True]
    from try_cow_spec [OF inv p v True ro] show ?thesis
    proof (elim disjE exE conjE)
      assume "paging_try_cow v st = Some (False, st)"
      then show ?thesis using wr no by (auto simp: page_fault_handler_def split: option.splits)
    next
      fix st' assume "paging_try_cow v st = Some (True, paging_invlpg (v AND NOT 0xFFF) st')" "cow_done us p i st st'"
      then show ?thesis using wr cow_ready [OF inv p(2) i _ True] ready_tlb by (simp add: page_fault_handler_def)
    qed
  next
    case False
    note no = try_cow_no [OF inv p v disjI1 [OF False]] and dm = demand_map_spec(2) [OF inv p v False]
    show ?thesis
    proof (cases "paging_demand_map v st = Some (False, st)")
      case True
      then show ?thesis using no by (auto simp: page_fault_handler_def split: option.splits)
    next
      case False
      with dm obtain st' where "paging_demand_map v st = Some (True, st')" "demanded us p i st st'" by blast
      then show ?thesis using no demand_ready [OF inv p(2) i] by (auto simp: page_fault_handler_def split: option.splits)
    qed
  qed
qed

lemma user_store_spec:
  assumes inv: "paging_inv st us" and p: "pg_active st = p" "p \<in> set us" and v: "vslot v = Some i"
  shows "\<exists>ok st' t'. user_store v b proc st t = Some (ok, st', t') \<and> paging_inv st' us \<and> pg_active st' = pg_active st \<and> kernel_space_at st' = kernel_space_at st \<and>
    (\<forall>q \<in> set us. \<forall>j < 2048. other_page st p i q j \<longrightarrow> page_view st' q j = page_view st q j) \<and>
    (if ok then page_view st' p i = Some ((case page_view st p i of Some xs \<Rightarrow> xs | None \<Rightarrow> replicate 4096 0)[page_offset v := b]) else st' = st)"
proof (cases "is_user (slots st p ! i) \<and> rw (slots st p ! i)")
  case True
  then have "user_writable v st" using entry_at_slot [OF inv p v] by (simp add: user_writable_def is_user_def)
  moreover have "page_view st p i = Some (frame_data st (frame (slots st p ! i)))" using True by (simp add: page_view_def)
  ultimately show ?thesis using cpu_store_views [OF inv p v] True by (auto simp: user_store_def)
next
  case False
  then have nw: "\<not> user_writable v st" using entry_at_slot [OF inv p v] by (simp add: user_writable_def is_user_def)
  from fault_spec [OF inv p v False, of proc t] show ?thesis
  proof (elim disjE exE conjE)
    fix t1 assume "page_fault_handler v (fault_code v st) 0x1B proc st t = Some (Exit_Program (- 1), st, t1)"
    then show ?thesis using nw inv by (auto simp: user_store_def)
  next
    fix st1 assume f: "page_fault_handler v (fault_code v st) 0x1B proc st t = Some (Resumed, st1, t)" and r: "ready us p i st st1"
    note R = r [unfolded ready_def]
    have inv1: "paging_inv st1 us" and p1: "pg_active st1 = p" and u: "is_user (slots st1 p ! i)" "rw (slots st1 p ! i)" "\<not> shared (slots st1 p ! i)"
      using R p(1) by simp_all
    have "user_writable v st1" using entry_at_slot [OF inv1 p1 p(2) v] u by (simp add: user_writable_def is_user_def)
    then have s: "user_store v b proc st t = Some (True, cpu_store v b st1, t)" using f nw by (simp add: user_store_def)
    note C = cpu_store_views [OF inv1 p1 p(2) v u(1,2)]
    have "page_view (cpu_store v b st1) q j = page_view st q j" if "q \<in> set us" "j < 2048" "other_page st p i q j" for q j
    proof -
      have ne: "(q, j) \<noteq> (p, i)" using that(3) by (simp add: other_page_def)
      then have "other_page st1 p i q j" using u(3) by (simp add: other_page_def)
      then show ?thesis using C(3) [OF that(1,2)] R that(1,2) ne by metis
    qed
    then show ?thesis using s C(1,2) R by auto
  qed
qed

section \<open>All operations\<close>

lemma unmap_spec:
  assumes inv: "paging_inv st us" and p: "p \<in> set us"
  shows "\<exists>st'. paging_unmap_user_page p v st = Some st' \<and> paging_inv st' us \<and> pg_active st' = pg_active st \<and>
    kernel_space_at st' = kernel_space_at st \<and> frame_data st' = frame_data st \<and>
    (case vslot v of None \<Rightarrow> st' = st | Some i \<Rightarrow> slots st' = (if is_user (slots st p ! i) then (slots st)(p := (slots st p)[i := zero_entry]) else slots st)) \<and>
    frames_used (heap_pmm (pg_heap st')) = frames_used (heap_pmm (pg_heap st)) - (mapped st us - mapped st' us)"
proof -
  obtain a where a: "address_spaces st p = Some a" "as_owns_tables a" "p \<noteq> NULL" using spaceD [OF inv p] by metis
  show ?thesis
  proof (cases "vslot v")
    case None
    then show ?thesis using a inv user_pte_slot [OF inv p a(1), of v] by (simp add: paging_unmap_user_page_def)
  next
    case (Some i)
    have i: "i < 2048" by (rule vslot_bound [OF Some])
    note rd = slot_access(1) [OF inv p a(1) i] and pt = user_pte_slot [OF inv p a(1), of v]
    show ?thesis
    proof (cases "is_user (slots st p ! i)")
      case False
      then show ?thesis using a Some pt rd inv by (auto simp: paging_unmap_user_page_def is_user_def)
    next
      case True
      have z: "\<not> is_user zero_entry" by (simp add: is_user_def zero_entry_def)
      define st1 where "st1 = drop_step (slot_ref a i) zero_entry (frame (slots st p ! i)) st"
      note d = drop_slot [OF inv p a(1) i True z, folded st1_def] and f = drop_step_frames [OF inv p a(1) i True z, folded st1_def]
      have u: "paging_unmap_user_page p v st = Some (if p = pg_active st then paging_invlpg (v AND NOT 0xFFF) st1 else st1)"
        using a Some pt rd True d(1) by (simp add: paging_unmap_user_page_def is_user_def)
      have m: "mapped (paging_invlpg w st1) us = mapped st1 us" for w by (simp add: mapped_def paging_invlpg_def)
      show ?thesis unfolding u using d(2,3) f Some True by (auto simp: m) (auto simp: paging_invlpg_def same_owners_def same_machine_def)
    qed
  qed
qed

lemma share_spec:
  assumes inv: "paging_inv st us" and p: "pg_active st \<in> insert (kernel_space_at st) (set us)"
  shows "\<exists>ok st'. paging_share_page v st = Some (ok, st') \<and> paging_inv st' us \<and> pg_active st' = pg_active st \<and> kernel_space_at st' = kernel_space_at st"
proof (cases "pg_active st \<in> set us")
  case False
  then have "pg_active st = kernel_space_at st" using p by simp
  with paging_invD(3) [OF inv] inv show ?thesis by (auto simp: paging_share_page_def kernel_ok_def)
next
  case True
  let ?p = "pg_active st"
  obtain a where a: "address_spaces st ?p = Some a" "as_owns_tables a" "?p \<noteq> NULL" using spaceD [OF inv True] by metis
  show ?thesis
  proof (cases "v < 0x400000")
    case False
    then show ?thesis using a inv by (auto simp: paging_share_page_def)
  next
    case low: True
    then have v: "vslot v = Some (unat (drop_bit 12 v))" by (simp add: vslot_def)
    let ?i = "unat (drop_bit 12 v)"
    have i: "?i < 1024" using low by (simp add: unat_page word_less_nat_alt div_less_iff_less_mult del: frame_number)
    then have r: "slot_ref a ?i = (as_first_table a, ?i)" and i2: "?i < 2048" by (simp_all add: slot_ref_def)
    note rd = slot_access(1) [OF inv True a(1) i2, unfolded r]
    have sh: "paging_share_page v st = (if is_user (slots st ?p ! ?i) then Some (shared (slots st ?p ! ?i), st) else do {
        (ok, st1) \<leftarrow> map_fresh True (slot_ref a ?i) (slots st ?p ! ?i) st;
        Some (ok, if ok then paging_invlpg (v AND NOT 0xFFF) st1 else st1) })"
      using a low [folded not_le] rd unfolding r by (simp add: paging_share_page_def is_user_def Let_def del: frame_number)
    show ?thesis
    proof (cases "is_user (slots st ?p ! ?i)")
      case True
      then show ?thesis using sh inv by simp
    next
      case False
      from map_fresh_spec [OF inv True a(1) i2 False, of True] sh False inv show ?thesis
        by (elim disjE exE conjE) (auto simp: paging_invlpg_def slot_step_def simp del: frame_number)
    qed
  qed
qed

text \<open>Writes of the kernel into user pages stay inside their frame.\<close>

lemma page_bits: "(push_bit 12 f OR (v AND 0xFFF)) AND 0xFFF = v AND 0xFFF" for f v :: u32
proof -
  have m: "(0xFFF :: u32) = mask 12" by (simp add: mask_eq_exp_minus_1)
  show ?thesis unfolding m by (rule bit_word_eqI) (auto simp: bit_simps)
qed

lemma chunk_inside: "page_offset v + unat (chunk_at v n) \<le> 4096"
proof -
  have "unat (4096 - (v AND 0xFFF)) = 4096 - page_offset v"
    using page_offset_less [of v] by (simp add: unat_sub word_le_nat_alt page_offset_def)
  moreover have "chunk_at v n \<le> 4096 - (v AND 0xFFF)" by (auto simp: chunk_at_def Let_def)
  ultimately show ?thesis using page_offset_less [of v] by (simp add: word_le_nat_alt)
qed

lemma poke_inv:
  assumes inv: "paging_inv st us" and len: "page_offset v + length bs \<le> 4096"
  shows "paging_inv (poke (push_bit 12 f OR (v AND 0xFFF)) bs st) us"
proof -
  have "length (put_bytes (page_offset v) bs xs) = length xs" if "length xs = 4096" for xs
    using len that by (simp add: put_bytes_length)
  then show ?thesis unfolding poke_def Let_def page_bits page_offset_def [symmetric]
    by (intro inv_frame_data [OF inv]) (use paging_invD(9) [OF inv] in auto)
qed

lemma poke_simps [simp]: "pg_active (poke d bs st) = pg_active st" "kernel_space_at (poke d bs st) = kernel_space_at st"
  by (simp_all add: poke_def Let_def)

lemma user_pointer_spec:
  assumes inv: "paging_inv st us" and p: "p \<in> set us"
  shows "user_pointer p v st = Some (case vslot v of None \<Rightarrow> None
    | Some i \<Rightarrow> if is_user (slots st p ! i) then Some (push_bit 12 (frame (slots st p ! i)) OR (v AND 0xFFF)) else None)"
proof -
  obtain a where a: "address_spaces st p = Some a" using spaceD [OF inv p] by metis
  show ?thesis using user_pte_slot [OF inv p a, of v] slot_access(1) [OF inv p a]
    by (cases "vslot v") (auto simp: user_pointer_def is_user_def vslot_bound)
qed

lemma zero_loop_spec:
  assumes "paging_inv st us" "p \<in> set us"
  shows "\<exists>ok st'. zero_loop p v n st = Some (ok, st') \<and> paging_inv st' us \<and> pg_active st' = pg_active st \<and> kernel_space_at st' = kernel_space_at st"
  using assms
proof (induction p v n st rule: zero_loop.induct)
  case (1 p v n st)
  show ?case
  proof (cases "n > 0 \<and> (\<exists>i. vslot v = Some i \<and> is_user (slots st p ! i))")
    case True
    then obtain i where i: "0 < n" "vslot v = Some i" "is_user (slots st p ! i)" by blast
    let ?d = "push_bit 12 (frame (slots st p ! i)) OR (v AND 0xFFF)" and ?c = "chunk_at v n"
    let ?st = "poke ?d (replicate (unat ?c) 0) st"
    have up: "user_pointer p v st = Some (Some ?d)" using user_pointer_spec [OF 1(2,3), of v] i by simp
    have "paging_inv ?st us" by (rule poke_inv [OF 1(2)]) (simp add: chunk_inside)
    from 1(1) [OF i(1) up refl refl this 1(3)] i(1) up show ?thesis by (simp add: zero_loop.simps [of p v n st] Let_def)
  next
    case False
    then show ?thesis using 1(2) user_pointer_spec [OF 1(2,3), of v] by (auto simp: zero_loop.simps [of p v n st] split: option.splits)
  qed
qed

lemma copy_loop_spec:
  assumes "paging_inv st us" "p \<in> set us"
  shows "\<exists>ok st'. copy_loop p v bs n st = Some (ok, st') \<and> paging_inv st' us \<and> pg_active st' = pg_active st \<and> kernel_space_at st' = kernel_space_at st"
  using assms
proof (induction p v bs n st rule: copy_loop.induct)
  case (1 p v bs n st)
  show ?case
  proof (cases "n > 0 \<and> (\<exists>i. vslot v = Some i \<and> is_user (slots st p ! i))")
    case True
    then obtain i where i: "0 < n" "vslot v = Some i" "is_user (slots st p ! i)" by blast
    let ?d = "push_bit 12 (frame (slots st p ! i)) OR (v AND 0xFFF)" and ?c = "chunk_at v n"
    let ?st = "poke ?d (take (unat ?c) bs) st"
    have up: "user_pointer p v st = Some (Some ?d)" using user_pointer_spec [OF 1(2,3), of v] i by simp
    have "paging_inv ?st us" by (rule poke_inv [OF 1(2)]) (use chunk_inside [of v n] in auto)
    from 1(1) [OF i(1) up refl refl this 1(3)] i(1) up show ?thesis by (simp add: copy_loop.simps [of p v bs n st] Let_def)
  next
    case False
    then show ?thesis using 1(2) user_pointer_spec [OF 1(2,3), of v] by (auto simp: copy_loop.simps [of p v bs n st] split: option.splits)
  qed
qed

text \<open>What the kernel and the processor do to the address spaces \<open>us\<close>.\<close>

datatype space_op = Create | Clone ptr | Destroy ptr | Activate ptr | Map ptr u32 | Unmap ptr u32 | Share u32
  | Zero ptr u32 u32 | Copy ptr u32 "u8 list option" u32 | Store u32 u8 "fault_process option" terminal

fun exec :: "space_op \<Rightarrow> paging \<Rightarrow> ptr list \<Rightarrow> (paging \<times> ptr list) option" where
  "exec Create st us = map_option (\<lambda>(p, st1). (st1, if p = NULL then us else p # us)) (paging_create_user_address_space st)"
| "exec (Clone p) st us = map_option (\<lambda>(c, st1). (st1, if c = NULL then us else c # us)) (paging_clone_address_space p st)"
| "exec (Destroy p) st us = map_option (\<lambda>st1. (st1, remove1 p us)) (paging_destroy_user_address_space p st)"
| "exec (Activate p) st us = map_option (\<lambda>st1. (st1, us)) (paging_activate_address_space p st)"
| "exec (Map p v) st us = map_option (\<lambda>(ok, st1). (st1, us)) (paging_map_user_page p v st)"
| "exec (Unmap p v) st us = map_option (\<lambda>st1. (st1, us)) (paging_unmap_user_page p v st)"
| "exec (Share v) st us = map_option (\<lambda>(ok, st1). (st1, us)) (paging_share_page v st)"
| "exec (Zero p v n) st us = map_option (\<lambda>(ok, st1). (st1, us)) (paging_zero_user p v n st)"
| "exec (Copy p v bs n) st us = map_option (\<lambda>(ok, st1). (st1, us)) (paging_copy_to_user p v bs n st)"
| "exec (Store v b proc t) st us = map_option (\<lambda>(ok, st1, t1). (st1, us)) (user_store v b proc st t)"

text \<open>The callers pass spaces that exist; user code runs in a user space.\<close>

fun op_ok :: "space_op \<Rightarrow> paging \<Rightarrow> ptr list \<Rightarrow> bool" where
  "op_ok Create st us = True"
| "op_ok (Clone p) st us = (p \<in> set us)"
| "op_ok (Destroy p) st us = (p \<in> set us)"
| "op_ok (Activate p) st us = (p = NULL \<or> p = kernel_space_at st \<or> p \<in> set us)"
| "op_ok (Map p v) st us = (p \<in> set us)"
| "op_ok (Unmap p v) st us = (p \<in> set us)"
| "op_ok (Share v) st us = True"
| "op_ok (Zero p v n) st us = (p \<in> set us)"
| "op_ok (Copy p v bs n) st us = (p \<in> set us)"
| "op_ok (Store v b proc t) st us = (pg_active st \<in> set us \<and> vslot v \<noteq> None)"

definition machine_inv :: "paging \<Rightarrow> ptr list \<Rightarrow> bool" where
  "machine_inv st us \<longleftrightarrow> paging_inv st us \<and> pg_active st \<in> insert (kernel_space_at st) (set us)"

lemma exec_map:
  assumes inv: "paging_inv st us" and p: "p \<in> set us"
  shows "\<exists>ok st1. paging_map_user_page p v st = Some (ok, st1) \<and> paging_inv st1 us \<and> pg_active st1 = pg_active st \<and> kernel_space_at st1 = kernel_space_at st"
proof -
  obtain a where a: "address_spaces st p = Some a" "as_owns_tables a" "p \<noteq> NULL" using spaceD [OF inv p] by metis
  show ?thesis
  proof (cases "vslot v")
    case None
    then show ?thesis using a inv user_pte_slot [OF inv p a(1), of v] by (auto simp: paging_map_user_page_def)
  next
    case (Some i)
    have i: "i < 2048" by (rule vslot_bound [OF Some])
    have m: "paging_map_user_page p v st = (if is_user (slots st p ! i) then Some (True, st) else map_fresh False (slot_ref a i) (slots st p ! i) st)"
      using a user_pte_slot [OF inv p a(1), of v] slot_access(1) [OF inv p a(1) i] Some
      by (simp add: paging_map_user_page_def is_user_def)
    show ?thesis
    proof (cases "is_user (slots st p ! i)")
      case False
      with m map_fresh_spec [OF inv p a(1) i False, of False] inv show ?thesis by (elim disjE exE conjE) (auto simp: slot_step_def)
    qed (use m inv in auto)
  qed
qed

lemma exec_activate:
  assumes inv: "machine_inv st us" and p: "p = NULL \<or> p = kernel_space_at st \<or> p \<in> set us"
  shows "\<exists>st1. paging_activate_address_space p st = Some st1 \<and> machine_inv st1 us"
proof -
  note I = inv [unfolded machine_inv_def]
  define q where "q = (if p = NULL then kernel_space_at st else p)"
  have q: "q \<in> insert (kernel_space_at st) (set us)" using p by (auto simp: q_def)
  then have "q \<in> dom (address_spaces st)" using paging_invD(5) [OF conjunct1 [OF I]] by (simp add: spaces_ok_def)
  then obtain a where "address_spaces st q = Some a" by blast
  then show ?thesis using I q
    by (auto simp: paging_activate_address_space_def q_def [symmetric] machine_inv_def load_cr3_def)
qed

lemma exec_clone:
  assumes inv: "machine_inv st us" and p: "p \<in> set us"
  shows "\<exists>c st1. paging_clone_address_space p st = Some (c, st1) \<and> machine_inv st1 (if c = NULL then us else c # us)"
proof -
  note I = inv [unfolded machine_inv_def]
  from clone_spec [OF conjunct1 [OF I] p disjI2 [OF conjunct2 [OF I]]] show ?thesis
  proof (elim disjE exE conjE)
    fix h assume "paging_clone_address_space p st = Some (NULL, st\<lparr>pg_heap := h\<rparr>)" "paging_inv (st\<lparr>pg_heap := h\<rparr>) us"
    then show ?thesis using I by (auto simp: machine_inv_def)
  next
    fix c st1 st2 st3 d
    assume cl: "paging_clone_address_space p st = Some (c, st3)" and cr: "created st us c st1" and cg: "cloning (c # us) p c 2048 st1 st2"
    have i2: "c \<noteq> NULL" "machine_inv st2 (c # us)"
      using cr cg I by (auto simp: machine_inv_def created_def cloning_def same_machine_def)
    {
      assume "st3 = load_cr3 d st2"
      then have "machine_inv st3 (c # us)" using i2(2) by (simp add: machine_inv_def load_cr3_def)
      then show ?thesis using cl i2(1) by auto
    next
      assume "st3 = st2"
      then show ?thesis using cl i2 by auto
    }
  qed
qed

lemma exec_create:
  assumes inv: "machine_inv st us"
  shows "\<exists>c st1. paging_create_user_address_space st = Some (c, st1) \<and> machine_inv st1 (if c = NULL then us else c # us)"
proof -
  note I = inv [unfolded machine_inv_def]
  from create_spec [OF conjunct1 [OF I]] show ?thesis
  proof (elim disjE exE conjE)
    fix h assume "paging_create_user_address_space st = Some (NULL, st\<lparr>pg_heap := h\<rparr>)" "paging_inv (st\<lparr>pg_heap := h\<rparr>) us"
    then show ?thesis using I by (auto simp: machine_inv_def)
  next
    fix c st1 assume "paging_create_user_address_space st = Some (c, st1)" "created st us c st1"
    then show ?thesis using I by (intro exI [of _ c] exI [of _ st1]) (auto simp: machine_inv_def created_def)
  qed
qed

lemma exec_inv:
  assumes inv: "machine_inv st us" and ok: "op_ok op st us"
  shows "\<exists>st1 us1. exec op st us = Some (st1, us1) \<and> machine_inv st1 us1"
proof -
  note I = inv [unfolded machine_inv_def] note inv' = conjunct1 [OF I]
  show ?thesis
  proof (cases op)
    case Create
    obtain c st1 where "paging_create_user_address_space st = Some (c, st1)" "machine_inv st1 (if c = NULL then us else c # us)"
      using exec_create [OF inv] by blast
    then show ?thesis using Create by simp
  next
    case (Clone p)
    then have "p \<in> set us" using ok by simp
    then obtain c st1 where "paging_clone_address_space p st = Some (c, st1)" "machine_inv st1 (if c = NULL then us else c # us)"
      using exec_clone [OF inv] by blast
    then show ?thesis using Clone by simp
  next
    case (Destroy p)
    then have "p \<in> set us" using ok by simp
    then obtain st1 where st1: "paging_destroy_user_address_space p st = Some st1" "destroyed st us p st1"
      "pg_active st1 = (if pg_active st = p then kernel_space_at st else pg_active st)" using destroy_spec [OF inv'] by blast
    then have "machine_inv st1 (remove1 p us)" using I paging_invD(10) [OF inv'] by (auto simp: machine_inv_def destroyed_def)
    then show ?thesis using Destroy st1(1) by simp
  next
    case (Activate p)
    then obtain st1 where "paging_activate_address_space p st = Some st1" "machine_inv st1 us"
      using exec_activate [OF inv, of p] ok by auto
    then show ?thesis using Activate by simp
  next
    case (Map p v)
    then show ?thesis using exec_map [OF inv', of p v] ok I by (auto simp: machine_inv_def)
  next
    case (Unmap p v)
    then show ?thesis using unmap_spec [OF inv', of p v] ok I by (auto simp: machine_inv_def)
  next
    case (Share v)
    then show ?thesis using share_spec [OF inv', of v] I by (auto simp: machine_inv_def)
  next
    case (Zero p v n)
    then show ?thesis using zero_loop_spec [OF inv', of p v n] ok I by (auto simp: machine_inv_def paging_zero_user_def)
  next
    case (Copy p v bs n)
    then show ?thesis using copy_loop_spec [OF inv', of p v "the bs" n] ok I by (auto simp: machine_inv_def paging_copy_to_user_def)
  next
    case (Store v b proc t)
    then obtain i where "vslot v = Some i" "pg_active st \<in> set us" using ok by auto
    with user_store_spec [OF inv' refl, of v i b proc t] Store show ?thesis by (auto simp: machine_inv_def)
  qed
qed

subsection \<open>From the start\<close>

text \<open>
  Before \<open>paging_install\<close> no space exists and no frame is shared; the static structures lie in frames
  that are in use and not the heap's.
\<close>

definition boot_ok :: "paging \<Rightarrow> bool" where
  "boot_ok st \<longleftrightarrow> heap_inv (pg_heap st) \<and> address_spaces st = Map.empty \<and> page_ref st = replicate FRAME_COUNT 0 \<and>
     kernel_space_at st \<noteq> NULL \<and> kernel_directory st \<noteq> NULL \<and> kernel_tables st \<noteq> NULL \<and>
     kernel_frames st \<subseteq> frames_used (heap_pmm (pg_heap st)) \<and> kernel_frames st \<inter> heap_frames (pg_heap st) = {}"

lemma install_table_simps [simp]:
  "kernel_directory (install_table k st) = kernel_directory st" "kernel_tables (install_table k st) = kernel_tables st"
  "kernel_space_at (install_table k st) = kernel_space_at st" "address_spaces (install_table k st) = address_spaces st"
  "pg_heap (install_table k st) = pg_heap st" "page_ref (install_table k st) = page_ref st" "kernel_table_at i (install_table k st) = kernel_table_at i st"
  by (simp_all add: install_table_def kernel_table_at_def)

definition directory_ok :: "paging \<Rightarrow> bool" where
  "directory_ok st \<longleftrightarrow> (\<exists>kd. page_directories st (kernel_directory st) = Some kd \<and> length kd = 1024)"

lemma install_tables:
  assumes "directory_ok st" "n \<le> KERNEL_IDENTITY_TABLES"
  defines "st' \<equiv> fold install_table [0..<n] st"
  shows "directory_ok st' \<and> (\<forall>k < n. page_tables st' (kernel_table_at k st) = Some (kernel_table k)) \<and>
    kernel_directory st' = kernel_directory st \<and> kernel_tables st' = kernel_tables st \<and> kernel_space_at st' = kernel_space_at st \<and>
    address_spaces st' = address_spaces st \<and> pg_heap st' = pg_heap st \<and> page_ref st' = page_ref st"
  using assms(2) unfolding st'_def
proof (induction n)
  case 0
  then show ?case using assms(1) by simp
next
  case (Suc n)
  have ne: "kernel_table_at k st \<noteq> kernel_table_at n st" if "k < n" for k
  proof
    assume "kernel_table_at k st = kernel_table_at n st"
    then have "(of_nat (k * 4096) :: u32) = of_nat (n * 4096)" by (simp only: kernel_table_at_def add_left_cancel)
    moreover have "unat (of_nat (j * 4096) :: u32) = j * 4096" if "j \<le> n" for j
      using that Suc.prems by (intro unat_of_nat32) (simp add: KERNEL_IDENTITY_TABLES_def)
    ultimately have "k * 4096 = n * 4096" using \<open>k < n\<close> by (metis less_imp_le order_refl)
    then show False using \<open>k < n\<close> by simp
  qed
  define s where "s = fold install_table [0..<n] st"
  have S: "fold install_table [0..<Suc n] st = install_table n s" by (simp add: s_def)
  have IH: "directory_ok s \<and> (\<forall>k < n. page_tables s (kernel_table_at k st) = Some (kernel_table k)) \<and>
      kernel_directory s = kernel_directory st \<and> kernel_tables s = kernel_tables st \<and> kernel_space_at s = kernel_space_at st \<and>
      address_spaces s = address_spaces st \<and> pg_heap s = pg_heap st \<and> page_ref s = page_ref st" using Suc unfolding s_def by simp
  then have "kernel_table_at k s = kernel_table_at k st" for k by (simp add: kernel_table_at_def)
  with IH ne show ?case unfolding S by (auto simp: install_table_def directory_ok_def less_Suc_eq)
qed

lemma install_inv:
  assumes "boot_ok st"
  shows "machine_inv (paging_install st) []"
proof -
  note B = assms [unfolded boot_ok_def]
  let ?st0 = "st\<lparr>page_directories := (page_directories st)(kernel_directory st \<mapsto> replicate 1024 0)\<rparr>"
  define st1 where "st1 = fold install_table [0..<KERNEL_IDENTITY_TABLES] ?st0"
  have "directory_ok ?st0" by (simp add: directory_ok_def)
  note T = install_tables [OF this order_refl, folded st1_def]
  have at: "kernel_table_at k ?st0 = kernel_table_at k st" for k by (simp add: kernel_table_at_def)
  have k0: "page_tables st1 (kernel_tables st) = Some (kernel_table 0)"
  proof -
    have "page_tables st1 (kernel_table_at 0 ?st0) = Some (kernel_table 0)" using T by (simp add: KERNEL_IDENTITY_TABLES_def)
    then show ?thesis by (simp add: kernel_table_at_def)
  qed
  have pi: "paging_install st = st1\<lparr>address_spaces := (address_spaces st1)(kernel_space_at st \<mapsto>
      \<lparr>as_directory = kernel_directory st, as_first_table = kernel_table_at 0 st, as_ext_table = NULL, as_owns_tables = False\<rparr>),
      pg_active := kernel_space_at st, cr3 := kernel_directory st, tlb := Map.empty\<rparr>"
    unfolding paging_install_def Let_def enable_paging_def st1_def [symmetric] by simp
  have at1: "kernel_table_at k (paging_install st) = kernel_table_at k st" for k using T unfolding pi by (simp add: kernel_table_at_def)
  have "\<exists>kd. page_directories st1 (kernel_directory st) = Some kd \<and> length kd = 1024" using T by (auto simp: directory_ok_def)
  then have "kernel_ok (paging_install st)"
    using B T k0 unfolding kernel_ok_def at1 unfolding pi by (simp add: kernel_table_at_def)
  moreover have "kernel_frames (paging_install st) = kernel_frames st"
    using T unfolding kernel_frames_def at1 unfolding pi by simp
  moreover have "spaces_ok (paging_install st) []" using B T unfolding pi by (simp add: spaces_ok_def structs_def)
  moreover have "counts_ok [] (slots (paging_install st)) (page_ref (paging_install st))"
    using B T unfolding pi by (simp add: counts_ok_def mappings_def)
  ultimately show ?thesis
    using B T unfolding machine_inv_def paging_inv_def frames_ok_def mapped_def
    by (simp add: private_ok_def mappings_def structs_def) (simp add: pi)
qed

inductive machine_reach :: "paging \<Rightarrow> ptr list \<Rightarrow> bool" where
  boot: "boot_ok st \<Longrightarrow> machine_reach (paging_install st) []"
| step: "machine_reach st us \<Longrightarrow> op_ok op st us \<Longrightarrow> exec op st us = Some (st1, us1) \<Longrightarrow> machine_reach st1 us1"

lemma machine_reach_inv: "machine_reach st us \<Longrightarrow> machine_inv st us"
proof (induction rule: machine_reach.induct)
  case (step st us op st1 us1)
  with exec_inv [of st us op] show ?case by simp
qed (rule install_inv)

lemma cloning_views:
  assumes cr: "created st us c st1" and cg: "cloning (c # us) p c 2048 st1 st2" and p: "p \<in> set us"
  shows "c \<noteq> NULL" "c \<notin> set us" "paging_inv st2 (c # us)"
    "\<forall>q \<in> set us. \<forall>i < 2048. page_view st2 q i = page_view st q i" "\<forall>i < 2048. page_view st2 c i = page_view st p i"
    "\<forall>i < 2048. \<forall>q \<in> {p, c}. is_user (slots st2 q ! i) \<and> \<not> shared (slots st2 q ! i) \<longrightarrow> \<not> rw (slots st2 q ! i)"
proof -
  note C = cr [unfolded created_def] and G = cg [unfolded cloning_def]
  show "c \<noteq> NULL" "c \<notin> set us" "paging_inv st2 (c # us)" using C G by simp_all
  have pc: "p \<noteq> c" using C p by auto
  have fd: "frame_data st2 = frame_data st" using C G by (simp add: same_machine_def)
  have sp: "slots st2 p ! i = cloned (slots st p ! i)" if "i < 2048" for i using C G pc that by simp
  have sc: "slots st2 c ! i = (if is_user (slots st p ! i) then cloned (slots st p ! i) else blank_slots ! i)" if "i < 2048" for i
    using C G pc that by simp
  show "\<forall>q \<in> set us. \<forall>i < 2048. page_view st2 q i = page_view st q i"
  proof (intro ballI allI impI)
    fix q i assume q: "q \<in> set us" "i < (2048 :: nat)"
    show "page_view st2 q i = page_view st q i"
    proof (cases "q = p")
      case True
      then show ?thesis using sp [OF q(2)] fd by (simp add: page_view_def)
    next
      case False
      moreover have "q \<noteq> c" using q(1) C by auto
      ultimately have "slots st2 q = slots st q" using C G by simp
      then show ?thesis using fd by (simp add: page_view_def)
    qed
  qed
  show "\<forall>i < 2048. page_view st2 c i = page_view st p i" using sc fd blank_slot by (simp add: page_view_def)
  show "\<forall>i < 2048. \<forall>q \<in> {p, c}. is_user (slots st2 q ! i) \<and> \<not> shared (slots st2 q ! i) \<longrightarrow> \<not> rw (slots st2 q ! i)"
    using sp sc blank_slot by (auto simp: cloned_def)
qed

section \<open>Properties\<close>


text \<open>
  C4. Cloning an address space, copy on write, gives the child the memory of the parent: page by page both
  see the contents the parent had, every other space keeps its view, and no private page is writable
  afterwards in the parent or the child, so that the first store of either is seen by the page-fault
  handler. Without memory for the child nothing visible changes.
\<close>

theorem clone_same_memory:
  assumes inv: "paging_inv st us" and p: "p \<in> set us" and act: "pg_active st \<in> insert (kernel_space_at st) (set us)"
  shows "\<exists>c st'. paging_clone_address_space p st = Some (c, st') \<and>
    (\<forall>q \<in> set us. \<forall>i < 2048. page_view st' q i = page_view st q i) \<and>
    (if c = NULL then paging_inv st' us
     else c \<notin> set us \<and> paging_inv st' (c # us) \<and> (\<forall>i < 2048. page_view st' c i = page_view st p i) \<and>
       (\<forall>i < 2048. \<forall>q \<in> {p, c}. is_user (slots st' q ! i) \<and> \<not> shared (slots st' q ! i) \<longrightarrow> \<not> rw (slots st' q ! i)))"
proof -
  from clone_spec [OF inv p disjI2 [OF act]] show ?thesis
  proof (elim disjE exE conjE)
    fix h assume "paging_clone_address_space p st = Some (NULL, st\<lparr>pg_heap := h\<rparr>)" "paging_inv (st\<lparr>pg_heap := h\<rparr>) us"
    then show ?thesis by simp
  next
    fix c st1 st2 st3 d
    assume cl: "paging_clone_address_space p st = Some (c, st3)" and cr: "created st us c st1" and cg: "cloning (c # us) p c 2048 st1 st2"
    note v = cloning_views [OF cr cg p]
    {
      assume "st3 = load_cr3 d st2"
      then have "slots st3 = slots st2" "page_view st3 = page_view st2" "paging_inv st3 (c # us) = paging_inv st2 (c # us)"
        by (simp_all add: load_cr3_def)
      then show ?thesis using cl v by simp
    next
      assume "st3 = st2"
      then show ?thesis using cl v by simp
    }
  qed
qed

text \<open>
  C6. Destroying an address space gives back to the page allocator the frames that no other space maps and
  the three frames of its tables, exactly these; the other spaces see the same memory as before. When the
  space was the active one, the kernel's becomes active.
\<close>

theorem destroy_frees_own:
  assumes "paging_inv st us" "p \<in> set us"
  shows "\<exists>st'. paging_destroy_user_address_space p st = Some st' \<and> paging_inv st' (remove1 p us) \<and>
    (\<forall>q i. q \<noteq> p \<longrightarrow> page_view st' q i = page_view st q i) \<and>
    frames_used (heap_pmm (pg_heap st')) = frames_used (heap_pmm (pg_heap st))
      - (mapped st us - unat ` set_mset (mappings (remove1 p us) (slots st))) - frame_no ` set (space_structs st p) \<and>
    pg_active st' = (if pg_active st = p then kernel_space_at st else pg_active st)"
  using destroy_spec [OF assms] unfolding destroyed_def by (auto simp: page_view_def)

text \<open>
  C5. From \<open>paging_install\<close> on, whatever sequence of operations the kernel runs on address spaces that
  exist, and whatever the programs store: the sharing counts equal the number of spaces that map a frame
  less one, a writable private page is mapped once, no frame has two owners, and no operation follows a
  dangling pointer.
\<close>

theorem machine_never_stuck:
  assumes "machine_reach st us" "op_ok op st us"
  shows "paging_inv st us \<and> (\<exists>st1 us1. exec op st us = Some (st1, us1))"
  using machine_reach_inv [OF assms(1)] exec_inv [OF _ assms(2)] unfolding machine_inv_def by blast

section \<open>A small machine\<close>

text \<open>
  128 KB with the upper half free: frame 1 is the heap's, the kernel's structures lie in frames 2 to 11,
  those of one address space in frames 12 to 14.
\<close>

definition pmm_128k :: pmm_state where
  "pmm_128k = pmm_init_region 0x10000 0x10000 (pmm_init 128 pmm_boot)"

definition paging_small :: paging where
  "paging_small = \<lparr>page_tables = Map.empty, page_directories = Map.empty, address_spaces = Map.empty, frame_data = (\<lambda>f. replicate 4096 0),
     kernel_directory = 0x2000, kernel_tables = 0x3000, kernel_space_at = 0xB000, pg_active = NULL, user_space_count = 0,
     page_ref = replicate FRAME_COUNT 0, cr3 = 0, tlb = Map.empty, pg_heap = heap_small_used\<lparr>heap_pmm := pmm_128k\<rparr>\<rparr>"

lemma pmm_128k_used: "f < 16 \<Longrightarrow> f \<in> frames_used pmm_128k"
proof -
  assume "f < 16"
  then have "f = 0 \<or> f = 1 \<or> f = 2 \<or> f = 3 \<or> f = 4 \<or> f = 5 \<or> f = 6 \<or> f = 7 \<or> f = 8 \<or> f = 9 \<or> f = 10 \<or> f = 11 \<or> f = 12 \<or>
    f = 13 \<or> f = 14 \<or> f = 15" by arith
  moreover have "max_blocks pmm_128k = 32" by (simp add: pmm_128k_def pmm_eval)
  moreover have "memory_map pmm_128k ! 0 = 0xFFFF" by (simp add: pmm_128k_def pmm_eval upt_rec nth_list_update)
  ultimately show ?thesis by (elim disjE) (simp_all add: frames_used_mem mmap_test_def)
qed

lemma heap_small_used_frames: "heap_frames heap_small_used = {1}"
proof -
  have "heap_blocks heap_small_used (atake 100 4096 [(4096, 4084, True)])"
    using kmalloc_ready [OF heap_small_blocks, of 100] heap_small_kmalloc by (auto simp: heap_small_def)
  then have "heap_frames heap_small_used = frames_of [(4096, 100, False), (4208, 3972, True)]" using heap_frames_eq by (simp add: HDR_def)
  also have "\<dots> = (\<lambda>x. x div 4096) ` {4096..<8192 :: nat}"
    unfolding frames_of_def all_bytes_def block_bytes_def by (rule arg_cong [where f = "image _"]) auto
  also have "\<dots> = {1}" by (auto simp: div_nat_eqI image_iff intro!: bexI [of _ 4096])
  finally show ?thesis .
qed

lemma heap_128k:
  "heap_inv (heap_small_used\<lparr>heap_pmm := pmm_128k\<rparr>)" "heap_live (heap_small_used\<lparr>heap_pmm := pmm_128k\<rparr>) = {(4108, 100)}"
  "heap_frames (heap_small_used\<lparr>heap_pmm := pmm_128k\<rparr>) = {1}"
proof -
  have pm: "pmm_inv pmm_128k" unfolding pmm_128k_def by (intro pmm_init_region_inv pmm_init_inv)
  have "heap_frames heap_small_used \<subseteq> frames_used pmm_128k" using heap_small_used_frames pmm_128k_used by simp
  note h = heap_other_frames [OF conjunct1 [OF heap_small_used_live] pm this]
  show "heap_inv (heap_small_used\<lparr>heap_pmm := pmm_128k\<rparr>)" by (rule h(1))
  show "heap_live (heap_small_used\<lparr>heap_pmm := pmm_128k\<rparr>) = {(4108, 100)}" using h(2) heap_small_used_live by simp
  show "heap_frames (heap_small_used\<lparr>heap_pmm := pmm_128k\<rparr>) = {1}" using h(3) heap_small_used_frames by simp
qed

lemma paging_small_kernel: "kernel_frames paging_small = {2..11}"
proof -
  have "{..<KERNEL_IDENTITY_TABLES} = {0, 1, 2, 3, 4, 5, 6, 7}" by (auto simp: KERNEL_IDENTITY_TABLES_def)
  then have "kernel_frames paging_small = {3, 4, 5, 6, 7, 8, 9, 10, 2, 11}"
    by (simp add: kernel_frames_def kernel_table_at_def frame_no_def paging_small_def)
  also have "\<dots> = {2..11}" by (rule set_eqI) (simp, arith)
  finally show ?thesis .
qed

lemma paging_small_boot: "boot_ok paging_small"
proof -
  have "kernel_frames paging_small \<subseteq> frames_used pmm_128k" unfolding paging_small_kernel using pmm_128k_used by auto
  moreover have "kernel_frames paging_small \<inter> {1} = {}" unfolding paging_small_kernel by simp
  ultimately show ?thesis using heap_128k unfolding boot_ok_def by (simp add: paging_small_def)
qed

text \<open>The same machine with one address space, which is active.\<close>

definition space_small :: address_space where
  "space_small = \<lparr>as_directory = 0xC000, as_first_table = 0xD000, as_ext_table = 0xE000, as_owns_tables = True\<rparr>"

definition paging_one :: paging where
  "paging_one = (new_space 4108 space_small (replicate 1024 0) (kernel_table 0) (replicate 1024 zero_entry) (paging_install paging_small))\<lparr>pg_active := 4108\<rparr>"

lemma paging_one_inv: "paging_inv paging_one [4108]"
proof -
  let ?st = "paging_install paging_small"
  have inv: "paging_inv ?st []" using install_inv [OF paging_small_boot] by (simp add: machine_inv_def)
  have st: "pg_heap ?st = pg_heap paging_small" "kernel_space_at ?st = 0xB000" "kernel_frames ?st = {2..11}"
  proof -
    let ?boot = "paging_small\<lparr>page_directories := (page_directories paging_small)(kernel_directory paging_small \<mapsto> replicate 1024 0)\<rparr>"
    have "directory_ok ?boot" by (simp add: directory_ok_def)
    from install_tables [OF this order_refl] show "pg_heap ?st = pg_heap paging_small" "kernel_space_at ?st = 0xB000" "kernel_frames ?st = {2..11}"
      unfolding paging_small_kernel [symmetric] by (simp_all add: paging_install_def Let_def enable_paging_def kernel_frames_def kernel_table_at_def) (simp_all add: paging_small_def)
  qed
  have hp: "pg_heap paging_small = heap_small_used\<lparr>heap_pmm := pmm_128k\<rparr>" by (simp add: paging_small_def)
  have fr: "fresh_structs ?st [] [as_directory space_small, as_first_table space_small, as_ext_table space_small]"
    unfolding fresh_structs_def st hp heap_128k using pmm_128k_used
    by (simp add: space_small_def structs_def mapped_def mappings_def frame_no_def)
  have p: "4108 \<notin> insert (kernel_space_at ?st) (set [])" "4108 \<noteq> NULL" "4108 \<in> fst ` heap_live (pg_heap ?st)"
    by (simp_all add: st hp heap_128k)
  have "paging_inv (new_space 4108 space_small (replicate 1024 0) (kernel_table 0) (replicate 1024 zero_entry) ?st) [4108]"
    by (rule new_space_inv [OF inv p fr]) (use blank_slots_kernel in \<open>simp_all add: kernel_table_def space_small_def blank_slots_def\<close>)
  then show ?thesis by (simp add: paging_one_def)
qed


theorem clone_same_memory_witness:
  "\<exists>c st'. paging_clone_address_space 4108 paging_one = Some (c, st') \<and>
    (\<forall>i < 2048. page_view st' 4108 i = page_view paging_one 4108 i) \<and>
    (c \<noteq> NULL \<longrightarrow> c \<noteq> 4108 \<and> paging_inv st' [c, 4108] \<and> (\<forall>i < 2048. page_view st' c i = page_view paging_one 4108 i))"
proof -
  have "pg_active paging_one \<in> insert (kernel_space_at paging_one) (set [4108])" by (simp add: paging_one_def)
  from clone_same_memory [OF paging_one_inv _ this, of 4108] show ?thesis by auto
qed

theorem destroy_frees_own_witness:
  "\<exists>st'. paging_destroy_user_address_space 4108 paging_one = Some st' \<and> paging_inv st' [] \<and> pg_active st' = 0xB000 \<and>
    frames_used (heap_pmm (pg_heap st')) = frames_used (heap_pmm (pg_heap paging_one)) - mapped paging_one [4108] - {12, 13, 14}"
proof -
  have s: "frame_no ` set (space_structs paging_one 4108) = {12, 13, 14}"
    by (simp add: paging_one_def space_structs_def frame_no_def space_small_def)
  have a: "pg_active paging_one = 4108" by (simp add: paging_one_def)
  have k: "kernel_space_at paging_one = 0xB000"
  proof -
    let ?boot = "paging_small\<lparr>page_directories := (page_directories paging_small)(kernel_directory paging_small \<mapsto> replicate 1024 0)\<rparr>"
    have "directory_ok ?boot" by (simp add: directory_ok_def)
    from install_tables [OF this order_refl] show ?thesis
      by (simp add: paging_one_def paging_install_def Let_def enable_paging_def) (simp add: paging_small_def)
  qed
  have m: "mappings (remove1 4108 [4108]) (slots paging_one) = {#}" by (simp add: mappings_def)
  from destroy_frees_own [OF paging_one_inv, of 4108] show ?thesis unfolding m s a k by auto
qed

theorem machine_never_stuck_witness:
  "machine_reach (paging_install paging_small) [] \<and> paging_inv (paging_install paging_small) [] \<and>
    (\<exists>st us. exec Create (paging_install paging_small) [] = Some (st, us))"
proof -
  have "machine_reach (paging_install paging_small) []" by (rule machine_reach.boot [OF paging_small_boot])
  with machine_never_stuck [OF this, of Create] show ?thesis by simp
qed

end
