(* ===== verification/User_Memory.thy ===== *)
theory User_Memory
  imports Paging_Views
begin

text \<open>
  User memory byte by byte: what the kernel's copies into an address space do to the bytes the space
  sees, as long as its pages are its own, which holds for a space that is being built.
\<close>

section \<open>Addresses and pages\<close>

definition nslot :: "nat \<Rightarrow> nat option" where
  "nslot a = (if a < 0x400000 then Some (a div 4096)
     else if 0x2000000 \<le> a \<and> a < 0x2400000 then Some (1024 + (a - 0x2000000) div 4096) else None)"

lemma vslot_nslot: "vslot v = nslot (unat v)"
proof -
  have "unat (v - USER_EXT_BASE) = unat v - 0x2000000" if "USER_EXT_BASE \<le> v"
    using that by (simp add: unat_sub USER_EXT_BASE_def)
  then show ?thesis
    by (auto simp: vslot_def nslot_def unat_page word_less_nat_alt word_le_nat_alt USER_EXT_BASE_def USER_EXT_TOP_def simp del: frame_number)
qed

lemma page_offset_mod: "page_offset v = unat v mod 4096"
proof -
  have m: "(0xFFF :: u32) = mask 12" by (simp add: mask_eq_exp_minus_1)
  have "v AND mask 12 = take_bit 12 v" by (rule take_bit_eq_mask [symmetric])
  then have "v AND 0xFFF = take_bit 12 v" unfolding m .
  then show ?thesis by (simp add: page_offset_def take_bit_eq_mod unat_mod)
qed

definition pslot :: "nat \<Rightarrow> nat option" where
  "pslot n = (if n < 1024 then Some n else if 8192 \<le> n \<and> n < 9216 then Some (n - 7168) else None)"

lemma nslot_pslot: "nslot a = pslot (a div 4096)"
proof -
  have low: "a < 0x400000 \<longleftrightarrow> a div 4096 < 1024" using div_less_iff_less_mult [of 4096 a 1024] by simp
  have ext: "0x2000000 \<le> a \<longleftrightarrow> 8192 \<le> a div 4096" "a < 0x2400000 \<longleftrightarrow> a div 4096 < 9216"
    using div_less_iff_less_mult [of 4096 a 9216] less_eq_div_iff_mult_less_eq [of 4096 8192 a] by simp_all
  have sub: "(a - 0x2000000) div 4096 = a div 4096 - 8192" if "0x2000000 \<le> a"
  proof -
    define k where "k = a - 0x2000000"
    have k: "a = k + 0x2000000" unfolding k_def by (rule le_add_diff_inverse2 [OF that, symmetric])
    have "(k + 8192 * 4096) div 4096 = k div 4096 + 8192" by simp
    then show ?thesis using k by simp
  qed
  show ?thesis
  proof (cases "0x2000000 \<le> a")
    case True
    then show ?thesis using sub ext unfolding nslot_def pslot_def by simp
  next
    case False
    then show ?thesis using low ext unfolding nslot_def pslot_def by simp
  qed
qed

lemma pslot_inj: "pslot m = Some i \<Longrightarrow> pslot n = Some i \<longleftrightarrow> n = m"
  by (auto simp: pslot_def split: if_splits)

lemma nslot_page:
  assumes "nslot a = Some i"
  shows "nslot b = Some i \<longleftrightarrow> b div 4096 = a div 4096"
  using assms pslot_inj unfolding nslot_pslot by metis

lemma nslot_bound: "nslot a = Some i \<Longrightarrow> i < 2048"
  by (auto simp: nslot_pslot pslot_def split: if_splits)

definition ubyte :: "paging \<Rightarrow> ptr \<Rightarrow> nat \<Rightarrow> u8 option" where
  "ubyte st p a = (case nslot a of None \<Rightarrow> None | Some i \<Rightarrow> map_option (\<lambda>xs. xs ! (a mod 4096)) (page_view st p i))"

definition umapped :: "paging \<Rightarrow> ptr \<Rightarrow> nat \<Rightarrow> bool" where
  "umapped st p a = (case nslot a of None \<Rightarrow> False | Some i \<Rightarrow> is_user (slots st p ! i))"

lemma ubyte_mapped: "ubyte st p a \<noteq> None \<longleftrightarrow> umapped st p a"
  by (auto simp: ubyte_def umapped_def page_view_def split: option.splits)

section \<open>Writes of the kernel\<close>

text \<open>A space whose pages nobody shares.\<close>

definition own_pages :: "paging \<Rightarrow> ptr \<Rightarrow> bool" where
  "own_pages st p \<longleftrightarrow> (\<forall>i < 2048. is_user (slots st p ! i) \<longrightarrow> rw (slots st p ! i) \<and> \<not> shared (slots st p ! i))"

lemma dest_frame:
  fixes f v :: u32
  assumes "unat f < FRAME_COUNT"
  shows "drop_bit 12 (push_bit 12 f OR (v AND 0xFFF)) = f"
proof -
  have m: "(0xFFF :: u32) = mask 12" by (simp add: mask_eq_exp_minus_1)
  have "take_bit 20 f = f"
    using assms by (simp add: word_unat_eq_iff unsigned_take_bit_eq take_bit_nat_eq_self FRAME_COUNT_def)
  then have "bit f n \<Longrightarrow> n < 20" for n by (metis bit_take_bit_iff)
  then show ?thesis unfolding m by (intro bit_word_eqI) (auto simp: bit_simps)
qed

lemma poke_own:
  assumes inv: "paging_inv st us" and p: "p \<in> set us" and own: "own_pages st p" and v: "vslot v = Some i" and u: "is_user (slots st p ! i)"
    and len: "unat v mod 4096 + length bs \<le> 4096"
  defines "st' \<equiv> poke (push_bit 12 (frame (slots st p ! i)) OR (v AND 0xFFF)) bs st"
  shows "paging_inv st' us" "slots st' = slots st" "page_view st' p i = Some (put_bytes (unat v mod 4096) bs (the (page_view st p i)))"
    "q \<in> set us \<Longrightarrow> j < 2048 \<Longrightarrow> (q, j) \<noteq> (p, i) \<Longrightarrow> page_view st' q j = page_view st q j"
proof -
  note D = paging_invD [OF inv]
  let ?f = "frame (slots st p ! i)"
  have i: "i < 2048" by (rule vslot_bound [OF v])
  have small: "unat ?f < FRAME_COUNT" by (rule mapped_small [OF inv slot_mapped [OF inv p i u]])
  show "paging_inv st' us" unfolding st'_def by (rule poke_inv [OF inv]) (use len in \<open>simp add: page_offset_mod\<close>)
  show sl: "slots st' = slots st" by (simp add: st'_def poke_def Let_def)
  have fd: "frame_data st' = (frame_data st)(?f := put_bytes (unat v mod 4096) bs (frame_data st ?f))"
    unfolding st'_def poke_def Let_def dest_frame [OF small] page_bits page_offset_def [symmetric] page_offset_mod by simp
  show "page_view st' p i = Some (put_bytes (unat v mod 4096) bs (the (page_view st p i)))" using u by (simp add: page_view_def sl fd)
  assume q: "q \<in> set us" "j < 2048" "(q, j) \<noteq> (p, i)"
  have len: "i < length (slots st p)" "j < length (slots st q)" using slots_length [OF inv] p q i by simp_all
  have one: "count (mappings us (slots st)) ?f = 1"
    using private_okD(1) [OF D(8) p nth_mem [OF len(1)] u] own i u by (simp add: own_pages_def)
  have "is_user (slots st q ! j) \<Longrightarrow> frame (slots st q ! j) \<noteq> ?f"
    using sole_mapping [OF D(7) one p len(1) u refl q(1) len(2)] q(3) by auto
  then show "page_view st' q j = page_view st q j" by (simp add: page_view_def sl fd)
qed

text \<open>What a write to the addresses from \<open>lo\<close> below \<open>hi\<close> of space \<open>p\<close> may change.\<close>

definition wrote :: "ptr list \<Rightarrow> ptr \<Rightarrow> nat \<Rightarrow> nat \<Rightarrow> paging \<Rightarrow> paging \<Rightarrow> bool" where
  "wrote us p lo hi st st' \<longleftrightarrow> paging_inv st' us \<and> slots st' = slots st \<and> pg_active st' = pg_active st \<and> kernel_space_at st' = kernel_space_at st \<and>
     (\<forall>q \<in> set us. q \<noteq> p \<longrightarrow> (\<forall>j < 2048. page_view st' q j = page_view st q j)) \<and>
     (\<forall>b. \<not> (lo \<le> b \<and> b < hi) \<longrightarrow> ubyte st' p b = ubyte st p b)"

lemma wrote_refl: "paging_inv st us \<Longrightarrow> wrote us p lo hi st st"
  by (simp add: wrote_def)

lemma wrote_trans: "wrote us p lo m st st1 \<Longrightarrow> wrote us p m' hi st1 st2 \<Longrightarrow> m \<le> hi \<Longrightarrow> lo \<le> m' \<Longrightarrow> wrote us p lo hi st st2"
  unfolding wrote_def by auto

lemma poke_wrote:
  assumes inv: "paging_inv st us" and p: "p \<in> set us" and own: "own_pages st p" and v: "vslot v = Some i" and u: "is_user (slots st p ! i)"
    and len: "unat v mod 4096 + length bs \<le> 4096"
  defines "st' \<equiv> poke (push_bit 12 (frame (slots st p ! i)) OR (v AND 0xFFF)) bs st"
  shows "wrote us p (unat v) (unat v + length bs) st st'" "x < length bs \<Longrightarrow> ubyte st' p (unat v + x) = Some (bs ! x)"
proof -
  note P = poke_own [OF inv p own v u len, folded st'_def]
  have n: "nslot (unat v) = Some i" using v by (simp add: vslot_nslot)
  have i: "i < 2048" by (rule vslot_bound [OF v])
  have old: "page_view st p i = Some (frame_data st (frame (slots st p ! i)))" "length (frame_data st (frame (slots st p ! i))) = 4096"
    using u paging_invD(9) [OF inv slot_mapped [OF inv p i u]] by (simp_all add: page_view_def)
  let ?o = "unat v mod 4096" and ?xs = "frame_data st (frame (slots st p ! i))"
  have same: "b div 4096 = unat v div 4096 \<Longrightarrow> ubyte st' p b = Some (put_bytes ?o bs ?xs ! (b mod 4096)) \<and> ubyte st p b = Some (?xs ! (b mod 4096))" for b
    using nslot_page [OF n, of b] P(3) old(1) by (simp add: ubyte_def)
  have inside: "unat v \<le> b \<and> b < unat v + length bs \<Longrightarrow> b div 4096 = unat v div 4096 \<and> b mod 4096 = ?o + (b - unat v)" for b
  proof -
    assume b: "unat v \<le> b \<and> b < unat v + length bs"
    let ?r = "?o + (b - unat v)" and ?q = "unat v div 4096"
    have r: "?r < 4096" using b len by linarith
    have e: "b = ?r + ?q * 4096" using b div_mult_mod_eq [of "unat v" 4096] by linarith
    have "(r + q * 4096) div 4096 = q \<and> (r + q * 4096) mod 4096 = r" if "r < 4096" for r q :: nat using that by simp
    from this [OF r, of ?q] show ?thesis by (simp only: e [symmetric])
  qed
  show "ubyte st' p (unat v + x) = Some (bs ! x)" if "x < length bs"
    using inside [of "unat v + x"] same [of "unat v + x"] that len old(2) by (simp add: put_bytes_nth)
  have "ubyte st' p b = ubyte st p b" if "\<not> (unat v \<le> b \<and> b < unat v + length bs)" for b
  proof (cases "b div 4096 = unat v div 4096")
    case True
    have "\<not> (?o \<le> b mod 4096 \<and> b mod 4096 < ?o + length bs)"
    proof
      assume "?o \<le> b mod 4096 \<and> b mod 4096 < ?o + length bs"
      then have "unat v \<le> b \<and> b < unat v + length bs" using True div_mult_mod_eq [of b 4096] div_mult_mod_eq [of "unat v" 4096] by linarith
      with that show False by blast
    qed
    then have "put_bytes ?o bs ?xs ! (b mod 4096) = ?xs ! (b mod 4096)" using len old(2) by (auto simp: put_bytes_nth)
    then show ?thesis using same [OF True] by simp
  next
    case False
    then have "nslot b \<noteq> Some i" using nslot_page [OF n, of b] by simp
    then show ?thesis using P(4) [OF p] nslot_bound [of b] by (auto simp: ubyte_def split: option.splits)
  qed
  then show "wrote us p (unat v) (unat v + length bs) st st'" unfolding wrote_def using P by (auto simp: st'_def)
qed

lemma chunk_nat:
  assumes "0 < n" "unat v + unat n < 2 ^ 32"
  defines "c \<equiv> chunk_at v n"
  shows "unat (v + c) = unat v + unat c" "unat (n - c) = unat n - unat c" "unat c \<le> unat n" "0 < unat c" "unat v mod 4096 + unat c \<le> 4096"
proof -
  show le: "unat c \<le> unat n" unfolding c_def using chunk_at_le by (simp add: word_le_nat_alt)
  show "0 < unat c" unfolding c_def using chunk_at_pos [OF assms(1)] by (simp add: word_less_nat_alt)
  show "unat v mod 4096 + unat c \<le> 4096" unfolding c_def using chunk_inside [of v n] by (simp add: page_offset_mod)
  show "unat (v + c) = unat v + unat c" using le assms(2) by (intro unat_add_no_wrap) simp
  show "unat (n - c) = unat n - unat c" using le by (simp add: unat_sub word_le_nat_alt)
qed

lemma own_pages_slots: "slots st' = slots st \<Longrightarrow> own_pages st' p = own_pages st p"
  by (simp add: own_pages_def)

lemma umapped_slots: "slots st' = slots st \<Longrightarrow> umapped st' p a = umapped st p a"
  by (simp add: umapped_def split: option.splits)

lemma umapped_page: "nslot a = Some i \<Longrightarrow> b div 4096 = a div 4096 \<Longrightarrow> umapped st p b = is_user (slots st p ! i)"
  using nslot_page [of a i b] by (simp add: umapped_def)

lemma umapped_chunk:
  assumes "unat v mod 4096 + c \<le> 4096" "x < c"
  shows "umapped st p (unat v + x) = umapped st p (unat v)"
proof -
  have "(unat v + x) div 4096 = unat v div 4096"
  proof -
    let ?r = "unat v mod 4096 + x" and ?q = "unat v div 4096"
    have r: "?r < 4096" using assms by simp
    have e: "unat v + x = ?r + ?q * 4096" using div_mult_mod_eq [of "unat v" 4096] by linarith
    have "(r + q * 4096) div 4096 = q" if "r < 4096" for r q :: nat using that by simp
    from this [OF r, of ?q] show ?thesis by (simp only: e [symmetric])
  qed
  then show ?thesis by (simp add: umapped_def nslot_pslot)
qed

definition copied_to :: "ptr list \<Rightarrow> ptr \<Rightarrow> nat \<Rightarrow> u8 list \<Rightarrow> bool \<Rightarrow> paging \<Rightarrow> paging \<Rightarrow> bool" where
  "copied_to us p a bs ok st st' \<longleftrightarrow> wrote us p a (a + length bs) st st' \<and> ok = (\<forall>x < length bs. umapped st p (a + x)) \<and>
     (ok \<longrightarrow> (\<forall>x < length bs. ubyte st' p (a + x) = Some (bs ! x)))"

lemma copy_loop_bytes:
  assumes "paging_inv st us" "p \<in> set us" "own_pages st p" "unat v + unat n < 2 ^ 32" "length bs = unat n"
  shows "\<exists>ok st'. copy_loop p v bs n st = Some (ok, st') \<and> copied_to us p (unat v) bs ok st st'"
  using assms
proof (induction p v bs n st rule: copy_loop.induct)
  case (1 p v bs n st)
  show ?case
  proof (cases "n = 0")
    case True
    then show ?thesis using 1(2,6) by (auto simp: copy_loop.simps [of p v "[]" 0 st] copied_to_def wrote_refl)
  next
    case False
    then have n: "0 < n" by (simp add: word_gt_0)
    note c = chunk_nat [OF n 1(5)]
    let ?c = "chunk_at v n"
    show ?thesis
    proof (cases "umapped st p (unat v)")
      case False
      then have "user_pointer p v st = Some None"
        using user_pointer_spec [OF 1(2,3), of v] by (auto simp: umapped_def vslot_nslot split: option.splits)
      moreover have "0 < length bs" using n 1(6) by (simp add: word_less_nat_alt)
      ultimately show ?thesis using n False 1(2) by (auto simp: copy_loop.simps [of p v bs n st] copied_to_def wrote_refl intro!: exI [of _ 0])
    next
      case True
      then obtain i where i: "vslot v = Some i" "is_user (slots st p ! i)" by (auto simp: umapped_def vslot_nslot split: option.splits)
      let ?d = "push_bit 12 (frame (slots st p ! i)) OR (v AND 0xFFF)"
      let ?st = "poke ?d (take (unat ?c) bs) st"
      have up: "user_pointer p v st = Some (Some ?d)" using user_pointer_spec [OF 1(2,3), of v] i by simp
      have lt: "length (take (unat ?c) bs) = unat ?c" using c(3) 1(6) by simp
      note w = poke_wrote [OF 1(2,3,4) i, of "take (unat ?c) bs", unfolded lt, OF c(5)]
      have st: "paging_inv ?st us" "slots ?st = slots st" using w(1) by (simp_all add: wrote_def)
      obtain ok st' where r: "copy_loop p (v + ?c) (drop (unat ?c) bs) (n - ?c) ?st = Some (ok, st')"
        "copied_to us p (unat (v + ?c)) (drop (unat ?c) bs) ok ?st st'"
        using 1(1) [OF n up refl refl st(1) 1(3)] own_pages_slots [OF st(2)] 1(4,5,6) c by auto
      have um: "umapped ?st p a = umapped st p a" for a using umapped_slots [OF st(2)] .
      have "copied_to us p (unat v) bs ok st st'"
        unfolding copied_to_def
      proof (intro conjI impI)
        note R = r(2) [unfolded copied_to_def]
        have len: "unat v + length bs = unat (v + ?c) + length (drop (unat ?c) bs)" using c 1(6) by simp
        show "wrote us p (unat v) (unat v + length bs) st st'"
          unfolding len by (rule wrote_trans [OF w(1) conjunct1 [OF R]]) (use c 1(6) in simp_all)
        have split: "(\<forall>x < length bs. Q x) \<longleftrightarrow> (\<forall>x < unat ?c. Q x) \<and> (\<forall>x < length bs - unat ?c. Q (unat ?c + x))" for Q
          using c(3) 1(6) by (auto simp: all_conj_distrib) (metis add_diff_inverse_nat diff_less_mono linorder_not_less)
        show "ok = (\<forall>x < length bs. umapped st p (unat v + x))"
          unfolding split using R umapped_chunk [OF c(5)] True c(1) by (auto simp: um add.assoc)
        assume ok
        show "\<forall>x < length bs. ubyte st' p (unat v + x) = Some (bs ! x)"
          unfolding split
        proof
          have "ubyte st' p (unat v + x) = ubyte ?st p (unat v + x)" if "x < unat ?c" for x
            using R that c(1) by (simp add: wrote_def)
          then show "\<forall>x < unat ?c. ubyte st' p (unat v + x) = Some (bs ! x)" using w(2) by simp
          show "\<forall>x < length bs - unat ?c. ubyte st' p (unat v + (unat ?c + x)) = Some (bs ! (unat ?c + x))"
            using R \<open>ok\<close> c(1,3) 1(6) by (simp add: add.assoc)
        qed
      qed
      with r(1) n up show ?thesis by (auto simp: copy_loop.simps [of p v bs n st] Let_def)
    qed
  qed
qed

text \<open>Clearing is copying zeros.\<close>

lemma zero_is_copy: "zero_loop p v n st = copy_loop p v (replicate (unat n) 0) n st"
proof (induction p v n st rule: zero_loop.induct)
  case (1 p v n st)
  show ?case
  proof (cases "n > 0")
    case True
    have c: "unat (chunk_at v n) \<le> unat n" using chunk_at_le by (simp add: word_le_nat_alt)
    then have "drop (unat (chunk_at v n)) (replicate (unat n) (0 :: u8)) = replicate (unat (n - chunk_at v n)) 0"
      "take (unat (chunk_at v n)) (replicate (unat n) (0 :: u8)) = replicate (unat (chunk_at v n)) 0"
      by (simp_all add: unat_sub word_le_nat_alt min_absorb1)
    then show ?thesis using 1 True
      by (simp add: zero_loop.simps [of p v n st] copy_loop.simps [of p v _ n st] Let_def split: option.splits)
  next
    case False
    then show ?thesis by (simp add: zero_loop.simps [of p v n st] copy_loop.simps [of p v _ n st])
  qed
qed

lemma no_wrap_check: "\<not> n > 0xFFFFFFFF - v \<longleftrightarrow> unat v + unat n < 2 ^ 32" for v n :: u32
proof -
  have m: "unat (0xFFFFFFFF :: u32) = 4294967295" by simp
  have lt: "unat v < 4294967296" using unat_lt_2p32 [of v] by simp
  then have "v \<le> 0xFFFFFFFF" unfolding word_le_nat_alt m by linarith
  then have "unat (0xFFFFFFFF - v) = 4294967295 - unat v" by (simp only: unat_sub m)
  then have "n > 0xFFFFFFFF - v \<longleftrightarrow> 4294967295 - unat v < unat n" by (simp only: word_less_nat_alt)
  moreover have "\<not> 4294967295 - unat v < unat n \<longleftrightarrow> unat v + unat n < 4294967296" using lt by linarith
  moreover have "(2 :: nat) ^ 32 = 4294967296" by simp
  ultimately show ?thesis by (simp only:)
qed

lemma copy_to_user_loop:
  "paging_copy_to_user p v (Some bs) n st = (if unat v + unat n < 2 ^ 32 then copy_loop p v bs n st else Some (False, st))"
  "paging_zero_user p v n st = (if unat v + unat n < 2 ^ 32 then zero_loop p v n st else Some (False, st))"
  unfolding paging_copy_to_user_def paging_zero_user_def no_wrap_check [symmetric] 
  by (simp_all only: option.distinct simp_thms option.sel if_not_P not_not split: if_split) blast+

lemma copy_to_user_bytes:
  assumes "paging_inv st us" "p \<in> set us" "own_pages st p" "length bs = unat n"
  shows "\<exists>ok st'. paging_copy_to_user p v (Some bs) n st = Some (ok, st') \<and>
    (if unat v + unat n < 2 ^ 32 then copied_to us p (unat v) bs ok st st' else \<not> ok \<and> st' = st)"
proof (cases "unat v + unat n < 2 ^ 32")
  case True
  show ?thesis unfolding copy_to_user_loop(1) if_P [OF True] using copy_loop_bytes [OF assms(1-3) True assms(4)] .
next
  case False
  then show ?thesis unfolding copy_to_user_loop(1) if_not_P [OF False] by blast
qed

lemma zero_user_bytes:
  assumes "paging_inv st us" "p \<in> set us" "own_pages st p" "unat v + unat n < 2 ^ 32"
  shows "\<exists>ok st'. paging_zero_user p v n st = Some (ok, st') \<and> copied_to us p (unat v) (replicate (unat n) 0) ok st st'"
  unfolding copy_to_user_loop(2) if_P [OF assms(4)] zero_is_copy by (rule copy_loop_bytes [OF assms]) simp

section \<open>A space under construction\<close>

text \<open>
  The loader builds space \<open>c\<close>: its pages lie between the load base and the top of the stack and are its
  own, and no other space sees a change.
\<close>

definition building :: "ptr list \<Rightarrow> ptr \<Rightarrow> paging \<Rightarrow> paging \<Rightarrow> bool" where
  "building us c st0 st \<longleftrightarrow> paging_inv st (c # us) \<and> own_pages st c \<and> c \<notin> set us \<and>
     (\<forall>q \<in> set us. \<forall>j < 2048. page_view st q j = page_view st0 q j) \<and> pg_active st = pg_active st0 \<and> kernel_space_at st = kernel_space_at st0 \<and>
     (\<forall>i < 2048. is_user (slots st c ! i) \<longrightarrow> 0x300 \<le> i \<and> i < 0x3F0)"

text \<open>Nothing that was mapped has changed.\<close>

definition grown :: "ptr \<Rightarrow> paging \<Rightarrow> paging \<Rightarrow> bool" where
  "grown c st st' \<longleftrightarrow> (\<forall>a. umapped st c a \<longrightarrow> umapped st' c a \<and> ubyte st' c a = ubyte st c a)"

lemma grown_refl [simp]: "grown c st st"
  by (simp add: grown_def)

lemma grown_trans: "grown c st st1 \<Longrightarrow> grown c st1 st2 \<Longrightarrow> grown c st st2"
  by (simp add: grown_def)

lemma demanded_grown:
  assumes inv: "paging_inv st us" and p: "p \<in> set us" and i: "i < 2048" and d: "demanded us p i st st'"
  shows "grown p st st'" "is_user (slots st' p ! i)" "q \<in> set us \<Longrightarrow> q \<noteq> p \<Longrightarrow> j < 2048 \<Longrightarrow> page_view st' q j = page_view st q j"
    "own_pages st p \<Longrightarrow> own_pages st' p" "j < 2048 \<Longrightarrow> is_user (slots st' p ! j) \<Longrightarrow> is_user (slots st p ! j) \<or> j = i"
proof -
  obtain e where e: "slots st' = (slots st)(p := (slots st p)[i := e])" "is_user e" "rw e" "\<not> shared e" "\<not> is_user (slots st p ! i)"
    using d unfolding demanded_def by blast
  note R = demand_ready [OF inv p i d, unfolded ready_def]
  have s: "j \<noteq> i \<Longrightarrow> slots st' p ! j = slots st p ! j" for j using e(1) by simp
  have si: "slots st' p ! i = e" using e(1) slots_length [OF inv p] i by simp
  show "is_user (slots st' p ! i)" using si e(2) by simp
  show "own_pages st p \<Longrightarrow> own_pages st' p" unfolding own_pages_def using s si e(3,4) by metis
  show "is_user (slots st p ! j) \<or> j = i" if "is_user (slots st' p ! j)" using s that by metis
  show "page_view st' q j = page_view st q j" if "q \<in> set us" "q \<noteq> p" "j < 2048" using R that by blast
  show "grown p st st'" unfolding grown_def
  proof (intro allI impI)
    fix a assume a: "umapped st p a"
    then obtain j where j: "nslot a = Some j" "is_user (slots st p ! j)" by (auto simp: umapped_def split: option.splits)
    then have "j \<noteq> i" "j < 2048" using e(5) nslot_bound by auto
    then have "page_view st' p j = page_view st p j" "is_user (slots st' p ! j)" using R p s j(2) by auto
    with j show "umapped st' p a \<and> ubyte st' p a = ubyte st p a" by (simp add: umapped_def ubyte_def)
  qed
qed

lemma build_map:
  assumes b: "building us c st0 st" and v: "vslot v = Some i" "0x300 \<le> i" "i < 0x3F0"
  shows "\<exists>ok st'. paging_map_user_page c v st = Some (ok, st') \<and> building us c st0 st' \<and> grown c st st' \<and>
    (ok \<longrightarrow> is_user (slots st' c ! i)) \<and> (\<forall>j < 2048. is_user (slots st' c ! j) \<longrightarrow> is_user (slots st c ! j) \<or> j = i)"
proof -
  note B = b [unfolded building_def]
  have inv: "paging_inv st (c # us)" and c: "c \<in> set (c # us)" using B by simp_all
  have i: "i < 2048" by (rule vslot_bound [OF v(1)])
  show ?thesis
  proof (cases "is_user (slots st c ! i)")
    case True
    then show ?thesis using map_user_page_spec(1) [OF inv c v(1)] b by auto
  next
    case False
    from map_user_page_spec(2) [OF inv c v(1) False] show ?thesis
    proof (elim disjE exE conjE)
      assume "paging_map_user_page c v st = Some (False, st)"
      then show ?thesis using b by auto
    next
      fix st' assume m: "paging_map_user_page c v st = Some (True, st')" and d: "demanded (c # us) c i st st'"
      note G = demanded_grown [OF inv c i d]
      have "building us c st0 st'"
        unfolding building_def using B G d v(2,3) by (auto simp: demanded_def) (metis)+
      then show ?thesis using m G by blast
    qed
  qed
qed

end
