(* ===== verification/Elf.thy ===== *)
theory Elf
  imports User_Memory Fs
begin

text \<open>
  The ELF loader (src/elf_loader.c, src/elf_loader.h): the headers of an image are checked and read a
  second time while its segments are mapped, cleared and filled, the arguments are laid out on the
  user stack. Files are read through the drivers of the virtual file system, which may be any: a file
  may change between two reads, as it can under a loader that is preempted.
\<close>

section \<open>Headers\<close>

record elf_ehdr =
  e_ident :: "u8 list"
  e_type :: u16
  e_machine :: u16
  e_version :: u32
  e_entry :: u32
  e_phoff :: u32
  e_shoff :: u32
  e_flags :: u32
  e_ehsize :: u16
  e_phentsize :: u16
  e_phnum :: u16
  e_shentsize :: u16
  e_shnum :: u16
  e_shstrndx :: u16

record elf_phdr =
  p_type :: u32
  p_offset :: u32
  p_vaddr :: u32
  p_paddr :: u32
  p_filesz :: u32
  p_memsz :: u32
  p_flags :: u32
  p_align :: u32

definition ET_EXEC :: u16 where "ET_EXEC = 2"
definition EM_386 :: u16 where "EM_386 = 3"
definition PT_LOAD :: u32 where "PT_LOAD = 1"
definition ELFCLASS32 :: u8 where "ELFCLASS32 = 1"
definition sizeof_ehdr :: u32 where "sizeof_ehdr = 52"
definition sizeof_phdr :: u32 where "sizeof_phdr = 32"
definition USER_LOAD_BASE :: u32 where "USER_LOAD_BASE = 0x300000"
definition USER_STACK_PREMAP :: nat where "USER_STACK_PREMAP = 2"
definition MAX_ARGS :: int where "MAX_ARGS = 16"

text \<open>The headers lie in memory as the file has them, little endian.\<close>

definition le16 :: "u8 list \<Rightarrow> nat \<Rightarrow> u16" where
  "le16 bs i = ucast (bs ! i) OR push_bit 8 (ucast (bs ! (i + 1)))"

definition le32 :: "u8 list \<Rightarrow> nat \<Rightarrow> u32" where
  "le32 bs i = ucast (bs ! i) OR push_bit 8 (ucast (bs ! (i + 1))) OR push_bit 16 (ucast (bs ! (i + 2))) OR push_bit 24 (ucast (bs ! (i + 3)))"

definition as_ehdr :: "u8 list \<Rightarrow> elf_ehdr" where
  "as_ehdr bs = \<lparr>e_ident = take 16 bs, e_type = le16 bs 16, e_machine = le16 bs 18, e_version = le32 bs 20, e_entry = le32 bs 24,
     e_phoff = le32 bs 28, e_shoff = le32 bs 32, e_flags = le32 bs 36, e_ehsize = le16 bs 40, e_phentsize = le16 bs 42,
     e_phnum = le16 bs 44, e_shentsize = le16 bs 46, e_shnum = le16 bs 48, e_shstrndx = le16 bs 50\<rparr>"

definition as_phdr :: "u8 list \<Rightarrow> elf_phdr" where
  "as_phdr bs = \<lparr>p_type = le32 bs 0, p_offset = le32 bs 4, p_vaddr = le32 bs 8, p_paddr = le32 bs 12, p_filesz = le32 bs 16,
     p_memsz = le32 bs 20, p_flags = le32 bs 24, p_align = le32 bs 28\<rparr>"

section \<open>Reading and checking\<close>

record 's loader =
  ld_fs :: 's
  ld_term :: terminal
  ld_paging :: paging

definition say :: "string \<Rightarrow> 's loader \<Rightarrow> 's loader" where
  "say msg st = st\<lparr>ld_term := terminal_writestring (map of_char msg) (ld_term st)\<rparr>"

definition file_length :: "'s drivers \<Rightarrow> ptr \<Rightarrow> 's loader \<Rightarrow> u32 option" where
  "file_length dr file st = map_option n_length (node_at dr (ld_fs st) file)"

text \<open>The bytes, or \<open>None\<close> inside where the source returns 0.\<close>

definition read_exact :: "'s drivers \<Rightarrow> ptr \<Rightarrow> u32 \<Rightarrow> u32 \<Rightarrow> 's loader \<Rightarrow> (u8 list option \<times> 's loader) option" where
  "read_exact dr file offset sz st =
     (if sz = 0 then Some (Some [], st)
      else do {
        len \<leftarrow> file_length dr file st;
        if offset > len \<or> sz > len - offset then Some (None, st)
        else do {
          (bs, fs) \<leftarrow> read_fs dr file offset sz (ld_fs st);
          Some (if length bs = unat sz then Some bs else None, st\<lparr>ld_fs := fs\<rparr>)
        }
      })"

definition elf_valid :: "elf_ehdr \<Rightarrow> bool" where
  "elf_valid h \<longleftrightarrow> e_ident h ! 0 = 0x7f \<and> e_ident h ! 1 = of_char (CHR ''E'') \<and> e_ident h ! 2 = of_char (CHR ''L'') \<and>
     e_ident h ! 3 = of_char (CHR ''F'') \<and> e_ident h ! 4 = ELFCLASS32 \<and> e_machine h = EM_386 \<and> e_type h = ET_EXEC"

definition read_program_header :: "'s drivers \<Rightarrow> ptr \<Rightarrow> elf_ehdr \<Rightarrow> u32 \<Rightarrow> 's loader \<Rightarrow> (elf_phdr option \<times> 's loader) option" where
  "read_program_header dr file ehdr index st = do {
     (bs, st1) \<leftarrow> read_exact dr file (e_phoff ehdr + index * sizeof_phdr) sizeof_phdr st;
     Some (map_option as_phdr bs, st1)
   }"

definition phdr_in_user_range :: "elf_phdr \<Rightarrow> u32 \<Rightarrow> bool" where
  "phdr_in_user_range phdr len \<longleftrightarrow> p_vaddr phdr \<ge> USER_LOAD_BASE \<and> p_vaddr phdr < USER_STACK_BOTTOM \<and>
     p_memsz phdr \<le> USER_STACK_BOTTOM - p_vaddr phdr \<and> p_filesz phdr \<le> p_memsz phdr \<and>
     p_offset phdr \<le> len \<and> p_filesz phdr \<le> len - p_offset phdr"

definition phdr_maps_entry :: "elf_phdr \<Rightarrow> u32 \<Rightarrow> bool" where
  "phdr_maps_entry phdr entry \<longleftrightarrow> entry \<ge> p_vaddr phdr \<and> entry - p_vaddr phdr < p_memsz phdr"

fun validate_loop :: "'s drivers \<Rightarrow> ptr \<Rightarrow> elf_ehdr \<Rightarrow> nat list \<Rightarrow> bool \<Rightarrow> 's loader \<Rightarrow> (bool \<times> 's loader) option" where
  "validate_loop dr file ehdr [] entry_mapped st =
     (if \<not> entry_mapped then Some (False, say ''exec: entry point is not mapped\<newline>'' st) else Some (True, st))"
| "validate_loop dr file ehdr (i # is) entry_mapped st = do {
     (ph, st1) \<leftarrow> read_program_header dr file ehdr (of_nat i) st;
     case ph of None \<Rightarrow> Some (False, say ''exec: cannot read program header\<newline>'' st1)
     | Some phdr \<Rightarrow>
         if p_type phdr \<noteq> PT_LOAD then validate_loop dr file ehdr is entry_mapped st1
         else do {
           len \<leftarrow> file_length dr file st1;
           if \<not> phdr_in_user_range phdr len then Some (False, say ''exec: segment out of user range\<newline>'' st1)
           else validate_loop dr file ehdr is (entry_mapped \<or> phdr_maps_entry phdr (e_entry ehdr)) st1
         }
   }"

definition validate_segments :: "'s drivers \<Rightarrow> ptr \<Rightarrow> elf_ehdr \<Rightarrow> 's loader \<Rightarrow> (bool \<times> 's loader) option" where
  "validate_segments dr file ehdr st = validate_loop dr file ehdr [0..<unat (e_phnum ehdr)] False st"

section \<open>Loading\<close>

text \<open>An operation of the paging code on the loader's state.\<close>

definition on_paging :: "(paging \<Rightarrow> ('a \<times> paging) option) \<Rightarrow> 's loader \<Rightarrow> ('a \<times> 's loader) option" where
  "on_paging f st = map_option (\<lambda>(r, pg). (r, st\<lparr>ld_paging := pg\<rparr>)) (f (ld_paging st))"

partial_function (option) map_pages :: "ptr \<Rightarrow> u32 \<Rightarrow> u32 \<Rightarrow> 's loader \<Rightarrow> (bool \<times> 's loader) option" where
  "map_pages space addr page_end st =
     (if addr < page_end then do {
        (ok, st1) \<leftarrow> on_paging (paging_map_user_page space addr) st;
        if \<not> ok then Some (False, say ''exec: cannot allocate user page\<newline>'' st1)
        else map_pages space (addr + 0x1000) page_end st1
      } else Some (True, st))"

lemma chunk_256:
  fixes n pos :: u32
  assumes "pos < n"
  defines "chunk \<equiv> (if n - pos > 256 then 256 else n - pos)"
  shows "unat (pos + chunk) = unat pos + unat chunk" "0 < unat chunk" "unat pos + unat chunk \<le> unat n" "unat chunk \<le> 256"
proof -
  have d: "unat (n - pos) = unat n - unat pos" "unat pos < unat n" using assms(1) by (simp_all add: unat_sub word_less_nat_alt word_le_nat_alt)
  then show c: "0 < unat chunk" "unat pos + unat chunk \<le> unat n" "unat chunk \<le> 256" by (auto simp: chunk_def word_less_nat_alt)
  show "unat (pos + chunk) = unat pos + unat chunk"
    using c(2) unat_lt_2p32 [of n] by (intro unat_add_no_wrap) simp
qed

function fill_loop :: "'s drivers \<Rightarrow> ptr \<Rightarrow> ptr \<Rightarrow> elf_phdr \<Rightarrow> u32 \<Rightarrow> 's loader \<Rightarrow> (bool \<times> 's loader) option" where
  "fill_loop dr space file phdr pos st =
     (if pos < p_filesz phdr then
        (let chunk = (if p_filesz phdr - pos > 256 then 256 else p_filesz phdr - pos) in
         case read_exact dr file (p_offset phdr + pos) chunk st of None \<Rightarrow> None
         | Some (None, st1) \<Rightarrow> Some (False, say ''exec: cannot read segment\<newline>'' st1)
         | Some (Some bs, st1) \<Rightarrow>
             (case on_paging (paging_copy_to_user space (p_vaddr phdr + pos) (Some bs) chunk) st1 of None \<Rightarrow> None
              | Some (False, st2) \<Rightarrow> Some (False, say ''exec: cannot read segment\<newline>'' st2)
              | Some (True, st2) \<Rightarrow> fill_loop dr space file phdr (pos + chunk) st2))
      else Some (True, st))"
  by pat_completeness auto
termination
  by (relation "measure (\<lambda>(dr, space, file, phdr, pos, st). unat (p_filesz phdr) - unat pos)")
    (use chunk_256 in \<open>fastforce simp: word_less_nat_alt\<close>)+

declare fill_loop.simps [simp del]

text \<open>One segment: its pages are mapped, cleared, and filled from the file.\<close>

definition load_segment :: "'s drivers \<Rightarrow> ptr \<Rightarrow> ptr \<Rightarrow> elf_phdr \<Rightarrow> 's loader \<Rightarrow> (bool \<times> 's loader) option" where
  "load_segment dr space file phdr st = do {
     let page_start = p_vaddr phdr AND NOT 0xFFF;
     let page_end = (p_vaddr phdr + p_memsz phdr + 0xFFF) AND NOT 0xFFF;
     (ok, st1) \<leftarrow> map_pages space page_start page_end st;
     if \<not> ok then Some (False, st1)
     else do {
       (ok, st2) \<leftarrow> on_paging (paging_zero_user space (p_vaddr phdr) (p_memsz phdr)) st1;
       if \<not> ok then Some (False, st2) else fill_loop dr space file phdr 0 st2
     }
   }"

text \<open>The result is the first page above the highest segment, or \<open>None\<close> inside where the source returns 0.\<close>

fun segments_loop ::
  "'s drivers \<Rightarrow> ptr \<Rightarrow> ptr \<Rightarrow> elf_ehdr \<Rightarrow> nat list \<Rightarrow> u32 \<Rightarrow> bool \<Rightarrow> 's loader \<Rightarrow> (u32 option \<times> 's loader) option" where
  "segments_loop dr space file ehdr [] heap_base entry_mapped st =
     (if \<not> entry_mapped then Some (None, say ''exec: entry point is not mapped\<newline>'' st)
      else Some (Some ((heap_base + 0xFFF) AND NOT 0xFFF), st))"
| "segments_loop dr space file ehdr (i # is) heap_base entry_mapped st = do {
     (ph, st1) \<leftarrow> read_program_header dr file ehdr (of_nat i) st;
     case ph of None \<Rightarrow> Some (None, st1)
     | Some phdr \<Rightarrow>
         if p_type phdr \<noteq> PT_LOAD then segments_loop dr space file ehdr is heap_base entry_mapped st1
         else do {
           len \<leftarrow> file_length dr file st1;
           if \<not> phdr_in_user_range phdr len then Some (None, say ''exec: segment out of user range\<newline>'' st1)
           else do {
             (ok, st2) \<leftarrow> load_segment dr space file phdr st1;
             if \<not> ok then Some (None, st2)
             else segments_loop dr space file ehdr is
               (if p_vaddr phdr + p_memsz phdr > heap_base then p_vaddr phdr + p_memsz phdr else heap_base)
               (entry_mapped \<or> phdr_maps_entry phdr (e_entry ehdr)) st2
           }
         }
   }"

definition load_segments :: "'s drivers \<Rightarrow> ptr \<Rightarrow> ptr \<Rightarrow> elf_ehdr \<Rightarrow> 's loader \<Rightarrow> (u32 option \<times> 's loader) option" where
  "load_segments dr space file ehdr st = segments_loop dr space file ehdr [0..<unat (e_phnum ehdr)] USER_LOAD_BASE False st"

section \<open>The arguments\<close>

definition word_bytes :: "u32 \<Rightarrow> u8 list" where
  "word_bytes w = [ucast w, ucast (drop_bit 8 w), ucast (drop_bit 16 w), ucast (drop_bit 24 w)]"

definition put_word :: "ptr \<Rightarrow> u32 \<Rightarrow> u32 \<Rightarrow> 's loader \<Rightarrow> (bool \<times> 's loader) option" where
  "put_word space esp w st = on_paging (paging_copy_to_user space esp (Some (word_bytes w)) 4) st"

text \<open>
  The strings, from the last one down; \<open>args\<close> are the arguments still to be copied, the last first, and
  \<open>ptrs\<close> the addresses of those already there. The inner \<open>None\<close> is a result of 0.
\<close>

fun push_strings :: "ptr \<Rightarrow> u8 list list \<Rightarrow> u32 \<Rightarrow> u32 list \<Rightarrow> 's loader \<Rightarrow> ((u32 \<times> u32 list) option \<times> 's loader) option" where
  "push_strings space [] esp ptrs st = Some (Some (esp, ptrs), st)"
| "push_strings space (arg # args) esp ptrs st = do {
     let len = of_nat (length arg) + 1;
     let esp1 = (esp - len) AND NOT 3;
     (ok, st1) \<leftarrow> on_paging (paging_copy_to_user space esp1 (Some (arg @ [0])) len) st;
     if \<not> ok then Some (None, st1) else push_strings space args esp1 (esp1 # ptrs) st1
   }"

fun push_words :: "ptr \<Rightarrow> u32 list \<Rightarrow> u32 \<Rightarrow> 's loader \<Rightarrow> (u32 option \<times> 's loader) option" where
  "push_words space [] esp st = Some (Some esp, st)"
| "push_words space (w # ws) esp st = do {
     (ok, st1) \<leftarrow> put_word space (esp - 4) w st;
     if \<not> ok then Some (None, st1) else push_words space ws (esp - 4) st1
   }"

text \<open>The new stack pointer, 0 on failure. Fewer strings than \<open>argc\<close> is an access out of range.\<close>

definition setup_user_argv :: "ptr \<Rightarrow> int \<Rightarrow> u8 list list \<Rightarrow> 's loader \<Rightarrow> (u32 \<times> 's loader) option" where
  "setup_user_argv space argc argv st =
     (let argc1 = (if argc > MAX_ARGS then MAX_ARGS else argc) in
      if nat argc1 > length argv then None
      else do {
        (r, st1) \<leftarrow> push_strings space (rev (take (nat argc1) argv)) (USER_STACK_TOP - 4) [] st;
        case r of None \<Rightarrow> Some (0, st1)
        | Some (esp, ptrs) \<Rightarrow> do {
            (r2, st2) \<leftarrow> push_words space (0 # rev ptrs @ [of_int argc1]) esp st1;
            Some (case r2 of None \<Rightarrow> 0 | Some esp2 \<Rightarrow> esp2, st2)
          }
      })"

section \<open>The image\<close>

record loaded =
  im_space :: ptr
  im_entry :: u32
  im_esp :: u32
  im_heap_base :: u32

fun map_stack :: "ptr \<Rightarrow> nat list \<Rightarrow> 's loader \<Rightarrow> (bool \<times> 's loader) option" where
  "map_stack space [] st = Some (True, st)"
| "map_stack space (i # is) st = do {
     (ok, st1) \<leftarrow> on_paging (paging_map_user_page space (USER_STACK_TOP - of_nat (i + 1) * 0x1000)) st;
     if \<not> ok then Some (False, st1) else map_stack space is st1
   }"

definition discard :: "ptr \<Rightarrow> 's loader \<Rightarrow> (loaded option \<times> 's loader) option" where
  "discard space st = map_option (\<lambda>pg. (None, st\<lparr>ld_paging := pg\<rparr>)) (paging_destroy_user_address_space space (ld_paging st))"

definition elf_load_from_node :: "'s drivers \<Rightarrow> ptr \<Rightarrow> int \<Rightarrow> u8 list list \<Rightarrow> 's loader \<Rightarrow> (loaded option \<times> 's loader) option" where
  "elf_load_from_node dr file argc argv st = do {
     (eh, st1) \<leftarrow> read_exact dr file 0 sizeof_ehdr st;
     case map_option as_ehdr eh of None \<Rightarrow> Some (None, say ''exec: not a valid ELF32/i386\<newline>'' st1)
     | Some ehdr \<Rightarrow>
         if \<not> elf_valid ehdr then Some (None, say ''exec: not a valid ELF32/i386\<newline>'' st1)
         else do {
           len \<leftarrow> file_length dr file st1;
           if ucast (e_phentsize ehdr) \<noteq> sizeof_phdr \<or> e_phoff ehdr > len \<or> ucast (e_phnum ehdr) > (len - e_phoff ehdr) div sizeof_phdr
           then Some (None, say ''exec: malformed program headers\<newline>'' st1)
           else do {
             (ok, st2) \<leftarrow> validate_segments dr file ehdr st1;
             if \<not> ok then Some (None, st2)
             else do {
               (space, st3) \<leftarrow> on_paging paging_create_user_address_space st2;
               if space = NULL then Some (None, say ''exec: cannot create user address space\<newline>'' st3)
               else do {
                 (hb, st4) \<leftarrow> load_segments dr space file ehdr st3;
                 case hb of None \<Rightarrow> discard space st4
                 | Some heap_base \<Rightarrow> do {
                     (ok, st5) \<leftarrow> map_stack space [0..<USER_STACK_PREMAP] st4;
                     if \<not> ok then discard space (say ''exec: cannot allocate user stack\<newline>'' st5)
                     else do {
                       (esp, st6) \<leftarrow> setup_user_argv space argc argv st5;
                       if esp = 0 then discard space (say ''exec: cannot set up argv\<newline>'' st6)
                       else Some (Some \<lparr>im_space = space, im_entry = e_entry ehdr, im_esp = esp, im_heap_base = heap_base\<rparr>, st6)
                     }
                   }
               }
             }
           }
         }
   }"

definition elf_load_image :: "'s drivers \<Rightarrow> string \<Rightarrow> int \<Rightarrow> u8 list list \<Rightarrow> 's loader \<Rightarrow> (loaded option \<times> 's loader) option" where
  "elf_load_image dr name argc argv st = do {
     (file, fs) \<leftarrow> resolve_fs dr (Some name) (ld_fs st);
     let st1 = st\<lparr>ld_fs := fs\<rparr>;
     is_file \<leftarrow> (if file = NULL then Some False else map_option (\<lambda>n. n_flags n = FS_FILE) (node_at dr fs file));
     if \<not> is_file then Some (None, say ''\<newline>'' (say name (say ''exec: not found: '' st1)))
     else do {
       fs1 \<leftarrow> open_fs dr file (ld_fs st1);
       (image, st2) \<leftarrow> elf_load_from_node dr file argc argv (st1\<lparr>ld_fs := fs1\<rparr>);
       fs2 \<leftarrow> close_fs dr file (ld_fs st2);
       Some (image, st2\<lparr>ld_fs := fs2\<rparr>)
     }
   }"

section \<open>What loading does to memory\<close>

lemma low_slot: "a < 0x400000 \<Longrightarrow> nslot a = Some (a div 4096)"
  by (simp add: nslot_def)

lemma div_page: "a div 4096 = q \<longleftrightarrow> q * 4096 \<le> a \<and> a < q * 4096 + 4096" for a q :: nat
proof
  assume "a div 4096 = q"
  then show "q * 4096 \<le> a \<and> a < q * 4096 + 4096" using div_mult_mod_eq [of a 4096] mod_less_divisor [of 4096 a] by linarith
next
  assume "q * 4096 \<le> a \<and> a < q * 4096 + 4096"
  then show "a div 4096 = q" by (intro div_nat_eqI) simp_all
qed

lemma map_pages_spec:
  assumes "building us c pg0 (ld_paging st)" "unat addr mod 4096 = 0" "unat pe mod 4096 = 0" "0x300000 \<le> unat addr" "unat pe \<le> 0x3F0000"
  shows "\<exists>ok st'. map_pages c addr pe st = Some (ok, st') \<and> ld_fs st' = ld_fs st \<and> building us c pg0 (ld_paging st') \<and>
    grown c (ld_paging st) (ld_paging st') \<and> (ok \<longrightarrow> (\<forall>a. unat addr \<le> a \<and> a < unat pe \<longrightarrow> umapped (ld_paging st') c a)) \<and>
    (\<forall>a. umapped (ld_paging st') c a \<longrightarrow> umapped (ld_paging st) c a \<or> unat addr \<le> a \<and> a < unat pe)"
  using assms
proof (induction "unat pe - unat addr" arbitrary: addr st rule: less_induct)
  case less
  show ?case
  proof (cases "addr < pe")
    case False
    then have "map_pages c addr pe st = Some (True, st)" by (subst map_pages.simps) simp
    moreover have "\<not> (unat addr \<le> a \<and> a < unat pe)" for a using False by (simp add: word_less_nat_alt)
    ultimately show ?thesis using less.prems(1) by (intro exI [of _ True] exI [of _ st]) auto
  next
    case True
    then have lt: "unat addr < unat pe" by (simp add: word_less_nat_alt)
    have nx: "unat (addr + 0x1000) = unat addr + 4096" by (subst unat_add_no_wrap) (use lt less.prems(5) in simp_all)
    let ?i = "unat addr div 4096"
    have v: "vslot addr = Some ?i" using lt less.prems(5) by (simp add: vslot_nslot low_slot)
    have i: "0x300 \<le> ?i" "?i < 0x3F0"
      using less.prems(4) lt less.prems(5) by (simp_all add: div_less_iff_less_mult less_eq_div_iff_mult_less_eq)
    obtain ok pg where m: "paging_map_user_page c addr (ld_paging st) = Some (ok, pg)" "building us c pg0 pg" "grown c (ld_paging st) pg"
      "ok \<longrightarrow> is_user (slots pg c ! ?i)" "\<forall>j < 2048. is_user (slots pg c ! j) \<longrightarrow> is_user (slots (ld_paging st) c ! j) \<or> j = ?i"
      using build_map [OF less.prems(1) v i] by blast
    let ?st = "st\<lparr>ld_paging := pg\<rparr>"
    have page: "a div 4096 = ?i \<longleftrightarrow> unat addr \<le> a \<and> a < unat addr + 4096" for a
    proof -
      have "unat addr = ?i * 4096" using less.prems(2) div_mult_mod_eq [of "unat addr" 4096] by simp
      then show ?thesis using div_page [of a ?i] by simp
    qed
    have only: "umapped pg c a \<Longrightarrow> umapped (ld_paging st) c a \<or> unat addr \<le> a \<and> a < unat addr + 4096" for a
      using m(5) nslot_page [of "unat addr" ?i a] page v nslot_bound [of a] by (auto simp: umapped_def vslot_nslot split: option.splits)
    have page_below: "unat addr + 4096 \<le> unat pe"
    proof -
      have "unat addr = ?i * 4096" "unat pe = unat pe div 4096 * 4096"
        using less.prems(2,3) div_mult_mod_eq [of "unat addr" 4096] div_mult_mod_eq [of "unat pe" 4096] by simp_all
      moreover from this lt have "?i < unat pe div 4096" by (metis mult_less_cancel2)
      then have "(?i + 1) * 4096 \<le> unat pe div 4096 * 4096" by (intro mult_le_mono1) simp
      ultimately show ?thesis by simp
    qed
    show ?thesis
    proof (cases ok)
      case False
      let ?out = "say ''exec: cannot allocate user page\<newline>'' (st\<lparr>ld_paging := pg\<rparr>)"
      have "map_pages c addr pe st = Some (False, ?out)" using True False m(1) by (subst map_pages.simps) (simp add: on_paging_def)
      moreover have "umapped (ld_paging st) c a \<or> unat addr \<le> a \<and> a < unat pe" if "umapped pg c a" for a
        using only [OF that] page_below by auto
      ultimately show ?thesis using m(2,3) by (intro exI [of _ False] exI [of _ ?out]) (simp add: say_def)
    next
      case ok: True
      have "unat pe - (unat addr + 4096) < unat pe - unat addr" using lt by (rule diff_less_mono2 [rotated]) simp
      then obtain ok' st' where r: "map_pages c (addr + 0x1000) pe ?st = Some (ok', st')" "ld_fs st' = ld_fs st" "building us c pg0 (ld_paging st')"
        "grown c pg (ld_paging st')" "ok' \<longrightarrow> (\<forall>a. unat addr + 4096 \<le> a \<and> a < unat pe \<longrightarrow> umapped (ld_paging st') c a)"
        "\<forall>a. umapped (ld_paging st') c a \<longrightarrow> umapped pg c a \<or> unat addr + 4096 \<le> a \<and> a < unat pe"
        using less.hyps [of "addr + 0x1000" ?st] m(2) lt less.prems nx by auto
      have "umapped (ld_paging st') c a" if "unat addr \<le> a" "a < unat addr + 4096" for a
      proof -
        have "umapped pg c a" using umapped_page [of "unat addr" ?i a pg c] page that m(4) ok v by (simp add: vslot_nslot)
        then show ?thesis using r(4) by (simp add: grown_def)
      qed
      moreover have "grown c (ld_paging st) (ld_paging st')" using m(3) r(4) by (rule grown_trans)
      moreover have "umapped (ld_paging st) c a \<or> unat addr \<le> a \<and> a < unat pe" if "umapped (ld_paging st') c a" for a
        using r(6) that only [of a] page_below by auto
      moreover have "map_pages c addr pe st = Some (ok', st')" using True m(1) ok r(1) by (subst map_pages.simps) (simp add: on_paging_def)
      ultimately show ?thesis using r(2,3,5) by (intro exI [of _ ok'] exI [of _ st']) (meson not_le)
    qed
  qed
qed

text \<open>
  A file that can be read: while \<open>P\<close> holds of the file system its node exists and a read returns, and
  \<open>R\<close> says which bytes a complete read may find at an offset.
\<close>

definition readable :: "'s drivers \<Rightarrow> ptr \<Rightarrow> ('s \<Rightarrow> bool) \<Rightarrow> (nat \<Rightarrow> u8 \<Rightarrow> bool) \<Rightarrow> bool" where
  "readable dr file P R \<longleftrightarrow> (\<forall>s. P s \<longrightarrow> node_at dr s file \<noteq> None \<and> (\<forall>off sz. \<exists>bs s'. read_fs dr file off sz s = Some (bs, s') \<and> P s' \<and>
     (length bs = unat sz \<longrightarrow> (\<forall>k < length bs. R (unat off + k) (bs ! k)))))"

lemma file_length_some: "readable dr file P R \<Longrightarrow> P (ld_fs st) \<Longrightarrow> \<exists>len. file_length dr file st = Some len"
  by (auto simp: readable_def file_length_def)

lemma read_exact_spec:
  assumes "readable dr file P R" "P (ld_fs st)"
  shows "\<exists>r st'. read_exact dr file off sz st = Some (r, st') \<and> P (ld_fs st') \<and> ld_paging st' = ld_paging st \<and>
    (\<forall>bs. r = Some bs \<longrightarrow> length bs = unat sz \<and> (\<forall>k < unat sz. R (unat off + k) (bs ! k)))"
proof (cases "sz = 0")
  case True
  then show ?thesis using assms(2) by (simp add: read_exact_def)
next
  case False
  obtain len where len: "file_length dr file st = Some len" using file_length_some [where st = st] assms by blast
  obtain bs s where r: "read_fs dr file off sz (ld_fs st) = Some (bs, s)" "P s" "length bs = unat sz \<longrightarrow> (\<forall>k < length bs. R (unat off + k) (bs ! k))"
    using assms unfolding readable_def by blast
  show ?thesis
  proof (cases "off > len \<or> sz > len - off")
    case True
    then show ?thesis using False len assms(2) by (simp add: read_exact_def)
  next
    case ok: False
    then have "read_exact dr file off sz st = Some (if length bs = unat sz then Some bs else None, st\<lparr>ld_fs := s\<rparr>)"
      using False len r(1) by (simp add: read_exact_def)
    then show ?thesis using r(2,3) by simp
  qed
qed

lemma read_program_header_spec:
  assumes "readable dr file P R" "P (ld_fs st)"
  shows "\<exists>r st'. read_program_header dr file ehdr i st = Some (r, st') \<and> P (ld_fs st') \<and> ld_paging st' = ld_paging st \<and>
    (\<forall>ph. r = Some ph \<longrightarrow> (\<exists>bs. length bs = 32 \<and> ph = as_phdr bs \<and> (\<forall>k < 32. R (unat (e_phoff ehdr + i * sizeof_phdr) + k) (bs ! k))))"
proof -
  obtain r st' where r: "read_exact dr file (e_phoff ehdr + i * sizeof_phdr) sizeof_phdr st = Some (r, st')" "P (ld_fs st')" "ld_paging st' = ld_paging st"
    "\<forall>bs. r = Some bs \<longrightarrow> length bs = unat sizeof_phdr \<and> (\<forall>k < unat sizeof_phdr. R (unat (e_phoff ehdr + i * sizeof_phdr) + k) (bs ! k))"
    using read_exact_spec [OF assms] by blast
  have "unat sizeof_phdr = 32" by (simp add: sizeof_phdr_def)
  then show ?thesis using r by (auto simp: read_program_header_def)
qed

lemma building_wrote:
  assumes b: "building us c pg0 pg" and w: "wrote (c # us) c lo hi pg pg'"
  shows "building us c pg0 pg'"
proof -
  note B = b [unfolded building_def] and W = w [unfolded wrote_def]
  have "\<forall>q \<in> set us. \<forall>j < 2048. page_view pg' q j = page_view pg0 q j" using B W by (metis list.set_intros(2))
  then show ?thesis unfolding building_def using B W own_pages_slots [of pg' pg c] by simp
qed

lemma fill_loop_spec:
  assumes rd: "readable dr file P R" and off: "unat (p_offset ph) + unat (p_filesz ph) < 2 ^ 32" and va: "unat (p_vaddr ph) + unat (p_filesz ph) < 2 ^ 32"
  shows "P (ld_fs st) \<Longrightarrow> building us c pg0 (ld_paging st) \<Longrightarrow> unat pos \<le> unat (p_filesz ph) \<Longrightarrow>
    \<exists>ok st'. fill_loop dr c file ph pos st = Some (ok, st') \<and> P (ld_fs st') \<and> building us c pg0 (ld_paging st') \<and>
      wrote (c # us) c (unat (p_vaddr ph) + unat pos) (unat (p_vaddr ph) + unat (p_filesz ph)) (ld_paging st) (ld_paging st') \<and>
      (ok \<longrightarrow> (\<forall>x. unat pos \<le> x \<and> x < unat (p_filesz ph) \<longrightarrow>
        (\<exists>b. ubyte (ld_paging st') c (unat (p_vaddr ph) + x) = Some b \<and> R (unat (p_offset ph) + x) b)))"
proof (induction "unat (p_filesz ph) - unat pos" arbitrary: pos st rule: less_induct)
  case less
  let ?n = "p_filesz ph" and ?v = "p_vaddr ph"
  have inv: "paging_inv (ld_paging st) (c # us)" "own_pages (ld_paging st) c" using less.prems(2) by (simp_all add: building_def)
  show ?case
  proof (cases "pos < ?n")
    case False
    then have "fill_loop dr c file ph pos st = Some (True, st)" by (simp add: fill_loop.simps [of dr c "file" ph pos st])
    moreover have "\<not> (unat pos \<le> x \<and> x < unat ?n)" for x using False by (simp add: word_less_nat_alt)
    ultimately show ?thesis using less.prems wrote_refl [OF inv(1)] by (intro exI [of _ True] exI [of _ st]) auto
  next
    case True
    define ch where "ch = (if ?n - pos > 256 then 256 else ?n - pos)"
    note c = chunk_256 [OF True, folded ch_def]
    obtain r st1 where r: "read_exact dr file (p_offset ph + pos) ch st = Some (r, st1)" "P (ld_fs st1)" "ld_paging st1 = ld_paging st"
      "\<forall>bs. r = Some bs \<longrightarrow> length bs = unat ch \<and> (\<forall>k < unat ch. R (unat (p_offset ph + pos) + k) (bs ! k))"
      using read_exact_spec [OF rd less.prems(1)] by blast
    have uo: "unat (p_offset ph + pos) = unat (p_offset ph) + unat pos" by (rule unat_add_no_wrap) (use off less.prems(3) in linarith)
    have uv: "unat (?v + pos) = unat ?v + unat pos" by (rule unat_add_no_wrap) (use va less.prems(3) in linarith)
    show ?thesis
    proof (cases r)
      case None
      let ?out = "say ''exec: cannot read segment\<newline>'' st1"
      have "fill_loop dr c file ph pos st = Some (False, ?out)"
        using True r(1) None by (simp add: fill_loop.simps [of dr c "file" ph pos st] Let_def ch_def)
      then show ?thesis using r(2,3) less.prems(2) wrote_refl [OF inv(1)] by (intro exI [of _ False] exI [of _ ?out]) (simp add: say_def)
    next
      case (Some bs)
      then have bs: "length bs = unat ch" "\<forall>k < unat ch. R (unat (p_offset ph) + unat pos + k) (bs ! k)" using r(4) uo by auto
      have nw: "unat (?v + pos) + unat ch < 2 ^ 32" using uv c(3) va by linarith
      have lb: "unat ch = length bs" using bs(1) by simp
      obtain ok pg where cp: "paging_copy_to_user c (?v + pos) (Some bs) ch (ld_paging st) = Some (ok, pg)"
        "copied_to (c # us) c (unat (?v + pos)) bs ok (ld_paging st) pg"
        using copy_to_user_bytes [OF inv(1) _ inv(2) bs(1), of "?v + pos"] nw by auto
      note W = conjunct1 [OF cp(2) [unfolded copied_to_def], unfolded uv]
      note b1 = building_wrote [OF less.prems(2) W]
      have bnd: "unat ?v + unat pos + length bs \<le> unat ?v + unat ?n" using c(3) bs(1) by simp
      show ?thesis
      proof (cases ok)
        case False
        let ?out = "say ''exec: cannot read segment\<newline>'' (st1\<lparr>ld_paging := pg\<rparr>)"
        have "fill_loop dr c file ph pos st = Some (False, ?out)"
          using True r(1,3) Some cp(1) False by (simp add: fill_loop.simps [of dr c "file" ph pos st] Let_def ch_def on_paging_def)
        moreover have "wrote (c # us) c (unat ?v + unat pos) (unat ?v + unat ?n) (ld_paging st) pg" using W bnd by (auto simp: wrote_def)
        ultimately show ?thesis using r(2) b1 by (intro exI [of _ False] exI [of _ ?out]) (simp add: say_def)
      next
        case ok: True
        let ?st = "st1\<lparr>ld_paging := pg\<rparr>"
        have "unat ?n - unat (pos + ch) < unat ?n - unat pos" using c by linarith
        then obtain ok' st' where f: "fill_loop dr c file ph (pos + ch) ?st = Some (ok', st')" "P (ld_fs st')" "building us c pg0 (ld_paging st')"
          "wrote (c # us) c (unat ?v + unat (pos + ch)) (unat ?v + unat ?n) pg (ld_paging st')"
          "ok' \<longrightarrow> (\<forall>x. unat (pos + ch) \<le> x \<and> x < unat ?n \<longrightarrow> (\<exists>b. ubyte (ld_paging st') c (unat ?v + x) = Some b \<and> R (unat (p_offset ph) + x) b))"
          using less.hyps [of "pos + ch" ?st] r(2) b1 c by auto
        have "fill_loop dr c file ph pos st = Some (ok', st')"
          using True r(1,3) Some cp(1) ok f(1) by (simp add: fill_loop.simps [of dr c "file" ph pos st] Let_def ch_def on_paging_def)
        moreover have "wrote (c # us) c (unat ?v + unat pos) (unat ?v + unat ?n) (ld_paging st) (ld_paging st')"
          by (rule wrote_trans [OF W f(4)]) (use bnd c(1) in simp_all)
        moreover have "\<exists>b. ubyte (ld_paging st') c (unat ?v + x) = Some b \<and> R (unat (p_offset ph) + x) b"
          if "ok'" "unat pos \<le> x" "x < unat ?n" for x
        proof (cases "x < unat (pos + ch)")
          case True
          have "ubyte (ld_paging st') c (unat ?v + x) = ubyte pg c (unat ?v + x)" using f(4) True by (simp add: wrote_def)
          moreover have "x - unat pos < length bs" using True that(2) c(1) bs(1) by simp
          then have "ubyte pg c (unat ?v + unat pos + (x - unat pos)) = Some (bs ! (x - unat pos))" "R (unat (p_offset ph) + unat pos + (x - unat pos)) (bs ! (x - unat pos))"
            using cp(2) ok uv bs by (simp_all add: copied_to_def)
          ultimately show ?thesis using that(2) by simp
        next
          case False
          then show ?thesis using f(5) that by simp
        qed
        ultimately show ?thesis using f(2,3) by blast
      qed
    qed
  qed
qed

end
