(* ===== verification/Elf_Load.thy ===== *)
theory Elf_Load
  imports Elf
begin

text \<open>
  What the loader of \<open>Elf\<close> does to memory: the segments hold what was read from the file, the stack
  holds the arguments, nothing else is mapped, and no other address space changes; a load that fails
  leaves no trace. The file may change between reads: \<open>R off b\<close> says that byte \<open>b\<close> may be found at
  offset \<open>off\<close>; a file that does not change has one byte at each.
\<close>

section \<open>One segment\<close>

text \<open>Rounding up to a page.\<close>

definition pup :: "nat \<Rightarrow> nat" where "pup n = (n + 4095) div 4096 * 4096"

lemma pup_mono: "m \<le> n \<Longrightarrow> pup m \<le> pup n"
  by (simp add: pup_def div_le_mono)

lemma pup_bounds: "n \<le> pup n" "pup n < n + 4096" "pup n mod 4096 = 0"
  using div_mult_mod_eq [of "n + 4095" 4096] mod_less_divisor [of 4096 "n + 4095"] unfolding pup_def by (linarith, linarith, simp)

abbreviation va :: "elf_phdr \<Rightarrow> nat" where "va ph \<equiv> unat (p_vaddr ph)"
abbreviation fsz :: "elf_phdr \<Rightarrow> nat" where "fsz ph \<equiv> unat (p_filesz ph)"
abbreviation msz :: "elf_phdr \<Rightarrow> nat" where "msz ph \<equiv> unat (p_memsz ph)"

text \<open>A header that passed the checks.\<close>

definition in_range :: "elf_phdr \<Rightarrow> bool" where
  "in_range ph \<longleftrightarrow> 0x300000 \<le> va ph \<and> va ph < 0x3E8000 \<and> va ph + msz ph \<le> 0x3E8000 \<and> fsz ph \<le> msz ph \<and> unat (p_offset ph) + fsz ph < 2 ^ 32"

lemma user_bounds: "unat USER_LOAD_BASE = 0x300000" "unat USER_STACK_BOTTOM = 0x3E8000" "unat USER_STACK_TOP = 0x3F0000"
  by (simp_all add: USER_LOAD_BASE_def USER_STACK_BOTTOM_def USER_STACK_TOP_def USER_STACK_PAGES_def)

lemma range_checked:
  assumes "phdr_in_user_range ph len"
  shows "in_range ph"
proof -
  have r: "USER_LOAD_BASE \<le> p_vaddr ph" "p_vaddr ph < USER_STACK_BOTTOM" "p_memsz ph \<le> USER_STACK_BOTTOM - p_vaddr ph"
    "p_filesz ph \<le> p_memsz ph" "p_offset ph \<le> len" "p_filesz ph \<le> len - p_offset ph"
    using assms by (simp_all add: phdr_in_user_range_def)
  have "unat (USER_STACK_BOTTOM - p_vaddr ph) = 0x3E8000 - va ph"
    using r(2) user_bounds(2) by (simp only: unat_sub_no_wrap [OF less_imp_le])
  moreover have "unat (len - p_offset ph) = unat len - unat (p_offset ph)" using r(5) by (rule unat_sub_no_wrap)
  ultimately show ?thesis
    using r unat_lt_2p32 [of len] unfolding in_range_def word_le_nat_alt word_less_nat_alt user_bounds by linarith
qed

text \<open>The bytes a segment should have, at offset \<open>x\<close> into it.\<close>

definition seg_byte :: "(nat \<Rightarrow> u8 \<Rightarrow> bool) \<Rightarrow> paging \<Rightarrow> ptr \<Rightarrow> elf_phdr \<Rightarrow> nat \<Rightarrow> bool" where
  "seg_byte R pg c ph x \<longleftrightarrow> (\<exists>b. ubyte pg c (va ph + x) = Some b \<and> (if x < fsz ph then R (unat (p_offset ph) + x) b else b = 0))"

text \<open>Mapped pages stay mapped, and bytes outside a range keep their value.\<close>

definition kept :: "ptr \<Rightarrow> (nat \<Rightarrow> bool) \<Rightarrow> paging \<Rightarrow> paging \<Rightarrow> bool" where
  "kept c A pg pg' \<longleftrightarrow> (\<forall>a. umapped pg c a \<longrightarrow> umapped pg' c a \<and> (\<not> A a \<longrightarrow> ubyte pg' c a = ubyte pg c a))"

lemma kept_trans: "kept c A pg pg1 \<Longrightarrow> kept c B pg1 pg2 \<Longrightarrow> kept c (\<lambda>a. A a \<or> B a) pg pg2"
  by (simp add: kept_def)

lemma kept_mono: "kept c A pg pg' \<Longrightarrow> (\<And>a. A a \<Longrightarrow> B a) \<Longrightarrow> kept c B pg pg'"
  by (auto simp: kept_def)

lemma grown_kept: "grown c pg pg' \<Longrightarrow> kept c A pg pg'"
  by (simp add: kept_def grown_def)

lemma wrote_kept: "wrote us c lo hi pg pg' \<Longrightarrow> kept c (\<lambda>a. lo \<le> a \<and> a < hi) pg pg'"
  using umapped_slots [of pg' pg] by (auto simp: kept_def wrote_def)

lemma wrote_umapped: "wrote us c lo hi pg pg' \<Longrightarrow> umapped pg' p a = umapped pg p a"
  by (rule umapped_slots) (simp add: wrote_def)

text \<open>The page a segment starts in and the end of the one it ends in.\<close>

lemma page_bounds:
  assumes "in_range ph"
  defines "lo \<equiv> unat (p_vaddr ph AND NOT 0xFFF)" and "hi \<equiv> unat ((p_vaddr ph + p_memsz ph + 0xFFF) AND NOT 0xFFF)"
  shows "lo mod 4096 = 0" "hi mod 4096 = 0" "0x300000 \<le> lo" "hi \<le> 0x3E8000" "lo \<le> va ph" "va ph + msz ph \<le> hi" "hi = pup (va ph + msz ph)"
proof -
  note r = assms(1) [unfolded in_range_def]
  have u: "unat (p_vaddr ph + p_memsz ph + 0xFFF) = va ph + msz ph + 4095"
  proof -
    have "unat (p_vaddr ph + p_memsz ph) = va ph + msz ph" using r by (intro unat_add_no_wrap) simp
    then show ?thesis using r by (subst unat_add_no_wrap) simp_all
  qed
  have l: "lo = va ph div 4096 * 4096" and h: "hi = (va ph + msz ph + 4095) div 4096 * 4096"
    unfolding lo_def hi_def unat_align4K u by simp_all
  show "lo mod 4096 = 0" "hi mod 4096 = 0" using l h by simp_all
  have "0x300 \<le> va ph div 4096" using r by (simp add: less_eq_div_iff_mult_less_eq)
  then show "0x300000 \<le> lo" using l by simp
  have "(va ph + msz ph + 4095) div 4096 \<le> 0x3E8" using r by (simp add: div_le_mono [of _ "0x3E8FFF" 4096, simplified])
  then show "hi \<le> 0x3E8000" using h by simp
  show "lo \<le> va ph" using l div_mult_mod_eq [of "va ph" 4096] by linarith
  show "hi = pup (va ph + msz ph)" using h by (simp add: pup_def)
  then show "va ph + msz ph \<le> hi" using pup_bounds(1) by simp
qed

lemma load_segment_spec:
  assumes rd: "readable dr file P R" and p: "P (ld_fs st)" and b: "building us c pg0 (ld_paging st)" and r: "in_range ph"
  shows "\<exists>ok st'. load_segment dr c file ph st = Some (ok, st') \<and> P (ld_fs st') \<and> building us c pg0 (ld_paging st') \<and>
    (ok \<longrightarrow> kept c (\<lambda>a. va ph \<le> a \<and> a < va ph + msz ph) (ld_paging st) (ld_paging st') \<and>
      (\<forall>x < msz ph. seg_byte R (ld_paging st') c ph x) \<and>
      (\<forall>a. umapped (ld_paging st') c a \<longrightarrow> umapped (ld_paging st) c a \<or> a < pup (va ph + msz ph) \<and> a < 0x3E8000))"
proof -
  note R = r [unfolded in_range_def] and B = page_bounds [OF r]
  let ?lo = "p_vaddr ph AND NOT 0xFFF" and ?hi = "(p_vaddr ph + p_memsz ph + 0xFFF) AND NOT 0xFFF"
  have "unat ?hi \<le> 0x3F0000" using B(4) by simp
  from map_pages_spec [OF b B(1,2,3) this] obtain ok1 st1 where m: "map_pages c ?lo ?hi st = Some (ok1, st1)" "ld_fs st1 = ld_fs st"
    "building us c pg0 (ld_paging st1)" "grown c (ld_paging st) (ld_paging st1)"
    "ok1 \<longrightarrow> (\<forall>a. unat ?lo \<le> a \<and> a < unat ?hi \<longrightarrow> umapped (ld_paging st1) c a)"
    "\<forall>a. umapped (ld_paging st1) c a \<longrightarrow> umapped (ld_paging st) c a \<or> unat ?lo \<le> a \<and> a < unat ?hi" by blast
  show ?thesis
  proof (cases ok1)
    case False
    then have "load_segment dr c file ph st = Some (False, st1)" using m(1) by (simp add: load_segment_def Let_def)
    then show ?thesis using m(2,3) p by (intro exI [of _ False] exI [of _ st1]) simp
  next
    case True
    have inv: "paging_inv (ld_paging st1) (c # us)" "own_pages (ld_paging st1) c" using m(3) by (simp_all add: building_def)
    have "va ph + msz ph < 2 ^ 32" using R by simp
    from zero_user_bytes [OF inv(1) _ inv(2) this] obtain ok2 pg2 where z: "paging_zero_user c (p_vaddr ph) (p_memsz ph) (ld_paging st1) = Some (ok2, pg2)"
      "copied_to (c # us) c (va ph) (replicate (msz ph) 0) ok2 (ld_paging st1) pg2" by auto
    have w2: "wrote (c # us) c (va ph) (va ph + msz ph) (ld_paging st1) pg2" using z(2) by (simp add: copied_to_def)
    note b2 = building_wrote [OF m(3) w2]
    have "ok2" using z(2) m(5) True B(5,6) by (auto simp: copied_to_def)
    then have zero: "\<forall>x < msz ph. ubyte pg2 c (va ph + x) = Some 0" using z(2) by (simp add: copied_to_def)
    let ?st2 = "st1\<lparr>ld_paging := pg2\<rparr>"
    have sums: "unat (p_offset ph) + fsz ph < 2 ^ 32" "va ph + fsz ph < 2 ^ 32" using R by simp_all
    have p2: "P (ld_fs ?st2)" and bb2: "building us c pg0 (ld_paging ?st2)" using m(2) p b2 by simp_all
    from fill_loop_spec [OF rd sums p2 bb2, of 0] obtain ok3 st3 where f: "fill_loop dr c file ph 0 ?st2 = Some (ok3, st3)" "P (ld_fs st3)" "building us c pg0 (ld_paging st3)"
      "wrote (c # us) c (va ph) (va ph + fsz ph) pg2 (ld_paging st3)"
      "ok3 \<longrightarrow> (\<forall>x < fsz ph. \<exists>b. ubyte (ld_paging st3) c (va ph + x) = Some b \<and> R (unat (p_offset ph) + x) b)" by auto
    have run: "load_segment dr c file ph st = Some (ok3, st3)" using m(1) True z(1) \<open>ok2\<close> f(1) by (simp add: load_segment_def Let_def on_paging_def)
    have "seg_byte R (ld_paging st3) c ph x" if "ok3" "x < msz ph" for x
    proof (cases "x < fsz ph")
      case False
      then have "ubyte (ld_paging st3) c (va ph + x) = ubyte pg2 c (va ph + x)" using f(4) by (simp add: wrote_def)
      then show ?thesis using False zero that(2) by (simp add: seg_byte_def)
    qed (use f(5) that in \<open>simp add: seg_byte_def\<close>)
    moreover have "kept c (\<lambda>a. va ph \<le> a \<and> a < va ph + msz ph) (ld_paging st) (ld_paging st3)"
      by (rule kept_mono [OF kept_trans [OF grown_kept [OF m(4), of "\<lambda>_. False"] kept_trans [OF wrote_kept [OF w2] wrote_kept [OF f(4)]]]]) (use R in auto)
    moreover have "umapped (ld_paging st) c a \<or> a < pup (va ph + msz ph) \<and> a < 0x3E8000" if "umapped (ld_paging st3) c a" for a
    proof -
      have "umapped (ld_paging st1) c a" using that wrote_umapped [OF f(4)] wrote_umapped [OF w2] by simp
      then show ?thesis using m(6) B(4,7) by fastforce
    qed
    ultimately show ?thesis using run f(2,3) by (intro exI [of _ ok3] exI [of _ st3]) simp
  qed
qed

section \<open>The segments\<close>

definition header_at :: "(nat \<Rightarrow> u8 \<Rightarrow> bool) \<Rightarrow> elf_ehdr \<Rightarrow> nat \<Rightarrow> elf_phdr \<Rightarrow> bool" where
  "header_at R ehdr i ph \<longleftrightarrow> (\<exists>bs. length bs = 32 \<and> ph = as_phdr bs \<and> (\<forall>k < 32. R (unat (e_phoff ehdr + of_nat i * sizeof_phdr) + k) (bs ! k)))"

definition covers :: "elf_phdr \<Rightarrow> nat \<Rightarrow> bool" where
  "covers ph a \<longleftrightarrow> p_type ph = PT_LOAD \<and> va ph \<le> a \<and> a < va ph + msz ph"

text \<open>Every byte of a loadable segment is there unless a later segment covers it.\<close>

fun segs_in :: "(nat \<Rightarrow> u8 \<Rightarrow> bool) \<Rightarrow> paging \<Rightarrow> ptr \<Rightarrow> elf_phdr list \<Rightarrow> bool" where
  "segs_in R pg c [] = True"
| "segs_in R pg c (ph # phs) = ((p_type ph = PT_LOAD \<longrightarrow> in_range ph \<and>
     (\<forall>x < msz ph. (\<forall>q \<in> set phs. \<not> covers q (va ph + x)) \<longrightarrow> seg_byte R pg c ph x)) \<and> segs_in R pg c phs)"

text \<open>Where the highest loadable segment ends.\<close>

fun seg_top :: "elf_phdr list \<Rightarrow> nat \<Rightarrow> nat" where
  "seg_top [] tp = tp"
| "seg_top (ph # phs) tp = seg_top phs (if p_type ph = PT_LOAD then max (va ph + msz ph) tp else tp)"

lemma seg_top_le: "tp \<le> seg_top phs tp"
proof (induction phs arbitrary: tp)
  case (Cons ph phs)
  have "tp \<le> (if p_type ph = PT_LOAD then max (va ph + msz ph) tp else tp)" by simp
  also have "\<dots> \<le> seg_top (ph # phs) tp" using Cons by simp
  finally show ?case .
qed simp

lemma header_read:
  assumes "readable dr file P R" "P (ld_fs st)"
  shows "\<exists>r st'. read_program_header dr file ehdr (of_nat i) st = Some (r, st') \<and> P (ld_fs st') \<and> ld_paging st' = ld_paging st \<and>
    (\<forall>ph. r = Some ph \<longrightarrow> header_at R ehdr i ph)"
  unfolding header_at_def by (rule read_program_header_spec [OF assms])

lemma seg_byte_kept:
  assumes "seg_byte R pg c ph x" "kept c A pg pg'" "\<not> A (va ph + x)"
  shows "seg_byte R pg' c ph x"
proof -
  obtain b where b: "ubyte pg c (va ph + x) = Some b" "if x < fsz ph then R (unat (p_offset ph) + x) b else b = 0" using assms(1) by (auto simp: seg_byte_def)
  then have "umapped pg c (va ph + x)" using ubyte_mapped by fastforce
  then have "ubyte pg' c (va ph + x) = Some b" using assms(2,3) b(1) by (simp add: kept_def)
  then show ?thesis using b(2) by (auto simp: seg_byte_def)
qed

text \<open>What the loop over the headers promises.\<close>

definition segs_loaded :: "(nat \<Rightarrow> u8 \<Rightarrow> bool) \<Rightarrow> elf_ehdr \<Rightarrow> ptr \<Rightarrow> nat list \<Rightarrow> nat \<Rightarrow> bool \<Rightarrow> paging \<Rightarrow> paging \<Rightarrow> elf_phdr list \<Rightarrow> nat \<Rightarrow> bool" where
  "segs_loaded R ehdr c is tp em pg pg' phs h \<longleftrightarrow> list_all2 (header_at R ehdr) is phs \<and> segs_in R pg' c phs \<and>
     kept c (\<lambda>a. \<exists>q \<in> set phs. covers q a) pg pg' \<and> (em \<or> (\<exists>q \<in> set phs. covers q (unat (e_entry ehdr)))) \<and>
     h = pup (seg_top phs tp) \<and> h \<le> 0x3E8000 \<and> (\<forall>a. umapped pg' c a \<longrightarrow> umapped pg c a \<or> a < h)"

lemma segs_loaded_skip:
  assumes "segs_loaded R ehdr c is tp em pg pg' phs h" "header_at R ehdr i ph" "p_type ph \<noteq> PT_LOAD"
  shows "segs_loaded R ehdr c (i # is) tp em pg pg' (ph # phs) h"
  using assms by (auto simp: segs_loaded_def covers_def elim!: kept_mono)

lemma segs_loaded_step:
  assumes s: "segs_loaded R ehdr c is (max (va ph + msz ph) tp) (em \<or> phdr_maps_entry ph (e_entry ehdr)) pg1 pg' phs h"
    and i: "header_at R ehdr i ph" "p_type ph = PT_LOAD" "in_range ph"
    and k: "kept c (\<lambda>a. va ph \<le> a \<and> a < va ph + msz ph) pg pg1" "\<forall>x < msz ph. seg_byte R pg1 c ph x"
      "\<forall>a. umapped pg1 c a \<longrightarrow> umapped pg c a \<or> a < pup (va ph + msz ph) \<and> a < 0x3E8000"
  shows "segs_loaded R ehdr c (i # is) tp em pg pg' (ph # phs) h"
proof -
  note S = s [unfolded segs_loaded_def]
  have "kept c (\<lambda>a. \<exists>q \<in> set (ph # phs). covers q a) pg pg'"
    by (rule kept_mono [OF kept_trans [OF k(1) conjunct1 [OF conjunct2 [OF conjunct2 [OF S]]]]]) (auto simp: covers_def i(2))
  moreover have "seg_byte R pg' c ph x" if "x < msz ph" "\<forall>q \<in> set phs. \<not> covers q (va ph + x)" for x
    using S k(2) that by (blast intro: seg_byte_kept)
  moreover have "covers ph (unat (e_entry ehdr))" if "phdr_maps_entry ph (e_entry ehdr)"
  proof -
    have "p_vaddr ph \<le> e_entry ehdr" "unat (e_entry ehdr - p_vaddr ph) < msz ph" using that by (simp_all add: phdr_maps_entry_def word_less_nat_alt)
    then show ?thesis using i(2) by (simp add: covers_def unat_sub_no_wrap word_le_nat_alt)
  qed
  moreover have "umapped pg c a \<or> a < h" if "umapped pg' c a" for a
  proof -
    have "pup (va ph + msz ph) \<le> h" using S seg_top_le [of "max (va ph + msz ph) tp" phs] by (auto intro!: pup_mono)
    then show ?thesis using S k(3) that by fastforce
  qed
  ultimately show ?thesis using S i by (auto simp: segs_loaded_def)
qed

lemma segments_loop_spec:
  assumes rd: "readable dr file P R"
  shows "P (ld_fs st) \<Longrightarrow> building us c pg0 (ld_paging st) \<Longrightarrow> unat hb \<le> 0x3E8000 \<Longrightarrow>
    \<exists>r st'. segments_loop dr c file ehdr is hb em st = Some (r, st') \<and> P (ld_fs st') \<and> building us c pg0 (ld_paging st') \<and>
      (\<forall>h. r = Some h \<longrightarrow> (\<exists>phs. segs_loaded R ehdr c is (unat hb) em (ld_paging st) (ld_paging st') phs (unat h)))"
proof (induction "is" arbitrary: hb em st)
  case Nil
  have "unat ((hb + 0xFFF) AND NOT 0xFFF) = pup (unat hb)" using Nil(3) unfolding unat_align4K pup_def by (subst unat_add_no_wrap) simp_all
  moreover have "pup (unat hb) \<le> 0x3E8000" using pup_mono [OF Nil(3)] by (simp add: pup_def)
  ultimately show ?case using Nil by (auto simp: segs_loaded_def kept_def say_def intro!: exI [of _ "[]"])
next
  case (Cons i "is")
  obtain r st1 where r: "read_program_header dr file ehdr (of_nat i) st = Some (r, st1)" "P (ld_fs st1)" "ld_paging st1 = ld_paging st"
    "\<forall>ph. r = Some ph \<longrightarrow> header_at R ehdr i ph" using header_read [OF rd Cons(2)] by blast
  have b1: "building us c pg0 (ld_paging st1)" using Cons(3) r(3) by simp
  obtain len where len: "file_length dr file st1 = Some len" using file_length_some [OF rd r(2)] by blast
  show ?case
  proof (cases r)
    case None
    then show ?thesis using r b1 by simp
  next
    case (Some ph)
    then have h: "header_at R ehdr i ph" using r(4) by simp
    show ?thesis
    proof (cases "p_type ph = PT_LOAD")
      case False
      obtain r' st' where i: "segments_loop dr c file ehdr is hb em st1 = Some (r', st')" "P (ld_fs st')" "building us c pg0 (ld_paging st')"
        "\<forall>h. r' = Some h \<longrightarrow> (\<exists>phs. segs_loaded R ehdr c is (unat hb) em (ld_paging st1) (ld_paging st') phs (unat h))"
        using Cons(1) [OF r(2) b1 Cons(4)] by blast
      have "segments_loop dr c file ehdr (i # is) hb em st = Some (r', st')" using r(1) Some False i(1) by simp
      then show ?thesis using i(2-4) segs_loaded_skip [OF _ h False] r(3) by (intro exI [of _ r'] exI [of _ st']) metis
    next
      case load: True
      show ?thesis
      proof (cases "phdr_in_user_range ph len")
        case False
        then show ?thesis using r Some load len b1 by (simp add: say_def)
      next
        case True
        note R = range_checked [OF True]
        obtain ok st2 where l: "load_segment dr c file ph st1 = Some (ok, st2)" "P (ld_fs st2)" "building us c pg0 (ld_paging st2)"
          "ok \<longrightarrow> kept c (\<lambda>a. va ph \<le> a \<and> a < va ph + msz ph) (ld_paging st1) (ld_paging st2) \<and>
            (\<forall>x < msz ph. seg_byte R (ld_paging st2) c ph x) \<and>
            (\<forall>a. umapped (ld_paging st2) c a \<longrightarrow> umapped (ld_paging st1) c a \<or> a < pup (va ph + msz ph) \<and> a < 0x3E8000)"
          using load_segment_spec [OF rd r(2) b1 R] by blast
        show ?thesis
        proof (cases ok)
          case False
          then show ?thesis using r Some load len True l by simp
        next
          case ok: True
          let ?hb = "if p_vaddr ph + p_memsz ph > hb then p_vaddr ph + p_memsz ph else hb" and ?em = "em \<or> phdr_maps_entry ph (e_entry ehdr)"
          have "unat (p_vaddr ph + p_memsz ph) = va ph + msz ph" using R by (intro unat_add_no_wrap) (simp add: in_range_def)
          then have hb: "unat ?hb = max (va ph + msz ph) (unat hb)" by (simp add: word_less_nat_alt max_def)
          have "unat ?hb \<le> 0x3E8000" using hb R Cons(4) by (simp add: in_range_def)
          from Cons(1) [OF l(2,3) this, of ?em] obtain r' st' where i: "segments_loop dr c file ehdr is ?hb ?em st2 = Some (r', st')" "P (ld_fs st')" "building us c pg0 (ld_paging st')"
            "\<forall>h. r' = Some h \<longrightarrow> (\<exists>phs. segs_loaded R ehdr c is (unat ?hb) ?em (ld_paging st2) (ld_paging st') phs (unat h))" by blast
          have "segments_loop dr c file ehdr (i # is) hb em st = Some (r', st')" using r(1) Some load len True l(1) ok i(1) by (simp split del: if_split)
          moreover have "\<exists>phs. segs_loaded R ehdr c (i # is) (unat hb) em (ld_paging st) (ld_paging st') phs (unat x)" if x: "r' = Some x" for x
          proof -
            obtain phs where "segs_loaded R ehdr c is (unat ?hb) ?em (ld_paging st2) (ld_paging st') phs (unat x)" using i(4) x by blast
            from segs_loaded_step [OF this [unfolded hb] h load R] show ?thesis using l(4) ok unfolding r(3) by blast
          qed
          ultimately show ?thesis using i(2,3) by (intro exI [of _ r'] exI [of _ st']) blast
        qed
      qed
    qed
  qed
qed

section \<open>The stack\<close>

definition bytes_at :: "paging \<Rightarrow> ptr \<Rightarrow> nat \<Rightarrow> u8 list \<Rightarrow> bool" where
  "bytes_at pg c a bs \<longleftrightarrow> (\<forall>x < length bs. ubyte pg c (a + x) = Some (bs ! x))"

lemma bytes_at_append: "bytes_at pg c a (xs @ ys) \<longleftrightarrow> bytes_at pg c a xs \<and> bytes_at pg c (a + length xs) ys"
proof
  assume l: "bytes_at pg c a (xs @ ys)"
  have "ubyte pg c (a + length xs + x) = Some (ys ! x)" if "x < length ys" for x
    using l [unfolded bytes_at_def, rule_format, of "length xs + x"] that by (simp add: add.assoc)
  then show "bytes_at pg c a xs \<and> bytes_at pg c (a + length xs) ys" using l by (auto simp: bytes_at_def nth_append)
next
  assume r: "bytes_at pg c a xs \<and> bytes_at pg c (a + length xs) ys"
  have "ubyte pg c (a + x) = Some ((xs @ ys) ! x)" if "x < length (xs @ ys)" for x
  proof (cases "x < length xs")
    case False
    then have "x - length xs < length ys" using that by simp
    then have "ubyte pg c (a + length xs + (x - length xs)) = Some (ys ! (x - length xs))" using r unfolding bytes_at_def by blast
    then show ?thesis using False by (simp add: nth_append)
  qed (use r in \<open>simp add: bytes_at_def nth_append\<close>)
  then show "bytes_at pg c a (xs @ ys)" by (simp add: bytes_at_def)
qed

lemma bytes_at_wrote:
  "bytes_at pg c a bs \<Longrightarrow> wrote us c lo hi pg pg' \<Longrightarrow> hi \<le> a \<Longrightarrow> bytes_at pg' c a bs"
  by (simp add: bytes_at_def wrote_def)

lemma wrote_weaken: "wrote us c lo hi pg pg' \<Longrightarrow> lo' \<le> lo \<Longrightarrow> hi \<le> hi' \<Longrightarrow> wrote us c lo' hi' pg pg'"
  by (auto simp: wrote_def)

text \<open>Above the segments only the two pages of the stack are mapped.\<close>

definition stack_only :: "paging \<Rightarrow> ptr \<Rightarrow> bool" where
  "stack_only pg c \<longleftrightarrow> (\<forall>a. 0x3E8000 \<le> a \<longrightarrow> umapped pg c a = (0x3EE000 \<le> a \<and> a < 0x3F0000))"

lemma stack_only_wrote: "stack_only pg c \<Longrightarrow> wrote us c lo hi pg pg' \<Longrightarrow> stack_only pg' c"
  using wrote_umapped by (simp add: stack_only_def)

lemma copy_step:
  assumes b: "building us c pg0 (ld_paging st)" and n: "length bs = unat n"
  shows "\<exists>ok st'. on_paging (paging_copy_to_user c v (Some bs) n) st = Some (ok, st') \<and> ld_fs st' = ld_fs st \<and> building us c pg0 (ld_paging st') \<and>
    (ok \<longrightarrow> unat v + length bs < 2 ^ 32 \<and> (\<forall>x < length bs. umapped (ld_paging st) c (unat v + x)) \<and>
      wrote (c # us) c (unat v) (unat v + length bs) (ld_paging st) (ld_paging st') \<and> bytes_at (ld_paging st') c (unat v) bs)"
proof -
  have B: "paging_inv (ld_paging st) (c # us)" "own_pages (ld_paging st) c" using b by (simp_all add: building_def)
  obtain ok pg where c: "paging_copy_to_user c v (Some bs) n (ld_paging st) = Some (ok, pg)"
    "if unat v + unat n < 2 ^ 32 then copied_to (c # us) c (unat v) bs ok (ld_paging st) pg else \<not> ok \<and> pg = ld_paging st"
    using copy_to_user_bytes [OF B(1) list.set_intros(1) B(2) n, of v] by blast
  have run: "on_paging (paging_copy_to_user c v (Some bs) n) st = Some (ok, st\<lparr>ld_paging := pg\<rparr>)" using c(1) by (simp add: on_paging_def)
  show ?thesis
  proof (cases "unat v + unat n < 2 ^ 32")
    case True
    then have t: "copied_to (c # us) c (unat v) bs ok (ld_paging st) pg" using c(2) by simp
    then have "building us c pg0 pg" unfolding copied_to_def by (blast intro: building_wrote [OF b])
    then show ?thesis using run t True n by (auto simp: copied_to_def bytes_at_def)
  next
    case False
    then show ?thesis using run c(2) b by auto
  qed
qed

text \<open>A copy that ends at the current top of the stack stays in the stack.\<close>

lemma in_stack:
  assumes s: "stack_only pg c" and u: "\<forall>x < n. umapped pg c (q + x)" and n: "0 < n" "q + n \<le> e" "e < q + n + 4" "0x3EE000 \<le> e"
  shows "0x3EE000 \<le> q"
proof (rule ccontr)
  assume q: "\<not> 0x3EE000 \<le> q"
  let ?x = "0x3EDFF0 - q"
  have "?x < n" "0x3E8000 \<le> q + ?x" "q + ?x < 0x3EE000" using n q by linarith+
  then show False using s u by (fastforce simp: stack_only_def)
qed

lemma string_room:
  fixes esp len :: u32
  assumes n: "unat len = n" "unat ((esp - len) AND NOT 3) + n < 2 ^ 32" "0x3EE000 \<le> unat esp"
  shows "unat ((esp - len) AND NOT 3) + n \<le> unat esp" "unat esp < unat ((esp - len) AND NOT 3) + n + 4" "unat ((esp - len) AND NOT 3) mod 4 = 0"
proof -
  let ?d = "unat (esp - len)" and ?q = "unat ((esp - len) AND NOT 3)"
  have q: "?q = ?d div 4 * 4" by (rule unat_align4)
  then have qd: "?q \<le> ?d" "?d < ?q + 4" using div_mult_mod_eq [of ?d 4] mod_less_divisor [of 4 ?d] by linarith+
  have "len \<le> esp"
  proof (rule ccontr)
    assume "\<not> len \<le> esp"
    then have "?d + n = 2 ^ 32 + unat esp" using n(1) unat_lt_2p32 [of len] by (simp add: unat_sub_if' word_le_nat_alt)
    then show False using n(2,3) qd by linarith
  qed
  then have "?d + n = unat esp" using n(1) by (simp add: unat_sub_no_wrap word_le_nat_alt)
  then show "?q + n \<le> unat esp" "unat esp < ?q + n + 4" using qd by linarith+
  show "?q mod 4 = 0" using q by simp
qed

lemma push_strings_spec:
  assumes "building us c pg0 (ld_paging st)" "stack_only (ld_paging st) c" "\<forall>s \<in> set args. length s + 1 < 2 ^ 32" "0x3EE000 \<le> unat esp" "unat esp mod 4 = 0"
  shows "\<exists>r st'. push_strings c args esp ptrs st = Some (r, st') \<and> ld_fs st' = ld_fs st \<and> building us c pg0 (ld_paging st') \<and>
    (\<forall>e ps. r = Some (e, ps) \<longrightarrow> (\<exists>qs. ps = qs @ ptrs \<and> 0x3EE000 \<le> unat e \<and> unat e \<le> unat esp \<and> unat e mod 4 = 0 \<and>
      wrote (c # us) c (unat e) (unat esp) (ld_paging st) (ld_paging st') \<and>
      list_all2 (\<lambda>q s. unat e \<le> unat q \<and> bytes_at (ld_paging st') c (unat q) (s @ [0])) qs (rev args)))"
  using assms
proof (induction args arbitrary: esp ptrs st)
  case Nil
  then show ?case by (simp add: wrote_refl building_def)
next
  case (Cons arg args)
  let ?len = "of_nat (length arg) + 1 :: u32" and ?q = "(esp - (of_nat (length arg) + 1)) AND NOT 3"
  have n: "unat ?len = length (arg @ [0])" using Cons(4) unat_of_nat32 [of "length arg + 1"] by (simp add: add.commute)
  obtain ok st1 where c: "on_paging (paging_copy_to_user c ?q (Some (arg @ [0])) ?len) st = Some (ok, st1)" "ld_fs st1 = ld_fs st" "building us c pg0 (ld_paging st1)"
    "ok \<longrightarrow> unat ?q + length (arg @ [0]) < 2 ^ 32 \<and> (\<forall>x < length (arg @ [0]). umapped (ld_paging st) c (unat ?q + x)) \<and>
      wrote (c # us) c (unat ?q) (unat ?q + length (arg @ [0])) (ld_paging st) (ld_paging st1) \<and> bytes_at (ld_paging st1) c (unat ?q) (arg @ [0])"
    using copy_step [OF Cons(2) n [symmetric], of ?q] by blast
  show ?case
  proof (cases ok)
    case False
    then show ?thesis using c by (simp add: Let_def)
  next
    case True
    note C = mp [OF c(4) True]
    note q = string_room [OF n conjunct1 [OF C] Cons(5)]
    have w: "wrote (c # us) c (unat ?q) (unat esp) (ld_paging st) (ld_paging st1)" using C q(1) by (blast intro: wrote_weaken)
    have lo: "0x3EE000 \<le> unat ?q" using in_stack [OF Cons(3) _ _ q(1,2) Cons(5)] C by simp
    have "\<forall>s \<in> set args. length s + 1 < 2 ^ 32" using Cons(4) by simp
    from Cons(1) [OF c(3) stack_only_wrote [OF Cons(3) w] this lo q(3), of "?q # ptrs"]
    obtain r st2 where i: "push_strings c args ?q (?q # ptrs) st1 = Some (r, st2)" "ld_fs st2 = ld_fs st1" "building us c pg0 (ld_paging st2)"
      "\<forall>e ps. r = Some (e, ps) \<longrightarrow> (\<exists>qs. ps = qs @ ?q # ptrs \<and> 0x3EE000 \<le> unat e \<and> unat e \<le> unat ?q \<and> unat e mod 4 = 0 \<and>
        wrote (c # us) c (unat e) (unat ?q) (ld_paging st1) (ld_paging st2) \<and> list_all2 (\<lambda>q s. unat e \<le> unat q \<and> bytes_at (ld_paging st2) c (unat q) (s @ [0])) qs (rev args))"
      by blast
    have run: "push_strings c (arg # args) esp ptrs st = Some (r, st2)"
      by (simp only: push_strings.simps Let_def c(1) i(1) True Option.bind.simps prod.case not_True_eq_False if_False)
    have "\<exists>qs. ps = qs @ ptrs \<and> 0x3EE000 \<le> unat e \<and> unat e \<le> unat esp \<and> unat e mod 4 = 0 \<and>
      wrote (c # us) c (unat e) (unat esp) (ld_paging st) (ld_paging st2) \<and>
      list_all2 (\<lambda>q s. unat e \<le> unat q \<and> bytes_at (ld_paging st2) c (unat q) (s @ [0])) qs (rev (arg # args))" if r: "r = Some (e, ps)" for e ps
    proof -
      obtain qs where s: "ps = qs @ ?q # ptrs" "0x3EE000 \<le> unat e" "unat e \<le> unat ?q" "unat e mod 4 = 0"
        "wrote (c # us) c (unat e) (unat ?q) (ld_paging st1) (ld_paging st2)" "list_all2 (\<lambda>q s. unat e \<le> unat q \<and> bytes_at (ld_paging st2) c (unat q) (s @ [0])) qs (rev args)"
        using i(4) [rule_format, OF r] by (elim exE conjE) rule
      have "bytes_at (ld_paging st2) c (unat ?q) (arg @ [0])" by (rule bytes_at_wrote [OF _ s(5) order_refl]) (use C in blast)
      moreover have "unat ?q \<le> unat esp" using q(1) by simp
      moreover have "wrote (c # us) c (unat e) (unat esp) (ld_paging st) (ld_paging st2)"
        using wrote_trans [OF wrote_weaken [OF w s(3) order_refl] wrote_weaken [OF s(5) order_refl]] q(1) by simp
      ultimately show ?thesis using s by (intro exI [of _ "qs @ [?q]"]) (simp add: list_all2_appendI)
    qed
    then show ?thesis using run i(2,3) c(2) by (intro exI [of _ r] exI [of _ st2] conjI allI impI) simp_all
  qed
qed

lemma word_bytes_length [simp]: "length (word_bytes w) = 4"
  by (simp add: word_bytes_def)

definition words :: "u32 list \<Rightarrow> u8 list" where "words ws = concat (map word_bytes ws)"

lemma words_length [simp]: "length (words ws) = 4 * length ws"
  by (induction ws) (simp_all add: words_def)

lemma words_snoc: "words (ws @ [w]) = words ws @ word_bytes w"
  by (simp add: words_def)

lemma push_words_spec:
  assumes "building us c pg0 (ld_paging st)" "stack_only (ld_paging st) c" "0x3EE000 \<le> unat esp" "unat esp mod 4 = 0"
  shows "\<exists>r st'. push_words c ws esp st = Some (r, st') \<and> ld_fs st' = ld_fs st \<and> building us c pg0 (ld_paging st') \<and>
    (\<forall>e. r = Some e \<longrightarrow> 0x3EE000 \<le> unat e \<and> unat e + 4 * length ws = unat esp \<and> wrote (c # us) c (unat e) (unat esp) (ld_paging st) (ld_paging st') \<and>
      bytes_at (ld_paging st') c (unat e) (words (rev ws)))"
  using assms
proof (induction ws arbitrary: esp st)
  case Nil
  then show ?case by (simp add: wrote_refl building_def bytes_at_def words_def)
next
  case (Cons w ws)
  have q: "unat (esp - 4) + 4 = unat esp" using Cons(4) by (subst unat_sub_no_wrap) (simp_all add: word_le_nat_alt)
  have n: "length (word_bytes w) = unat (4 :: u32)" by simp
  obtain ok st1 where c: "put_word c (esp - 4) w st = Some (ok, st1)" "ld_fs st1 = ld_fs st" "building us c pg0 (ld_paging st1)"
    "ok \<longrightarrow> (\<forall>x < 4. umapped (ld_paging st) c (unat (esp - 4) + x)) \<and>
      wrote (c # us) c (unat (esp - 4)) (unat esp) (ld_paging st) (ld_paging st1) \<and> bytes_at (ld_paging st1) c (unat (esp - 4)) (word_bytes w)"
    using copy_step [OF Cons(2) n, of "esp - 4"] unfolding put_word_def word_bytes_length q by blast
  show ?case
  proof (cases ok)
    case False
    then show ?thesis using c by simp
  next
    case True
    note C = mp [OF c(4) True]
    have lo: "0x3EE000 \<le> unat (esp - 4)" using in_stack [OF Cons(3), of 4 "unat (esp - 4)" "unat esp"] C q Cons(4) by simp
    have "unat (esp - 4) mod 4 = 0" using q Cons(5) by presburger
    from Cons(1) [OF c(3) stack_only_wrote [OF Cons(3) conjunct1 [OF conjunct2 [OF C]]] lo this]
    obtain r st2 where i: "push_words c ws (esp - 4) st1 = Some (r, st2)" "ld_fs st2 = ld_fs st1" "building us c pg0 (ld_paging st2)"
      "\<forall>e. r = Some e \<longrightarrow> 0x3EE000 \<le> unat e \<and> unat e + 4 * length ws = unat (esp - 4) \<and>
        wrote (c # us) c (unat e) (unat (esp - 4)) (ld_paging st1) (ld_paging st2) \<and> bytes_at (ld_paging st2) c (unat e) (words (rev ws))" by blast
    have run: "push_words c (w # ws) esp st = Some (r, st2)" using c(1) True i(1) by simp
    have "0x3EE000 \<le> unat e \<and> unat e + 4 * length (w # ws) = unat esp \<and> wrote (c # us) c (unat e) (unat esp) (ld_paging st) (ld_paging st2) \<and>
      bytes_at (ld_paging st2) c (unat e) (words (rev (w # ws)))" if "r = Some e" for e
    proof -
      note I = i(4) [rule_format, OF that]
      have e: "unat e \<le> unat (esp - 4)" "unat (esp - 4) \<le> unat esp" using I q by linarith+
      have "bytes_at (ld_paging st2) c (unat (esp - 4)) (word_bytes w)" using C I bytes_at_wrote by blast
      moreover have "wrote (c # us) c (unat e) (unat esp) (ld_paging st) (ld_paging st2)"
        using wrote_trans [OF wrote_weaken [OF _ e(1) order_refl] wrote_weaken [OF _ order_refl e(2)]] C I by blast
      ultimately show ?thesis using I q by (simp add: words_snoc bytes_at_append)
    qed
    then show ?thesis using run i(2,3) c(2) by (intro exI [of _ r] exI [of _ st2]) simp
  qed
qed

text \<open>The argument block: the count, the pointers, a null pointer, and a string behind every pointer.\<close>

definition argv_at :: "paging \<Rightarrow> ptr \<Rightarrow> u32 \<Rightarrow> u8 list list \<Rightarrow> bool" where
  "argv_at pg c esp args \<longleftrightarrow> unat esp mod 4 = 0 \<and> (\<exists>ptrs. bytes_at pg c (unat esp) (words (of_nat (length args) # ptrs @ [0])) \<and>
     list_all2 (\<lambda>q s. bytes_at pg c (unat q) (s @ [0])) ptrs args)"

definition args_of :: "int \<Rightarrow> u8 list list \<Rightarrow> u8 list list" where
  "args_of argc argv = take (nat (min argc MAX_ARGS)) argv"

lemma setup_user_argv_spec:
  assumes b: "building us c pg0 (ld_paging st)" "stack_only (ld_paging st) c"
    and a: "\<forall>s \<in> set argv. length s + 1 < 2 ^ 32" "0 \<le> argc" "nat argc \<le> length argv"
  shows "\<exists>esp st'. setup_user_argv c argc argv st = Some (esp, st') \<and> ld_fs st' = ld_fs st \<and> building us c pg0 (ld_paging st') \<and>
    (esp \<noteq> 0 \<longrightarrow> wrote (c # us) c 0x3EE000 0x3F0000 (ld_paging st) (ld_paging st') \<and> argv_at (ld_paging st') c esp (args_of argc argv))"
proof -
  define args where "args = args_of argc argv"
  have n: "(if argc > MAX_ARGS then MAX_ARGS else argc) = int (length args)" "nat (int (length args)) \<le> length argv" "take (length args) argv = args"
    using a(2,3) by (auto simp: args_def args_of_def MAX_ARGS_def min_def)
  have top: "unat (USER_STACK_TOP - 4) = 0x3EFFFC" by (simp add: USER_STACK_TOP_def)
  have small: "\<forall>s \<in> set (rev args). length s + 1 < 2 ^ 32" using a(1) by (auto simp: args_def args_of_def dest: in_set_takeD)
  obtain r st1 where p: "push_strings c (rev args) (USER_STACK_TOP - 4) [] st = Some (r, st1)" "ld_fs st1 = ld_fs st" "building us c pg0 (ld_paging st1)"
    "\<forall>e ps. r = Some (e, ps) \<longrightarrow> 0x3EE000 \<le> unat e \<and> unat e \<le> 0x3EFFFC \<and> unat e mod 4 = 0 \<and>
      wrote (c # us) c (unat e) 0x3EFFFC (ld_paging st) (ld_paging st1) \<and> list_all2 (\<lambda>q s. unat e \<le> unat q \<and> bytes_at (ld_paging st1) c (unat q) (s @ [0])) ps args"
    using push_strings_spec [OF b small, of "USER_STACK_TOP - 4" "[]"] unfolding top by simp blast
  show ?thesis
  proof (cases r)
    case None
    then show ?thesis using p n by (simp add: setup_user_argv_def)
  next
    case (Some ep)
    obtain e ps where r: "r = Some (e, ps)" using Some by (cases ep) simp
    note E = p(4) [rule_format, OF r]
    have w1: "wrote (c # us) c (unat e) 0x3EFFFC (ld_paging st) (ld_paging st1)" using E by simp
    have e: "0x3EE000 \<le> unat e" "unat e mod 4 = 0" using E by simp_all
    let ?ws = "0 # rev ps @ [of_nat (length args)]"
    obtain r2 st2 where q: "push_words c ?ws e st1 = Some (r2, st2)" "ld_fs st2 = ld_fs st1" "building us c pg0 (ld_paging st2)"
      "\<forall>e2. r2 = Some e2 \<longrightarrow> 0x3EE000 \<le> unat e2 \<and> unat e2 + 4 * length ?ws = unat e \<and> wrote (c # us) c (unat e2) (unat e) (ld_paging st1) (ld_paging st2) \<and>
        bytes_at (ld_paging st2) c (unat e2) (words (rev ?ws))"
      using push_words_spec [OF p(3) stack_only_wrote [OF b(2) w1] e, of ?ws] by blast
    have run: "setup_user_argv c argc argv st = Some (case r2 of None \<Rightarrow> 0 | Some e2 \<Rightarrow> e2, st2)"
      using p(1) q(1) r n by (simp add: setup_user_argv_def del: push_words.simps)
    have "wrote (c # us) c 0x3EE000 0x3F0000 (ld_paging st) (ld_paging st2) \<and> argv_at (ld_paging st2) c e2 args" if "r2 = Some e2" for e2
    proof -
      note Q = q(4) [rule_format, OF that]
      have "wrote (c # us) c 0x3EE000 0x3F0000 (ld_paging st) (ld_paging st2)"
        by (rule wrote_trans [OF wrote_weaken [OF w1, of "0x3EE000" "0x3F0000"] wrote_weaken [of _ _ "unat e2" "unat e" _ _ "0x3EE000" "0x3F0000"]]) (use Q E in simp_all)
      moreover have "unat e2 mod 4 = 0" using Q e(2) by (metis mod_mult_self2)
      moreover have "list_all2 (\<lambda>q s. bytes_at (ld_paging st2) c (unat q) (s @ [0])) ps args"
        using E Q by (auto elim!: list_all2_mono intro: bytes_at_wrote)
      ultimately show ?thesis using Q unfolding argv_at_def by auto
    qed
    then show ?thesis using run p(2) q(2,3) unfolding args_def [symmetric] by (cases r2) auto
  qed
qed

section \<open>The image\<close>

lemma building_mapped:
  assumes "building us c pg0 pg"
  shows "umapped pg c a \<longleftrightarrow> 0x300000 \<le> a \<and> a < 0x3F0000 \<and> is_user (slots pg c ! (a div 4096))"
proof -
  have u: "0x300 \<le> i \<and> i < 0x3F0" if "i < 2048" "is_user (slots pg c ! i)" for i using assms that by (simp add: building_def)
  have r: "0x300000 \<le> a \<and> a < 0x3F0000 \<longleftrightarrow> 0x300 \<le> a div 4096 \<and> a div 4096 < 0x3F0"
    using div_less_iff_less_mult [of 4096 a "0x3F0"] less_eq_div_iff_mult_less_eq [of 4096 "0x300" a] by simp
  show ?thesis
  proof
    assume m: "umapped pg c a"
    then obtain i where i: "nslot a = Some i" "is_user (slots pg c ! i)" by (auto simp: umapped_def split: option.splits)
    have b: "0x300 \<le> i" "i < 0x3F0" using u [OF nslot_bound [OF i(1)] i(2)] by simp_all
    then have "i = a div 4096" using i(1) by (auto simp: nslot_pslot pslot_def split: if_splits)
    then show "0x300000 \<le> a \<and> a < 0x3F0000 \<and> is_user (slots pg c ! (a div 4096))" using i(2) b r by blast
  next
    assume "0x300000 \<le> a \<and> a < 0x3F0000 \<and> is_user (slots pg c ! (a div 4096))"
    then show "umapped pg c a" by (simp add: umapped_def low_slot)
  qed
qed

lemma map_one_page:
  assumes b: "building us c pg0 (ld_paging st)" and v: "unat v = i * 4096" "0x300 \<le> i" "i < 0x3F0"
  shows "\<exists>ok st'. on_paging (paging_map_user_page c v) st = Some (ok, st') \<and> ld_fs st' = ld_fs st \<and> building us c pg0 (ld_paging st') \<and>
    grown c (ld_paging st) (ld_paging st') \<and> (ok \<longrightarrow> (\<forall>a. umapped (ld_paging st') c a \<longleftrightarrow> umapped (ld_paging st) c a \<or> a div 4096 = i))"
proof -
  have "vslot v = Some i" using v by (simp add: vslot_nslot nslot_pslot pslot_def)
  from build_map [OF b this v(2,3)] obtain ok pg where m: "paging_map_user_page c v (ld_paging st) = Some (ok, pg)" "building us c pg0 pg" "grown c (ld_paging st) pg"
    "ok \<longrightarrow> is_user (slots pg c ! i)" "\<forall>j < 2048. is_user (slots pg c ! j) \<longrightarrow> is_user (slots (ld_paging st) c ! j) \<or> j = i" by blast
  have "umapped pg c a \<longleftrightarrow> umapped (ld_paging st) c a \<or> a div 4096 = i" if ok for a
  proof
    assume a: "umapped pg c a"
    then have "a div 4096 < 2048" using building_mapped [OF m(2)] div_less_iff_less_mult [of 4096 a 2048] by simp
    then show "umapped (ld_paging st) c a \<or> a div 4096 = i" using a m(5) unfolding building_mapped [OF m(2)] building_mapped [OF b] by blast
  next
    assume "umapped (ld_paging st) c a \<or> a div 4096 = i"
    moreover have "0x300000 \<le> a \<and> a < 0x3F0000" if "a div 4096 = i" using that v(2,3) div_page by (auto simp: div_page)
    ultimately show "umapped pg c a" using m(3,4) that unfolding building_mapped [OF m(2)] by (auto simp: grown_def building_mapped [OF m(2)])
  qed
  then show ?thesis using m(1-3) by (intro exI [of _ ok] exI [of _ "st\<lparr>ld_paging := pg\<rparr>"]) (simp add: on_paging_def)
qed

lemma map_stack_spec:
  assumes b: "building us c pg0 (ld_paging st)"
  shows "\<exists>ok st'. map_stack c [0..<USER_STACK_PREMAP] st = Some (ok, st') \<and> ld_fs st' = ld_fs st \<and> building us c pg0 (ld_paging st') \<and>
    grown c (ld_paging st) (ld_paging st') \<and>
    (ok \<longrightarrow> (\<forall>a. umapped (ld_paging st') c a \<longleftrightarrow> umapped (ld_paging st) c a \<or> 0x3EE000 \<le> a \<and> a < 0x3F0000))"
proof -
  have v: "USER_STACK_TOP - of_nat (0 + 1) * 0x1000 = 0x3EF000" "USER_STACK_TOP - of_nat (Suc 0 + 1) * 0x1000 = 0x3EE000" by (simp_all add: USER_STACK_TOP_def)
  have two: "[0..<USER_STACK_PREMAP] = [0, Suc 0]" by (simp add: USER_STACK_PREMAP_def upt_rec)
  obtain ok1 st1 where m: "on_paging (paging_map_user_page c 0x3EF000) st = Some (ok1, st1)" "ld_fs st1 = ld_fs st" "building us c pg0 (ld_paging st1)"
    "grown c (ld_paging st) (ld_paging st1)" "ok1 \<longrightarrow> (\<forall>a. umapped (ld_paging st1) c a \<longleftrightarrow> umapped (ld_paging st) c a \<or> a div 4096 = 0x3EF)"
    using map_one_page [OF b, of "0x3EF000" "0x3EF"] by auto
  obtain ok2 st2 where n: "on_paging (paging_map_user_page c 0x3EE000) st1 = Some (ok2, st2)" "ld_fs st2 = ld_fs st1" "building us c pg0 (ld_paging st2)"
    "grown c (ld_paging st1) (ld_paging st2)" "ok2 \<longrightarrow> (\<forall>a. umapped (ld_paging st2) c a \<longleftrightarrow> umapped (ld_paging st1) c a \<or> a div 4096 = 0x3EE)"
    using map_one_page [OF m(3), of "0x3EE000" "0x3EE"] by auto
  have "a div 4096 = 0x3EF \<or> a div 4096 = 0x3EE \<longleftrightarrow> 0x3EE000 \<le> a \<and> a < 0x3F0000" for a :: nat unfolding div_page by auto
  then have u: "umapped (ld_paging st2) c a \<longleftrightarrow> umapped (ld_paging st) c a \<or> 0x3EE000 \<le> a \<and> a < 0x3F0000" if ok1 ok2 for a
    using mp [OF m(5) that(1)] mp [OF n(5) that(2)] by blast
  show ?thesis
  proof (cases ok1)
    case True
    then have "map_stack c [0, Suc 0] st = Some (ok2, st2)" using m(1) n(1) by (cases ok2) (simp_all only: map_stack.simps v Option.bind.simps prod.case not_True_eq_False not_False_eq_True if_True if_False)
    then show ?thesis using m(2) n(2,3) grown_trans [OF m(4) n(4)] u True unfolding two by auto
  next
    case False
    then have "map_stack c [0, Suc 0] st = Some (False, st1)" using m(1) by (simp only: map_stack.simps v Option.bind.simps prod.case not_False_eq_True if_True)
    then show ?thesis using m(2-4) unfolding two by auto
  qed
qed

lemma segs_in_kept:
  assumes k: "kept c A pg pg'" and A: "\<And>a. a < 0x3E8000 \<Longrightarrow> \<not> A a"
  shows "segs_in R pg c phs \<Longrightarrow> segs_in R pg' c phs"
proof (induction phs)
  case (Cons ph phs)
  have "seg_byte R pg' c ph x" if "in_range ph" "x < msz ph" "seg_byte R pg c ph x" for x
  proof -
    have "va ph + x < 0x3E8000" using that(1,2) unfolding in_range_def by linarith
    then show ?thesis using seg_byte_kept [OF that(3) k] A by blast
  qed
  then show ?case using Cons unfolding segs_in.simps by blast
qed simp

lemma validate_spec:
  assumes rd: "readable dr file P R"
  shows "P (ld_fs st) \<Longrightarrow> \<exists>ok st'. validate_loop dr file ehdr is em st = Some (ok, st') \<and> P (ld_fs st') \<and> ld_paging st' = ld_paging st"
proof (induction "is" arbitrary: em st)
  case Nil
  then show ?case by (auto simp: say_def)
next
  case (Cons i "is")
  obtain r st1 where r: "read_program_header dr file ehdr (of_nat i) st = Some (r, st1)" "P (ld_fs st1)" "ld_paging st1 = ld_paging st"
    using header_read [OF rd Cons(2)] by blast
  obtain len where len: "file_length dr file st1 = Some len" using file_length_some [OF rd r(2)] by blast
  show ?case using r len Cons(1) [OF r(2)] by (cases r) (auto simp: say_def)
qed

lemma create_building:
  assumes "created pg us c pg'" "paging_inv pg us"
  shows "building us c pg pg'" "\<not> umapped pg' c a"
proof -
  note C = assms(1) [unfolded created_def]
  have b: "\<not> is_user (slots pg' c ! i)" if "i < 2048" for i using C blank_slot [OF that] by simp
  have "page_view pg' q j = page_view pg q j" if "q \<in> set us" for q j using C that by (auto simp: page_view_def)
  then show "building us c pg pg'" using C b by (auto simp: building_def own_pages_def)
  show "\<not> umapped pg' c a" using b nslot_bound by (auto simp: umapped_def split: option.splits)
qed

text \<open>The image a load builds, in terms of what it read.\<close>

definition image_of :: "(nat \<Rightarrow> u8 \<Rightarrow> bool) \<Rightarrow> paging \<Rightarrow> loaded \<Rightarrow> bool" where
  "image_of R pg im \<longleftrightarrow> (\<exists>bs phs. length bs = 52 \<and> (\<forall>k < 52. R k (bs ! k)) \<and> elf_valid (as_ehdr bs) \<and> im_entry im = e_entry (as_ehdr bs) \<and>
     list_all2 (header_at R (as_ehdr bs)) [0..<unat (e_phnum (as_ehdr bs))] phs \<and> segs_in R pg (im_space im) phs \<and>
     (\<exists>ph \<in> set phs. covers ph (unat (im_entry im))) \<and> unat (im_heap_base im) = pup (seg_top phs 0x300000))"

text \<open>Mapped are the segments and the stack, and nothing between them.\<close>

definition layout_ok :: "paging \<Rightarrow> loaded \<Rightarrow> bool" where
  "layout_ok pg im \<longleftrightarrow> own_pages pg (im_space im) \<and> unat (im_heap_base im) \<le> 0x3E8000 \<and>
     (\<forall>a. umapped pg (im_space im) a \<longrightarrow> 0x300000 \<le> a \<and> a < unat (im_heap_base im) \<or> 0x3EE000 \<le> a \<and> a < 0x3F0000)"

lemma discard_spec:
  assumes b: "building us c pg0 (ld_paging st)"
  shows "\<exists>st'. discard c st = Some (None, st') \<and> ld_fs st' = ld_fs st \<and> paging_inv (ld_paging st') us \<and>
    (\<forall>q \<in> set us. \<forall>j < 2048. page_view (ld_paging st') q j = page_view pg0 q j)"
proof -
  note B = b [unfolded building_def]
  have inv: "paging_inv (ld_paging st) (c # us)" using B by blast
  obtain pg where d: "paging_destroy_user_address_space c (ld_paging st) = Some pg" "destroyed (ld_paging st) (c # us) c pg"
    using destroy_spec [OF inv list.set_intros(1)] by blast
  have "page_view pg q j = page_view pg0 q j" if "q \<in> set us" "j < 2048" for q j
  proof -
    have "q \<noteq> c" using B that(1) by blast
    then have "page_view pg q j = page_view (ld_paging st) q j" using d(2) by (simp add: destroyed_def page_view_def)
    then show ?thesis using B that by simp
  qed
  then show ?thesis using d by (simp add: discard_def destroyed_def)
qed

text \<open>The last part of \<open>elf_load_from_node\<close>, from where the address space exists.\<close>

definition fill_space :: "'s drivers \<Rightarrow> ptr \<Rightarrow> ptr \<Rightarrow> elf_ehdr \<Rightarrow> int \<Rightarrow> u8 list list \<Rightarrow> 's loader \<Rightarrow> (loaded option \<times> 's loader) option" where
  "fill_space dr c file ehdr argc argv st = do {
      (hb, st4) \<leftarrow> load_segments dr c file ehdr st;
      case hb of None \<Rightarrow> discard c st4
      | Some heap_base \<Rightarrow> do {
          (ok, st5) \<leftarrow> map_stack c [0..<USER_STACK_PREMAP] st4;
          if \<not> ok then discard c (say ''exec: cannot allocate user stack\<newline>'' st5)
          else do {
            (esp, st6) \<leftarrow> setup_user_argv c argc argv st5;
            if esp = 0 then discard c (say ''exec: cannot set up argv\<newline>'' st6)
            else Some (Some \<lparr>im_space = c, im_entry = e_entry ehdr, im_esp = esp, im_heap_base = heap_base\<rparr>, st6)
          }
        }
      }"

lemma fill_space_spec:
  assumes rd: "readable dr file P R" "P (ld_fs st)" and b: "building us c pg0 (ld_paging st)" "\<And>a. \<not> umapped (ld_paging st) c a"
    and a: "\<forall>s \<in> set argv. length s + 1 < 2 ^ 32" "0 \<le> argc" "nat argc \<le> length argv"
    and e: "length bs = 52" "\<forall>k < 52. R k (bs ! k)" "elf_valid (as_ehdr bs)"
  shows "\<exists>r st'. fill_space dr c file (as_ehdr bs) argc argv st = Some (r, st') \<and> P (ld_fs st') \<and> (\<forall>q \<in> set us. \<forall>j < 2048. page_view (ld_paging st') q j = page_view pg0 q j) \<and>
    (case r of None \<Rightarrow> paging_inv (ld_paging st') us
     | Some im \<Rightarrow> im_space im = c \<and> paging_inv (ld_paging st') (c # us) \<and> image_of R (ld_paging st') im \<and> layout_ok (ld_paging st') im \<and>
         argv_at (ld_paging st') c (im_esp im) (args_of argc argv))"
proof -
  let ?eh = "as_ehdr bs"
  obtain hb st4 where l: "load_segments dr c file ?eh st = Some (hb, st4)" "P (ld_fs st4)" "building us c pg0 (ld_paging st4)"
    "\<forall>h. hb = Some h \<longrightarrow> (\<exists>phs. segs_loaded R ?eh c [0..<unat (e_phnum ?eh)] 0x300000 False (ld_paging st) (ld_paging st4) phs (unat h))"
    using segments_loop_spec [OF rd(1,2) b(1), of USER_LOAD_BASE ?eh "[0..<unat (e_phnum ?eh)]" False] unfolding load_segments_def user_bounds by auto
  obtain ok st5 where m: "map_stack c [0..<USER_STACK_PREMAP] st4 = Some (ok, st5)" "ld_fs st5 = ld_fs st4" "building us c pg0 (ld_paging st5)" "grown c (ld_paging st4) (ld_paging st5)"
    "ok \<longrightarrow> (\<forall>a. umapped (ld_paging st5) c a \<longleftrightarrow> umapped (ld_paging st4) c a \<or> 0x3EE000 \<le> a \<and> a < 0x3F0000)" using map_stack_spec [OF l(3)] by blast
  show ?thesis
  proof (cases hb)
    case None
    then show ?thesis using l discard_spec [OF l(3)] by (auto simp: fill_space_def)
  next
    case (Some h)
    obtain phs where s: "segs_loaded R ?eh c [0..<unat (e_phnum ?eh)] 0x300000 False (ld_paging st) (ld_paging st4) phs (unat h)" using l(4) Some by blast
    note S = s [unfolded segs_loaded_def]
    show ?thesis
    proof (cases ok)
      case False
      then show ?thesis using l(1,2) Some m(1-3) discard_spec [of us c pg0 "say ''exec: cannot allocate user stack\<newline>'' st5"] by (auto simp: fill_space_def say_def)
    next
      case True
      have U: "umapped (ld_paging st5) c a \<longleftrightarrow> umapped (ld_paging st4) c a \<or> 0x3EE000 \<le> a \<and> a < 0x3F0000" for a using m(5) True by blast
      have low: "a < unat h" if "umapped (ld_paging st4) c a" for a using S b(2) that by blast
      then have so: "stack_only (ld_paging st5) c" using U S by (fastforce simp: stack_only_def)
      obtain esp st6 where u: "setup_user_argv c argc argv st5 = Some (esp, st6)" "ld_fs st6 = ld_fs st5" "building us c pg0 (ld_paging st6)"
        "esp \<noteq> 0 \<longrightarrow> wrote (c # us) c 0x3EE000 0x3F0000 (ld_paging st5) (ld_paging st6) \<and> argv_at (ld_paging st6) c esp (args_of argc argv)"
        using setup_user_argv_spec [OF m(3) so a] by blast
      show ?thesis
      proof (cases "esp = 0")
        case True
        then show ?thesis using l(1,2) Some \<open>ok\<close> m(1,2) u(1-3) discard_spec [of us c pg0 "say ''exec: cannot set up argv\<newline>'' st6"] by (auto simp: fill_space_def say_def)
      next
        case False
        note W = mp [OF u(4) False]
        let ?im = "\<lparr>im_space = c, im_entry = e_entry ?eh, im_esp = esp, im_heap_base = h\<rparr>"
        have "segs_in R (ld_paging st5) c phs" using segs_in_kept [OF grown_kept [OF m(4), of "\<lambda>_. False"]] S by blast
        then have "segs_in R (ld_paging st6) c phs" using segs_in_kept [OF wrote_kept [OF conjunct1 [OF W]]] by simp
        then have "image_of R (ld_paging st6) ?im" unfolding image_of_def using S e by (intro exI [of _ bs] exI [of _ phs]) simp
        moreover have "layout_ok (ld_paging st6) ?im" unfolding layout_ok_def
          using S u(3) low U wrote_umapped [OF conjunct1 [OF W]] building_mapped [OF l(3)] by (auto simp: building_def)
        moreover have "paging_inv (ld_paging st6) (c # us)" "\<forall>q \<in> set us. \<forall>j < 2048. page_view (ld_paging st6) q j = page_view pg0 q j"
          using u(3) by (simp_all add: building_def)
        ultimately show ?thesis using l(1,2) Some \<open>ok\<close> m(1,2) u(1,2) False W by (intro exI [of _ "Some ?im"] exI [of _ st6]) (simp add: fill_space_def)
      qed
    qed
  qed
qed

section \<open>The loader\<close>


text \<open>A program of one segment with four bytes of code, read through a driver that never changes it.\<close>

definition demo_elf :: "u8 list" where
  "demo_elf = [0x7F, 0x45, 0x4C, 0x46, 1, 1, 1, 0, 0, 0, 0, 0, 0, 0, 0, 0, 2, 0, 3, 0, 1, 0, 0, 0, 0, 0, 0x30, 0, 52, 0, 0, 0, 0, 0, 0, 0, 0, 0, 0, 0,
     52, 0, 32, 0, 1, 0, 40, 0, 0, 0, 0, 0,
     1, 0, 0, 0, 84, 0, 0, 0, 0, 0, 0x30, 0, 0, 0, 0x30, 0, 4, 0, 0, 0, 16, 0, 0, 0, 5, 0, 0, 0, 0, 0x10, 0, 0,
     0xCD, 0x80, 0xEB, 0xFE]"

definition demo_node :: fs_node where
  "demo_node = \<lparr>n_name = ''demo'', n_mask = 0, n_uid = 0, n_gid = 0, n_flags = FS_FILE, n_inode = 1, n_length = 88, n_impl = 0, n_read = FN_RAMFS, n_write = FN_NULL,
     n_open = FN_NULL, n_close = FN_NULL, n_readdir = FN_NULL, n_finddir = FN_NULL, n_create = FN_NULL, n_unlink = FN_NULL, n_mkdir = FN_NULL, n_rmdir = FN_NULL, n_ptr = 0\<rparr>"

definition demo_drivers :: "unit drivers" where
  "demo_drivers = \<lparr>node_at = \<lambda>_ p. if p = 0x500 then Some demo_node else None, root_at = \<lambda>_. 0,
     call_read = \<lambda>_ _ off sz s. Some (take (unat sz) (drop (unat off) demo_elf), s), call_write = \<lambda>_ _ _ _ s. Some (0, s),
     call_open = \<lambda>_ _ s. Some s, call_close = \<lambda>_ _ s. Some s, call_readdir = \<lambda>_ _ _ s. Some (None, s), call_finddir = \<lambda>_ _ _ s. Some (0, s),
     call_create = \<lambda>_ _ _ s. Some (0, s), call_unlink = \<lambda>_ _ _ s. Some (- 1, s), call_mkdir = \<lambda>_ _ _ s. Some (- 1, s), call_rmdir = \<lambda>_ _ _ s. Some (- 1, s)\<rparr>"

lemma demo_readable: "readable demo_drivers 0x500 (\<lambda>_. True) (\<lambda>off b. off < length demo_elf \<and> b = demo_elf ! off)"
  by (auto simp: readable_def read_fs_def dispatch_def demo_drivers_def demo_node_def min_def split: if_splits)


end
