(* ===== verification/Process_Table.thy ===== *)
theory Process_Table
  imports Paging Fs
begin

text \<open>
  The process table (src/process.c, src/process.h): sixteen slots, what each process records, and the
  operations that touch nothing but the table: finding, numbering, allocating and releasing slots, the
  reservation bitmap of the \<open>mmap\<close> region, the environment, and the counters.

  A pointer to a process is the index of its slot, a null pointer \<open>None\<close>. A C string is the list of
  its characters before the terminating zero, so a bounded copy is a \<open>take\<close>. The arrays of keys and
  values with their count are one list of pairs. A byte used as a flag is a \<open>bool\<close>.
\<close>

section \<open>State\<close>

definition MAX_PROCESSES :: nat where "MAX_PROCESSES = 16"
definition USER_EXT_PAGES :: nat where "USER_EXT_PAGES = 1024"
definition PROCESS_NAME_MAX :: nat where "PROCESS_NAME_MAX = 16"
definition PROCESS_CWD_MAX :: nat where "PROCESS_CWD_MAX = 128"
definition ENV_MAX :: nat where "ENV_MAX = 8"
definition ENV_KEY_MAX :: nat where "ENV_KEY_MAX = 24"
definition ENV_VAL_MAX :: nat where "ENV_VAL_MAX = 64"
definition NSIG :: nat where "NSIG = 32"
definition SIGINT :: nat where "SIGINT = 2"
definition SIGKILL :: nat where "SIGKILL = 9"
definition SIGALRM :: nat where "SIGALRM = 14"
definition SIGCHLD :: nat where "SIGCHLD = 17"
definition SIGCONT :: nat where "SIGCONT = 18"
definition SIGSTOP :: nat where "SIGSTOP = 19"
definition INT32_MAX :: int where "INT32_MAX = 0x7FFFFFFF"

datatype process_state = PROCESS_UNUSED | PROCESS_RUNNING | PROCESS_ZOMBIE

record fork_frame =
  ff_eip :: u32
  ff_eflags :: u32
  ff_useresp :: u32
  ff_eax :: u32
  ff_ebx :: u32
  ff_ecx :: u32
  ff_edx :: u32
  ff_esi :: u32
  ff_edi :: u32
  ff_ebp :: u32

record process =
  pr_pid :: int
  pr_parent_pid :: int
  pr_exit_status :: int
  pr_entry_point :: u32
  pr_user_stack :: u32
  pr_slot :: nat
  pr_auto_reap :: bool
  pr_state :: process_state
  pr_address_space :: ptr
  pr_task :: ptr
  pr_name :: string
  pr_heap_start :: u32
  pr_heap_break :: u32
  pr_ext_map :: "u32 list"
  pr_stdout_node :: ptr
  pr_stdout_offset :: u32
  pr_stdin_node :: ptr
  pr_stdin_offset :: u32
  pr_stdout_pipe :: ptr
  pr_stdin_pipe :: ptr
  pr_cwd :: string
  pr_sig_pending :: u32
  pr_sig_handler :: "u32 list"
  pr_sig_trampoline :: u32
  pr_in_signal :: bool
  pr_stopped :: bool
  pr_thread_count :: u32
  pr_main_exited :: bool
  pr_alarm_active :: bool
  pr_alarm_tick :: u32
  pr_cpu_ticks :: u32
  pr_fork_frame :: fork_frame
  pr_env :: "(string \<times> string) list"

record process_table =
  processes :: "process list"
  pt_next_pid :: int
  peak_process_count :: u32

record process_info =
  pi_pid :: int
  pi_parent_pid :: int
  pi_state :: process_state
  pi_name :: string

definition zero_frame :: fork_frame where
  "zero_frame = \<lparr>ff_eip = 0, ff_eflags = 0, ff_useresp = 0, ff_eax = 0, ff_ebx = 0, ff_ecx = 0, ff_edx = 0,
     ff_esi = 0, ff_edi = 0, ff_ebp = 0\<rparr>"

text \<open>A cleared slot: \<open>memset(process, 0, sizeof(*process))\<close> and the slot number.\<close>

definition zero_process :: "nat \<Rightarrow> process" where
  "zero_process i = \<lparr>pr_pid = 0, pr_parent_pid = 0, pr_exit_status = 0, pr_entry_point = 0, pr_user_stack = 0, pr_slot = i,
     pr_auto_reap = False, pr_state = PROCESS_UNUSED, pr_address_space = NULL, pr_task = NULL, pr_name = '''',
     pr_heap_start = 0, pr_heap_break = 0, pr_ext_map = replicate (USER_EXT_PAGES div 32) 0, pr_stdout_node = NULL,
     pr_stdout_offset = 0, pr_stdin_node = NULL, pr_stdin_offset = 0, pr_stdout_pipe = NULL, pr_stdin_pipe = NULL,
     pr_cwd = '''', pr_sig_pending = 0, pr_sig_handler = replicate NSIG 0, pr_sig_trampoline = 0, pr_in_signal = False,
     pr_stopped = False, pr_thread_count = 0, pr_main_exited = False, pr_alarm_active = False, pr_alarm_tick = 0,
     pr_cpu_ticks = 0, pr_fork_frame = zero_frame, pr_env = []\<rparr>"

text \<open>Static storage starts as zero, the slot numbers included.\<close>

definition boot_table :: process_table where
  "boot_table = \<lparr>processes = replicate MAX_PROCESSES (zero_process 0), pt_next_pid = 1, peak_process_count = 0\<rparr>"

definition proc :: "process_table \<Rightarrow> nat \<Rightarrow> process" where
  "proc t i = processes t ! i"

definition set_proc :: "nat \<Rightarrow> (process \<Rightarrow> process) \<Rightarrow> process_table \<Rightarrow> process_table" where
  "set_proc i f t = t\<lparr>processes := (processes t)[i := f (proc t i)]\<rparr>"

section \<open>Slots and numbers\<close>

definition process_get_used_count :: "process_table \<Rightarrow> u32" where
  "process_get_used_count t = fold (\<lambda>i n. if pr_state (proc t i) \<noteq> PROCESS_UNUSED then n + 1 else n) [0..<MAX_PROCESSES] 0"

definition process_copy_name :: "string option \<Rightarrow> string" where
  "process_copy_name src = (case src of None \<Rightarrow> '''' | Some s \<Rightarrow> take (PROCESS_NAME_MAX - 1) s)"

definition process_find :: "int \<Rightarrow> process_table \<Rightarrow> nat option" where
  "process_find pid t = find (\<lambda>i. pr_state (proc t i) \<noteq> PROCESS_UNUSED \<and> pr_pid (proc t i) = pid) [0..<MAX_PROCESSES]"

text \<open>The loop of \<open>process_allocate_pid\<close>; the first argument counts the attempts left.\<close>

fun pid_loop :: "nat \<Rightarrow> process_table \<Rightarrow> int \<times> process_table" where
  "pid_loop 0 t = (- 1, t)"
| "pid_loop (Suc attempts) t =
     (let candidate = pt_next_pid t;
          t1 = t\<lparr>pt_next_pid := (if pt_next_pid t = INT32_MAX then 1 else pt_next_pid t + 1)\<rparr>
      in if process_find candidate t1 = None then (candidate, t1) else pid_loop attempts t1)"

definition process_allocate_pid :: "process_table \<Rightarrow> int \<times> process_table" where
  "process_allocate_pid t = pid_loop MAX_PROCESSES t"

text \<open>\<open>current_pid\<close> is what \<open>process_get_current_pid\<close> returns.\<close>

definition process_allocate :: "int \<Rightarrow> process_table \<Rightarrow> nat option \<times> process_table" where
  "process_allocate current_pid t =
     (case find (\<lambda>i. pr_state (proc t i) = PROCESS_UNUSED) [0..<MAX_PROCESSES] of
        None \<Rightarrow> (None, t)
      | Some i \<Rightarrow>
          let (pid, t1) = process_allocate_pid t
          in if pid < 1 then (None, t1)
             else (Some i, set_proc i (\<lambda>_. (zero_process i)\<lparr>pr_pid := pid, pr_parent_pid := current_pid,
                    pr_state := PROCESS_RUNNING, pr_cwd := ''/''\<rparr>) t1))"

definition process_release :: "nat \<Rightarrow> process_table \<Rightarrow> process_table" where
  "process_release i t = set_proc i (\<lambda>p. zero_process (pr_slot p)) t"

definition count_state :: "process_state \<Rightarrow> process_table \<Rightarrow> u32" where
  "count_state s t = fold (\<lambda>i n. if pr_state (proc t i) = s then n + 1 else n) [0..<MAX_PROCESSES] 0"

definition process_get_running_count :: "process_table \<Rightarrow> u32" where
  "process_get_running_count t = count_state PROCESS_RUNNING t"

definition process_get_zombie_count :: "process_table \<Rightarrow> u32" where
  "process_get_zombie_count t = count_state PROCESS_ZOMBIE t"

definition process_get_peak_count :: "process_table \<Rightarrow> u32" where
  "process_get_peak_count t = peak_process_count t"

definition note_peak :: "process_table \<Rightarrow> process_table" where
  "note_peak t = (let used = process_get_used_count t
     in if used > peak_process_count t then t\<lparr>peak_process_count := used\<rparr> else t)"

text \<open>The records \<open>process_snapshot\<close> writes, in order; \<open>out\<close> tells whether there is a buffer.\<close>

fun snapshot_loop :: "nat list \<Rightarrow> u32 \<Rightarrow> u32 \<Rightarrow> process_table \<Rightarrow> process_info list" where
  "snapshot_loop [] n limit t = []"
| "snapshot_loop (i # is) n limit t =
     (if n < limit then
        if pr_state (proc t i) = PROCESS_UNUSED then snapshot_loop is n limit t
        else \<lparr>pi_pid = pr_pid (proc t i), pi_parent_pid = pr_parent_pid (proc t i), pi_state = pr_state (proc t i),
               pi_name = process_copy_name (Some (pr_name (proc t i)))\<rparr> # snapshot_loop is (n + 1) limit t
      else [])"

definition process_snapshot :: "bool \<Rightarrow> u32 \<Rightarrow> process_table \<Rightarrow> process_info list" where
  "process_snapshot out limit t = (if \<not> out then [] else snapshot_loop [0..<MAX_PROCESSES] 0 limit t)"

definition process_detach :: "int \<Rightarrow> process_table \<Rightarrow> int \<times> process_table" where
  "process_detach pid t =
     (case process_find pid t of None \<Rightarrow> (- 1, t)
      | Some i \<Rightarrow>
          (0, if pr_state (proc t i) = PROCESS_ZOMBIE then process_release i t
              else set_proc i (\<lambda>p. p\<lparr>pr_parent_pid := 0, pr_auto_reap := True\<rparr>) t))"

definition process_set_cwd :: "int \<Rightarrow> string option \<Rightarrow> process_table \<Rightarrow> process_table" where
  "process_set_cwd pid cwd t =
     (case (process_find pid t, cwd) of
        (Some i, Some c) \<Rightarrow> set_proc i (\<lambda>p. p\<lparr>pr_cwd := take (PROCESS_CWD_MAX - 1) c\<rparr>) t
      | _ \<Rightarrow> t)"

definition process_pipe :: "int \<Rightarrow> ptr \<Rightarrow> ptr \<Rightarrow> process_table \<Rightarrow> process_table" where
  "process_pipe pid out_pipe in_pipe t =
     (case process_find pid t of None \<Rightarrow> t
      | Some i \<Rightarrow> set_proc i (\<lambda>p. p\<lparr>pr_stdout_pipe := (if out_pipe \<noteq> NULL then out_pipe else pr_stdout_pipe p),
          pr_stdin_pipe := (if in_pipe \<noteq> NULL then in_pipe else pr_stdin_pipe p)\<rparr>) t)"

definition process_has_sighandler :: "int \<Rightarrow> int \<Rightarrow> process_table \<Rightarrow> bool" where
  "process_has_sighandler pid signum t =
     (case process_find pid t of None \<Rightarrow> False
      | Some i \<Rightarrow> signum > 0 \<and> signum < int NSIG \<and> pr_sig_handler (proc t i) ! nat signum > 1)"

text \<open>The accounting of the current process, \<open>None\<close> when a kernel task runs.\<close>

definition process_account_tick :: "nat option \<Rightarrow> process_table \<Rightarrow> process_table" where
  "process_account_tick current t =
     (case current of None \<Rightarrow> t | Some i \<Rightarrow> set_proc i (\<lambda>p. p\<lparr>pr_cpu_ticks := pr_cpu_ticks p + 1\<rparr>) t)"

definition process_get_cpu_ticks :: "nat option \<Rightarrow> process_table \<Rightarrow> u32" where
  "process_get_cpu_ticks current t = (case current of None \<Rightarrow> 0 | Some i \<Rightarrow> pr_cpu_ticks (proc t i))"

section \<open>The pages of the mmap region\<close>

definition ext_bit_get :: "process \<Rightarrow> nat \<Rightarrow> bool" where
  "ext_bit_get p index \<longleftrightarrow> drop_bit (index mod 32) (pr_ext_map p ! (index div 32)) AND 1 \<noteq> 0"

definition ext_bit_set :: "nat \<Rightarrow> bool \<Rightarrow> process \<Rightarrow> process" where
  "ext_bit_set index value p =
     (let w = pr_ext_map p ! (index div 32); b = push_bit (index mod 32) (1 :: u32)
      in p\<lparr>pr_ext_map := (pr_ext_map p)[index div 32 := (if value then w OR b else w AND NOT b)]\<rparr>)"

definition process_ext_reserved :: "process option \<Rightarrow> u32 \<Rightarrow> bool" where
  "process_ext_reserved p vaddr =
     (case p of None \<Rightarrow> False
      | Some p \<Rightarrow>
          if vaddr < USER_EXT_BASE \<or> vaddr \<ge> USER_EXT_TOP then False
          else ext_bit_get p (unat (drop_bit 12 (vaddr - USER_EXT_BASE))))"

text \<open>The scan for a run of free pages; the result is the first page of the run.\<close>

fun ext_scan :: "process \<Rightarrow> nat \<Rightarrow> nat list \<Rightarrow> nat \<Rightarrow> nat option" where
  "ext_scan p npages [] run = None"
| "ext_scan p npages (i # is) run =
     (let run1 = (if ext_bit_get p i then 0 else run + 1)
      in if run1 = npages then Some (i + 1 - npages) else ext_scan p npages is run1)"

definition process_ext_alloc :: "nat option \<Rightarrow> u32 \<Rightarrow> process_table \<Rightarrow> u32 \<times> process_table" where
  "process_ext_alloc slot npages t =
     (case slot of None \<Rightarrow> (0, t)
      | Some s \<Rightarrow>
          if npages = 0 \<or> unat npages > USER_EXT_PAGES then (0, t)
          else case ext_scan (proc t s) (unat npages) [0..<USER_EXT_PAGES] 0 of None \<Rightarrow> (0, t)
            | Some first \<Rightarrow> (USER_EXT_BASE + push_bit 12 (of_nat first),
                set_proc s (fold (\<lambda>j. ext_bit_set j True) [first..<first + unat npages]) t))"

definition process_ext_free :: "nat option \<Rightarrow> u32 \<Rightarrow> u32 \<Rightarrow> process_table \<Rightarrow> int \<times> process_table" where
  "process_ext_free slot vaddr npages t =
     (case slot of None \<Rightarrow> (- 1, t)
      | Some s \<Rightarrow>
          if npages = 0 \<or> vaddr AND 0xFFF \<noteq> 0 then (- 1, t)
          else if vaddr < USER_EXT_BASE \<or> vaddr \<ge> USER_EXT_TOP then (- 1, t)
          else
            let first = unat (drop_bit 12 (vaddr - USER_EXT_BASE)) in
            if unat npages > USER_EXT_PAGES - first then (- 1, t)
            else if \<exists>i \<in> set [first..<first + unat npages]. \<not> ext_bit_get (proc t s) i then (- 1, t)
            else (0, set_proc s (fold (\<lambda>i. ext_bit_set i False) [first..<first + unat npages]) t))"

section \<open>The environment\<close>

definition env_copy :: "string \<Rightarrow> nat \<Rightarrow> string" where
  "env_copy src n = take (n - 1) src"

text \<open>The position of a key among the variables of a process.\<close>

definition env_index :: "process \<Rightarrow> string \<Rightarrow> nat option" where
  "env_index p key = find (\<lambda>i. fst (pr_env p ! i) = key) [0..<length (pr_env p)]"

definition process_setenv :: "nat option \<Rightarrow> string option \<Rightarrow> string option \<Rightarrow> process_table \<Rightarrow> int \<times> process_table" where
  "process_setenv current key val t =
     (case (current, key, val) of
        (Some s, Some k, Some v) \<Rightarrow>
          if k = '''' then (- 1, t)
          else if length k \<ge> ENV_KEY_MAX \<or> length v \<ge> ENV_VAL_MAX then (- 1, t)
          else (case env_index (proc t s) k of
              Some i \<Rightarrow> (0, set_proc s (\<lambda>p. p\<lparr>pr_env := (pr_env p)[i := (fst (pr_env p ! i), env_copy v ENV_VAL_MAX)]\<rparr>) t)
            | None \<Rightarrow>
                if length (pr_env (proc t s)) \<ge> ENV_MAX then (- 1, t)
                else (0, set_proc s (\<lambda>p. p\<lparr>pr_env := pr_env p @ [(env_copy k ENV_KEY_MAX, env_copy v ENV_VAL_MAX)]\<rparr>) t))
      | _ \<Rightarrow> (- 1, t))"

text \<open>The result and the string left in the buffer; \<open>buf\<close> tells whether there is one.\<close>

definition process_getenv :: "nat option \<Rightarrow> string option \<Rightarrow> bool \<Rightarrow> u32 \<Rightarrow> process_table \<Rightarrow> int \<times> string option" where
  "process_getenv current key buf sz t =
     (case (current, key) of
        (Some s, Some k) \<Rightarrow>
          if \<not> buf \<or> sz = 0 then (- 1, None)
          else (case env_index (proc t s) k of None \<Rightarrow> (- 1, None)
            | Some i \<Rightarrow> let v = env_copy (snd (pr_env (proc t s) ! i)) (unat sz) in (int (length v), Some v))
      | _ \<Rightarrow> (- 1, None))"

section \<open>Well-formed tables\<close>

text \<open>
  What the fields of a slot satisfy: strings fit their arrays with the terminator, the arrays have
  their lengths, a slot in use knows its number and has a positive pid, a free one is cleared.
\<close>

definition process_ok :: "nat \<Rightarrow> process \<Rightarrow> bool" where
  "process_ok i p \<longleftrightarrow> pr_slot p < MAX_PROCESSES \<and> length (pr_name p) < PROCESS_NAME_MAX \<and> length (pr_cwd p) < PROCESS_CWD_MAX \<and>
     length (pr_ext_map p) = USER_EXT_PAGES div 32 \<and> length (pr_sig_handler p) = NSIG \<and> length (pr_env p) \<le> ENV_MAX \<and>
     distinct (map fst (pr_env p)) \<and>
     (\<forall>(k, v) \<in> set (pr_env p). k \<noteq> '''' \<and> length k < ENV_KEY_MAX \<and> length v < ENV_VAL_MAX) \<and>
     (if pr_state p = PROCESS_UNUSED then p = zero_process (pr_slot p) else pr_slot p = i \<and> 1 \<le> pr_pid p \<and> pr_pid p \<le> INT32_MAX)"

definition in_use :: "process_table \<Rightarrow> nat \<Rightarrow> bool" where
  "in_use t i \<longleftrightarrow> i < MAX_PROCESSES \<and> pr_state (proc t i) \<noteq> PROCESS_UNUSED"

definition table_ok :: "process_table \<Rightarrow> bool" where
  "table_ok t \<longleftrightarrow> length (processes t) = MAX_PROCESSES \<and> 1 \<le> pt_next_pid t \<and> pt_next_pid t \<le> INT32_MAX \<and>
     (\<forall>i < MAX_PROCESSES. process_ok i (proc t i)) \<and>
     (\<forall>i j. in_use t i \<and> in_use t j \<and> pr_pid (proc t i) = pr_pid (proc t j) \<longrightarrow> i = j)"

lemma table_okD:
  assumes "table_ok t"
  shows "length (processes t) = MAX_PROCESSES" "1 \<le> pt_next_pid t" "pt_next_pid t \<le> INT32_MAX" "\<And>i. i < MAX_PROCESSES \<Longrightarrow> process_ok i (proc t i)"
    "\<And>i j. in_use t i \<Longrightarrow> in_use t j \<Longrightarrow> pr_pid (proc t i) = pr_pid (proc t j) \<Longrightarrow> i = j"
  using assms by (auto simp: table_ok_def)

lemma in_use_pid: "table_ok t \<Longrightarrow> in_use t i \<Longrightarrow> 1 \<le> pr_pid (proc t i) \<and> pr_pid (proc t i) \<le> INT32_MAX \<and> pr_slot (proc t i) = i"
  using table_okD(4) [of t i] by (simp add: in_use_def process_ok_def)

lemma set_proc_simps [simp]:
  "pt_next_pid (set_proc i f t) = pt_next_pid t" "peak_process_count (set_proc i f t) = peak_process_count t"
  "length (processes (set_proc i f t)) = length (processes t)"
  "i < length (processes t) \<Longrightarrow> proc (set_proc i f t) j = (if j = i then f (proc t i) else proc t j)"
  by (simp_all add: set_proc_def proc_def nth_list_update)

lemma zero_process_unused [simp]: "pr_state (zero_process i) = PROCESS_UNUSED" "pr_slot (zero_process i) = i"
  by (simp_all add: zero_process_def)

lemma zero_process_ok: "i < MAX_PROCESSES \<Longrightarrow> process_ok j (zero_process i)"
  unfolding process_ok_def by (simp only: zero_process_unused) (simp add: zero_process_def PROCESS_NAME_MAX_def PROCESS_CWD_MAX_def)

lemma boot_table_ok: "table_ok boot_table"
proof -
  have "proc boot_table i = zero_process 0" if "i < MAX_PROCESSES" for i
    using that by (simp add: boot_table_def proc_def)
  then show ?thesis
    using zero_process_ok [of 0] by (auto simp: table_ok_def in_use_def boot_table_def INT32_MAX_def MAX_PROCESSES_def)
qed

text \<open>A slot keeps its identity, gets a new one, or is cleared.\<close>

lemma set_proc_ok:
  assumes ok: "table_ok t" and i: "i < MAX_PROCESSES" and p: "process_ok i (f (proc t i))"
    and id: "pr_state (f (proc t i)) \<noteq> PROCESS_UNUSED \<Longrightarrow>
      pr_state (proc t i) \<noteq> PROCESS_UNUSED \<and> pr_pid (f (proc t i)) = pr_pid (proc t i) \<or>
      (\<forall>j. in_use t j \<longrightarrow> pr_pid (proc t j) \<noteq> pr_pid (f (proc t i)))"
  shows "table_ok (set_proc i f t)"
proof -
  note d = table_okD [OF ok]
  have len: "i < length (processes t)" using d(1) i by simp
  have "j = k" if jk: "in_use (set_proc i f t) j" "in_use (set_proc i f t) k" "pr_pid (proc (set_proc i f t) j) = pr_pid (proc (set_proc i f t) k)" for j k
  proof -
    have other: "in_use t m" if "in_use (set_proc i f t) m" "m \<noteq> i" for m using that len by (simp add: in_use_def)
    have own: "in_use t i \<and> pr_pid (f (proc t i)) = pr_pid (proc t i) \<or> (\<forall>j. in_use t j \<longrightarrow> pr_pid (proc t j) \<noteq> pr_pid (f (proc t i)))"
      if "in_use (set_proc i f t) i" using id that len i by (auto simp: in_use_def)
    show ?thesis
    proof (cases "j = i"; cases "k = i")
      assume "j = i" "k \<noteq> i"
      then show ?thesis using own jk len other [OF jk(2)] d(5) [of i k] by auto
    next
      assume "j \<noteq> i" "k = i"
      then show ?thesis using own jk len other [OF jk(1)] d(5) [of j i] by auto
    next
      assume "j \<noteq> i" "k \<noteq> i"
      then show ?thesis using jk len other [OF jk(1)] other [OF jk(2)] d(5) [of j k] by simp
    qed simp
  qed
  then show ?thesis using d(1-4) p len by (simp add: table_ok_def)
qed

lemma release_ok: "table_ok t \<Longrightarrow> i < MAX_PROCESSES \<Longrightarrow> table_ok (process_release i t)"
  unfolding process_release_def
  by (rule set_proc_ok) (use table_okD(4) [of t i] in \<open>simp_all add: zero_process_ok process_ok_def [of i "proc t i"]\<close>)

text \<open>An update that touches neither the identity nor the lengths of a slot in use.\<close>

definition harmless :: "(process \<Rightarrow> process) \<Rightarrow> bool" where
  "harmless f \<longleftrightarrow> (\<forall>i p. process_ok i p \<and> pr_state p \<noteq> PROCESS_UNUSED \<longrightarrow>
     process_ok i (f p) \<and> pr_state (f p) \<noteq> PROCESS_UNUSED \<and> pr_pid (f p) = pr_pid p)"

lemma harmless_ok:
  assumes "table_ok t" "in_use t i" "harmless f"
  shows "table_ok (set_proc i f t)"
  using assms table_okD(4) [OF assms(1), of i] by (intro set_proc_ok) (auto simp: harmless_def in_use_def)

lemma process_find_Some: "process_find pid t = Some i \<Longrightarrow> in_use t i \<and> pr_pid (proc t i) = pid"
  by (auto simp: process_find_def in_use_def find_Some_iff)

lemma process_find_None: "process_find pid t = None \<longleftrightarrow> (\<forall>i. in_use t i \<longrightarrow> pr_pid (proc t i) \<noteq> pid)"
  by (auto simp: process_find_def in_use_def find_None_iff)

lemma process_find_own:
  assumes "table_ok t" "in_use t i"
  shows "process_find (pr_pid (proc t i)) t = Some i"
proof (cases "process_find (pr_pid (proc t i)) t")
  case None
  then show ?thesis using assms(2) by (auto simp: process_find_None)
next
  case (Some j)
  then show ?thesis using process_find_Some [OF Some] table_okD(5) [OF assms(1), of j i] assms(2) by simp
qed

section \<open>Numbering\<close>

text \<open>The \<open>j\<close>-th number the counter gives out from now on.\<close>

definition pid_after :: "int \<Rightarrow> nat \<Rightarrow> int" where
  "pid_after n j = (n - 1 + int j) mod INT32_MAX + 1"

lemma pid_after_0: "1 \<le> n \<Longrightarrow> n \<le> INT32_MAX \<Longrightarrow> pid_after n 0 = n"
  by (simp add: pid_after_def INT32_MAX_def)

lemma pid_after_Suc:
  assumes "1 \<le> n" "n \<le> INT32_MAX"
  shows "pid_after (if n = INT32_MAX then 1 else n + 1) j = pid_after n (Suc j)"
proof (cases "n = INT32_MAX")
  case True
  have "(INT32_MAX - 1 + (1 + int j)) mod INT32_MAX = (int j + 1 * INT32_MAX) mod INT32_MAX" by (simp add: algebra_simps)
  then show ?thesis using True by (simp only: pid_after_def mod_mult_self1) (simp add: algebra_simps)
qed (simp add: pid_after_def algebra_simps)

lemma pid_after_range: "1 \<le> pid_after n j \<and> pid_after n j \<le> INT32_MAX"
  using pos_mod_bound [of INT32_MAX "n - 1 + int j"] pos_mod_sign [of INT32_MAX "n - 1 + int j"] by (simp add: pid_after_def INT32_MAX_def)

lemma pid_after_inj: "inj_on (pid_after n) {..<16}"
proof (rule inj_onI)
  fix a b
  assume ab: "a \<in> {..<16}" "b \<in> {..<16}" and eq: "pid_after n a = pid_after n b"
  have "INT32_MAX dvd (n - 1 + int a) - (n - 1 + int b)" using eq by (simp add: pid_after_def mod_eq_dvd_iff)
  then have d: "INT32_MAX dvd int a - int b" by (simp add: algebra_simps)
  show "a = b"
  proof (rule ccontr)
    assume "a \<noteq> b"
    then have "INT32_MAX \<le> \<bar>int a - int b\<bar>" using d by (metis abs_of_nonneg dvd_imp_le_int eq_iff_diff_eq_0 INT32_MAX_def of_nat_eq_iff zero_le_numeral)
    then show False using ab by (simp add: INT32_MAX_def)
  qed
qed

lemma process_find_cong [simp]: "process_find pid (t\<lparr>pt_next_pid := n\<rparr>) = process_find pid t" "proc (t\<lparr>pt_next_pid := n\<rparr>) i = proc t i"
  by (simp_all add: process_find_def proc_def)

lemma pid_loop_spec:
  assumes "1 \<le> pt_next_pid t" "pt_next_pid t \<le> INT32_MAX" "m < n" "process_find (pid_after (pt_next_pid t) m) t = None"
  shows "\<exists>j \<le> m. pid_loop n t = (pid_after (pt_next_pid t) j, t\<lparr>pt_next_pid := pid_after (pt_next_pid t) (Suc j)\<rparr>) \<and>
    process_find (pid_after (pt_next_pid t) j) t = None"
  using assms
proof (induction n arbitrary: t m)
  case (Suc n)
  let ?n = "pt_next_pid t"
  let ?n1 = "if ?n = INT32_MAX then 1 else ?n + 1"
  let ?t1 = "t\<lparr>pt_next_pid := ?n1\<rparr>"
  have n1: "1 \<le> ?n1" "?n1 \<le> INT32_MAX" using Suc.prems(1,2) by (auto simp: INT32_MAX_def)
  have next1: "pid_after ?n (Suc 0) = ?n1" using pid_after_Suc [OF Suc.prems(1,2), of 0] pid_after_0 [OF n1] by simp
  show ?case
  proof (cases "process_find ?n t = None")
    case True
    then show ?thesis using next1 pid_after_0 [OF Suc.prems(1,2)] by (intro exI [of _ 0]) (simp add: Let_def)
  next
    case False
    then obtain m' where m': "m = Suc m'" using Suc.prems(4) pid_after_0 [OF Suc.prems(1,2)] by (cases m) auto
    have "process_find (pid_after ?n1 m') ?t1 = None" using Suc.prems(4) m' pid_after_Suc [OF Suc.prems(1,2), of m'] by simp
    then obtain j where j: "j \<le> m'" "pid_loop n ?t1 = (pid_after ?n1 j, ?t1\<lparr>pt_next_pid := pid_after ?n1 (Suc j)\<rparr>)"
      "process_find (pid_after ?n1 j) ?t1 = None"
      using Suc.IH [of ?t1 m'] n1 Suc.prems(3) m' by auto
    have "pid_loop (Suc n) t = (pid_after ?n (Suc j), t\<lparr>pt_next_pid := pid_after ?n (Suc (Suc j))\<rparr>)"
      using False j(2) pid_after_Suc [OF Suc.prems(1,2), of j] pid_after_Suc [OF Suc.prems(1,2), of "Suc j"] by (auto simp: Let_def split: if_splits)
    moreover have "process_find (pid_after ?n (Suc j)) t = None" using j(3) pid_after_Suc [OF Suc.prems(1,2), of j] by simp
    ultimately show ?thesis using j(1) m' by (intro exI [of _ "Suc j"]) simp
  qed
qed simp

text \<open>With a slot free, fifteen processes cannot hold sixteen numbers.\<close>

lemma pid_available:
  assumes ok: "table_ok t" and f: "f < MAX_PROCESSES" "\<not> in_use t f"
  obtains m where "m < MAX_PROCESSES" "process_find (pid_after (pt_next_pid t) m) t = None"
proof (rule ccontr)
  assume "\<not> thesis"
  with that have all: "\<exists>i. in_use t i \<and> pr_pid (proc t i) = pid_after (pt_next_pid t) m" if "m < 16" for m
    using that by (auto simp: process_find_None MAX_PROCESSES_def)
  have sub: "pid_after (pt_next_pid t) ` {..<16} \<subseteq> (\<lambda>i. pr_pid (proc t i)) ` ({..<16} - {f})"
  proof (rule image_subsetI)
    fix m :: nat assume "m \<in> {..<16}"
    then obtain i where "in_use t i" "pr_pid (proc t i) = pid_after (pt_next_pid t) m" using all by auto
    then show "pid_after (pt_next_pid t) m \<in> (\<lambda>i. pr_pid (proc t i)) ` ({..<16} - {f})"
      using f(2) by (intro image_eqI [of _ _ i]) (auto simp: in_use_def MAX_PROCESSES_def)
  qed
  have "card (pid_after (pt_next_pid t) ` {..<16}) \<le> card ((\<lambda>i. pr_pid (proc t i)) ` ({..<16} - {f}))" using sub by (intro card_mono) simp_all
  also have "\<dots> \<le> card ({..<16} - {f})" by (rule card_image_le) simp
  also have "\<dots> = 15" using f(1) by (simp add: MAX_PROCESSES_def)
  finally show False using card_image [OF pid_after_inj, of "pt_next_pid t"] by simp
qed

lemma find_least: "find P [0..<n] = Some i \<longleftrightarrow> i < n \<and> P i \<and> (\<forall>j < i. \<not> P j)"
  by (auto simp: find_Some_iff)

lemma process_allocate_spec:
  assumes ok: "table_ok t" and f: "f < MAX_PROCESSES" "\<not> in_use t f"
  shows "\<exists>i t'. process_allocate ppid t = (Some i, t') \<and> i < MAX_PROCESSES \<and> \<not> in_use t i \<and> (\<forall>j < i. in_use t j) \<and> table_ok t' \<and>
    (\<forall>j. in_use t j \<longrightarrow> pr_pid (proc t j) \<noteq> pr_pid (proc t' i)) \<and>
    proc t' i = (zero_process i)\<lparr>pr_pid := pr_pid (proc t' i), pr_parent_pid := ppid, pr_state := PROCESS_RUNNING, pr_cwd := ''/''\<rparr> \<and>
    (\<forall>j. j \<noteq> i \<longrightarrow> proc t' j = proc t j)"
proof -
  note d = table_okD [OF ok]
  obtain m where "m < MAX_PROCESSES" "process_find (pid_after (pt_next_pid t) m) t = None" using pid_available [OF ok f] .
  then obtain j where j: "process_allocate_pid t = (pid_after (pt_next_pid t) j, t\<lparr>pt_next_pid := pid_after (pt_next_pid t) (Suc j)\<rparr>)"
    "process_find (pid_after (pt_next_pid t) j) t = None"
    using pid_loop_spec [OF d(2,3)] by (auto simp: process_allocate_pid_def)
  define pid where "pid = pid_after (pt_next_pid t) j"
  define t1 where "t1 = t\<lparr>pt_next_pid := pid_after (pt_next_pid t) (Suc j)\<rparr>"
  have pid: "1 \<le> pid" "pid \<le> INT32_MAX" using pid_after_range by (simp_all add: pid_def)
  obtain i where i: "find (\<lambda>i. pr_state (proc t i) = PROCESS_UNUSED) [0..<MAX_PROCESSES] = Some i"
    using f by (cases "find (\<lambda>i. pr_state (proc t i) = PROCESS_UNUSED) [0..<MAX_PROCESSES]") (auto simp: find_None_iff in_use_def)
  have fi: "i < MAX_PROCESSES" "pr_state (proc t i) = PROCESS_UNUSED" "\<forall>j < i. pr_state (proc t j) \<noteq> PROCESS_UNUSED"
    using i by (auto simp: find_least)
  let ?new = "(zero_process i)\<lparr>pr_pid := pid, pr_parent_pid := ppid, pr_state := PROCESS_RUNNING, pr_cwd := ''/''\<rparr>"
  let ?t' = "set_proc i (\<lambda>_. ?new) t1"
  have t1: "table_ok t1" "in_use t1 = in_use t" "processes t1 = processes t"
    using ok pid_after_range by (auto simp: t1_def table_ok_def in_use_def fun_eq_iff)
  have len: "i < length (processes t1)" using fi(1) d(1) t1(3) by simp
  have "process_ok i ?new" using zero_process_ok [OF fi(1), of i] pid fi(1) by (simp add: process_ok_def PROCESS_CWD_MAX_def)
  moreover have "\<forall>j. in_use t j \<longrightarrow> pr_pid (proc t1 j) \<noteq> pid" using j(2) by (simp add: process_find_None pid_def t1_def)
  ultimately have "table_ok ?t'" using t1(1,2) fi(1) by (intro set_proc_ok) auto
  moreover have "process_allocate ppid t = (Some i, ?t')"
    using i j(1) pid by (simp add: process_allocate_def Let_def flip: pid_def t1_def)
  moreover have "proc t1 = proc t" by (rule ext) (simp add: t1_def)
  ultimately show ?thesis using fi len \<open>\<forall>j. in_use t j \<longrightarrow> pr_pid (proc t1 j) \<noteq> pid\<close> by (intro exI [of _ i] exI [of _ ?t']) (auto simp: in_use_def)
qed

lemma process_allocate_full: "(\<And>i. i < MAX_PROCESSES \<Longrightarrow> in_use t i) \<Longrightarrow> process_allocate ppid t = (None, t)"
  by (auto simp: process_allocate_def find_Some_iff in_use_def split: option.split)

section \<open>Reserved pages\<close>

text \<open>The pages reserved in the \<open>mmap\<close> region.\<close>

definition ext_set :: "process \<Rightarrow> nat set" where
  "ext_set p = {i. i < USER_EXT_PAGES \<and> ext_bit_get p i}"

lemma ext_bit_get_bit: "ext_bit_get p i \<longleftrightarrow> bit (pr_ext_map p ! (i div 32)) (i mod 32)"
  by (simp add: ext_bit_get_def and_one_eq bit_iff_odd_drop_bit flip: even_iff_mod_2_eq_zero)

lemma ext_bit_set_get:
  assumes "i < USER_EXT_PAGES" "j < USER_EXT_PAGES" "length (pr_ext_map p) = USER_EXT_PAGES div 32"
  shows "ext_bit_get (ext_bit_set i v p) j = (if j = i then v else ext_bit_get p j)"
proof -
  have w: "i div 32 < length (pr_ext_map p)" using assms(1,3) by (simp add: USER_EXT_PAGES_def)
  have same: "j div 32 = i div 32 \<Longrightarrow> j mod 32 = i mod 32 \<Longrightarrow> j = i" by (metis div_mult_mod_eq)
  have m: "i mod 32 < 32" "j mod 32 < 32" by simp_all
  show ?thesis
  proof (cases "j div 32 = i div 32")
    case True
    then show ?thesis using w same m by (auto simp: ext_bit_get_bit ext_bit_set_def Let_def bit_simps)
  next
    case False
    then show ?thesis using w by (auto simp: ext_bit_get_bit ext_bit_set_def Let_def)
  qed
qed

lemma ext_bit_set_keeps [simp]: "length (pr_ext_map (ext_bit_set i v p)) = length (pr_ext_map p)" "(ext_bit_set i v p)\<lparr>pr_ext_map := m\<rparr> = p\<lparr>pr_ext_map := m\<rparr>"
  by (simp_all add: ext_bit_set_def Let_def)

lemma fold_ext_set:
  assumes "\<forall>i \<in> set is. i < USER_EXT_PAGES" "length (pr_ext_map p) = USER_EXT_PAGES div 32"
  shows "length (pr_ext_map (fold (\<lambda>i. ext_bit_set i v) is p)) = USER_EXT_PAGES div 32 \<and>
    (fold (\<lambda>i. ext_bit_set i v) is p)\<lparr>pr_ext_map := m\<rparr> = p\<lparr>pr_ext_map := m\<rparr> \<and>
    (\<forall>j < USER_EXT_PAGES. ext_bit_get (fold (\<lambda>i. ext_bit_set i v) is p) j = (if j \<in> set is then v else ext_bit_get p j))"
  using assms
proof (induction "is" arbitrary: p)
  case (Cons i "is")
  have "length (pr_ext_map (ext_bit_set i v p)) = USER_EXT_PAGES div 32" using Cons.prems(2) by simp
  from Cons.IH [OF _ this] Cons.prems show ?case by (auto simp: ext_bit_set_get)
qed simp

text \<open>A process is determined by its pages and its other fields.\<close>

lemma process_ext_eq:
  assumes "length (pr_ext_map p) = USER_EXT_PAGES div 32" "length (pr_ext_map q) = USER_EXT_PAGES div 32"
    "p\<lparr>pr_ext_map := []\<rparr> = q\<lparr>pr_ext_map := []\<rparr>" "\<forall>j < USER_EXT_PAGES. ext_bit_get p j = ext_bit_get q j"
  shows "p = q"
proof -
  have "pr_ext_map p ! w = pr_ext_map q ! w" if w: "w < USER_EXT_PAGES div 32" for w
  proof (rule bit_word_eqI)
    fix n assume n: "n < LENGTH(32)"
    then have "w * 32 + n < USER_EXT_PAGES" using w by (simp add: USER_EXT_PAGES_def)
    then show "bit (pr_ext_map p ! w) n = bit (pr_ext_map q ! w) n" using assms(4) n by (force simp: ext_bit_get_bit)
  qed
  then have "pr_ext_map p = pr_ext_map q" using assms(1,2) by (intro nth_equalityI) simp_all
  then show ?thesis using assms(3) by (cases p; cases q) simp
qed

text \<open>The scan gives the lowest run, as the one of the physical memory manager does.\<close>

definition free_at :: "process \<Rightarrow> nat \<Rightarrow> nat \<Rightarrow> bool" where
  "free_at p n f \<longleftrightarrow> f + n \<le> USER_EXT_PAGES \<and> (\<forall>i. f \<le> i \<and> i < f + n \<longrightarrow> \<not> ext_bit_get p i)"

lemma ext_scan_spec:
  assumes "0 < n" "run < n" "run \<le> i" "i + length js = USER_EXT_PAGES" "js = [i..<USER_EXT_PAGES]"
    "\<forall>k. i - run \<le> k \<and> k < i \<longrightarrow> \<not> ext_bit_get p k" "\<forall>f < i - run. \<not> free_at p n f"
  shows "case ext_scan p n js run of None \<Rightarrow> (\<forall>f. \<not> free_at p n f) | Some f \<Rightarrow> free_at p n f \<and> (\<forall>g < f. \<not> free_at p n g)"
  using assms
proof (induction js arbitrary: i run)
  case Nil
  have "\<not> free_at p n f" for f
  proof (cases "f < i - run")
    case False
    then show ?thesis using Nil.prems(2,4) by (auto simp: free_at_def)
  qed (use Nil.prems(7) in simp)
  then show ?case by simp
next
  case (Cons j js)
  have lt: "i < USER_EXT_PAGES" using Cons.prems(4) by simp
  then have j: "j = i" "js = [Suc i..<USER_EXT_PAGES]" "i < USER_EXT_PAGES" using Cons.prems(5) upt_conv_Cons [OF lt] by simp_all
  show ?case
  proof (cases "ext_bit_get p i")
    case True
    have "\<not> free_at p n f" if "f < Suc i" for f
    proof (cases "f < i - run")
      case False
      then have "f \<le> i \<and> i < f + n" using that Cons.prems(2,3) by auto
      then show ?thesis using True by (auto simp: free_at_def)
    qed (use Cons.prems(7) in simp)
    moreover have "\<forall>k. Suc i - 0 \<le> k \<and> k < Suc i \<longrightarrow> \<not> ext_bit_get p k" by auto
    ultimately show ?thesis using Cons.IH [of 0 "Suc i"] Cons.prems(1,4) j True by (simp add: Let_def)
  next
    case free: False
    have run: "\<forall>k. Suc i - Suc run \<le> k \<and> k < Suc i \<longrightarrow> \<not> ext_bit_get p k"
      using Cons.prems(6) free by (auto simp: less_Suc_eq)
    show ?thesis
    proof (cases "Suc run = n")
      case True
      have "free_at p n (i + 1 - n)" using run True Cons.prems(3) j(3) by (auto simp: free_at_def)
      moreover have "\<forall>g < i + 1 - n. \<not> free_at p n g" using Cons.prems(7) True by auto
      ultimately show ?thesis using free True j(1) by (simp add: Let_def)
    next
      case False
      then show ?thesis using Cons.IH [of "Suc run" "Suc i"] Cons.prems(1-4,7) run free j by (simp add: Let_def)
    qed
  qed
qed

lemma ext_scan_first:
  assumes "0 < n"
  shows "case ext_scan p n [0..<USER_EXT_PAGES] 0 of None \<Rightarrow> (\<forall>f. \<not> free_at p n f) | Some f \<Rightarrow> free_at p n f \<and> (\<forall>g < f. \<not> free_at p n g)"
  using ext_scan_spec [of n 0 0 "[0..<USER_EXT_PAGES]" p] assms by simp

lemma ext_reserved_iff:
  "process_ext_reserved (Some p) v \<longleftrightarrow> 0x2000000 \<le> unat v \<and> unat v < 0x2400000 \<and> (unat v - 0x2000000) div 4096 \<in> ext_set p"
proof -
  have "unat (drop_bit 12 (v - USER_EXT_BASE)) = (unat v - 0x2000000) div 4096" if "\<not> v < USER_EXT_BASE"
    using that by (simp add: drop_bit_eq_div unat_div unat_sub_no_wrap USER_EXT_BASE_def not_less)
  moreover have "unat v < 0x2400000 \<Longrightarrow> (unat v - 0x2000000) div 4096 < USER_EXT_PAGES"
    by (simp add: USER_EXT_PAGES_def div_less_iff_less_mult)
  ultimately show ?thesis
    by (auto simp: process_ext_reserved_def ext_set_def USER_EXT_BASE_def USER_EXT_TOP_def word_less_nat_alt word_le_nat_alt)
qed

text \<open>The address of a page of the region.\<close>

definition ext_addr :: "nat \<Rightarrow> u32" where
  "ext_addr f = USER_EXT_BASE + push_bit 12 (of_nat f)"

lemma unat_ext_addr:
  assumes "f < USER_EXT_PAGES"
  shows "unat (ext_addr f) = 0x2000000 + f * 4096"
proof -
  have f: "f < 1024" using assms by (simp add: USER_EXT_PAGES_def)
  have "push_bit 12 (of_nat f :: u32) = of_nat (f * 4096)" by (simp add: push_bit_eq_mult)
  moreover have "unat (of_nat (f * 4096) :: u32) = f * 4096" using f by (intro unat_of_nat32) simp
  ultimately show ?thesis using f by (simp add: ext_addr_def USER_EXT_BASE_def unat_add_no_wrap)
qed

lemma ext_addr_page:
  assumes "f < USER_EXT_PAGES"
  shows "unat (drop_bit 12 (ext_addr f - USER_EXT_BASE)) = f" "ext_addr f AND 0xFFF = 0" "USER_EXT_BASE \<le> ext_addr f" "ext_addr f < USER_EXT_TOP" "ext_addr f \<noteq> 0"
proof -
  note u = unat_ext_addr [OF assms]
  have f: "f < 1024" using assms by (simp add: USER_EXT_PAGES_def)
  show b: "USER_EXT_BASE \<le> ext_addr f" "ext_addr f < USER_EXT_TOP" "ext_addr f \<noteq> 0"
    using u f by (auto simp: word_le_nat_alt word_less_nat_alt USER_EXT_BASE_def USER_EXT_TOP_def)
  show "unat (drop_bit 12 (ext_addr f - USER_EXT_BASE)) = f"
    using u b(1) by (simp add: drop_bit_eq_div unat_div unat_sub_no_wrap USER_EXT_BASE_def)
  have "unat (ext_addr f AND 0xFFF) = unat (ext_addr f) mod 4096"
    using take_bit_eq_mask [of 12 "ext_addr f"] by (simp add: mask_eq_exp_minus_1 flip: unsigned_take_bit_eq take_bit_eq_mod [of 12 "unat (ext_addr f)", simplified])
  then show "ext_addr f AND 0xFFF = 0" using u by (simp add: unat_eq_0 mod_add_eq)
qed

lemma ext_fold_page:
  fixes v :: bool
  assumes p: "length (pr_ext_map p) = USER_EXT_PAGES div 32" and f: "f + n \<le> USER_EXT_PAGES"
  defines "q \<equiv> fold (\<lambda>i. ext_bit_set i v) [f..<f + n] p"
  shows "length (pr_ext_map q) = USER_EXT_PAGES div 32" "q\<lparr>pr_ext_map := m\<rparr> = p\<lparr>pr_ext_map := m\<rparr>"
    "\<And>j. j < USER_EXT_PAGES \<Longrightarrow> ext_bit_get q j = (if f \<le> j \<and> j < f + n then v else ext_bit_get p j)"
  using fold_ext_set [of "[f..<f + n]" p v m] p f by (auto simp: q_def)

lemma same_but_map: "q\<lparr>pr_ext_map := m\<rparr> = p\<lparr>pr_ext_map := m\<rparr> \<Longrightarrow> q = p\<lparr>pr_ext_map := pr_ext_map q\<rparr>" for p q :: process
  by (cases p; cases q) simp

lemma harmless_map: "(\<And>p. length (pr_ext_map p) = USER_EXT_PAGES div 32 \<Longrightarrow> length (g p) = USER_EXT_PAGES div 32) \<Longrightarrow> harmless (\<lambda>p. p\<lparr>pr_ext_map := g p\<rparr>)"
  by (auto simp: harmless_def process_ok_def)

lemma set_proc_cong: "f (proc t i) = g (proc t i) \<Longrightarrow> set_proc i f t = set_proc i g t"
  by (simp add: set_proc_def)

lemma set_proc_id: "f (proc t i) = proc t i \<Longrightarrow> set_proc i f t = t"
  by (simp add: set_proc_def proc_def)

lemma set_proc_twice: "i < length (processes t) \<Longrightarrow> set_proc i g (set_proc i f t) = set_proc i (\<lambda>p. g (f p)) t"
  by (simp add: set_proc_def proc_def)

lemma ext_alloc_taken:
  assumes ok: "table_ok t" and s: "in_use t s" and n: "0 < unat n" and f: "free_at (proc t s) (unat n) f"
    and scan: "ext_scan (proc t s) (unat n) [0..<USER_EXT_PAGES] 0 = Some f"
  shows "\<exists>t'. process_ext_alloc (Some s) n t = (ext_addr f, t') \<and> table_ok t' \<and> (\<forall>j. j \<noteq> s \<longrightarrow> proc t' j = proc t j) \<and>
    ext_set (proc t' s) = ext_set (proc t s) \<union> {f..<f + unat n} \<and> process_ext_free (Some s) (ext_addr f) n t' = (0, t)"
proof -
  let ?p = "proc t s"
  let ?w = "\<lambda>v. fold (\<lambda>i. ext_bit_set i v) [f..<f + unat n]"
  let ?t' = "set_proc s (?w True) t"
  have len: "length (pr_ext_map ?p) = USER_EXT_PAGES div 32" using table_okD(4) [OF ok] s by (simp add: in_use_def process_ok_def)
  have sl: "s < length (processes t)" using s table_okD(1) [OF ok] by (simp add: in_use_def)
  have fn: "f + unat n \<le> USER_EXT_PAGES" using f by (simp add: free_at_def)
  then have fp: "f < USER_EXT_PAGES" using n by simp
  note q = ext_fold_page [OF len fn, where v = True]
  note r = ext_fold_page [OF q(1) fn, where v = False]
  have alloc: "process_ext_alloc (Some s) n t = (ext_addr f, ?t')"
    using scan n fn by (simp add: process_ext_alloc_def ext_addr_def flip: unat_eq_0)
  have "?w True ?p = ?p\<lparr>pr_ext_map := pr_ext_map (?w True ?p)\<rparr>" using q(2) by (rule same_but_map)
  then have "?t' = set_proc s (\<lambda>p. p\<lparr>pr_ext_map := (if p = ?p then pr_ext_map (?w True ?p) else pr_ext_map p)\<rparr>) t" by (intro set_proc_cong) simp
  moreover have "table_ok \<dots>" using ok s q(1) by (intro harmless_ok harmless_map) auto
  ultimately have tok: "table_ok ?t'" by simp
  have undo: "?w False (?w True ?p) = ?p"
  proof (rule process_ext_eq)
    show "\<forall>j < USER_EXT_PAGES. ext_bit_get (?w False (?w True ?p)) j = ext_bit_get ?p j"
      using q(3) r(3) f by (auto simp: free_at_def)
  qed (use len r(1) r(2) [of "[]"] q(2) [of "[]"] in simp_all)
  have "process_ext_free (Some s) (ext_addr f) n ?t' = (0, set_proc s (?w False) ?t')"
    using ext_addr_page [OF fp] n fn q(3) sl
    by (auto simp: process_ext_free_def Let_def not_less not_le simp flip: unat_eq_0)
  moreover have "set_proc s (?w False) ?t' = t" using undo by (simp add: set_proc_twice [OF sl] set_proc_id)
  moreover have "ext_set (proc ?t' s) = ext_set ?p \<union> {f..<f + unat n}"
    using q(3) fn sl by (auto simp: ext_set_def split: if_splits)
  ultimately show ?thesis using alloc tok sl by (intro exI [of _ ?t']) simp
qed

lemma page_between:
  assumes "f + n \<le> USER_EXT_PAGES" "f < USER_EXT_PAGES"
  shows "(0x2000000 \<le> unat v \<and> unat v < 0x2400000 \<and> (unat v - 0x2000000) div 4096 \<in> {f..<f + n}) \<longleftrightarrow>
    unat (ext_addr f) \<le> unat v \<and> unat v < unat (ext_addr f) + n * 4096"
proof -
  define x B F N where "x = unat v" and "B = (0x2000000 :: nat)" and "F = f * 4096" and "N = n * 4096"
  have "f \<le> (x - B) div 4096 \<longleftrightarrow> F \<le> x - B" by (simp add: less_eq_div_iff_mult_less_eq F_def)
  moreover have "(x - B) div 4096 < f + n \<longleftrightarrow> x - B < F + N" by (simp add: div_less_iff_less_mult F_def N_def algebra_simps)
  moreover have "(f + n) * 4096 \<le> 1024 * 4096" using assms(1) by (intro mult_le_mono1) (simp add: USER_EXT_PAGES_def)
  then have top: "F + N \<le> 0x400000" by (simp add: F_def N_def algebra_simps)
  have "0x2400000 = B + 0x400000" by (simp add: B_def)
  ultimately have "(B \<le> x \<and> x < 0x2400000 \<and> (x - B) div 4096 \<in> {f..<f + n}) \<longleftrightarrow> B \<le> x \<and> x < B + 0x400000 \<and> F \<le> x - B \<and> x - B < F + N"
    by simp
  also have "\<dots> \<longleftrightarrow> B + F \<le> x \<and> x < B + F + N" using top by linarith
  finally show ?thesis using unat_ext_addr [OF assms(2)] by (simp only: x_def B_def F_def N_def)
qed

section \<open>The environment as a map\<close>

abbreviation env_of :: "process \<Rightarrow> string \<Rightarrow> string option" where
  "env_of p \<equiv> map_of (pr_env p)"

lemma find_map: "find P (map f xs) = map_option f (find (\<lambda>x. P (f x)) xs)"
  by (induction xs) auto

lemma find_cong: "(\<And>x. x \<in> set xs \<Longrightarrow> P x = Q x) \<Longrightarrow> find P xs = find Q xs"
  by (induction xs) auto

lemma find_key: "map_of xs k = map_option (\<lambda>i. snd (xs ! i)) (find (\<lambda>i. fst (xs ! i) = k) [0..<length xs])"
proof (induction xs)
  case (Cons x xs)
  have "find (\<lambda>i. fst ((x # xs) ! i) = k) (map Suc [0..<length xs]) = map_option Suc (find (\<lambda>i. fst (xs ! i) = k) [0..<length xs])"
    by (simp add: find_map)
  then show ?case using Cons.IH by (cases x) (simp add: upt_conv_Cons option.map_comp comp_def flip: map_Suc_upt del: upt_Suc)
qed simp

lemma env_index_key: "env_of p k = map_option (\<lambda>i. snd (pr_env p ! i)) (env_index p k)"
  by (simp add: env_index_def find_key [of "pr_env p"])

lemma env_index_Some: "env_index p k = Some i \<Longrightarrow> i < length (pr_env p) \<and> fst (pr_env p ! i) = k"
  by (auto simp: env_index_def find_Some_iff)

lemma env_replace:
  assumes "distinct (map fst xs)" "i < length xs" "fst (xs ! i) = k"
  shows "map_of (xs[i := (k, v)]) = (map_of xs)(k \<mapsto> v) \<and> map fst (xs[i := (k, v)]) = map fst xs"
  using assms
proof (induction xs arbitrary: i)
  case (Cons x xs)
  show ?case
  proof (cases i)
    case (Suc j)
    have "fst (xs ! j) \<in> fst ` set xs" using Cons.prems(2) Suc by simp
    then have "fst x \<noteq> k" using Cons.prems(1,3) Suc by (metis distinct.simps(2) list.set_map list.simps(9) nth_Cons_Suc)
    then show ?thesis using Cons.IH [of j] Cons.prems Suc by (cases x) (auto simp: fun_eq_iff)
  qed (use Cons.prems in \<open>auto simp: fun_eq_iff\<close>)
qed simp

lemma env_fit: "length k < ENV_KEY_MAX \<Longrightarrow> env_copy k ENV_KEY_MAX = k" "length v < ENV_VAL_MAX \<Longrightarrow> env_copy v ENV_VAL_MAX = v"
  by (simp_all add: env_copy_def)

text \<open>What may become of the environment of a slot in use.\<close>

lemma env_update_ok:
  assumes "table_ok t" "in_use t s" "length e \<le> ENV_MAX" "distinct (map fst e)"
    "\<forall>(k, v) \<in> set e. k \<noteq> '''' \<and> length k < ENV_KEY_MAX \<and> length v < ENV_VAL_MAX"
  shows "table_ok (set_proc s (\<lambda>p. p\<lparr>pr_env := e\<rparr>) t)"
  using assms by (intro harmless_ok) (auto simp: harmless_def process_ok_def)

lemma process_setenv_spec:
  assumes ok: "table_ok t" and s: "in_use t s"
  shows "\<exists>r t'. process_setenv (Some s) (Some k) (Some v) t = (r, t') \<and> table_ok t' \<and>
    (if r = 0 then env_of (proc t' s) = (env_of (proc t s))(k \<mapsto> v) \<and> (\<forall>j. j \<noteq> s \<longrightarrow> proc t' j = proc t j)
     else r = - 1 \<and> t' = t \<and> (k = '''' \<or> length k \<ge> ENV_KEY_MAX \<or> length v \<ge> ENV_VAL_MAX \<or>
       env_of (proc t s) k = None \<and> length (pr_env (proc t s)) = ENV_MAX))"
proof -
  let ?p = "proc t s"
  have sl: "s < length (processes t)" using s table_okD(1) [OF ok] by (simp add: in_use_def)
  have e: "length (pr_env ?p) \<le> ENV_MAX" "distinct (map fst (pr_env ?p))"
    "\<forall>(k, v) \<in> set (pr_env ?p). k \<noteq> '''' \<and> length k < ENV_KEY_MAX \<and> length v < ENV_VAL_MAX"
    using table_okD(4) [OF ok, of s] s by (simp_all add: in_use_def process_ok_def)
  show ?thesis
  proof (cases "k = '''' \<or> length k \<ge> ENV_KEY_MAX \<or> length v \<ge> ENV_VAL_MAX")
    case True
    then show ?thesis using ok by (auto simp: process_setenv_def)
  next
    case False
    then have f: "k \<noteq> ''''" "length k < ENV_KEY_MAX" "length v < ENV_VAL_MAX" by auto
    show ?thesis
    proof (cases "env_index ?p k")
      case None
      then have none: "env_of ?p k = None" by (simp add: env_index_key)
      let ?e = "pr_env ?p @ [(k, v)]"
      show ?thesis
      proof (cases "length (pr_env ?p) \<ge> ENV_MAX")
        case True
        then show ?thesis using False None none ok e(1) by (auto simp: process_setenv_def)
      next
        case room: False
        have "table_ok (set_proc s (\<lambda>p. p\<lparr>pr_env := ?e\<rparr>) t)"
          using e f none room by (intro env_update_ok [OF ok s]) (auto simp: map_of_eq_None_iff)
        moreover have "process_setenv (Some s) (Some k) (Some v) t = (0, set_proc s (\<lambda>p. p\<lparr>pr_env := ?e\<rparr>) t)"
          using f None room by (auto simp: process_setenv_def env_fit intro: set_proc_cong)
        moreover have "map_of ?e = (env_of ?p)(k \<mapsto> v)" using none by (auto simp: map_add_def fun_eq_iff split: option.splits)
        ultimately show ?thesis using sl by simp
      qed
    next
      case (Some i)
      let ?e = "(pr_env ?p)[i := (k, v)]"
      note i = env_index_Some [OF Some]
      note rep = env_replace [OF e(2) i [THEN conjunct1] i [THEN conjunct2], of v]
      have "table_ok (set_proc s (\<lambda>p. p\<lparr>pr_env := ?e\<rparr>) t)"
        using e f rep by (intro env_update_ok [OF ok s]) (auto dest!: set_update_subset_insert [THEN subsetD])
      moreover have "process_setenv (Some s) (Some k) (Some v) t = (0, set_proc s (\<lambda>p. p\<lparr>pr_env := ?e\<rparr>) t)"
        using f Some i by (auto simp: process_setenv_def env_fit intro: set_proc_cong)
      ultimately show ?thesis using sl rep by simp
    qed
  qed
qed

lemma process_getenv_spec:
  "0 < sz \<Longrightarrow> process_getenv (Some s) (Some k) True sz t =
     (case env_of (proc t s) k of None \<Rightarrow> (- 1, None) | Some v \<Rightarrow> (int (length (take (unat sz - 1) v)), Some (take (unat sz - 1) v)))"
  by (cases "env_index (proc t s) k") (auto simp: process_getenv_def env_index_key env_copy_def Let_def)

section \<open>Properties of the table\<close>

text \<open>
  C10. \<open>process_allocate\<close> gives the lowest free slot a positive pid that no process in use has, also
  after the counter has wrapped, with all other fields cleared, and touches no other slot; it fails,
  without a change, only when all sixteen slots are in use.
\<close>

theorem process_allocate_fresh:
  assumes "table_ok t"
  shows "\<exists>r t'. process_allocate ppid t = (r, t') \<and> table_ok t' \<and>
    (case r of None \<Rightarrow> t' = t \<and> (\<forall>i < MAX_PROCESSES. in_use t i)
     | Some i \<Rightarrow> i < MAX_PROCESSES \<and> \<not> in_use t i \<and> (\<forall>j < i. in_use t j) \<and> 1 \<le> pr_pid (proc t' i) \<and> pr_pid (proc t' i) \<le> INT32_MAX \<and>
         (\<forall>j. in_use t j \<longrightarrow> pr_pid (proc t j) \<noteq> pr_pid (proc t' i)) \<and>
         proc t' i = (zero_process i)\<lparr>pr_pid := pr_pid (proc t' i), pr_parent_pid := ppid, pr_state := PROCESS_RUNNING, pr_cwd := ''/''\<rparr> \<and>
         (\<forall>j. j \<noteq> i \<longrightarrow> proc t' j = proc t j))"
proof (cases "\<forall>i < MAX_PROCESSES. in_use t i")
  case True
  then show ?thesis using process_allocate_full [of t ppid] assms by simp
next
  case False
  then obtain f where "f < MAX_PROCESSES" "\<not> in_use t f" by blast
  from process_allocate_spec [OF assms this, of ppid] obtain i t' where a: "process_allocate ppid t = (Some i, t')" "i < MAX_PROCESSES" "\<not> in_use t i"
    "\<forall>j < i. in_use t j" "table_ok t'" "\<forall>j. in_use t j \<longrightarrow> pr_pid (proc t j) \<noteq> pr_pid (proc t' i)"
    "proc t' i = (zero_process i)\<lparr>pr_pid := pr_pid (proc t' i), pr_parent_pid := ppid, pr_state := PROCESS_RUNNING, pr_cwd := ''/''\<rparr>"
    "\<forall>j. j \<noteq> i \<longrightarrow> proc t' j = proc t j" by blast
  have "pr_state (proc t' i) = PROCESS_RUNNING" by (subst a(7)) simp
  then have "in_use t' i" using a(2) by (simp add: in_use_def)
  then show ?thesis using a in_use_pid [OF a(5), of i] by (intro exI [of _ "Some i"] exI [of _ t']) simp
qed

text \<open>
  C11. \<open>process_ext_alloc\<close> reserves the lowest run of free pages of the \<open>mmap\<close> region, so that
  \<open>process_ext_reserved\<close> holds of exactly the addresses of the run and those reserved before; it fails
  without a change only when no run is long enough. \<open>process_ext_free\<close> of the run gives back the table.
\<close>

theorem process_ext_alloc_lowest:
  assumes "table_ok t" "in_use t s"
  shows "\<exists>a t'. process_ext_alloc (Some s) n t = (a, t') \<and> table_ok t' \<and>
    (if a = 0 then t' = t \<and> (n = 0 \<or> (\<forall>f. \<not> free_at (proc t s) (unat n) f))
     else (\<forall>v. process_ext_reserved (Some (proc t' s)) v \<longleftrightarrow>
             process_ext_reserved (Some (proc t s)) v \<or> unat a \<le> unat v \<and> unat v < unat a + unat n * 4096) \<and>
          (\<forall>v. unat a \<le> unat v \<and> unat v < unat a + unat n * 4096 \<longrightarrow>
             USER_EXT_BASE \<le> v \<and> v < USER_EXT_TOP \<and> \<not> process_ext_reserved (Some (proc t s)) v) \<and>
          (\<forall>f. free_at (proc t s) (unat n) f \<longrightarrow> a \<le> ext_addr f) \<and>
          process_ext_free (Some s) a n t' = (0, t))"
proof (cases "n = 0 \<or> (\<forall>f. \<not> free_at (proc t s) (unat n) f)")
  case True
  then have "process_ext_alloc (Some s) n t = (0, t)"
    using ext_scan_first [of "unat n" "proc t s"] by (auto simp: process_ext_alloc_def unat_gt_0 split: option.splits)
  then show ?thesis using True assms(1) by auto
next
  case False
  then have n: "0 < unat n" by (simp add: unat_gt_0)
  obtain f where f: "ext_scan (proc t s) (unat n) [0..<USER_EXT_PAGES] 0 = Some f" "free_at (proc t s) (unat n) f" "\<forall>g < f. \<not> free_at (proc t s) (unat n) g"
    using ext_scan_first [OF n, of "proc t s"] False by (auto split: option.splits)
  have fn: "f + unat n \<le> USER_EXT_PAGES" "f < USER_EXT_PAGES" using f(2) n by (auto simp: free_at_def)
  obtain t' where t': "process_ext_alloc (Some s) n t = (ext_addr f, t')" "table_ok t'"
    "ext_set (proc t' s) = ext_set (proc t s) \<union> {f..<f + unat n}" "process_ext_free (Some s) (ext_addr f) n t' = (0, t)"
    using ext_alloc_taken [OF assms n f(2,1)] by blast
  have inside: "0x2000000 \<le> unat v \<and> unat v < 0x2400000 \<and> (unat v - 0x2000000) div 4096 \<in> {f..<f + unat n}"
    if "unat (ext_addr f) \<le> unat v \<and> unat v < unat (ext_addr f) + unat n * 4096" for v :: u32
    using page_between [OF fn, of v] that by blast
  have "process_ext_reserved (Some (proc t' s)) v \<longleftrightarrow>
      process_ext_reserved (Some (proc t s)) v \<or> unat (ext_addr f) \<le> unat v \<and> unat v < unat (ext_addr f) + unat n * 4096" for v
    unfolding ext_reserved_iff t'(3) page_between [OF fn, of v, symmetric] by blast
  moreover have "USER_EXT_BASE \<le> v \<and> v < USER_EXT_TOP \<and> \<not> process_ext_reserved (Some (proc t s)) v"
    if "unat (ext_addr f) \<le> unat v \<and> unat v < unat (ext_addr f) + unat n * 4096" for v
    using inside [OF that] f(2) by (auto simp: ext_reserved_iff ext_set_def free_at_def USER_EXT_BASE_def USER_EXT_TOP_def word_le_nat_alt word_less_nat_alt)
  moreover have "ext_addr f \<le> ext_addr g" if g: "free_at (proc t s) (unat n) g" for g
  proof -
    have "g < USER_EXT_PAGES" "f \<le> g" using g n f(3) by (auto simp: free_at_def not_less [symmetric])
    then show ?thesis using unat_ext_addr [of f] unat_ext_addr [of g] fn(2) by (simp add: word_le_nat_alt)
  qed
  ultimately show ?thesis using t'(1,2,4) ext_addr_page(5) [OF fn(2)] by (intro exI [of _ "ext_addr f"] exI [of _ t']) simp
qed


section \<open>A table with one process\<close>

definition table_one :: process_table where
  "table_one = snd (process_allocate 0 boot_table)"

lemma table_one_ok: "table_ok table_one" "in_use table_one 0"
proof -
  have free: "\<not> in_use boot_table i" if "i < MAX_PROCESSES" for i using that by (simp add: in_use_def boot_table_def proc_def)
  have 0: "0 < MAX_PROCESSES" by (simp add: MAX_PROCESSES_def)
  from process_allocate_spec [OF boot_table_ok 0 free [OF 0], of 0] obtain i t' where a: "process_allocate 0 boot_table = (Some i, t')"
    "\<forall>j < i. in_use boot_table j" "i < MAX_PROCESSES" "table_ok t'"
    "proc t' i = (zero_process i)\<lparr>pr_pid := pr_pid (proc t' i), pr_parent_pid := 0, pr_state := PROCESS_RUNNING, pr_cwd := ''/''\<rparr>"
    by blast
  have "pr_state (proc t' i) = PROCESS_RUNNING" by (subst a(5)) simp
  moreover have "i = 0" using a(2,3) free [of 0] by (cases i) (auto simp: MAX_PROCESSES_def)
  ultimately show "table_ok table_one" "in_use table_one 0" using a by (simp_all add: table_one_def in_use_def)
qed

theorem process_allocate_fresh_witness: "\<exists>r t'. process_allocate 1 table_one = (r, t') \<and> table_ok t'"
  using process_allocate_fresh [OF table_one_ok(1), of 1] by blast

theorem process_ext_alloc_lowest_witness: "\<exists>a t'. process_ext_alloc (Some 0) 3 table_one = (a, t') \<and> table_ok t'"
  using process_ext_alloc_lowest [OF table_one_ok, of 3] by blast


end
