(* ===== verification/Pipe.thy ===== *)
theory Pipe
  imports Scheduler Heap "HOL-Library.Monad_Syntax"
begin

text \<open>
  The pipes between processes (src/pipe.c): a ring buffer of 4096 bytes with a count of live ends
  on either side, allocated on the kernel heap. Reads wait on the address of \<open>count\<close>, writes on
  the address of \<open>read_pos\<close>. A call that leaves the processor is modelled by the part up to the
  switch and the part that runs when the task continues; a write keeps how much it has put.

  The ring refines a byte queue; on top of that come the stream property, the life time of the
  pipe under descriptors and calls in flight, and that nobody sleeps on a pipe that is ready.
\<close>

section \<open>State\<close>

definition PIPE_BUF_SIZE :: nat where
  "PIPE_BUF_SIZE = 4096"

record pipe_t =
  buf :: "u8 list"
  read_pos :: nat
  write_pos :: nat
  count :: nat
  readers :: int
  writers :: int

record pipe_sys =
  pipes :: "ptr \<Rightarrow> pipe_t option"
  pipe_heap :: heap_state
  pipe_sched :: sched

text \<open>The outcome of a call that may block: it returns, waits, or the task ends; in the last two cases with what it has done so far.\<close>

datatype ('a, 'k) blocking = Finished 'a | Parked 'k | Died 'k

text \<open>\<open>sizeof(pipe_t)\<close> and the addresses of the fields used as wait channels.\<close>

definition sizeof_pipe :: u32 where
  "sizeof_pipe = 4116"

definition addr_read_pos :: "ptr \<Rightarrow> ptr" where
  "addr_read_pos p = p + 4096"

definition addr_count :: "ptr \<Rightarrow> ptr" where
  "addr_count p = p + 4104"

definition set_pipe :: "ptr \<Rightarrow> pipe_t \<Rightarrow> pipe_sys \<Rightarrow> pipe_sys" where
  "set_pipe p q st = st\<lparr>pipes := (pipes st)(p \<mapsto> q)\<rparr>"

definition on_sched :: "(sched \<Rightarrow> sched option) \<Rightarrow> pipe_sys \<Rightarrow> pipe_sys option" where
  "on_sched f st = map_option (\<lambda>s. st\<lparr>pipe_sched := s\<rparr>) (f (pipe_sched st))"

section \<open>Operations\<close>

definition pipe_create :: "u8 list \<Rightarrow> pipe_sys \<Rightarrow> (ptr \<times> pipe_sys) option" where
  "pipe_create junk st = do {
     (p, h) \<leftarrow> kmalloc sizeof_pipe (pipe_heap st);
     let st1 = st\<lparr>pipe_heap := h\<rparr>;
     Some (if p = NULL then (NULL, st1)
       else (p, set_pipe p \<lparr>buf = junk, read_pos = 0, write_pos = 0, count = 0, readers = 1, writers = 1\<rparr> st1))
   }"

definition pipe_free_if_done :: "ptr \<Rightarrow> pipe_sys \<Rightarrow> pipe_sys option" where
  "pipe_free_if_done p st = do {
     q \<leftarrow> pipes st p;
     if readers q = 0 \<and> writers q = 0 then do {
       h \<leftarrow> kfree p (pipe_heap st);
       Some (st\<lparr>pipe_heap := h, pipes := (pipes st)(p := None)\<rparr>)
     }
     else Some st
   }"

definition pipe_ref_read :: "ptr \<Rightarrow> pipe_sys \<Rightarrow> pipe_sys option" where
  "pipe_ref_read p st = (if p = NULL then Some st
     else do { q \<leftarrow> pipes st p; Some (set_pipe p (q\<lparr>readers := readers q + 1\<rparr>) st) })"

definition pipe_ref_write :: "ptr \<Rightarrow> pipe_sys \<Rightarrow> pipe_sys option" where
  "pipe_ref_write p st = (if p = NULL then Some st
     else do { q \<leftarrow> pipes st p; Some (set_pipe p (q\<lparr>writers := writers q + 1\<rparr>) st) })"

definition pipe_close_read :: "ptr \<Rightarrow> pipe_sys \<Rightarrow> pipe_sys option" where
  "pipe_close_read p st = (if p = NULL then Some st else do {
     q \<leftarrow> pipes st p;
     let q1 = (if readers q > 0 then q\<lparr>readers := readers q - 1\<rparr> else q);
     let st1 = set_pipe p q1 st;
     st2 \<leftarrow> (if readers q1 = 0 then on_sched (task_wake_all (addr_read_pos p)) st1 else Some st1);
     pipe_free_if_done p st2
   })"

definition pipe_close_write :: "ptr \<Rightarrow> pipe_sys \<Rightarrow> pipe_sys option" where
  "pipe_close_write p st = (if p = NULL then Some st else do {
     q \<leftarrow> pipes st p;
     let q1 = (if writers q > 0 then q\<lparr>writers := writers q - 1\<rparr> else q);
     let st1 = set_pipe p q1 st;
     st2 \<leftarrow> (if writers q1 = 0 then on_sched (task_wake_all (addr_count p)) st1 else Some st1);
     pipe_free_if_done p st2
   })"

text \<open>The kill path: drop the reference of the call in flight, then end the task.\<close>

definition pipe_die :: "(ptr \<Rightarrow> ptr \<Rightarrow> int \<Rightarrow> sched \<Rightarrow> sched option) \<Rightarrow> ptr \<Rightarrow> bool \<Rightarrow> pipe_sys \<Rightarrow> pipe_sys option" where
  "pipe_die callback p reading st = do {
     st1 \<leftarrow> (if reading then pipe_close_read p st else pipe_close_write p st);
     on_sched (task_exit callback TASK_KILL_STATUS) st1
   }"

text \<open>\<open>pipe_block_killable\<close> up to the switch, and from there on; \<open>True\<close> when the task has ended.\<close>

definition pipe_block_killable ::
  "(ptr \<Rightarrow> ptr \<Rightarrow> int \<Rightarrow> sched \<Rightarrow> sched option) \<Rightarrow> ptr \<Rightarrow> ptr \<Rightarrow> bool \<Rightarrow> pipe_sys \<Rightarrow> (bool \<times> pipe_sys) option" where
  "pipe_block_killable callback p wait_channel reading st = do {
     k \<leftarrow> task_kill_pending (pipe_sched st);
     st1 \<leftarrow> (if k then pipe_die callback p reading st else on_sched (task_block_current wait_channel) st);
     Some (k, st1)
   }"

definition pipe_block_killable_resumed ::
  "(ptr \<Rightarrow> ptr \<Rightarrow> int \<Rightarrow> sched \<Rightarrow> sched option) \<Rightarrow> ptr \<Rightarrow> bool \<Rightarrow> pipe_sys \<Rightarrow> (bool \<times> pipe_sys) option" where
  "pipe_block_killable_resumed callback p reading st = do {
     k \<leftarrow> task_kill_pending (pipe_sched st);
     st1 \<leftarrow> (if k then pipe_die callback p reading st else Some st);
     Some (k, st1)
   }"

text \<open>The copy loops.\<close>

fun drain :: "nat \<Rightarrow> pipe_t \<Rightarrow> u8 list \<times> pipe_t" where
  "drain 0 q = ([], q)"
| "drain (Suc n) q =
     (if count q > 0 then
        let (bs, q') = drain n (q\<lparr>read_pos := (read_pos q + 1) mod PIPE_BUF_SIZE, count := count q - 1\<rparr>)
        in (buf q ! read_pos q # bs, q')
      else ([], q))"

function (sequential) fill :: "u8 list \<Rightarrow> nat \<Rightarrow> pipe_t \<Rightarrow> nat \<times> pipe_t" where
  "fill data put q =
     (if put < length data \<and> count q < PIPE_BUF_SIZE then
        fill data (put + 1) (q\<lparr>buf := (buf q)[write_pos q := data ! put],
          write_pos := (write_pos q + 1) mod PIPE_BUF_SIZE, count := count q + 1\<rparr>)
      else (put, q))"
  by pat_completeness auto
termination
  by (relation "measure (\<lambda>(data, put, q). length data - put)") auto

declare fill.simps [simp del]

text \<open>\<open>pipe_read\<close> from the condition of its wait loop.\<close>

definition pipe_read_loop ::
  "(ptr \<Rightarrow> ptr \<Rightarrow> int \<Rightarrow> sched \<Rightarrow> sched option) \<Rightarrow> ptr \<Rightarrow> nat \<Rightarrow> pipe_sys \<Rightarrow>
    ((u8 list, unit) blocking \<times> pipe_sys) option" where
  "pipe_read_loop callback p len st = do {
     q \<leftarrow> pipes st p;
     if count q = 0 \<and> writers q > 0 then do {
       (dead, st1) \<leftarrow> pipe_block_killable callback p (addr_count p) True st;
       Some (if dead then Died () else Parked (), st1)
     }
     else do {
       let (bs, q1) = drain len q;
       let st1 = set_pipe p q1 st;
       st2 \<leftarrow> (if bs \<noteq> [] then on_sched (task_wake_all (addr_read_pos p)) st1 else Some st1);
       st3 \<leftarrow> pipe_close_read p st2;
       Some (Finished bs, st3)
     }
   }"

definition pipe_read ::
  "(ptr \<Rightarrow> ptr \<Rightarrow> int \<Rightarrow> sched \<Rightarrow> sched option) \<Rightarrow> ptr \<Rightarrow> ptr \<Rightarrow> nat \<Rightarrow> pipe_sys \<Rightarrow>
    ((u8 list, unit) blocking \<times> pipe_sys) option" where
  "pipe_read callback p buffer len st =
     (if p = NULL \<or> buffer = NULL \<or> len = 0 then Some (Finished [], st)
      else do {
        q \<leftarrow> pipes st p;
        pipe_read_loop callback p len (set_pipe p (q\<lparr>readers := readers q + 1\<rparr>) st)
      })"

definition pipe_read_resumed ::
  "(ptr \<Rightarrow> ptr \<Rightarrow> int \<Rightarrow> sched \<Rightarrow> sched option) \<Rightarrow> ptr \<Rightarrow> nat \<Rightarrow> pipe_sys \<Rightarrow>
    ((u8 list, unit) blocking \<times> pipe_sys) option" where
  "pipe_read_resumed callback p len st = do {
     (dead, st1) \<leftarrow> pipe_block_killable_resumed callback p True st;
     if dead then Some (Died (), st1) else pipe_read_loop callback p len st1
   }"

definition pipe_write_end :: "ptr \<Rightarrow> nat \<Rightarrow> pipe_sys \<Rightarrow> ((nat, nat) blocking \<times> pipe_sys) option" where
  "pipe_write_end p put st = do { st1 \<leftarrow> pipe_close_write p st; Some (Finished put, st1) }"

partial_function (option) pipe_write_loop ::
  "(ptr \<Rightarrow> ptr \<Rightarrow> int \<Rightarrow> sched \<Rightarrow> sched option) \<Rightarrow> ptr \<Rightarrow> u8 list \<Rightarrow> nat \<Rightarrow> pipe_sys \<Rightarrow>
    ((nat, nat) blocking \<times> pipe_sys) option" where
  "pipe_write_loop callback p data put st =
     (if put < length data then do {
        q \<leftarrow> pipes st p;
        if readers q = 0 then pipe_write_end p put st
        else if count q = PIPE_BUF_SIZE then do {
          st1 \<leftarrow> on_sched (task_wake_all (addr_count p)) st;
          (dead, st2) \<leftarrow> pipe_block_killable callback p (addr_read_pos p) False st1;
          Some (if dead then Died put else Parked put, st2)
        }
        else do {
          st1 \<leftarrow> on_sched (task_wake_all (addr_count p)) (set_pipe p (snd (fill data put q)) st);
          pipe_write_loop callback p data (fst (fill data put q)) st1
        }
      }
      else pipe_write_end p put st)"

definition pipe_write ::
  "(ptr \<Rightarrow> ptr \<Rightarrow> int \<Rightarrow> sched \<Rightarrow> sched option) \<Rightarrow> ptr \<Rightarrow> ptr \<Rightarrow> u8 list \<Rightarrow> pipe_sys \<Rightarrow>
    ((nat, nat) blocking \<times> pipe_sys) option" where
  "pipe_write callback p buffer data st =
     (if p = NULL \<or> buffer = NULL \<or> length data = 0 then Some (Finished 0, st)
      else do {
        q \<leftarrow> pipes st p;
        pipe_write_loop callback p data 0 (set_pipe p (q\<lparr>writers := writers q + 1\<rparr>) st)
      })"

definition pipe_write_resumed ::
  "(ptr \<Rightarrow> ptr \<Rightarrow> int \<Rightarrow> sched \<Rightarrow> sched option) \<Rightarrow> ptr \<Rightarrow> u8 list \<Rightarrow> nat \<Rightarrow> pipe_sys \<Rightarrow>
    ((nat, nat) blocking \<times> pipe_sys) option" where
  "pipe_write_resumed callback p data put st = do {
     (dead, st1) \<leftarrow> pipe_block_killable_resumed callback p False st;
     if dead then Some (Died put, st1) else pipe_write_loop callback p data put st1
   }"

section \<open>The ring as a queue\<close>

definition pipe_ok :: "pipe_t \<Rightarrow> bool" where
  "pipe_ok q \<longleftrightarrow> length (buf q) = PIPE_BUF_SIZE \<and> read_pos q < PIPE_BUF_SIZE \<and> count q \<le> PIPE_BUF_SIZE \<and>
     write_pos q = (read_pos q + count q) mod PIPE_BUF_SIZE \<and> 0 \<le> readers q \<and> 0 \<le> writers q"

definition contents :: "pipe_t \<Rightarrow> u8 list" where
  "contents q = map (\<lambda>i. buf q ! ((read_pos q + i) mod PIPE_BUF_SIZE)) [0..<count q]"

lemma PIPE_BUF_SIZE_pos [simp]: "0 < PIPE_BUF_SIZE"
  by (simp add: PIPE_BUF_SIZE_def)

lemma length_contents [simp]: "length (contents q) = count q"
  by (simp add: contents_def)

lemma contents_ends [simp]: "contents (q\<lparr>readers := r\<rparr>) = contents q" "contents (q\<lparr>writers := r\<rparr>) = contents q"
  by (simp_all add: contents_def)

lemma contents_pop:
  assumes "pipe_ok q" "count q > 0"
  shows "contents q = buf q ! read_pos q #
    contents (q\<lparr>read_pos := (read_pos q + 1) mod PIPE_BUF_SIZE, count := count q - 1\<rparr>)"
proof -
  have "[0..<count q] = 0 # map Suc [0..<count q - 1]" using assms(2) by (simp add: map_Suc_upt upt_conv_Cons del: upt_Suc)
  moreover have "read_pos q mod PIPE_BUF_SIZE = read_pos q" using assms(1) by (simp add: pipe_ok_def)
  ultimately show ?thesis by (simp add: contents_def mod_simps)
qed

lemma pop_ok:
  assumes "pipe_ok q" "count q > 0"
  shows "pipe_ok (q\<lparr>read_pos := (read_pos q + 1) mod PIPE_BUF_SIZE, count := count q - 1\<rparr>)"
proof -
  obtain n where "count q = Suc n" using assms(2) by (cases "count q") auto
  with assms(1) show ?thesis by (auto simp: pipe_ok_def mod_simps)
qed

lemma drain_spec:
  assumes "pipe_ok q" "drain n q = (bs, q')"
  shows "bs = take n (contents q) \<and> contents q' = drop n (contents q) \<and> pipe_ok q' \<and>
    readers q' = readers q \<and> writers q' = writers q"
  using assms
proof (induction n q arbitrary: bs q' rule: drain.induct)
  case (2 n q)
  show ?case
  proof (cases "count q > 0")
    case True
    let ?q1 = "q\<lparr>read_pos := (read_pos q + 1) mod PIPE_BUF_SIZE, count := count q - 1\<rparr>"
    obtain bs1 where bs1: "drain n ?q1 = (bs1, q')" "bs = buf q ! read_pos q # bs1"
      using 2(3) True by (auto split: prod.splits)
    from 2(1) [OF True pop_ok [OF 2(2) True] bs1(1)] bs1(2) contents_pop [OF 2(2) True] show ?thesis by simp
  next
    case False
    with 2 show ?thesis by (simp add: contents_def)
  qed
qed simp

lemma contents_push:
  assumes ok: "pipe_ok q" and room: "count q < PIPE_BUF_SIZE"
  shows "contents (q\<lparr>buf := (buf q)[write_pos q := b],
      write_pos := (write_pos q + 1) mod PIPE_BUF_SIZE, count := count q + 1\<rparr>) = contents q @ [b]"
proof -
  have neq: "(read_pos q + i) mod PIPE_BUF_SIZE \<noteq> (read_pos q + count q) mod PIPE_BUF_SIZE" if "i < count q" for i
  proof
    assume "(read_pos q + i) mod PIPE_BUF_SIZE = (read_pos q + count q) mod PIPE_BUF_SIZE"
    then have "PIPE_BUF_SIZE dvd (read_pos q + count q) - (read_pos q + i)"
      using that by (intro mod_eq_dvd_iff_nat [THEN iffD1]) auto
    with that room show False using dvd_imp_le [of PIPE_BUF_SIZE "count q - i"] by simp
  qed
  have w: "write_pos q = (read_pos q + count q) mod PIPE_BUF_SIZE" "length (buf q) = PIPE_BUF_SIZE"
    using ok by (simp_all add: pipe_ok_def)
  show ?thesis
    unfolding contents_def using neq by (auto simp: w nth_list_update) (metis order_less_irrefl)
qed

lemma push_ok:
  assumes "pipe_ok q" "count q < PIPE_BUF_SIZE"
  shows "pipe_ok (q\<lparr>buf := (buf q)[write_pos q := b],
      write_pos := (write_pos q + 1) mod PIPE_BUF_SIZE, count := count q + 1\<rparr>)"
  using assms by (auto simp: pipe_ok_def mod_simps)

lemma fill_spec:
  assumes "pipe_ok q" "put \<le> length data" "fill data put q = (put', q')"
  shows "put' = put + min (length data - put) (PIPE_BUF_SIZE - count q) \<and>
    contents q' = contents q @ take (put' - put) (drop put data) \<and> pipe_ok q' \<and>
    readers q' = readers q \<and> writers q' = writers q"
  using assms
proof (induction data put q arbitrary: put' q' rule: fill.induct)
  case (1 data put q)
  show ?case
  proof (cases "put < length data \<and> count q < PIPE_BUF_SIZE")
    case True
    let ?q1 = "q\<lparr>buf := (buf q)[write_pos q := data ! put],
      write_pos := (write_pos q + 1) mod PIPE_BUF_SIZE, count := count q + 1\<rparr>"
    have run: "fill data (put + 1) ?q1 = (put', q')"
      using "1.prems"(3) True by (simp add: fill.simps [of data put])
    have ok1: "pipe_ok ?q1" using push_ok "1.prems"(1) True by blast
    have IH: "put' = put + 1 + min (length data - (put + 1)) (PIPE_BUF_SIZE - count ?q1)"
      "contents q' = contents ?q1 @ take (put' - (put + 1)) (drop (put + 1) data)" "pipe_ok q'"
      "readers q' = readers q" "writers q' = writers q"
      using "1.IH" [OF True ok1 _ run] True by auto
    have "put' - put = Suc (put' - (put + 1))" using IH(1) by simp
    moreover have "drop put data = data ! put # drop (put + 1) data" using True by (simp add: Cons_nth_drop_Suc)
    ultimately have "contents q' = contents q @ take (put' - put) (drop put data)"
      using IH(2) contents_push [of q "data ! put"] "1.prems"(1) True by simp
    moreover have "put' = put + min (length data - put) (PIPE_BUF_SIZE - count q)" using IH(1) True by auto
    ultimately show ?thesis using IH by blast
  next
    case False
    with 1 show ?thesis by (auto simp: fill.simps [of data put] pipe_ok_def)
  qed
qed

section \<open>Operations in a sound state\<close>

text \<open>
  The pipe's block is live, the scheduler is sound, and nobody sleeps on a pipe that is ready: a
  reader waits only while the ring is empty and a write end is open, a writer only while the ring
  is full and a read end is open.
\<close>

definition waits_ok :: "ptr \<Rightarrow> pipe_sys \<Rightarrow> bool" where
  "waits_ok p st \<longleftrightarrow>
     (sched_waiting (pipe_sched st) (addr_count p) \<noteq> [] \<longrightarrow>
        (\<exists>q. pipes st p = Some q \<and> count q = 0 \<and> writers q > 0)) \<and>
     (sched_waiting (pipe_sched st) (addr_read_pos p) \<noteq> [] \<longrightarrow>
        (\<exists>q. pipes st p = Some q \<and> count q = PIPE_BUF_SIZE \<and> readers q > 0))"

definition pipe_sound :: "ptr \<Rightarrow> pipe_sys \<Rightarrow> bool" where
  "pipe_sound p st \<longleftrightarrow> p \<noteq> NULL \<and> sched_ok (pipe_sched st) \<and> heap_inv (pipe_heap st) \<and>
     (pipes st p \<noteq> None \<longrightarrow> (\<exists>n. (p, n) \<in> heap_live (pipe_heap st))) \<and> waits_ok p st"

definition drop_read :: "pipe_t \<Rightarrow> pipe_t option" where
  "drop_read q = (if readers q = 1 \<and> writers q = 0 then None else Some (q\<lparr>readers := readers q - 1\<rparr>))"

definition drop_write :: "pipe_t \<Rightarrow> pipe_t option" where
  "drop_write q = (if writers q = 1 \<and> readers q = 0 then None else Some (q\<lparr>writers := writers q - 1\<rparr>))"

definition same_ends :: "pipe_t \<Rightarrow> pipe_t \<Rightarrow> bool" where
  "same_ends q q' \<longleftrightarrow> pipe_ok q' \<and> readers q' = readers q \<and> writers q' = writers q"

lemma addr_neq [simp]: "addr_count p \<noteq> addr_read_pos p" "addr_read_pos p \<noteq> addr_count p"
  by (simp_all add: addr_count_def addr_read_pos_def)

lemma set_pipe_simps [simp]:
  "pipes (set_pipe p q st) = (pipes st)(p \<mapsto> q)" "pipe_sched (set_pipe p q st) = pipe_sched st"
  "pipe_heap (set_pipe p q st) = pipe_heap st"
  by (simp_all add: set_pipe_def)

lemma wake_all_sys:
  assumes "sched_ok (pipe_sched st)"
  shows "\<exists>s. on_sched (task_wake_all ch) st = Some (st\<lparr>pipe_sched := s\<rparr>) \<and> sched_ok s \<and>
    sched_waiting s = (sched_waiting (pipe_sched st))(ch := [])"
  using sched.wake_all_spec [OF assms, of ch] by (auto simp: on_sched_def)

lemma block_sys:
  assumes "sched_ok (pipe_sched st)"
  shows "\<exists>s. on_sched (task_block_current ch) st = Some (st\<lparr>pipe_sched := s\<rparr>) \<and> sched_ok s \<and>
    (\<forall>c. c \<noteq> ch \<longrightarrow> sched_waiting s c = sched_waiting (pipe_sched st) c)"
  using sched_block_any [OF assms, of ch] by (auto simp: on_sched_def)

lemma free_if_done_spec:
  assumes ok: "sched_ok (pipe_sched st)" "heap_inv (pipe_heap st)" and p: "p \<noteq> NULL"
    and q: "pipes st p = Some q" and live: "(p, n) \<in> heap_live (pipe_heap st)" and w: "waits_ok p st"
    and ends: "0 \<le> readers q" "0 \<le> writers q"
  shows "\<exists>st'. pipe_free_if_done p st = Some st' \<and> pipe_sound p st' \<and>
    pipes st' p = (if readers q = 0 \<and> writers q = 0 then None else Some q) \<and> pipe_sched st' = pipe_sched st"
proof (cases "readers q = 0 \<and> writers q = 0")
  case True
  obtain h where h: "kfree p (pipe_heap st) = Some h" "heap_inv h" using kheap.release_owned [OF ok(2) live] by blast
  have "sched_waiting (pipe_sched st) (addr_count p) = []" "sched_waiting (pipe_sched st) (addr_read_pos p) = []"
    using w q True by (auto simp: waits_ok_def)
  with True h q ok p show ?thesis by (simp add: pipe_free_if_done_def pipe_sound_def waits_ok_def)
next
  case False
  with q ok p live w show ?thesis by (auto simp: pipe_free_if_done_def pipe_sound_def)
qed

lemma pipe_soundD:
  assumes "pipe_sound p st"
  shows "p \<noteq> NULL" "sched_ok (pipe_sched st)" "heap_inv (pipe_heap st)" "waits_ok p st"
    "pipes st p = Some q \<Longrightarrow> \<exists>n. (p, n) \<in> heap_live (pipe_heap st)"
  using assms by (auto simp: pipe_sound_def)

lemma close_read_spec:
  assumes sound: "pipe_sound p st" and q: "pipes st p = Some q" "pipe_ok q" "readers q > 0"
  shows "\<exists>st'. pipe_close_read p st = Some st' \<and> pipe_sound p st' \<and> pipes st' p = drop_read q"
proof -
  note D = pipe_soundD [OF sound]
  obtain n where live: "(p, n) \<in> heap_live (pipe_heap st)" using D(5) q(1) by blast
  define q1 where "q1 = q\<lparr>readers := readers q - 1\<rparr>"
  have q1: "0 \<le> readers q1" "0 \<le> writers q1" using q(2,3) by (auto simp: q1_def pipe_ok_def)
  obtain s where s: "(if readers q1 = 0 then on_sched (task_wake_all (addr_read_pos p)) (set_pipe p q1 st)
      else Some (set_pipe p q1 st)) = Some (set_pipe p q1 st\<lparr>pipe_sched := s\<rparr>)" "sched_ok s"
    "sched_waiting s (addr_count p) = sched_waiting (pipe_sched st) (addr_count p)"
    "readers q1 = 0 \<Longrightarrow> sched_waiting s (addr_read_pos p) = []"
    "readers q1 \<noteq> 0 \<Longrightarrow> sched_waiting s (addr_read_pos p) = sched_waiting (pipe_sched st) (addr_read_pos p)"
    using wake_all_sys [of "set_pipe p q1 st" "addr_read_pos p"] D(2) that [of "pipe_sched st"]
    by (cases "readers q1 = 0") (auto simp: set_pipe_def)
  let ?st = "set_pipe p q1 st\<lparr>pipe_sched := s\<rparr>"
  have "waits_ok p ?st" using D(4) q s(3-5) by (cases "readers q1 = 0") (auto simp: waits_ok_def q1_def)
  then obtain st' where st': "pipe_free_if_done p ?st = Some st'" "pipe_sound p st'"
    "pipes st' p = (if readers q1 = 0 \<and> writers q1 = 0 then None else Some q1)"
    using free_if_done_spec [of ?st p q1 n] D(1,3) s(2) live q1 by auto
  have "pipe_close_read p st = Some st'"
    using D(1) q s(1) st'(1) by (simp add: pipe_close_read_def q1_def [symmetric])
  with st'(2,3) q(3) show ?thesis by (auto simp: drop_read_def q1_def)
qed

lemma close_write_spec:
  assumes sound: "pipe_sound p st" and q: "pipes st p = Some q" "pipe_ok q" "writers q > 0"
  shows "\<exists>st'. pipe_close_write p st = Some st' \<and> pipe_sound p st' \<and> pipes st' p = drop_write q"
proof -
  note D = pipe_soundD [OF sound]
  obtain n where live: "(p, n) \<in> heap_live (pipe_heap st)" using D(5) q(1) by blast
  define q1 where "q1 = q\<lparr>writers := writers q - 1\<rparr>"
  have q1: "0 \<le> readers q1" "0 \<le> writers q1" using q(2,3) by (auto simp: q1_def pipe_ok_def)
  obtain s where s: "(if writers q1 = 0 then on_sched (task_wake_all (addr_count p)) (set_pipe p q1 st)
      else Some (set_pipe p q1 st)) = Some (set_pipe p q1 st\<lparr>pipe_sched := s\<rparr>)" "sched_ok s"
    "sched_waiting s (addr_read_pos p) = sched_waiting (pipe_sched st) (addr_read_pos p)"
    "writers q1 = 0 \<Longrightarrow> sched_waiting s (addr_count p) = []"
    "writers q1 \<noteq> 0 \<Longrightarrow> sched_waiting s (addr_count p) = sched_waiting (pipe_sched st) (addr_count p)"
    using wake_all_sys [of "set_pipe p q1 st" "addr_count p"] D(2) that [of "pipe_sched st"]
    by (cases "writers q1 = 0") (auto simp: set_pipe_def)
  let ?st = "set_pipe p q1 st\<lparr>pipe_sched := s\<rparr>"
  have "waits_ok p ?st" using D(4) q s(3-5) by (cases "writers q1 = 0") (auto simp: waits_ok_def q1_def)
  then obtain st' where st': "pipe_free_if_done p ?st = Some st'" "pipe_sound p st'"
    "pipes st' p = (if readers q1 = 0 \<and> writers q1 = 0 then None else Some q1)"
    using free_if_done_spec [of ?st p q1 n] D(1,3) s(2) live q1 by auto
  have "pipe_close_write p st = Some st'"
    using D(1) q s(1) st'(1) by (simp add: pipe_close_write_def q1_def [symmetric])
  with st'(2,3) q(3) show ?thesis by (auto simp: drop_write_def q1_def)
qed

text \<open>The reference of a call in flight, on the side it works on, and the state without it.\<close>

definition drop_ref :: "bool \<Rightarrow> pipe_t \<Rightarrow> pipe_t option" where
  "drop_ref reading q = (if reading then drop_read q else drop_write q)"

definition refs :: "bool \<Rightarrow> pipe_t \<Rightarrow> int" where
  "refs reading q = (if reading then readers q else writers q)"

definition sound_or_halted :: "ptr \<Rightarrow> pipe_sys \<Rightarrow> bool" where
  "sound_or_halted p st \<longleftrightarrow> halted (pipe_sched st) \<or> pipe_sound p st"

lemma waits_ok_less:
  assumes w: "waits_ok p st" and less: "\<And>ch. set (sched_waiting s ch) \<subseteq> set (sched_waiting (pipe_sched st) ch)"
  shows "waits_ok p (st\<lparr>pipe_sched := s\<rparr>)"
proof -
  have "sched_waiting s ch \<noteq> [] \<Longrightarrow> sched_waiting (pipe_sched st) ch \<noteq> []" for ch using less [of ch] by auto
  with w show ?thesis by (simp add: waits_ok_def)
qed

lemma kill_pending_total:
  assumes "sched_ok s"
  shows "\<exists>k. task_kill_pending s = Some k"
proof -
  obtain rs bs where "sched_inv s rs bs" using assms by (auto simp: sched_ok_def)
  note D = sched_invD [OF this]
  obtain t where "tcb s (current_task s) = Some t" using queues_task [OF D(1), of "current_task s"] D(2) by auto
  then show ?thesis using D(3) by (simp add: task_kill_pending_def)
qed

lemma pipe_die_spec:
  assumes sound: "pipe_sound p st" and cb: "callback_ok callback"
    and q: "pipes st p = Some q" "pipe_ok q" "refs reading q > 0"
  shows "\<exists>st'. pipe_die callback p reading st = Some st' \<and> pipes st' p = drop_ref reading q \<and> sound_or_halted p st'"
proof -
  obtain st1 where st1: "(if reading then pipe_close_read p st else pipe_close_write p st) = Some st1"
    "pipe_sound p st1" "pipes st1 p = drop_ref reading q"
    using close_read_spec [OF sound q(1,2)] close_write_spec [OF sound q(1,2)] q(3)
    by (cases reading) (auto simp: refs_def drop_ref_def)
  obtain s where s: "task_exit callback TASK_KILL_STATUS (pipe_sched st1) = Some s"
    "halted s \<or> sched_ok s \<and> (\<forall>ch. set (sched_waiting s ch) \<subseteq> set (sched_waiting (pipe_sched st1) ch))"
    using sched_exit [OF pipe_soundD(2) [OF st1(2)] cb] by blast
  have "sound_or_halted p (st1\<lparr>pipe_sched := s\<rparr>)"
    using s(2) st1(2) waits_ok_less [of p st1 s] by (auto simp: sound_or_halted_def pipe_sound_def)
  with st1(1,3) s(1) show ?thesis
    by (intro exI [of _ "st1\<lparr>pipe_sched := s\<rparr>"]) (simp add: pipe_die_def on_sched_def)
qed

lemma block_killable_spec:
  assumes sound: "pipe_sound p st" and cb: "callback_ok callback"
    and q: "pipes st p = Some q" "pipe_ok q" "refs reading q > 0"
    and cond: "if reading then ch = addr_count p \<and> count q = 0 \<and> writers q > 0
      else ch = addr_read_pos p \<and> count q = PIPE_BUF_SIZE \<and> readers q > 0"
  shows "\<exists>k st'. pipe_block_killable callback p ch reading st = Some (k, st') \<and>
    pipes st' p = (if k then drop_ref reading q else Some q) \<and> sound_or_halted p st'"
proof -
  note D = pipe_soundD [OF sound]
  obtain k where k: "task_kill_pending (pipe_sched st) = Some k" using kill_pending_total D(2) by blast
  show ?thesis
  proof (cases k)
    case True
    with k pipe_die_spec [OF sound cb q] show ?thesis by (auto simp: pipe_block_killable_def)
  next
    case False
    obtain s where s: "on_sched (task_block_current ch) st = Some (st\<lparr>pipe_sched := s\<rparr>)" "sched_ok s"
      "\<forall>c. c \<noteq> ch \<longrightarrow> sched_waiting s c = sched_waiting (pipe_sched st) c" using block_sys [OF D(2)] by blast
    have "waits_ok p (st\<lparr>pipe_sched := s\<rparr>)"
      using D(4) s(3) cond q(1) by (cases reading) (auto simp: waits_ok_def)
    then have "sound_or_halted p (st\<lparr>pipe_sched := s\<rparr>)"
      using sound s(2) by (auto simp: sound_or_halted_def pipe_sound_def)
    with False k s(1) q(1) show ?thesis by (auto simp: pipe_block_killable_def)
  qed
qed

lemma block_killable_resumed_spec:
  assumes sound: "pipe_sound p st" and cb: "callback_ok callback"
    and q: "pipes st p = Some q" "pipe_ok q" "refs reading q > 0"
  shows "(\<exists>st'. pipe_block_killable_resumed callback p reading st = Some (True, st') \<and>
      pipes st' p = drop_ref reading q \<and> sound_or_halted p st') \<or>
    pipe_block_killable_resumed callback p reading st = Some (False, st)"
proof -
  obtain k where k: "task_kill_pending (pipe_sched st) = Some k"
    using kill_pending_total pipe_soundD(2) [OF sound] by blast
  with pipe_die_spec [OF sound cb q] show ?thesis
    by (cases k) (auto simp: pipe_block_killable_resumed_def)
qed

text \<open>A read: it takes a prefix of the contents, or waits, or ends with its task.\<close>

definition read_result :: "ptr \<Rightarrow> nat \<Rightarrow> pipe_t \<Rightarrow> (u8 list, unit) blocking \<Rightarrow> pipe_sys \<Rightarrow> bool" where
  "read_result p len q out st' \<longleftrightarrow> sound_or_halted p st' \<and> (case out of
     Finished bs \<Rightarrow> bs = take len (contents q) \<and> (count q = 0 \<longrightarrow> writers q = 0) \<and>
       (\<exists>q1. same_ends q q1 \<and> contents q1 = drop len (contents q) \<and> pipes st' p = drop_read q1)
   | Parked _ \<Rightarrow> count q = 0 \<and> writers q > 0 \<and> pipes st' p = Some q
   | Died _ \<Rightarrow> pipes st' p = drop_read q)"

lemma pipe_read_loop_spec:
  assumes sound: "pipe_sound p st" and cb: "callback_ok callback"
    and q: "pipes st p = Some q" "pipe_ok q" "readers q > 0"
  shows "\<exists>out st'. pipe_read_loop callback p len st = Some (out, st') \<and> read_result p len q out st'"
proof (cases "count q = 0 \<and> writers q > 0")
  case True
  have "\<exists>k st'. pipe_block_killable callback p (addr_count p) True st = Some (k, st') \<and>
    pipes st' p = (if k then drop_ref True q else Some q) \<and> sound_or_halted p st'"
    using True q(3) by (intro block_killable_spec [OF sound cb q(1,2)]) (auto simp: refs_def)
  with True q(1) show ?thesis by (auto simp: pipe_read_loop_def read_result_def drop_ref_def)
next
  case False
  note D = pipe_soundD [OF sound]
  obtain bs q1 where dr: "drain len q = (bs, q1)" by fastforce
  note r = drain_spec [OF q(2) dr]
  let ?st1 = "set_pipe p q1 st"
  obtain s where s: "(if bs \<noteq> [] then on_sched (task_wake_all (addr_read_pos p)) ?st1 else Some ?st1) =
      Some (?st1\<lparr>pipe_sched := s\<rparr>)" "sched_ok s"
    "sched_waiting s (addr_count p) = sched_waiting (pipe_sched st) (addr_count p)"
    "sched_waiting s (addr_read_pos p) = (if bs \<noteq> [] then [] else sched_waiting (pipe_sched st) (addr_read_pos p))"
    using wake_all_sys [of ?st1 "addr_read_pos p"] D(2) that [of "pipe_sched st"]
    by (cases "bs = []") (auto simp: set_pipe_def)
  let ?st2 = "?st1\<lparr>pipe_sched := s\<rparr>"
  have "waits_ok p ?st2"
  proof -
    have "sched_waiting (pipe_sched st) (addr_count p) = []" using D(4) q(1) False by (auto simp: waits_ok_def)
    moreover have "bs = [] \<Longrightarrow> count q1 = count q"
      using r by (metis append_Nil append_take_drop_id length_contents)
    ultimately show ?thesis using D(4) q(1) r s(3,4) by (cases "bs = []") (auto simp: waits_ok_def)
  qed
  then have "pipe_sound p ?st2" using sound s(2) q(1) by (auto simp: pipe_sound_def)
  then obtain st' where st': "pipe_close_read p ?st2 = Some st'" "pipe_sound p st'" "pipes st' p = drop_read q1"
    using close_read_spec [of p ?st2 q1] r q(3) by auto
  have "pipe_read_loop callback p len st = Some (Finished bs, st')"
    using False q(1) dr s(1) st'(1) unfolding pipe_read_loop_def by auto
  moreover have "count q = 0 \<longrightarrow> writers q = 0" using False q(2) by (auto simp: pipe_ok_def)
  then have "read_result p len q (Finished bs) st'"
    using r st' by (auto simp: read_result_def sound_or_halted_def same_ends_def)
  ultimately show ?thesis by blast
qed

text \<open>A write: it appends what it has put, and stops early only when nobody reads.\<close>

definition write_result :: "ptr \<Rightarrow> u8 list \<Rightarrow> nat \<Rightarrow> pipe_t \<Rightarrow> (nat, nat) blocking \<Rightarrow> pipe_sys \<Rightarrow> bool" where
  "write_result p data put q out st' \<longleftrightarrow> sound_or_halted p st' \<and>
     (\<exists>put' q1. put \<le> put' \<and> put' \<le> length data \<and> same_ends q q1 \<and>
        contents q1 = contents q @ take (put' - put) (drop put data) \<and>
        (case out of
           Finished n \<Rightarrow> n = put' \<and> (n < length data \<longrightarrow> readers q = 0) \<and> pipes st' p = drop_write q1
         | Parked n \<Rightarrow> n = put' \<and> n < length data \<and> count q1 = PIPE_BUF_SIZE \<and> readers q > 0 \<and> pipes st' p = Some q1
         | Died n \<Rightarrow> n = put' \<and> pipes st' p = drop_write q1))"

lemma write_end_result:
  assumes sound: "pipe_sound p st" and q: "pipes st p = Some q" "pipe_ok q" "writers q > 0"
    and put: "put \<le> length data" "put < length data \<longrightarrow> readers q = 0"
  shows "\<exists>out st'. pipe_write_end p put st = Some (out, st') \<and> write_result p data put q out st'"
proof -
  obtain st' where "pipe_close_write p st = Some st'" "pipe_sound p st'" "pipes st' p = drop_write q"
    using close_write_spec [OF sound q] by blast
  moreover have "same_ends q q" using q by (simp add: same_ends_def)
  ultimately show ?thesis
    using put by (auto simp: pipe_write_end_def write_result_def sound_or_halted_def intro!: exI [of _ q])
qed

lemma wake_readers_sound:
  assumes sound: "pipe_sound p st" and q: "pipes st p = Some q" "same_ends q q1"
    and room: "count q < PIPE_BUF_SIZE \<or> q1 = q"
  shows "\<exists>st'. on_sched (task_wake_all (addr_count p)) (set_pipe p q1 st) = Some st' \<and> pipe_sound p st' \<and>
    pipes st' p = Some q1"
proof -
  note D = pipe_soundD [OF sound]
  obtain s where s: "on_sched (task_wake_all (addr_count p)) (set_pipe p q1 st) = Some (set_pipe p q1 st\<lparr>pipe_sched := s\<rparr>)"
    "sched_ok s" "sched_waiting s = (sched_waiting (pipe_sched st))(addr_count p := [])"
    using wake_all_sys [of "set_pipe p q1 st" "addr_count p"] D(2) by auto
  have "waits_ok p (set_pipe p q1 st\<lparr>pipe_sched := s\<rparr>)"
    using D(4) q room s(3) by (auto simp: waits_ok_def same_ends_def)
  with s sound q(1) show ?thesis by (auto simp: pipe_sound_def)
qed

lemma pipe_write_full:
  assumes sound: "pipe_sound p st" and cb: "callback_ok callback"
    and q: "pipes st p = Some q" "pipe_ok q" "writers q > 0" "readers q \<noteq> 0" "count q = PIPE_BUF_SIZE"
    and put: "put < length data"
  shows "\<exists>out st'. pipe_write_loop callback p data put st = Some (out, st') \<and> write_result p data put q out st'"
proof -
  have r: "readers q > 0" using q(2,4) by (auto simp: pipe_ok_def)
  have e: "same_ends q q" using q(2) by (simp add: same_ends_def)
  have "set_pipe p q st = st" using q(1) by (simp add: set_pipe_def fun_upd_idem)
  then obtain st1 where st1: "on_sched (task_wake_all (addr_count p)) st = Some st1" "pipe_sound p st1"
    "pipes st1 p = Some q" using wake_readers_sound [OF sound q(1) e] by auto
  obtain k st2 where st2: "pipe_block_killable callback p (addr_read_pos p) False st1 = Some (k, st2)"
    "pipes st2 p = (if k then drop_ref False q else Some q)" "sound_or_halted p st2"
    using block_killable_spec [OF st1(2) cb st1(3) q(2), of False "addr_read_pos p"] q(3,5) r by (auto simp: refs_def)
  have "pipe_write_loop callback p data put st = Some (if k then Died put else Parked put, st2)"
    using put q st1(1) st2(1) by (simp add: pipe_write_loop.simps)
  moreover have "write_result p data put q (if k then Died put else Parked put) st2"
    using put e r q(5) st2 by (auto simp: write_result_def drop_ref_def intro!: exI [of _ q])
  ultimately show ?thesis by blast
qed

lemma write_result_step:
  assumes "write_result p data put1 q1 out st'" and "put \<le> put1" "put1 \<le> length data"
    and "same_ends q q1" "contents q1 = contents q @ take (put1 - put) (drop put data)"
  shows "write_result p data put q out st'"
proof -
  have "take (put1 - put) (drop put data) @ take (put' - put1) (drop put1 data) = take (put' - put) (drop put data)"
    if "put1 \<le> put'" for put'
    using that assms(2) take_add [of "put1 - put" "put' - put1" "drop put data"] by simp
  with assms show ?thesis
    unfolding write_result_def same_ends_def by (fastforce split: blocking.splits)
qed

lemma pipe_write_loop_spec:
  assumes sound: "pipe_sound p st" and cb: "callback_ok callback"
    and q: "pipes st p = Some q" "pipe_ok q" "writers q > 0" and put: "put \<le> length data"
  shows "\<exists>out st'. pipe_write_loop callback p data put st = Some (out, st') \<and> write_result p data put q out st'"
proof (cases "put < length data \<and> readers q \<noteq> 0")
  case False
  then have "pipe_write_loop callback p data put st = pipe_write_end p put st"
    using q(1) by (auto simp: pipe_write_loop.simps)
  with write_end_result [OF sound q put] False show ?thesis by auto
next
  case True
  show ?thesis
  proof (cases "count q = PIPE_BUF_SIZE")
    case full: True
    with True pipe_write_full [OF sound cb q] show ?thesis by blast
  next
    case False
    obtain put1 q1 where f: "fill data put q = (put1, q1)" by fastforce
    note r = fill_spec [OF q(2) put f]
    have e: "same_ends q q1" using r by (simp add: same_ends_def)
    have room: "count q < PIPE_BUF_SIZE" using False q(2) by (simp add: pipe_ok_def)
    obtain st1 where st1: "on_sched (task_wake_all (addr_count p)) (set_pipe p q1 st) = Some st1" "pipe_sound p st1"
      "pipes st1 p = Some q1" using wake_readers_sound [OF sound q(1) e] room by blast
    have loop: "pipe_write_loop callback p data put st = pipe_write_loop callback p data put1 st1"
      using True False q(1) f st1(1) by (simp add: pipe_write_loop.simps [of callback p data put st])
    have put1: "put \<le> put1" "put1 \<le> length data" using r put by auto
    have "\<exists>out st'. pipe_write_loop callback p data put1 st1 = Some (out, st') \<and> write_result p data put1 q1 out st'"
    proof (cases "put1 = length data")
      case True
      then have "pipe_write_loop callback p data put1 st1 = pipe_write_end p put1 st1"
        by (simp add: pipe_write_loop.simps)
      with True write_end_result [OF st1(2,3), of put1 data] r q(3) show ?thesis by auto
    next
      case False
      then have "count q1 = PIPE_BUF_SIZE" "put1 < length data"
        using r room put length_contents [of q1] by auto
      with True r q(3) pipe_write_full [OF st1(2) cb st1(3)] show ?thesis by simp
    qed
    with loop write_result_step [OF _ put1 e] r show ?thesis by fastforce
  qed
qed

lemma more_refs:
  assumes "pipe_sound p st" "pipes st p = Some q" "pipe_ok q"
  shows "pipe_sound p (set_pipe p (q\<lparr>readers := readers q + 1\<rparr>) st)" "pipe_ok (q\<lparr>readers := readers q + 1\<rparr>)"
    "pipe_sound p (set_pipe p (q\<lparr>writers := writers q + 1\<rparr>) st)" "pipe_ok (q\<lparr>writers := writers q + 1\<rparr>)"
    "readers q + 1 > 0" "writers q + 1 > 0"
  using assms by (auto simp: pipe_sound_def waits_ok_def pipe_ok_def)

lemma pipe_read_spec:
  assumes "pipe_sound p st" "callback_ok callback" "pipes st p = Some q" "pipe_ok q" "buffer \<noteq> NULL" "0 < len"
  shows "\<exists>out st'. pipe_read callback p buffer len st = Some (out, st') \<and>
    read_result p len (q\<lparr>readers := readers q + 1\<rparr>) out st'"
  using pipe_read_loop_spec [OF more_refs(1) [OF assms(1,3,4)] assms(2), of _ len]
    more_refs [OF assms(1,3,4)] pipe_soundD(1) [OF assms(1)] assms(3,5,6)
  by (simp add: pipe_read_def)

lemma pipe_write_spec:
  assumes "pipe_sound p st" "callback_ok callback" "pipes st p = Some q" "pipe_ok q" "buffer \<noteq> NULL" "data \<noteq> []"
  shows "\<exists>out st'. pipe_write callback p buffer data st = Some (out, st') \<and>
    write_result p data 0 (q\<lparr>writers := writers q + 1\<rparr>) out st'"
  using pipe_write_loop_spec [OF more_refs(3) [OF assms(1,3,4)] assms(2), of _ 0 data]
    more_refs [OF assms(1,3,4)] pipe_soundD(1) [OF assms(1)] assms(3,5,6)
  by (simp add: pipe_write_def)

lemma pipe_read_resumed_spec:
  assumes sound: "pipe_sound p st" and cb: "callback_ok callback"
    and q: "pipes st p = Some q" "pipe_ok q" "readers q > 0"
  shows "\<exists>out st'. pipe_read_resumed callback p len st = Some (out, st') \<and> read_result p len q out st'"
proof -
  have "refs True q > 0" using q(3) by (simp add: refs_def)
  from block_killable_resumed_spec [OF sound cb q(1,2) this] pipe_read_loop_spec [OF sound cb q, of len]
  show ?thesis by (auto simp: pipe_read_resumed_def read_result_def drop_ref_def)
qed

lemma pipe_write_resumed_spec:
  assumes sound: "pipe_sound p st" and cb: "callback_ok callback"
    and q: "pipes st p = Some q" "pipe_ok q" "writers q > 0" and put: "put \<le> length data"
  shows "\<exists>out st'. pipe_write_resumed callback p data put st = Some (out, st') \<and> write_result p data put q out st'"
proof -
  have "refs False q > 0" using q(3) by (simp add: refs_def)
  then consider st' where "pipe_block_killable_resumed callback p False st = Some (True, st')"
      "pipes st' p = drop_write q" "sound_or_halted p st'"
    | "pipe_block_killable_resumed callback p False st = Some (False, st)"
    using block_killable_resumed_spec [OF sound cb q(1,2), of False] by (auto simp: drop_ref_def)
  then show ?thesis
  proof cases
    case 1
    then have "write_result p data put q (Died put) st'"
      using put q(2) by (auto simp: write_result_def same_ends_def intro!: exI [of _ q])
    with 1 show ?thesis by (auto simp: pipe_write_resumed_def)
  next
    case 2
    with pipe_write_loop_spec [OF sound cb q put] show ?thesis by (simp add: pipe_write_resumed_def)
  qed
qed

section \<open>The life of a pipe\<close>

text \<open>
  How a pipe is used: open descriptors on either side, the calls in flight (a read with the size
  of its buffer, a write with its data and how much it has put), and, to state what the pipe
  transports, the bytes that writes have put and reads have returned so far.
\<close>

record pipe_use =
  rfds :: nat
  wfds :: nat
  rd :: "nat multiset"
  wr :: "(u8 list \<times> nat) multiset"
  sent :: "u8 list"
  received :: "u8 list"

definition after_read :: "nat \<Rightarrow> (u8 list, unit) blocking \<Rightarrow> pipe_use \<Rightarrow> pipe_use" where
  "after_read len out u = (case out of
     Finished bs \<Rightarrow> u\<lparr>received := received u @ bs\<rparr>
   | Parked _ \<Rightarrow> u\<lparr>rd := add_mset len (rd u)\<rparr>
   | Died _ \<Rightarrow> u)"

definition put_so_far :: "(nat, nat) blocking \<Rightarrow> nat" where
  "put_so_far out = (case out of Finished n \<Rightarrow> n | Parked n \<Rightarrow> n | Died n \<Rightarrow> n)"

definition after_write :: "u8 list \<Rightarrow> nat \<Rightarrow> (nat, nat) blocking \<Rightarrow> pipe_use \<Rightarrow> pipe_use" where
  "after_write data put out u =
     (let u1 = u\<lparr>sent := sent u @ take (put_so_far out - put) (drop put data)\<rparr>
      in case out of Parked n \<Rightarrow> u1\<lparr>wr := add_mset (data, n) (wr u1)\<rparr> | _ \<Rightarrow> u1)"

text \<open>
  Every interleaving of calls on one pipe, with anything the rest of the kernel does in between
  as long as it leaves this pipe alone and keeps the scheduler and the heap sound. The machine
  stops when the last task ends.
\<close>

inductive pipe_reach ::
  "(ptr \<Rightarrow> ptr \<Rightarrow> int \<Rightarrow> sched \<Rightarrow> sched option) \<Rightarrow> ptr \<Rightarrow> pipe_sys \<Rightarrow> pipe_use \<Rightarrow> bool"
  for callback p where
  created: "sched_ok (pipe_sched st) \<Longrightarrow> heap_inv (pipe_heap st) \<Longrightarrow> length junk = PIPE_BUF_SIZE \<Longrightarrow>
    pipe_create junk st = Some (p, st') \<Longrightarrow> p \<noteq> NULL \<Longrightarrow>
    sched_waiting (pipe_sched st) (addr_count p) = [] \<Longrightarrow> sched_waiting (pipe_sched st) (addr_read_pos p) = [] \<Longrightarrow>
    pipe_reach callback p st' \<lparr>rfds = 1, wfds = 1, rd = {#}, wr = {#}, sent = [], received = []\<rparr>"
| dup_r: "pipe_reach callback p st u \<Longrightarrow> 0 < rfds u \<Longrightarrow> pipe_ref_read p st = Some st' \<Longrightarrow>
    pipe_reach callback p st' (u\<lparr>rfds := rfds u + 1\<rparr>)"
| dup_w: "pipe_reach callback p st u \<Longrightarrow> 0 < wfds u \<Longrightarrow> pipe_ref_write p st = Some st' \<Longrightarrow>
    pipe_reach callback p st' (u\<lparr>wfds := wfds u + 1\<rparr>)"
| close_r: "pipe_reach callback p st u \<Longrightarrow> 0 < rfds u \<Longrightarrow> pipe_close_read p st = Some st' \<Longrightarrow>
    pipe_reach callback p st' (u\<lparr>rfds := rfds u - 1\<rparr>)"
| close_w: "pipe_reach callback p st u \<Longrightarrow> 0 < wfds u \<Longrightarrow> pipe_close_write p st = Some st' \<Longrightarrow>
    pipe_reach callback p st' (u\<lparr>wfds := wfds u - 1\<rparr>)"
| call_r: "pipe_reach callback p st u \<Longrightarrow> 0 < rfds u \<Longrightarrow> pipe_read callback p buffer len st = Some (out, st') \<Longrightarrow>
    \<not> halted (pipe_sched st') \<Longrightarrow> pipe_reach callback p st' (after_read len out u)"
| resume_r: "pipe_reach callback p st u \<Longrightarrow> len \<in># rd u \<Longrightarrow> pipe_read_resumed callback p len st = Some (out, st') \<Longrightarrow>
    \<not> halted (pipe_sched st') \<Longrightarrow> pipe_reach callback p st' (after_read len out (u\<lparr>rd := rd u - {#len#}\<rparr>))"
| call_w: "pipe_reach callback p st u \<Longrightarrow> 0 < wfds u \<Longrightarrow> pipe_write callback p buffer data st = Some (out, st') \<Longrightarrow>
    \<not> halted (pipe_sched st') \<Longrightarrow> pipe_reach callback p st' (after_write data 0 out u)"
| resume_w: "pipe_reach callback p st u \<Longrightarrow> (data, put) \<in># wr u \<Longrightarrow>
    pipe_write_resumed callback p data put st = Some (out, st') \<Longrightarrow> \<not> halted (pipe_sched st') \<Longrightarrow>
    pipe_reach callback p st' (after_write data put out (u\<lparr>wr := wr u - {#(data, put)#}\<rparr>))"
| elsewhere: "pipe_reach callback p st u \<Longrightarrow> pipes st' p = pipes st p \<Longrightarrow> pipe_sound p st' \<Longrightarrow>
    pipe_reach callback p st' u"

fun use_ok :: "pipe_t option \<Rightarrow> pipe_use \<Rightarrow> bool" where
  "use_ok None u \<longleftrightarrow> rfds u = 0 \<and> wfds u = 0 \<and> rd u = {#} \<and> wr u = {#} \<and> (\<exists>zs. sent u = received u @ zs)"
| "use_ok (Some q) u \<longleftrightarrow> pipe_ok q \<and> readers q = int (rfds u + size (rd u)) \<and>
     writers q = int (wfds u + size (wr u)) \<and> (readers q \<noteq> 0 \<or> writers q \<noteq> 0) \<and> sent u = received u @ contents q \<and>
     (\<forall>(data, n) \<in># wr u. n \<le> length data)"

lemma no_refs [simp]: "int a + int (size m) = 0 \<longleftrightarrow> a = 0 \<and> m = {#}"
  by (metis add_eq_0_iff_both_eq_0 of_nat_add of_nat_eq_0_iff size_eq_0_iff_empty)

lemma use_drop_read:
  assumes "pipe_ok q" "readers q = int (rfds u + size (rd u)) + 1" "writers q = int (wfds u + size (wr u))"
    "sent u = received u @ contents q" "\<forall>(data, n) \<in># wr u. n \<le> length data"
  shows "use_ok (drop_read q) u"
  using assms by (auto simp: drop_read_def pipe_ok_def)

lemma use_drop_write:
  assumes "pipe_ok q" "readers q = int (rfds u + size (rd u))" "writers q = int (wfds u + size (wr u)) + 1"
    "sent u = received u @ contents q" "\<forall>(data, n) \<in># wr u. n \<le> length data"
  shows "use_ok (drop_write q) u"
  using assms by (auto simp: drop_write_def pipe_ok_def)

lemma use_after_read:
  assumes r: "read_result p len q out st'" and q: "pipe_ok q" "readers q = int (rfds u + size (rd u)) + 1"
    "writers q = int (wfds u + size (wr u))" "sent u = received u @ contents q" "\<forall>(data, n) \<in># wr u. n \<le> length data"
  shows "use_ok (pipes st' p) (after_read len out u)"
proof (cases out)
  case (Finished bs)
  with r obtain q1 where q1: "bs = take len (contents q)" "same_ends q q1" "contents q1 = drop len (contents q)"
    "pipes st' p = drop_read q1" by (auto simp: read_result_def)
  have "use_ok (drop_read q1) (u\<lparr>received := received u @ bs\<rparr>)"
    using q1 q by (intro use_drop_read) (auto simp: same_ends_def)
  with Finished q1(4) show ?thesis by (simp add: after_read_def)
next
  case (Parked x)
  with r q show ?thesis by (auto simp: read_result_def after_read_def)
next
  case (Died x)
  with r use_drop_read [OF q] show ?thesis by (auto simp: read_result_def after_read_def)
qed

lemma use_after_write:
  assumes w: "write_result p data put q out st'" and q: "pipe_ok q" "readers q = int (rfds u + size (rd u))"
    "writers q = int (wfds u + size (wr u)) + 1" "sent u = received u @ contents q" "\<forall>(data, n) \<in># wr u. n \<le> length data"
  shows "use_ok (pipes st' p) (after_write data put out u)"
proof -
  define u1 where "u1 = u\<lparr>sent := sent u @ take (put_so_far out - put) (drop put data)\<rparr>"
  obtain put' q1 where q1: "put' \<le> length data" "same_ends q q1" "put_so_far out = put'"
    "contents q1 = contents q @ take (put' - put) (drop put data)"
    "case out of Parked n \<Rightarrow> pipes st' p = Some q1 \<and> readers q > 0 | _ \<Rightarrow> pipes st' p = drop_write q1"
    using w by (cases out) (auto simp: write_result_def put_so_far_def)
  have "use_ok (drop_write q1) u1"
    using q1 q by (intro use_drop_write) (auto simp: same_ends_def u1_def)
  with q1 q show ?thesis
    by (cases out) (auto simp: after_write_def u1_def same_ends_def put_so_far_def)
qed

lemma pipe_reach_ok:
  assumes "pipe_reach callback p st u" and cb: "callback_ok callback"
  shows "pipe_sound p st \<and> use_ok (pipes st p) u"
  using assms(1)
proof (induction rule: pipe_reach.induct)
  case (created st junk st')
  then obtain h where h: "kmalloc sizeof_pipe (pipe_heap st) = Some (p, h)"
    "st' = set_pipe p \<lparr>buf = junk, read_pos = 0, write_pos = 0, count = 0, readers = 1, writers = 1\<rparr> (st\<lparr>pipe_heap := h\<rparr>)"
    by (auto simp: pipe_create_def bind_eq_Some_conv Let_def split: if_splits)
  have "heap_inv h" "\<exists>n. (p, n) \<in> heap_live h"
    using kheap.alloc_inv [OF created(2) h(1)] kheap.alloc_new [OF created(2) h(1) created(5)] by auto
  with created h(2) show ?case
    by (auto simp: pipe_sound_def waits_ok_def pipe_ok_def contents_def)
next
  case (dup_r st u st')
  then obtain q where q: "pipes st p = Some q" "pipe_ok q" by (cases "pipes st p") auto
  with dup_r more_refs [OF _ q] pipe_soundD(1) [of p st] show ?case by (auto simp: pipe_ref_read_def)
next
  case (dup_w st u st')
  then obtain q where q: "pipes st p = Some q" "pipe_ok q" by (cases "pipes st p") auto
  with dup_w more_refs [OF _ q] pipe_soundD(1) [of p st] show ?case by (auto simp: pipe_ref_write_def)
next
  case (close_r st u st')
  then obtain q where q: "pipes st p = Some q" "pipe_ok q" "readers q > 0" by (cases "pipes st p") auto
  with close_r close_read_spec [OF _ q] have "pipe_sound p st'" "pipes st' p = drop_read q" by auto
  moreover have "use_ok (drop_read q) (u\<lparr>rfds := rfds u - 1\<rparr>)"
    using close_r q by (intro use_drop_read) auto
  ultimately show ?case by simp
next
  case (close_w st u st')
  then obtain q where q: "pipes st p = Some q" "pipe_ok q" "writers q > 0" by (cases "pipes st p") auto
  with close_w close_write_spec [OF _ q] have "pipe_sound p st'" "pipes st' p = drop_write q" by auto
  moreover have "use_ok (drop_write q) (u\<lparr>wfds := wfds u - 1\<rparr>)"
    using close_w q by (intro use_drop_write) auto
  ultimately show ?case by simp
next
  case (call_r st u buffer len out st')
  then obtain q where q: "pipes st p = Some q" "pipe_ok q" by (cases "pipes st p") auto
  show ?case
  proof (cases "buffer = NULL \<or> len = 0")
    case True
    with call_r show ?thesis by (auto simp: pipe_read_def after_read_def)
  next
    case False
    then have r: "read_result p len (q\<lparr>readers := readers q + 1\<rparr>) out st'"
      using pipe_read_spec [OF _ cb q, of buffer len] call_r by auto
    have "use_ok (pipes st' p) (after_read len out u)"
      using call_r q by (intro use_after_read [OF r]) (auto simp: pipe_ok_def)
    with r call_r(4) show ?thesis by (simp add: read_result_def sound_or_halted_def)
  qed
next
  case (resume_r st u len out st')
  then obtain q where q: "pipes st p = Some q" "pipe_ok q" "readers q > 0"
    by (cases "pipes st p") (auto simp: size_Diff_singleton dest: multi_member_split)
  have r: "read_result p len q out st'" using pipe_read_resumed_spec [OF _ cb q, of len] resume_r by auto
  have "use_ok (pipes st' p) (after_read len out (u\<lparr>rd := rd u - {#len#}\<rparr>))"
    using resume_r q by (intro use_after_read [OF r]) (auto dest!: multi_member_split)
  with r resume_r(4) show ?case by (simp add: read_result_def sound_or_halted_def)
next
  case (call_w st u buffer data out st')
  then obtain q where q: "pipes st p = Some q" "pipe_ok q" by (cases "pipes st p") auto
  show ?case
  proof (cases "buffer = NULL \<or> data = []")
    case True
    with call_w show ?thesis by (auto simp: pipe_write_def after_write_def put_so_far_def)
  next
    case False
    then have r: "write_result p data 0 (q\<lparr>writers := writers q + 1\<rparr>) out st'"
      using pipe_write_spec [OF _ cb q, of buffer data] call_w by auto
    have "use_ok (pipes st' p) (after_write data 0 out u)"
      using call_w q by (intro use_after_write [OF r]) (auto simp: pipe_ok_def)
    with r call_w(4) show ?thesis by (simp add: write_result_def sound_or_halted_def)
  qed
next
  case (resume_w st u data put out st')
  then obtain q where q: "pipes st p = Some q" "pipe_ok q" "writers q > 0" and put: "put \<le> length data"
    by (cases "pipes st p") (auto dest: multi_member_split)
  have r: "write_result p data put q out st'" using pipe_write_resumed_spec [OF _ cb q put] resume_w by auto
  have "use_ok (pipes st' p) (after_write data put out (u\<lparr>wr := wr u - {#(data, put)#}\<rparr>))"
    using resume_w q by (intro use_after_write [OF r]) (auto dest!: multi_member_split)
  with r resume_w(4) show ?case by (simp add: write_result_def sound_or_halted_def)
next
  case (elsewhere st u st')
  then show ?case by simp
qed

section \<open>Properties\<close>

text \<open>
  C24. A pipe is a byte stream. Whatever the interleaving of reads and writes, blocked or not,
  killed or not, the bytes returned by the reads, in order, followed by what is in the ring are
  exactly the bytes put by the writes, in order: nothing is lost, duplicated or reordered while
  the pipe lives, and what readers have seen is always a prefix of what was written.
\<close>

theorem pipe_stream_order:
  assumes "pipe_reach callback p st u" "callback_ok callback"
  shows "case pipes st p of
      None \<Rightarrow> take (length (received u)) (sent u) = received u
    | Some q \<Rightarrow> sent u = received u @ contents q \<and> length (sent u) \<le> length (received u) + PIPE_BUF_SIZE"
  using pipe_reach_ok [OF assms] by (auto simp: pipe_ok_def split: option.splits)

text \<open>
  C25. A pipe lives exactly as long as it is used. It exists while any descriptor is open or any
  call is in flight, even if every descriptor is closed under a blocked call, and it is released
  with the last of them; every call a descriptor or a blocked task can make is defined, so none
  touches a released pipe.
\<close>

theorem pipe_lifetime:
  assumes r: "pipe_reach callback p st u" and cb: "callback_ok callback"
  shows "(pipes st p \<noteq> None \<longleftrightarrow> 0 < rfds u \<or> 0 < wfds u \<or> rd u \<noteq> {#} \<or> wr u \<noteq> {#}) \<and>
    (0 < rfds u \<longrightarrow> (\<exists>out st'. pipe_read callback p buffer len st = Some (out, st')) \<and>
      (\<exists>st'. pipe_close_read p st = Some st')) \<and>
    (0 < wfds u \<longrightarrow> (\<exists>out st'. pipe_write callback p buffer data st = Some (out, st')) \<and>
      (\<exists>st'. pipe_close_write p st = Some st')) \<and>
    (len \<in># rd u \<longrightarrow> (\<exists>out st'. pipe_read_resumed callback p len st = Some (out, st'))) \<and>
    ((data, put) \<in># wr u \<longrightarrow> (\<exists>out st'. pipe_write_resumed callback p data put st = Some (out, st')))"
proof (intro conjI impI)
  note ok = pipe_reach_ok [OF r cb]
  show "pipes st p \<noteq> None \<longleftrightarrow> 0 < rfds u \<or> 0 < wfds u \<or> rd u \<noteq> {#} \<or> wr u \<noteq> {#}"
    using ok by (cases "pipes st p") auto
  have live: "\<exists>q. pipes st p = Some q \<and> pipe_ok q \<and> readers q = int (rfds u + size (rd u)) \<and>
      writers q = int (wfds u + size (wr u)) \<and> (\<forall>(data, n) \<in># wr u. n \<le> length data)"
    if "0 < rfds u \<or> 0 < wfds u \<or> rd u \<noteq> {#} \<or> wr u \<noteq> {#}" using that ok by (cases "pipes st p") auto
  show "\<exists>out st'. pipe_read callback p buffer len st = Some (out, st')" if "0 < rfds u"
    using live that pipe_read_spec [OF _ cb, of p st _ buffer len] ok
    by (cases "buffer = NULL \<or> len = 0") (auto simp: pipe_read_def)
  show "\<exists>out st'. pipe_write callback p buffer data st = Some (out, st')" if "0 < wfds u"
    using live that pipe_write_spec [OF _ cb, of p st _ buffer data] ok
    by (cases "buffer = NULL \<or> data = []") (auto simp: pipe_write_def)
  show "\<exists>out st'. pipe_read_resumed callback p len st = Some (out, st')" if "len \<in># rd u"
    using live that pipe_read_resumed_spec [OF _ cb, of p st _ len] ok by (fastforce dest: multi_member_split)
  show "\<exists>out st'. pipe_write_resumed callback p data put st = Some (out, st')" if "(data, put) \<in># wr u"
    using live that pipe_write_resumed_spec [OF _ cb, of p st _ put data] ok by (fastforce dest: multi_member_split)
  show "\<exists>st'. pipe_close_read p st = Some st'" if "0 < rfds u"
    using live that close_read_spec [of p st] ok by fastforce
  show "\<exists>st'. pipe_close_write p st = Some st'" if "0 < wfds u"
    using live that close_write_spec [of p st] ok by fastforce
qed


section \<open>A small system\<close>

text \<open>A heap of two free pages, and the scheduler with two ready tasks.\<close>

definition heap_two :: heap_state where
  "heap_two = \<lparr>hdr = [4096 \<mapsto> \<lparr>blk_size = 8180, blk_is_free = True, blk_next = NULL\<rparr>],
     heap_head = 4096, heap_pages = 2, heap_pmm = snd (pmm_alloc_blocks 2 pmm_small)\<rparr>"

lemma heap_two_inv: "heap_inv heap_two"
proof -
  have "heap_blocks heap_two [(4096, 8180, True)]"
  proof (rule heap_blocksI)
    obtain pm where al: "pmm_alloc_blocks 2 pmm_small = (4096, pm)"
      using pmm_small_alloc by (cases "pmm_alloc_blocks 2 pmm_small") simp
    then have pm: "heap_pmm heap_two = pm" by (simp add: heap_two_def)
    show "pmm_inv (heap_pmm heap_two)" unfolding pm using pmm.alloc_inv [OF pmm_small_inv al] .
    show "x div 4096 \<in> frames_used (heap_pmm heap_two)" if "x \<in> all_bytes [(4096, 8180, True)]" for x
    proof -
      have "x div 4096 \<in> frame_run 4096 2"
        using that by (auto simp: all_bytes_def block_bytes_def frame_run_def PMM_BLOCK_SIZE_def)
      then show ?thesis unfolding pm using pmm.alloc_owned [OF pmm_small_inv al] by simp
    qed
  qed (simp_all add: heap_two_def)
  then show ?thesis by (auto simp: heap_inv_def)
qed

definition pipe_demo :: pipe_sys where
  "pipe_demo = \<lparr>pipes = Map.empty, pipe_heap = heap_two, pipe_sched = sched_pair\<rparr>"

definition demo_start :: pipe_sys where
  "demo_start = snd (the (pipe_create (replicate 4096 0) pipe_demo))"

definition demo_use :: pipe_use where
  "demo_use = \<lparr>rfds = 1, wfds = 1, rd = {#}, wr = {#}, sent = [], received = []\<rparr>"

abbreviation wake_55 :: "ptr \<Rightarrow> ptr \<Rightarrow> int \<Rightarrow> sched \<Rightarrow> sched option" where
  "wake_55 \<equiv> (\<lambda>f p status. task_wake_all 55)"

lemma sched_pair_idle: "sched_ok sched_pair" "sched_waiting sched_pair ch = []"
  using sched_pair_inv waiting_eq [OF sched_pair_inv] by (auto simp: sched_ok_def waiting_on_def)

lemma pipe_demo_create:
  "pipe_create (replicate 4096 0) pipe_demo = Some (4108, demo_start)" "pipe_sched demo_start = sched_pair"
  "pipes demo_start 4108 = Some \<lparr>buf = replicate 4096 0, read_pos = 0, write_pos = 0, count = 0, readers = 1, writers = 1\<rparr>"
  by (simp_all add: demo_start_def pipe_create_def pipe_demo_def kmalloc_def kmalloc_sized_def find_fit.simps
    take_block_def heap_two_def HDR_def sizeof_pipe_def)

lemma pipe_demo_reach: "pipe_reach wake_55 4108 demo_start demo_use"
  unfolding demo_use_def using heap_two_inv sched_pair_idle pipe_demo_create
  by (intro created [of pipe_demo "replicate 4096 0"]) (auto simp: pipe_demo_def PIPE_BUF_SIZE_def)

text \<open>The main task reads from the empty pipe and blocks.\<close>

lemma pipe_demo_blocked:
  "\<exists>st. pipe_read wake_55 4108 64 16 demo_start = Some (Parked (), st) \<and> \<not> halted (pipe_sched st) \<and>
     blocked_tasks (pipe_sched st) = 4096 \<and>
     (\<exists>t. tcb (pipe_sched st) 4096 = Some t \<and> t_wait_channel t = 8212 \<and> t_blocked_next t = NULL)"
  using pipe_demo_create
  by (simp add: pipe_read_def pipe_read_loop_def pipe_block_killable_def on_sched_def addr_count_def sched_pair_def
    sched_eval set_pipe_def)

lemma head_waits:
  assumes ok: "sched_ok s" and t: "blocked_tasks s = p" "p \<noteq> NULL" "tcb s p = Some t" "t_wait_channel t = ch"
  shows "sched_waiting s ch \<noteq> []"
proof -
  obtain rs bs where inv: "sched_inv s rs bs" using ok by (auto simp: sched_ok_def)
  have "path (bnexts (tcb s)) p bs NULL" using sched_invD(1) [OF inv] t(1) by (simp add: queues_def)
  then have "p \<in> set bs" using t(2) by (cases bs) auto
  moreover have "chans (tcb s) p = Some ch" using t(3,4) by (simp add: chans_def)
  ultimately show ?thesis using waiting_eq [OF inv, of ch] by (auto simp: waiting_on_def filter_empty_conv)
qed

text \<open>The main task writes three bytes, which wakes nobody and returns at once.\<close>

lemma pipe_demo_written:
  "\<exists>st q. pipe_write wake_55 4108 64 [1, 2, 3] demo_start = Some (Finished 3, st) \<and> \<not> halted (pipe_sched st) \<and>
     pipes st 4108 = Some q"
  using pipe_demo_create
  by (simp add: pipe_write_def pipe_write_loop.simps fill.simps PIPE_BUF_SIZE_def pipe_write_end_def pipe_close_write_def
    pipe_free_if_done_def on_sched_def sched_pair_def sched_eval set_pipe_def)

theorem pipe_stream_order_witness:
  "\<exists>st q u. pipe_reach wake_55 4108 st u \<and> pipes st 4108 = Some q \<and> sent u = [1, 2, 3] \<and> contents q = [1, 2, 3]"
proof -
  obtain st q where w: "pipe_write wake_55 4108 64 [1, 2, 3] demo_start = Some (Finished 3, st)"
    "\<not> halted (pipe_sched st)" "pipes st 4108 = Some q" using pipe_demo_written by blast
  have r: "pipe_reach wake_55 4108 st (after_write [1, 2, 3] 0 (Finished 3) demo_use)"
    by (rule call_w [OF pipe_demo_reach _ w(1,2)]) (simp add: demo_use_def)
  have u: "sent (after_write [1, 2, 3] 0 (Finished 3) demo_use) = [1, 2, 3]"
    "received (after_write [1, 2, 3] 0 (Finished 3) demo_use) = []"
    by (simp_all add: after_write_def put_so_far_def demo_use_def)
  have "contents q = [1, 2, 3]" using pipe_stream_order [OF r wake_callback_ok] w(3) u by simp
  with r u(1) w(3) show ?thesis by blast
qed

theorem pipe_lifetime_witness:
  "pipe_reach wake_55 4108 demo_start demo_use \<and> rfds demo_use = 1 \<and> pipes demo_start 4108 \<noteq> None \<and>
     (\<exists>out st'. pipe_read wake_55 4108 64 16 demo_start = Some (out, st'))"
  using pipe_lifetime [OF pipe_demo_reach wake_callback_ok, of 64 16] pipe_demo_reach
  by (simp add: demo_use_def)


end
