(* ===== verification/Process.thy ===== *)
theory Process
  imports Process_Table Pipe Elf
begin

text \<open>
  Processes (src/process.c) on the state of the whole kernel: the process table, the descriptors of
  the processes (src/syscall.c), the scheduler, paging with the kernel heap and the page frames, the
  pipes, the file systems and the console. Launching, forking, replacing the image, ending, waiting,
  signals, threads and alarms are transitions of that state, composed of the operations of the other
  components, and so is spawning a program (src/elf_loader.c).

  A call that may block returns \<open>Finished\<close>, or \<open>Parked\<close> with what the call keeps when the task gives
  up the processor; the definition with suffix \<open>_resumed\<close> is what runs when the task continues. A call
  that ends the task is \<open>Died\<close>. \<open>None\<close> is an access through a dangling pointer.
\<close>

section \<open>The state of the kernel\<close>

datatype of_kind = OF_NONE | OF_FILE | OF_PIPE_R | OF_PIPE_W

record open_file =
  of_kind :: of_kind
  of_node :: ptr
  of_offset :: u32
  of_pipe :: ptr

definition MAX_OPEN_FILES :: nat where "MAX_OPEN_FILES = 8"

definition closed_file :: open_file where
  "closed_file = \<lparr>of_kind = OF_NONE, of_node = NULL, of_offset = 0, of_pipe = NULL\<rparr>"

record 's kernel =
  k_table :: process_table
  k_files :: "open_file list list"
  k_sched :: sched
  k_paging :: paging
  k_pipes :: "ptr \<Rightarrow> pipe_t option"
  k_fs :: 's
  k_term :: terminal

text \<open>
  What linking fixes: the drivers behind the file systems, where the process table lies, and the
  addresses of the functions that are passed to \<open>create_task\<close>.
\<close>

record 's platform =
  pf_drivers :: "'s drivers"
  pf_processes :: ptr
  pf_process_task_runner :: ptr
  pf_fork_child_entry :: ptr
  pf_thread_trampoline :: ptr
  pf_process_task_exit :: ptr
  pf_thread_on_exit :: ptr

text \<open>\<open>sizeof(process_t)\<close> and the offsets of the fields whose addresses are wait channels.\<close>

definition sizeof_process :: u32 where "sizeof_process = 1248"
definition offset_stopped :: u32 where "offset_stopped = 481"
definition offset_thread_count :: u32 where "offset_thread_count = 484"
definition offset_waitpid_event :: u32 where "offset_waitpid_event = 489"

definition proc_addr :: "'s platform \<Rightarrow> nat \<Rightarrow> ptr" where
  "proc_addr pf i = pf_processes pf + of_nat i * sizeof_process"

text \<open>The slot a pointer to a process denotes, \<open>Some None\<close> for a null pointer.\<close>

definition proc_ref :: "'s platform \<Rightarrow> ptr \<Rightarrow> nat option option" where
  "proc_ref pf p = (if p = NULL then Some None else map_option Some (find (\<lambda>i. proc_addr pf i = p) [0..<MAX_PROCESSES]))"

abbreviation kproc :: "'s kernel \<Rightarrow> nat \<Rightarrow> process" where
  "kproc k i \<equiv> proc (k_table k) i"

definition upd_proc :: "nat \<Rightarrow> (process \<Rightarrow> process) \<Rightarrow> 's kernel \<Rightarrow> 's kernel" where
  "upd_proc i f k = k\<lparr>k_table := set_proc i f (k_table k)\<rparr>"

section \<open>Operations of the other components on the whole state\<close>

text \<open>
  There is one pool of page frames and one active address space. Both are kept with the paging state:
  the scheduler works on the frames found there, and when it has chosen another address space the
  paging code activates it.
\<close>

definition sched_view :: "'s kernel \<Rightarrow> sched" where
  "sched_view k = (k_sched k)\<lparr>task_pmm := heap_pmm (pg_heap (k_paging k)), active_space := pg_active (k_paging k),
     kernel_space := kernel_space_at (k_paging k)\<rparr>"

definition run_sched :: "(sched \<Rightarrow> ('a \<times> sched) option) \<Rightarrow> 's kernel \<Rightarrow> ('a \<times> 's kernel) option" where
  "run_sched f k = do {
     (r, s) \<leftarrow> f (sched_view k);
     let pg1 = (k_paging k)\<lparr>pg_heap := (pg_heap (k_paging k))\<lparr>heap_pmm := task_pmm s\<rparr>\<rparr>;
     pg \<leftarrow> (if active_space s = pg_active pg1 then Some pg1 else paging_activate_address_space (active_space s) pg1);
     Some (r, k\<lparr>k_sched := s, k_paging := pg\<rparr>)
   }"

definition do_sched :: "(sched \<Rightarrow> sched option) \<Rightarrow> 's kernel \<Rightarrow> 's kernel option" where
  "do_sched f k = map_option snd (run_sched (\<lambda>s. map_option (Pair ()) (f s)) k)"

text \<open>The calls on pipes used here neither switch tasks nor take pages for the scheduler.\<close>

definition run_pipe :: "(pipe_sys \<Rightarrow> ('a \<times> pipe_sys) option) \<Rightarrow> 's kernel \<Rightarrow> ('a \<times> 's kernel) option" where
  "run_pipe f k = do {
     (r, ps) \<leftarrow> f \<lparr>pipes = k_pipes k, pipe_heap = pg_heap (k_paging k), pipe_sched = sched_view k\<rparr>;
     Some (r, k\<lparr>k_pipes := pipes ps, k_paging := (k_paging k)\<lparr>pg_heap := pipe_heap ps\<rparr>, k_sched := pipe_sched ps\<rparr>)
   }"

definition do_pipe :: "(pipe_sys \<Rightarrow> pipe_sys option) \<Rightarrow> 's kernel \<Rightarrow> 's kernel option" where
  "do_pipe f k = map_option snd (run_pipe (\<lambda>s. map_option (Pair ()) (f s)) k)"

definition do_paging :: "(paging \<Rightarrow> paging option) \<Rightarrow> 's kernel \<Rightarrow> 's kernel option" where
  "do_paging f k = map_option (\<lambda>pg. k\<lparr>k_paging := pg\<rparr>) (f (k_paging k))"

definition run_paging :: "(paging \<Rightarrow> ('a \<times> paging) option) \<Rightarrow> 's kernel \<Rightarrow> ('a \<times> 's kernel) option" where
  "run_paging f k = map_option (\<lambda>(r, pg). (r, k\<lparr>k_paging := pg\<rparr>)) (f (k_paging k))"

definition do_fs :: "('s \<Rightarrow> 's option) \<Rightarrow> 's kernel \<Rightarrow> 's kernel option" where
  "do_fs f k = map_option (\<lambda>s. k\<lparr>k_fs := s\<rparr>) (f (k_fs k))"

definition run_loader :: "('s loader \<Rightarrow> ('a \<times> 's loader) option) \<Rightarrow> 's kernel \<Rightarrow> ('a \<times> 's kernel) option" where
  "run_loader f k = map_option (\<lambda>(r, l). (r, k\<lparr>k_fs := ld_fs l, k_term := ld_term l, k_paging := ld_paging l\<rparr>))
     (f \<lparr>ld_fs = k_fs k, ld_term = k_term k, ld_paging = k_paging k\<rparr>)"

definition print :: "string \<Rightarrow> 's kernel \<Rightarrow> 's kernel" where
  "print msg k = k\<lparr>k_term := terminal_writestring (map of_char msg) (k_term k)\<rparr>"

section \<open>The current process\<close>

definition process_get_current :: "'s platform \<Rightarrow> 's kernel \<Rightarrow> nat option option" where
  "process_get_current pf k =
     (if current_task (k_sched k) = NULL then Some None
      else do { t \<leftarrow> tcb (k_sched k) (current_task (k_sched k)); proc_ref pf (t_process t) })"

definition process_get_current_pid :: "'s platform \<Rightarrow> 's kernel \<Rightarrow> int option" where
  "process_get_current_pid pf k = do {
     c \<leftarrow> process_get_current pf k;
     Some (case c of None \<Rightarrow> 0 | Some i \<Rightarrow> pr_pid (kproc k i))
   }"

section \<open>Descriptors\<close>

definition kfile :: "'s kernel \<Rightarrow> nat \<Rightarrow> nat \<Rightarrow> open_file" where
  "kfile k slot i = k_files k ! slot ! i"

definition set_file :: "nat \<Rightarrow> nat \<Rightarrow> open_file \<Rightarrow> 's kernel \<Rightarrow> 's kernel" where
  "set_file slot i f k = k\<lparr>k_files := (k_files k)[slot := (k_files k ! slot)[i := f]]\<rparr>"

definition close_fd_entry :: "'s platform \<Rightarrow> nat \<Rightarrow> nat \<Rightarrow> 's kernel \<Rightarrow> 's kernel option" where
  "close_fd_entry pf slot i k = do {
     let e = kfile k slot i;
     k1 \<leftarrow> (case of_kind e of
         OF_FILE \<Rightarrow> if of_node e \<noteq> NULL then do_fs (close_fs (pf_drivers pf) (of_node e)) k else Some k
       | OF_PIPE_R \<Rightarrow> do_pipe (pipe_close_read (of_pipe e)) k
       | OF_PIPE_W \<Rightarrow> do_pipe (pipe_close_write (of_pipe e)) k
       | OF_NONE \<Rightarrow> Some k);
     Some (set_file slot i closed_file k1)
   }"

text \<open>One more reference to what a descriptor denotes.\<close>

definition retain_file :: "'s platform \<Rightarrow> open_file \<Rightarrow> 's kernel \<Rightarrow> 's kernel option" where
  "retain_file pf e k =
     (case of_kind e of
        OF_FILE \<Rightarrow> if of_node e \<noteq> NULL then do_fs (open_fs (pf_drivers pf) (of_node e)) k else Some k
      | OF_PIPE_R \<Rightarrow> do_pipe (pipe_ref_read (of_pipe e)) k
      | OF_PIPE_W \<Rightarrow> do_pipe (pipe_ref_write (of_pipe e)) k
      | OF_NONE \<Rightarrow> Some k)"

fun close_files_loop :: "'s platform \<Rightarrow> nat \<Rightarrow> nat list \<Rightarrow> 's kernel \<Rightarrow> 's kernel option" where
  "close_files_loop pf slot [] k = Some k"
| "close_files_loop pf slot (i # is) k = do {
     k1 \<leftarrow> (if of_kind (kfile k slot i) \<noteq> OF_NONE then close_fd_entry pf slot i k else Some k);
     close_files_loop pf slot is k1
   }"

definition syscall_close_user_files :: "'s platform \<Rightarrow> nat \<Rightarrow> 's kernel \<Rightarrow> 's kernel option" where
  "syscall_close_user_files pf i k =
     (if pr_slot (kproc k i) \<ge> MAX_PROCESSES then Some k
      else close_files_loop pf (pr_slot (kproc k i)) [0..<MAX_OPEN_FILES] k)"

fun copy_files_loop :: "'s platform \<Rightarrow> nat \<Rightarrow> nat \<Rightarrow> nat list \<Rightarrow> 's kernel \<Rightarrow> 's kernel option" where
  "copy_files_loop pf src dst [] k = Some k"
| "copy_files_loop pf src dst (i # is) k = do {
     let k1 = set_file dst i (kfile k src i) k;
     k2 \<leftarrow> retain_file pf (kfile k1 dst i) k1;
     copy_files_loop pf src dst is k2
   }"

definition syscall_copy_user_files :: "'s platform \<Rightarrow> nat \<Rightarrow> nat \<Rightarrow> 's kernel \<Rightarrow> 's kernel option" where
  "syscall_copy_user_files pf parent child k =
     (let src = pr_slot (kproc k parent); dst = pr_slot (kproc k child) in
      if src \<ge> MAX_PROCESSES \<or> dst \<ge> MAX_PROCESSES then Some k
      else copy_files_loop pf src dst [0..<MAX_OPEN_FILES] k)"

section \<open>Signals and kill requests\<close>

definition process_send_signal :: "int \<Rightarrow> int \<Rightarrow> 's kernel \<Rightarrow> (int \<times> 's kernel) option" where
  "process_send_signal pid signum k =
     (case process_find pid (k_table k) of
        Some i \<Rightarrow>
          if signum > 0 \<and> signum < int NSIG then do {
            let k1 = upd_proc i (\<lambda>p. p\<lparr>pr_sig_pending := pr_sig_pending p OR push_bit (nat signum) 1\<rparr>) k;
            let task = pr_task (kproc k1 i);
            blocked \<leftarrow> (if task = NULL then Some False else map_option (\<lambda>t. t_state t = TASK_BLOCKED) (tcb (k_sched k1) task));
            k2 \<leftarrow> (if blocked then do_sched (task_wake_task task) k1 else Some k1);
            Some (0, k2)
          }
          else Some (- 1, k)
      | None \<Rightarrow> Some (- 1, k))"

definition process_request_kill :: "'s platform \<Rightarrow> int \<Rightarrow> 's kernel \<Rightarrow> 's kernel option" where
  "process_request_kill pf pid k =
     (case process_find pid (k_table k) of None \<Rightarrow> Some k
      | Some i \<Rightarrow> map_option snd (run_sched (task_kill_blocked (proc_addr pf i)) k))"

definition process_kill :: "'s platform \<Rightarrow> int \<Rightarrow> 's kernel \<Rightarrow> (int \<times> 's kernel) option" where
  "process_kill pf pid k =
     (case process_find pid (k_table k) of
        Some i \<Rightarrow>
          if pr_state (kproc k i) = PROCESS_RUNNING then map_option (Pair 0) (process_request_kill pf pid k) else Some (- 1, k)
      | None \<Rightarrow> Some (- 1, k))"

fun alarms_loop :: "u32 \<Rightarrow> nat list \<Rightarrow> 's kernel \<Rightarrow> 's kernel option" where
  "alarms_loop current_tick [] k = Some k"
| "alarms_loop current_tick (i # is) k = do {
     let p = kproc k i;
     k1 \<leftarrow> (if pr_state p = PROCESS_RUNNING \<and> pr_alarm_active p \<and> sint (current_tick - pr_alarm_tick p) \<ge> 0
       then map_option snd (process_send_signal (pr_pid p) (int SIGALRM)
              (upd_proc i (\<lambda>p. p\<lparr>pr_alarm_active := False, pr_alarm_tick := 0\<rparr>) k))
       else Some k);
     alarms_loop current_tick is k1
   }"

definition process_check_alarms :: "u32 \<Rightarrow> 's kernel \<Rightarrow> 's kernel option" where
  "process_check_alarms current_tick k = alarms_loop current_tick [0..<MAX_PROCESSES] k"

section \<open>The end of a process\<close>

text \<open>The children of a process that ends: zombies are released, the others will release themselves.\<close>

definition reparent :: "nat \<Rightarrow> process_table \<Rightarrow> process_table" where
  "reparent i t = fold (\<lambda>c t.
     if pr_state (proc t c) = PROCESS_UNUSED \<or> pr_parent_pid (proc t c) \<noteq> pr_pid (proc t i) then t
     else if pr_state (proc t c) = PROCESS_ZOMBIE then process_release c t
     else set_proc c (\<lambda>p. p\<lparr>pr_parent_pid := 0, pr_auto_reap := True\<rparr>) t) [0..<MAX_PROCESSES] t"

definition close_std_streams :: "'s platform \<Rightarrow> nat \<Rightarrow> 's kernel \<Rightarrow> 's kernel option" where
  "close_std_streams pf i k = do {
     let dr = pf_drivers pf;
     k1 \<leftarrow> (if pr_stdout_pipe (kproc k i) \<noteq> NULL
       then map_option (upd_proc i (\<lambda>p. p\<lparr>pr_stdout_pipe := NULL\<rparr>)) (do_pipe (pipe_close_write (pr_stdout_pipe (kproc k i))) k)
       else Some k);
     k2 \<leftarrow> (if pr_stdin_pipe (kproc k1 i) \<noteq> NULL
       then map_option (upd_proc i (\<lambda>p. p\<lparr>pr_stdin_pipe := NULL\<rparr>)) (do_pipe (pipe_close_read (pr_stdin_pipe (kproc k1 i))) k1)
       else Some k1);
     k3 \<leftarrow> (if pr_stdout_node (kproc k2 i) \<noteq> NULL
       then map_option (upd_proc i (\<lambda>p. p\<lparr>pr_stdout_node := NULL\<rparr>)) (do_fs (close_fs dr (pr_stdout_node (kproc k2 i))) k2)
       else Some k2);
     if pr_stdin_node (kproc k3 i) \<noteq> NULL
     then map_option (upd_proc i (\<lambda>p. p\<lparr>pr_stdin_node := NULL\<rparr>)) (do_fs (close_fs dr (pr_stdin_node (kproc k3 i))) k3)
     else Some k3
   }"

text \<open>The parent hears of the end: the signal, and the channel its waiting threads sleep on.\<close>

definition notify_parent :: "'s platform \<Rightarrow> nat \<Rightarrow> 's kernel \<Rightarrow> 's kernel option" where
  "notify_parent pf i k =
     (let parent_pid = pr_parent_pid (kproc k i) in
      if parent_pid > 0 then do {
        let parent = process_find parent_pid (k_table k);
        (r, k1) \<leftarrow> process_send_signal parent_pid (int SIGCHLD) k;
        case parent of None \<Rightarrow> Some k1 | Some q \<Rightarrow> do_sched (task_wake_all (proc_addr pf q + offset_waitpid_event)) k1
      }
      else Some k)"

definition process_finish_exit :: "'s platform \<Rightarrow> nat \<Rightarrow> int \<Rightarrow> 's kernel \<Rightarrow> 's kernel option" where
  "process_finish_exit pf i status k = do {
     k1 \<leftarrow> close_std_streams pf i (k\<lparr>k_table := reparent i (k_table k)\<rparr>);
     k2 \<leftarrow> syscall_close_user_files pf i k1;
     k3 \<leftarrow> do_paging (paging_destroy_user_address_space (pr_address_space (kproc k2 i))) k2;
     let k4 = upd_proc i (\<lambda>p. p\<lparr>pr_address_space := NULL, pr_task := NULL, pr_exit_status := status, pr_state := PROCESS_ZOMBIE\<rparr>) k3;
     k5 \<leftarrow> notify_parent pf i k4;
     k6 \<leftarrow> do_sched (task_wake_all (proc_addr pf i)) k5;
     Some (if pr_auto_reap (kproc k6 i) then k6\<lparr>k_table := process_release i (k_table k6)\<rparr> else k6)
   }"

text \<open>The exit callbacks of the tasks; \<open>task\<close> is the address of the task that ends.\<close>

definition process_task_exit :: "'s platform \<Rightarrow> ptr \<Rightarrow> int \<Rightarrow> 's kernel \<Rightarrow> 's kernel option" where
  "process_task_exit pf task status k = do {
     t \<leftarrow> tcb (k_sched k) task;
     p \<leftarrow> proc_ref pf (t_process t);
     case p of None \<Rightarrow> Some k
     | Some i \<Rightarrow>
         if pr_thread_count (kproc k i) > 0
         then Some (upd_proc i (\<lambda>p. p\<lparr>pr_main_exited := True, pr_exit_status := status, pr_task := NULL\<rparr>) k)
         else process_finish_exit pf i status k
   }"

definition thread_on_exit :: "'s platform \<Rightarrow> ptr \<Rightarrow> int \<Rightarrow> 's kernel \<Rightarrow> 's kernel option" where
  "thread_on_exit pf task status k = do {
     t \<leftarrow> tcb (k_sched k) task;
     p \<leftarrow> proc_ref pf (t_process t);
     case p of None \<Rightarrow> Some k
     | Some i \<Rightarrow> do {
         let k1 = upd_proc i (\<lambda>p. p\<lparr>pr_thread_count := (if pr_thread_count p > 0 then pr_thread_count p - 1 else pr_thread_count p)\<rparr>) k;
         k2 \<leftarrow> do_sched (task_wake_all (proc_addr pf i + offset_thread_count)) k1;
         if pr_thread_count (kproc k2 i) = 0 \<and> pr_main_exited (kproc k2 i)
         then process_finish_exit pf i (pr_exit_status (kproc k2 i)) k2 else Some k2
       }
   }"

definition call_on_exit :: "'s platform \<Rightarrow> ptr \<Rightarrow> ptr \<Rightarrow> int \<Rightarrow> 's kernel \<Rightarrow> 's kernel option" where
  "call_on_exit pf fn task status k =
     (if fn = pf_process_task_exit pf then process_task_exit pf task status k
      else if fn = pf_thread_on_exit pf then thread_on_exit pf task status k
      else None)"

text \<open>
  \<open>task_exit\<close> on the whole state. What precedes the callback yields the task, its successor and the
  callback, or nothing when the machine halts; \<open>task_exit_split\<close> below shows that the three parts are
  those of the scheduler's definition.
\<close>

definition task_leave :: "sched \<Rightarrow> ((ptr \<times> ptr \<times> ptr) option \<times> sched) option" where
  "task_leave s =
     (let p = current_task s in
      if p = NULL then Some (None, s\<lparr>halted := True\<rparr>)
      else do {
        previous \<leftarrow> ready_previous_loop p p s;
        if previous = p then Some (None, s\<lparr>current_task := NULL, ready_queue := NULL, halted := True\<rparr>)
        else do {
          s1 \<leftarrow> reap_retired_task s;
          t \<leftarrow> tcb s1 p;
          s2 \<leftarrow> upd_task previous (\<lambda>q. q\<lparr>t_next := t_next t\<rparr>) s1;
          let s3 = (if ready_queue s2 = p then s2\<lparr>ready_queue := t_next t\<rparr> else s2);
          s4 \<leftarrow> activate_task (t_next t) (s3\<lparr>current_task := t_next t, retired_task := p\<rparr>);
          Some (Some (p, t_next t, t_on_exit t), s4)
        }
      })"

definition leave_for :: "ptr \<Rightarrow> ptr \<Rightarrow> sched \<Rightarrow> sched option" where
  "leave_for p n s = do { tn \<leftarrow> tcb s n; switch_task p (t_esp tn) s }"

definition exit_task :: "'s platform \<Rightarrow> int \<Rightarrow> 's kernel \<Rightarrow> 's kernel option" where
  "exit_task pf status k = do {
     (r, k1) \<leftarrow> run_sched task_leave k;
     case r of None \<Rightarrow> Some (print (if current_task (k_sched k) = NULL then ''Cannot exit: tasking is not initialized.\<newline>''
         else ''Last task exited. System halted.\<newline>'') k1)
     | Some (p, n, fn) \<Rightarrow> do {
         k2 \<leftarrow> (if fn \<noteq> NULL then call_on_exit pf fn p status k1 else Some k1);
         do_sched (leave_for p n) k2
       }
   }"

definition process_check_kill :: "'s platform \<Rightarrow> 's kernel \<Rightarrow> ((unit, unit) blocking \<times> 's kernel) option" where
  "process_check_kill pf k = do {
     pending \<leftarrow> task_kill_pending (k_sched k);
     if pending then map_option (Pair (Died ())) (exit_task pf TASK_KILL_STATUS k) else Some (Finished (), k)
   }"

section \<open>Launching, forking, replacing the image\<close>

text \<open>The first instructions of a new task: the address and stack it enters user mode with, or its end.\<close>

definition process_task_runner :: "'s platform \<Rightarrow> 's kernel \<Rightarrow> ((u32 \<times> u32, unit) blocking \<times> 's kernel) option" where
  "process_task_runner pf k = do {
     c \<leftarrow> process_get_current pf k;
     case c of None \<Rightarrow> map_option (Pair (Died ())) (exit_task pf (- 1) k)
     | Some i \<Rightarrow> Some (Finished (pr_entry_point (kproc k i), pr_user_stack (kproc k i)), k)
   }"

definition fork_child_entry :: "'s platform \<Rightarrow> 's kernel \<Rightarrow> ((fork_frame, unit) blocking \<times> 's kernel) option" where
  "fork_child_entry pf k = do {
     c \<leftarrow> process_get_current pf k;
     case c of None \<Rightarrow> map_option (Pair (Died ())) (exit_task pf (- 1) k)
     | Some i \<Rightarrow> Some (Finished (pr_fork_frame (kproc k i)), k)
   }"

definition thread_trampoline :: "'s platform \<Rightarrow> 's kernel \<Rightarrow> ((u32 \<times> u32, unit) blocking \<times> 's kernel) option" where
  "thread_trampoline pf k =
     (let task = task_get_current (k_sched k) in
      if task = NULL then map_option (Pair (Died ())) (exit_task pf (- 1) k)
      else do { t \<leftarrow> tcb (k_sched k) task; Some (Finished (t_user_entry t, t_user_stack t), k) })"

definition process_launch :: "'s platform \<Rightarrow> u32 \<Rightarrow> u32 \<Rightarrow> ptr \<Rightarrow> string option \<Rightarrow> u32 \<Rightarrow> 's kernel \<Rightarrow> (int \<times> 's kernel) option" where
  "process_launch pf entry_point user_stack address_space name heap_base k =
     (if address_space = NULL then Some (- 1, k)
      else do {
        parent \<leftarrow> process_get_current_pid pf k;
        case process_allocate parent (k_table k) of
          (None, t) \<Rightarrow> Some (- 1, k\<lparr>k_table := t\<rparr>)
        | (Some i, t) \<Rightarrow> do {
            let k1 = upd_proc i (\<lambda>p. p\<lparr>pr_entry_point := entry_point, pr_user_stack := user_stack, pr_address_space := address_space,
                  pr_heap_start := heap_base, pr_heap_break := heap_base, pr_name := process_copy_name name\<rparr>) (k\<lparr>k_table := t\<rparr>);
            (task, k2) \<leftarrow> run_sched (create_task (pf_process_task_runner pf) (pf_process_task_exit pf) address_space (proc_addr pf i) 0 0) k1;
            let k3 = upd_proc i (\<lambda>p. p\<lparr>pr_task := task\<rparr>) k2;
            Some (if task = NULL then (- 1, k3\<lparr>k_table := process_release i (k_table k3)\<rparr>)
                  else (pr_pid (kproc k3 i), k3\<lparr>k_table := note_peak (k_table k3)\<rparr>))
          }
      })"

text \<open>What a forked child has of its parent, up to the descriptors.\<close>

definition inherit :: "process \<Rightarrow> ptr \<Rightarrow> fork_frame \<Rightarrow> process \<Rightarrow> process" where
  "inherit parent space kept child = child\<lparr>pr_address_space := space, pr_entry_point := pr_entry_point parent,
     pr_user_stack := pr_user_stack parent, pr_heap_start := pr_heap_start parent, pr_heap_break := pr_heap_break parent,
     pr_ext_map := pr_ext_map parent, pr_name := process_copy_name (Some (pr_name parent)), pr_cwd := pr_cwd parent,
     pr_sig_trampoline := pr_sig_trampoline parent, pr_sig_handler := pr_sig_handler parent, pr_sig_pending := 0,
     pr_in_signal := False, pr_fork_frame := kept, pr_env := pr_env parent\<rparr>"

definition inherit_streams :: "'s platform \<Rightarrow> nat \<Rightarrow> nat \<Rightarrow> 's kernel \<Rightarrow> 's kernel option" where
  "inherit_streams pf parent child k = do {
     let dr = pf_drivers pf;
     let par = kproc k parent;
     let k1 = upd_proc child (\<lambda>p. p\<lparr>pr_stdout_node := pr_stdout_node par, pr_stdout_offset := pr_stdout_offset par\<rparr>) k;
     k2 \<leftarrow> (if pr_stdout_node par \<noteq> NULL then do_fs (open_fs dr (pr_stdout_node par)) k1 else Some k1);
     let k3 = upd_proc child (\<lambda>p. p\<lparr>pr_stdin_node := pr_stdin_node par, pr_stdin_offset := pr_stdin_offset par\<rparr>) k2;
     k4 \<leftarrow> (if pr_stdin_node par \<noteq> NULL then do_fs (open_fs dr (pr_stdin_node par)) k3 else Some k3);
     let k5 = upd_proc child (\<lambda>p. p\<lparr>pr_stdout_pipe := pr_stdout_pipe par\<rparr>) k4;
     k6 \<leftarrow> (if pr_stdout_pipe par \<noteq> NULL then do_pipe (pipe_ref_write (pr_stdout_pipe par)) k5 else Some k5);
     let k7 = upd_proc child (\<lambda>p. p\<lparr>pr_stdin_pipe := pr_stdin_pipe par\<rparr>) k6;
     if pr_stdin_pipe par \<noteq> NULL then do_pipe (pipe_ref_read (pr_stdin_pipe par)) k7 else Some k7
   }"

text \<open>The way back when the task of a child cannot be created.\<close>

definition fork_undo :: "'s platform \<Rightarrow> nat \<Rightarrow> 's kernel \<Rightarrow> 's kernel option" where
  "fork_undo pf child k = do {
     let dr = pf_drivers pf;
     let c = kproc k child;
     k1 \<leftarrow> (if pr_stdout_node c \<noteq> NULL then do_fs (close_fs dr (pr_stdout_node c)) k else Some k);
     k2 \<leftarrow> (if pr_stdin_node c \<noteq> NULL then do_fs (close_fs dr (pr_stdin_node c)) k1 else Some k1);
     k3 \<leftarrow> (if pr_stdout_pipe c \<noteq> NULL then do_pipe (pipe_close_write (pr_stdout_pipe c)) k2 else Some k2);
     k4 \<leftarrow> (if pr_stdin_pipe c \<noteq> NULL then do_pipe (pipe_close_read (pr_stdin_pipe c)) k3 else Some k3);
     k5 \<leftarrow> syscall_close_user_files pf child k4;
     Some (k5\<lparr>k_table := process_release child (k_table k5)\<rparr>)
   }"

definition process_fork :: "'s platform \<Rightarrow> nat option \<Rightarrow> ptr \<Rightarrow> fork_frame option \<Rightarrow> 's kernel \<Rightarrow> (int \<times> 's kernel) option" where
  "process_fork pf parent space kept k =
     (case (parent, kept) of
        (Some par, Some fr) \<Rightarrow>
          if space = NULL then Some (- 1, k)
          else do {
            pid \<leftarrow> process_get_current_pid pf k;
            case process_allocate pid (k_table k) of
              (None, t) \<Rightarrow> Some (- 1, k\<lparr>k_table := t\<rparr>)
            | (Some child, t) \<Rightarrow> do {
                let k1 = upd_proc child (inherit (proc t par) space fr) (k\<lparr>k_table := t\<rparr>);
                k2 \<leftarrow> syscall_copy_user_files pf par child k1;
                k3 \<leftarrow> inherit_streams pf par child k2;
                (task, k4) \<leftarrow> run_sched (create_task (pf_fork_child_entry pf) (pf_process_task_exit pf) space (proc_addr pf child) 0 0) k3;
                let k5 = upd_proc child (\<lambda>p. p\<lparr>pr_task := task\<rparr>) k4;
                if task = NULL then map_option (Pair (- 1)) (fork_undo pf child k5)
                else Some (pr_pid (kproc k5 child), k5\<lparr>k_table := note_peak (k_table k5)\<rparr>)
              }
          }
      | _ \<Rightarrow> Some (- 1, k))"

definition process_exec_reset :: "'s platform \<Rightarrow> ptr \<Rightarrow> u32 \<Rightarrow> string option \<Rightarrow> 's kernel \<Rightarrow> (int \<times> 's kernel) option" where
  "process_exec_reset pf fresh_space heap_base name k = do {
     c \<leftarrow> process_get_current pf k;
     let task = task_get_current (k_sched k);
     case c of None \<Rightarrow> Some (- 1, k)
     | Some i \<Rightarrow>
         if task = NULL \<or> fresh_space = NULL then Some (- 1, k)
         else if pr_thread_count (kproc k i) > 0 then Some (- 1, k)
         else do {
           let old = pr_address_space (kproc k i);
           let k1 = upd_proc i (\<lambda>p. p\<lparr>pr_address_space := fresh_space\<rparr>) k;
           s \<leftarrow> upd_task task (\<lambda>t. t\<lparr>t_address_space := fresh_space\<rparr>) (k_sched k1);
           k2 \<leftarrow> do_paging (paging_activate_address_space fresh_space) (k1\<lparr>k_sched := s\<rparr>);
           k3 \<leftarrow> (if old \<noteq> NULL then do_paging (paging_destroy_user_address_space old) k2 else Some k2);
           Some (0, upd_proc i (\<lambda>p. p\<lparr>pr_heap_start := heap_base, pr_heap_break := heap_base,
             pr_ext_map := replicate (USER_EXT_PAGES div 32) 0, pr_name := process_copy_name name,
             pr_sig_handler := replicate NSIG 0, pr_sig_pending := 0, pr_in_signal := False, pr_sig_trampoline := 0\<rparr>) k3)
         }
   }"

definition process_redirect :: "'s platform \<Rightarrow> int \<Rightarrow> ptr \<Rightarrow> u32 \<Rightarrow> ptr \<Rightarrow> 's kernel \<Rightarrow> 's kernel option" where
  "process_redirect pf pid out_node out_offset in_node k =
     (case process_find pid (k_table k) of None \<Rightarrow> Some k
      | Some i \<Rightarrow> do {
          let dr = pf_drivers pf;
          k1 \<leftarrow> (if pr_stdout_node (kproc k i) \<noteq> NULL then do_fs (close_fs dr (pr_stdout_node (kproc k i))) k else Some k);
          let k2 = upd_proc i (\<lambda>p. p\<lparr>pr_stdout_node := out_node\<rparr>) k1;
          k3 \<leftarrow> (if out_node \<noteq> NULL then do_fs (open_fs dr out_node) k2 else Some k2);
          let k4 = upd_proc i (\<lambda>p. p\<lparr>pr_stdout_offset := out_offset\<rparr>) k3;
          k5 \<leftarrow> (if pr_stdin_node (kproc k4 i) \<noteq> NULL then do_fs (close_fs dr (pr_stdin_node (kproc k4 i))) k4 else Some k4);
          let k6 = upd_proc i (\<lambda>p. p\<lparr>pr_stdin_node := in_node\<rparr>) k5;
          k7 \<leftarrow> (if in_node \<noteq> NULL then do_fs (open_fs dr in_node) k6 else Some k6);
          Some (upd_proc i (\<lambda>p. p\<lparr>pr_stdin_offset := 0\<rparr>) k7)
        })"

section \<open>Waiting\<close>

text \<open>\<open>task_block_killable\<close> up to the switch, and from there on; \<open>True\<close> when the task has ended.\<close>

definition block_killable :: "'s platform \<Rightarrow> ptr \<Rightarrow> 's kernel \<Rightarrow> (bool \<times> 's kernel) option" where
  "block_killable pf wait_channel k = do {
     pending \<leftarrow> task_kill_pending (k_sched k);
     k1 \<leftarrow> (if pending then exit_task pf TASK_KILL_STATUS k else do_sched (task_block_current wait_channel) k);
     Some (pending, k1)
   }"

definition block_killable_resumed :: "'s platform \<Rightarrow> 's kernel \<Rightarrow> (bool \<times> 's kernel) option" where
  "block_killable_resumed pf k = do {
     pending \<leftarrow> task_kill_pending (k_sched k);
     k1 \<leftarrow> (if pending then exit_task pf TASK_KILL_STATUS k else Some k);
     Some (pending, k1)
   }"

text \<open>Blocking with what the caller keeps.\<close>

definition park :: "'s platform \<Rightarrow> ptr \<Rightarrow> 'k \<Rightarrow> 's kernel \<Rightarrow> (('a, 'k) blocking \<times> 's kernel) option" where
  "park pf wait_channel kept k = do {
     (dead, k1) \<leftarrow> block_killable pf wait_channel k;
     Some (if dead then Died kept else Parked kept, k1)
   }"

text \<open>\<open>process_wait\<close> from the condition of its loop; it keeps the slot and the pid of the caller.\<close>

definition process_wait_loop :: "'s platform \<Rightarrow> int \<Rightarrow> nat \<times> int \<Rightarrow> 's kernel \<Rightarrow> ((int, nat \<times> int) blocking \<times> 's kernel) option" where
  "process_wait_loop pf pid kept k =
     (let (i, current_pid) = kept; p = kproc k i in
      if pr_state p = PROCESS_RUNNING then park pf (proc_addr pf i) kept k
      else if pr_state p \<noteq> PROCESS_ZOMBIE \<or> pr_pid p \<noteq> pid \<or> pr_parent_pid p \<noteq> current_pid then Some (Finished (- 1), k)
      else Some (Finished (pr_exit_status p), k\<lparr>k_table := process_release i (k_table k)\<rparr>))"

definition process_wait :: "'s platform \<Rightarrow> int \<Rightarrow> 's kernel \<Rightarrow> ((int, nat \<times> int) blocking \<times> 's kernel) option" where
  "process_wait pf pid k = do {
     current_pid \<leftarrow> process_get_current_pid pf k;
     case process_find pid (k_table k) of None \<Rightarrow> Some (Finished (- 1), k)
     | Some i \<Rightarrow> if pr_parent_pid (kproc k i) \<noteq> current_pid then Some (Finished (- 1), k) else process_wait_loop pf pid (i, current_pid) k
   }"

definition process_wait_resumed ::
  "'s platform \<Rightarrow> int \<Rightarrow> nat \<times> int \<Rightarrow> 's kernel \<Rightarrow> ((int, nat \<times> int) blocking \<times> 's kernel) option" where
  "process_wait_resumed pf pid kept k = do {
     (dead, k1) \<leftarrow> block_killable_resumed pf k;
     let (i, current_pid) = kept;
     if dead then Some (Died kept, k1)
     else if pr_state (kproc k1 i) = PROCESS_UNUSED \<or> pr_pid (kproc k1 i) \<noteq> pid \<or> pr_parent_pid (kproc k1 i) \<noteq> current_pid
     then Some (Finished (- 1), k1)
     else process_wait_loop pf pid kept k1
   }"

text \<open>The scan of the children: whether there is one, and the first that has ended.\<close>

fun child_scan :: "int \<Rightarrow> int \<Rightarrow> nat list \<Rightarrow> bool \<Rightarrow> process_table \<Rightarrow> bool \<times> nat option" where
  "child_scan pid current_pid [] has_child t = (has_child, None)"
| "child_scan pid current_pid (i # is) has_child t =
     (if pr_state (proc t i) = PROCESS_UNUSED \<or> pr_parent_pid (proc t i) \<noteq> current_pid then child_scan pid current_pid is has_child t
      else if pid > 0 \<and> pr_pid (proc t i) \<noteq> pid then child_scan pid current_pid is has_child t
      else if pr_state (proc t i) = PROCESS_ZOMBIE then (True, Some i)
      else child_scan pid current_pid is True t)"

text \<open>One round of \<open>process_waitpid\<close>; it keeps the slot and the pid of the caller, and the result is the pid and the status stored.\<close>

definition waitpid_loop ::
  "'s platform \<Rightarrow> int \<Rightarrow> bool \<Rightarrow> nat \<times> int \<Rightarrow> 's kernel \<Rightarrow> ((int \<times> int option, nat \<times> int) blocking \<times> 's kernel) option" where
  "waitpid_loop pf pid nohang kept k =
     (case child_scan pid (snd kept) [0..<MAX_PROCESSES] False (k_table k) of
        (_, Some z) \<Rightarrow> Some (Finished (pr_pid (kproc k z), Some (pr_exit_status (kproc k z))), k\<lparr>k_table := process_release z (k_table k)\<rparr>)
      | (has_child, None) \<Rightarrow>
          if \<not> has_child then Some (Finished (- 1, None), k)
          else if nohang then Some (Finished (0, None), k)
          else park pf (proc_addr pf (fst kept) + offset_waitpid_event) kept k)"

definition process_waitpid ::
  "'s platform \<Rightarrow> int \<Rightarrow> bool \<Rightarrow> 's kernel \<Rightarrow> ((int \<times> int option, nat \<times> int) blocking \<times> 's kernel) option" where
  "process_waitpid pf pid nohang k = do {
     c \<leftarrow> process_get_current pf k;
     case c of None \<Rightarrow> Some (Finished (- 1, None), k)
     | Some i \<Rightarrow> waitpid_loop pf pid nohang (i, pr_pid (kproc k i)) k
   }"

definition process_waitpid_resumed ::
  "'s platform \<Rightarrow> int \<Rightarrow> bool \<Rightarrow> nat \<times> int \<Rightarrow> 's kernel \<Rightarrow> ((int \<times> int option, nat \<times> int) blocking \<times> 's kernel) option" where
  "process_waitpid_resumed pf pid nohang kept k = do {
     (dead, k1) \<leftarrow> block_killable_resumed pf k;
     if dead then Some (Died kept, k1) else waitpid_loop pf pid nohang kept k1
   }"

text \<open>\<open>process_pause\<close>, which keeps the slot of the caller.\<close>

definition pause_loop :: "'s platform \<Rightarrow> nat \<Rightarrow> 's kernel \<Rightarrow> ((unit, nat) blocking \<times> 's kernel) option" where
  "pause_loop pf i k = (if pr_sig_pending (kproc k i) = 0 then park pf (proc_addr pf i) i k else Some (Finished (), k))"

definition process_pause :: "'s platform \<Rightarrow> 's kernel \<Rightarrow> ((unit, nat) blocking \<times> 's kernel) option" where
  "process_pause pf k = do {
     c \<leftarrow> process_get_current pf k;
     case c of None \<Rightarrow> Some (Finished (), k) | Some i \<Rightarrow> pause_loop pf i k
   }"

definition process_pause_resumed :: "'s platform \<Rightarrow> nat \<Rightarrow> 's kernel \<Rightarrow> ((unit, nat) blocking \<times> 's kernel) option" where
  "process_pause_resumed pf i k = do {
     (dead, k1) \<leftarrow> block_killable_resumed pf k;
     if dead then Some (Died i, k1) else pause_loop pf i k1
   }"

section \<open>Threads\<close>

definition process_thread_create :: "'s platform \<Rightarrow> u32 \<Rightarrow> u32 \<Rightarrow> 's kernel \<Rightarrow> (int \<times> 's kernel) option" where
  "process_thread_create pf entry stack_top k = do {
     c \<leftarrow> process_get_current pf k;
     case c of None \<Rightarrow> Some (- 1, k)
     | Some i \<Rightarrow>
         if pr_address_space (kproc k i) = NULL \<or> entry = 0 \<or> stack_top = 0 then Some (- 1, k)
         else do {
           let k1 = upd_proc i (\<lambda>p. p\<lparr>pr_thread_count := pr_thread_count p + 1\<rparr>) k;
           (task, k2) \<leftarrow> run_sched (create_task (pf_thread_trampoline pf) (pf_thread_on_exit pf) (pr_address_space (kproc k1 i))
             (proc_addr pf i) entry stack_top) k1;
           if task = NULL then Some (- 1, upd_proc i (\<lambda>p. p\<lparr>pr_thread_count := pr_thread_count p - 1\<rparr>) k2)
           else do { t \<leftarrow> tcb (k_sched k2) task; Some (sint (t_id t), k2) }
         }
   }"

definition join_loop :: "'s platform \<Rightarrow> nat \<Rightarrow> 's kernel \<Rightarrow> ((unit, nat) blocking \<times> 's kernel) option" where
  "join_loop pf i k =
     (if pr_thread_count (kproc k i) > 0 then park pf (proc_addr pf i + offset_thread_count) i k else Some (Finished (), k))"

definition process_thread_join :: "'s platform \<Rightarrow> 's kernel \<Rightarrow> ((unit, nat) blocking \<times> 's kernel) option" where
  "process_thread_join pf k = do {
     c \<leftarrow> process_get_current pf k;
     case c of None \<Rightarrow> Some (Finished (), k) | Some i \<Rightarrow> join_loop pf i k
   }"

definition process_thread_join_resumed :: "'s platform \<Rightarrow> nat \<Rightarrow> 's kernel \<Rightarrow> ((unit, nat) blocking \<times> 's kernel) option" where
  "process_thread_join_resumed pf i k = do {
     (dead, k1) \<leftarrow> block_killable_resumed pf k;
     if dead then Some (Died i, k1) else join_loop pf i k1
   }"

section \<open>Spawning programs\<close>

definition elf_load_and_spawn :: "'s platform \<Rightarrow> string \<Rightarrow> int \<Rightarrow> u8 list list \<Rightarrow> 's kernel \<Rightarrow> (int \<times> 's kernel) option" where
  "elf_load_and_spawn pf name argc argv k = do {
     (image, k1) \<leftarrow> run_loader (elf_load_image (pf_drivers pf) name argc argv) k;
     case image of None \<Rightarrow> Some (- 1, k1)
     | Some im \<Rightarrow> do {
         (pid, k2) \<leftarrow> process_launch pf (im_entry im) (im_esp im) (im_space im) (Some name) (im_heap_base im) k1;
         if pid < 0
         then map_option (Pair (- 1)) (do_paging (paging_destroy_user_address_space (im_space im)) (print ''exec: create_task failed\<newline>'' k2))
         else Some (pid, k2)
       }
   }"

definition elf_spawn_argv :: "'s platform \<Rightarrow> int \<Rightarrow> string list option \<Rightarrow> 's kernel \<Rightarrow> (int \<times> 's kernel) option" where
  "elf_spawn_argv pf argc argv k =
     (case argv of None \<Rightarrow> Some (- 1, k)
      | Some av \<Rightarrow> if argc < 1 then Some (- 1, k)
          else if av = [] then None
          else elf_load_and_spawn pf (hd av) argc (map (map of_char) av) k)"

definition elf_spawn :: "'s platform \<Rightarrow> string \<Rightarrow> 's kernel \<Rightarrow> (int \<times> 's kernel) option" where
  "elf_spawn pf name k = elf_load_and_spawn pf name 1 [map of_char name] k"

text \<open>Spawning and waiting: the frame keeps the pid waited for.\<close>

definition exec_wait :: "int \<Rightarrow> ((int, nat \<times> int) blocking \<times> 's kernel) option \<Rightarrow> ((int, int \<times> nat \<times> int) blocking \<times> 's kernel) option" where
  "exec_wait pid r = map_option (\<lambda>(b, k). (case b of Finished _ \<Rightarrow> Finished 0 | Parked f \<Rightarrow> Parked (pid, f) | Died f \<Rightarrow> Died (pid, f), k)) r"

definition elf_exec_argv :: "'s platform \<Rightarrow> int \<Rightarrow> string list option \<Rightarrow> 's kernel \<Rightarrow> ((int, int \<times> nat \<times> int) blocking \<times> 's kernel) option" where
  "elf_exec_argv pf argc argv k = do {
     (pid, k1) \<leftarrow> elf_spawn_argv pf argc argv k;
     if pid < 0 then Some (Finished (- 1), k1) else exec_wait pid (process_wait pf pid k1)
   }"

definition elf_exec :: "'s platform \<Rightarrow> string \<Rightarrow> 's kernel \<Rightarrow> ((int, int \<times> nat \<times> int) blocking \<times> 's kernel) option" where
  "elf_exec pf name k = do {
     (pid, k1) \<leftarrow> elf_spawn pf name k;
     if pid < 0 then Some (Finished (- 1), k1) else exec_wait pid (process_wait pf pid k1)
   }"

definition elf_exec_resumed :: "'s platform \<Rightarrow> int \<times> nat \<times> int \<Rightarrow> 's kernel \<Rightarrow> ((int, int \<times> nat \<times> int) blocking \<times> 's kernel) option" where
  "elf_exec_resumed pf kept k = exec_wait (fst kept) (process_wait_resumed pf (fst kept) (snd kept) k)"

section \<open>Ending a task\<close>

lemma task_exit_split:
  "task_exit callback status s = do {
     (r, s1) \<leftarrow> task_leave s;
     case r of None \<Rightarrow> Some s1
     | Some (p, n, fn) \<Rightarrow> do {
         s2 \<leftarrow> (if fn \<noteq> NULL then callback fn p status s1 else Some s1);
         leave_for p n s2
       }
   }"
  by (simp add: task_exit_def task_leave_def leave_for_def Let_def Option.bind_def split: option.split if_split)

end
