(* ===== verification/Process_Inv.thy ===== *)
theory Process_Inv
  imports Process
begin

text \<open>
  The process table under the operations of src/process.c on the whole kernel: what each of them does
  to the table, and that every sequence of them keeps it well formed.
\<close>

section \<open>What leaves the table alone\<close>

lemma run_sched_table [dest]: "run_sched f k = Some (r, k') \<Longrightarrow> k_table k' = k_table k \<and> k_files k' = k_files k"
  by (auto simp: run_sched_def bind_eq_Some_conv Let_def)

lemma do_sched_table [dest]: "do_sched f k = Some k' \<Longrightarrow> k_table k' = k_table k \<and> k_files k' = k_files k"
  by (auto simp: do_sched_def)

lemma run_pipe_table [dest]: "run_pipe f k = Some (r, k') \<Longrightarrow> k_table k' = k_table k \<and> k_files k' = k_files k"
  by (auto simp: run_pipe_def bind_eq_Some_conv)

lemma do_pipe_table [dest]: "do_pipe f k = Some k' \<Longrightarrow> k_table k' = k_table k \<and> k_files k' = k_files k"
  by (auto simp: do_pipe_def)

lemma do_paging_table [dest]: "do_paging f k = Some k' \<Longrightarrow> k_table k' = k_table k \<and> k_files k' = k_files k"
  by (auto simp: do_paging_def)

lemma run_paging_table [dest]: "run_paging f k = Some (r, k') \<Longrightarrow> k_table k' = k_table k \<and> k_files k' = k_files k"
  by (auto simp: run_paging_def)

lemma do_fs_table [dest]: "do_fs f k = Some k' \<Longrightarrow> k_table k' = k_table k \<and> k_files k' = k_files k"
  by (auto simp: do_fs_def)

lemma run_loader_table [dest]: "run_loader f k = Some (r, k') \<Longrightarrow> k_table k' = k_table k \<and> k_files k' = k_files k"
  by (auto simp: run_loader_def)

lemma print_table [simp]: "k_table (print m k) = k_table k"
  by (simp add: print_def)

lemma set_file_table [simp]: "k_table (set_file s i f k) = k_table k"
  by (simp add: set_file_def)

lemma upd_proc_table [simp]: "k_table (upd_proc i f k) = set_proc i f (k_table k)"
  by (simp add: upd_proc_def)

lemma close_fd_entry_table [dest]: "close_fd_entry pf s i k = Some k' \<Longrightarrow> k_table k' = k_table k"
  by (auto simp: close_fd_entry_def Let_def bind_eq_Some_conv split: of_kind.splits if_splits)

lemma retain_file_table [dest]: "retain_file pf e k = Some k' \<Longrightarrow> k_table k' = k_table k"
  by (auto simp: retain_file_def split: of_kind.splits if_splits)

lemma close_files_loop_table: "close_files_loop pf s is k = Some k' \<Longrightarrow> k_table k' = k_table k"
  by (induction "is" arbitrary: k) (fastforce simp: bind_eq_Some_conv split: if_splits)+

lemma close_files_table [dest]: "syscall_close_user_files pf i k = Some k' \<Longrightarrow> k_table k' = k_table k"
  by (auto simp: syscall_close_user_files_def split: if_splits dest: close_files_loop_table)

lemma copy_files_loop_table: "copy_files_loop pf a b is k = Some k' \<Longrightarrow> k_table k' = k_table k"
  by (induction "is" arbitrary: k) (fastforce simp: bind_eq_Some_conv Let_def split: if_splits)+

lemma copy_files_table [dest]: "syscall_copy_user_files pf a b k = Some k' \<Longrightarrow> k_table k' = k_table k"
  by (auto simp: syscall_copy_user_files_def Let_def split: if_splits dest: copy_files_loop_table)

section \<open>Harmless updates\<close>

lemma harmless_simps [intro, simp]:
  "harmless (\<lambda>p. p\<lparr>pr_sig_pending := f1 p\<rparr>)"
  "harmless (\<lambda>p. p\<lparr>pr_alarm_active := f2 p, pr_alarm_tick := f3 p\<rparr>)"
  "harmless (\<lambda>p. p\<lparr>pr_parent_pid := f4 p, pr_auto_reap := f5 p\<rparr>)"
  "harmless (\<lambda>p. p\<lparr>pr_stdout_pipe := f6 p\<rparr>)" "harmless (\<lambda>p. p\<lparr>pr_stdin_pipe := f7 p\<rparr>)"
  "harmless (\<lambda>p. p\<lparr>pr_stdout_node := f8 p\<rparr>)" "harmless (\<lambda>p. p\<lparr>pr_stdin_node := f9 p\<rparr>)"
  "harmless (\<lambda>p. p\<lparr>pr_stdout_offset := f10 p\<rparr>)" "harmless (\<lambda>p. p\<lparr>pr_stdin_offset := f11 p\<rparr>)"
  "harmless (\<lambda>p. p\<lparr>pr_stdout_node := f8 p, pr_stdout_offset := f10 p\<rparr>)" "harmless (\<lambda>p. p\<lparr>pr_stdin_node := f9 p, pr_stdin_offset := f11 p\<rparr>)"
  "harmless (\<lambda>p. p\<lparr>pr_stdout_pipe := f6 p, pr_stdin_pipe := f7 p\<rparr>)"
  "harmless (\<lambda>p. p\<lparr>pr_main_exited := f12 p, pr_exit_status := f13 p, pr_task := f14 p\<rparr>)"
  "harmless (\<lambda>p. p\<lparr>pr_thread_count := f15 p\<rparr>)" "harmless (\<lambda>p. p\<lparr>pr_task := f14 p\<rparr>)"
  "harmless (\<lambda>p. p\<lparr>pr_address_space := f16 p\<rparr>)" "harmless (\<lambda>p. p\<lparr>pr_cpu_ticks := f17 p\<rparr>)"
  "harmless (\<lambda>p. p\<lparr>pr_address_space := f16 p, pr_task := f14 p, pr_exit_status := f13 p, pr_state := PROCESS_ZOMBIE\<rparr>)"
  by (auto simp: harmless_def process_ok_def)

lemma copy_name_length: "length (process_copy_name n) < PROCESS_NAME_MAX"
  by (cases n) (auto simp: process_copy_name_def PROCESS_NAME_MAX_def)

lemma harmless_launch: "harmless (\<lambda>p. p\<lparr>pr_entry_point := a, pr_user_stack := b, pr_address_space := c, pr_heap_start := d, pr_heap_break := e, pr_name := process_copy_name n\<rparr>)"
  by (auto simp: harmless_def process_ok_def copy_name_length)

lemma harmless_reset: "harmless (\<lambda>p. p\<lparr>pr_heap_start := a, pr_heap_break := b, pr_ext_map := replicate (USER_EXT_PAGES div 32) 0,
    pr_name := process_copy_name n, pr_sig_handler := replicate NSIG 0, pr_sig_pending := c, pr_in_signal := d, pr_sig_trampoline := e\<rparr>)"
  by (auto simp: harmless_def process_ok_def copy_name_length)

lemma inherit_ok:
  assumes "process_ok i p" "process_ok j q" "pr_state p \<noteq> PROCESS_UNUSED" "pr_state q \<noteq> PROCESS_UNUSED"
  shows "process_ok j (inherit p sp fr q) \<and> pr_state (inherit p sp fr q) = pr_state q \<and> pr_pid (inherit p sp fr q) = pr_pid q"
  using assms by (auto simp: inherit_def process_ok_def copy_name_length)

lemma in_use_set_proc: "i < length (processes t) \<Longrightarrow> in_use (set_proc i f t) j = (if j = i then i < MAX_PROCESSES \<and> pr_state (f (proc t i)) \<noteq> PROCESS_UNUSED else in_use t j)"
  by (auto simp: in_use_def)

text \<open>A well-formed table with the same slots in use, and the same pids in them.\<close>

definition same_slots :: "process_table \<Rightarrow> process_table \<Rightarrow> bool" where
  "same_slots t t' \<longleftrightarrow> (table_ok t \<longrightarrow> table_ok t' \<and> (\<forall>j. in_use t' j = in_use t j) \<and> (\<forall>j. in_use t j \<longrightarrow> pr_pid (proc t' j) = pr_pid (proc t j)))"

lemma same_slots_refl [intro, simp]: "same_slots t t"
  by (simp add: same_slots_def)

lemma same_slots_trans: "same_slots t t1 \<Longrightarrow> same_slots t1 t2 \<Longrightarrow> same_slots t t2"
  by (auto simp: same_slots_def)

lemma harmless_step:
  assumes "in_use t i" "harmless f"
  shows "same_slots t (set_proc i f t)"
  unfolding same_slots_def
proof
  assume ok: "table_ok t"
  have "i < length (processes t)" using assms(1) table_okD(1) [OF ok] by (simp add: in_use_def)
  moreover have "pr_state (f (proc t i)) \<noteq> PROCESS_UNUSED" "pr_pid (f (proc t i)) = pr_pid (proc t i)"
    using assms table_okD(4) [OF ok, of i] by (auto simp: harmless_def in_use_def)
  ultimately show "table_ok (set_proc i f t) \<and> (\<forall>j. in_use (set_proc i f t) j = in_use t j) \<and> (\<forall>j. in_use t j \<longrightarrow> pr_pid (proc (set_proc i f t) j) = pr_pid (proc t j))"
    using harmless_ok [OF ok assms] assms(1) by (auto simp: in_use_set_proc in_use_def)
qed

section \<open>The operations on the table\<close>

lemma send_signal_slots: "process_send_signal pid sg k = Some (r, k') \<Longrightarrow> same_slots (k_table k) (k_table k')"
  by (auto simp: process_send_signal_def Let_def bind_eq_Some_conv split: option.splits if_splits
      dest!: do_sched_table process_find_Some intro!: harmless_step)

lemma alarms_loop_slots: "set is \<subseteq> {..<MAX_PROCESSES} \<Longrightarrow> alarms_loop tick is k = Some k' \<Longrightarrow> same_slots (k_table k) (k_table k')"
proof (induction "is" arbitrary: k)
  case (Cons i "is")
  let ?p = "kproc k i"
  let ?due = "pr_state ?p = PROCESS_RUNNING \<and> pr_alarm_active ?p \<and> sint (tick - pr_alarm_tick ?p) \<ge> 0"
  let ?off = "upd_proc i (\<lambda>p. p\<lparr>pr_alarm_active := False, pr_alarm_tick := 0\<rparr>) k"
  obtain k1 where k1: "(if ?due then map_option snd (process_send_signal (pr_pid ?p) (int SIGALRM) ?off) else Some k) = Some k1" "alarms_loop tick is k1 = Some k'"
    using Cons.prems(2) by (auto simp: bind_eq_Some_conv Let_def)
  have "same_slots (k_table k) (k_table k1)"
  proof (cases ?due)
    case True
    then have "in_use (k_table k) i" using Cons.prems(1) by (auto simp: in_use_def)
    then have "same_slots (k_table k) (k_table ?off)" by (simp add: harmless_step)
    moreover obtain r where "process_send_signal (pr_pid ?p) (int SIGALRM) ?off = Some (r, k1)" using k1(1) True by auto
    then have "same_slots (k_table ?off) (k_table k1)" by (rule send_signal_slots)
    ultimately show ?thesis by (rule same_slots_trans)
  qed (use k1(1) in auto)
  then show ?case using Cons.IH [of k1] Cons.prems(1) k1(2) same_slots_trans by auto
qed simp

lemma check_alarms_slots: "process_check_alarms tick k = Some k' \<Longrightarrow> same_slots (k_table k) (k_table k')"
  unfolding process_check_alarms_def by (rule alarms_loop_slots [rotated]) (auto simp: lessThan_def)

lemma request_kill_table: "process_request_kill pf pid k = Some k' \<Longrightarrow> k_table k' = k_table k"
  by (auto simp: process_request_kill_def split: option.splits)

text \<open>What a slot becomes when the process with a pid ends.\<close>

definition orphan :: "int \<Rightarrow> process \<Rightarrow> process" where
  "orphan pid p = (if pr_state p = PROCESS_UNUSED \<or> pr_parent_pid p \<noteq> pid then p
     else if pr_state p = PROCESS_ZOMBIE then zero_process (pr_slot p) else p\<lparr>pr_parent_pid := 0, pr_auto_reap := True\<rparr>)"

lemma reparent_spec:
  assumes len: "length (processes t) = MAX_PROCESSES" and i: "i < MAX_PROCESSES" "pr_state (proc t i) = PROCESS_RUNNING"
  shows "proc (reparent i t) j = (if j < MAX_PROCESSES then orphan (pr_pid (proc t i)) (proc t j) else proc t j) \<and>
    length (processes (reparent i t)) = MAX_PROCESSES \<and> pt_next_pid (reparent i t) = pt_next_pid t"
proof -
  let ?f = "\<lambda>c t. if pr_state (proc t c) = PROCESS_UNUSED \<or> pr_parent_pid (proc t c) \<noteq> pr_pid (proc t i) then t
     else if pr_state (proc t c) = PROCESS_ZOMBIE then process_release c t
     else set_proc c (\<lambda>p. p\<lparr>pr_parent_pid := 0, pr_auto_reap := True\<rparr>) t"
  let ?pid = "pr_pid (proc t i)"
  have own: "pr_pid (orphan ?pid (proc t i)) = ?pid" using i(2) by (simp add: orphan_def)
  have "n \<le> MAX_PROCESSES \<Longrightarrow> (\<forall>j. proc (fold ?f [0..<n] t) j = (if j < n then orphan ?pid (proc t j) else proc t j)) \<and>
      length (processes (fold ?f [0..<n] t)) = MAX_PROCESSES \<and> pt_next_pid (fold ?f [0..<n] t) = pt_next_pid t" for n
  proof (induction n)
    case (Suc n)
    let ?t = "fold ?f [0..<n] t"
    have IH: "\<And>j. proc ?t j = (if j < n then orphan ?pid (proc t j) else proc t j)" "length (processes ?t) = MAX_PROCESSES" "pt_next_pid ?t = pt_next_pid t"
      using Suc by auto
    have pid: "pr_pid (proc ?t i) = ?pid" using IH(1) [of i] own by simp
    have n: "n < length (processes ?t)" using Suc.prems IH(2) by simp
    have "fold ?f [0..<Suc n] t = ?f n ?t" by simp
    moreover have "proc (?f n ?t) j = (if j < Suc n then orphan ?pid (proc t j) else proc t j)" for j
      using IH(1) [of j] IH(1) [of n] pid n by (auto simp: orphan_def process_release_def less_Suc_eq)
    ultimately show ?case using IH(2,3) by (auto simp: process_release_def)
  qed (use len in simp)
  from this [of MAX_PROCESSES] show ?thesis by (simp add: reparent_def)
qed

lemma orphan_ok: "process_ok i p \<Longrightarrow> process_ok i (orphan pid p) \<and> (pr_state (orphan pid p) \<noteq> PROCESS_UNUSED \<longrightarrow> pr_state p \<noteq> PROCESS_UNUSED \<and> pr_pid (orphan pid p) = pr_pid p)"
  using zero_process_ok [of "pr_slot p" i] by (auto simp: orphan_def process_ok_def)

lemma reparent_ok:
  assumes ok: "table_ok t" and i: "i < MAX_PROCESSES" "pr_state (proc t i) = PROCESS_RUNNING"
  shows "table_ok (reparent i t) \<and> pr_state (proc (reparent i t) i) = PROCESS_RUNNING"
proof -
  note d = table_okD [OF ok]
  note r = reparent_spec [OF d(1) i]
  let ?o = "orphan (pr_pid (proc t i))"
  have p: "proc (reparent i t) j = ?o (proc t j)" if "j < MAX_PROCESSES" for j using r [of j] that by simp
  have old: "in_use t j \<and> pr_pid (proc (reparent i t) j) = pr_pid (proc t j)" if "in_use (reparent i t) j" for j
    using that p [of j] orphan_ok [OF d(4), of j "pr_pid (proc t i)"] by (auto simp: in_use_def)
  have "process_ok j (proc (reparent i t) j)" if "j < MAX_PROCESSES" for j using that p orphan_ok [OF d(4)] by simp
  moreover have "j = k" if "in_use (reparent i t) j" "in_use (reparent i t) k" "pr_pid (proc (reparent i t) j) = pr_pid (proc (reparent i t) k)" for j k
    using old [OF that(1)] old [OF that(2)] that(3) d(5) [of j k] by simp
  ultimately have "table_ok (reparent i t)" using r d(2,3) by (auto simp: table_ok_def)
  moreover have "pr_state (?o (proc t i)) = PROCESS_RUNNING" using i(2) by (simp add: orphan_def)
  ultimately show ?thesis using p [OF i(1)] by simp
qed

text \<open>Closing the standard streams touches four fields of one slot.\<close>

definition streams :: "ptr \<Rightarrow> ptr \<Rightarrow> ptr \<Rightarrow> ptr \<Rightarrow> process \<Rightarrow> process" where
  "streams a b c d p = p\<lparr>pr_stdout_pipe := a, pr_stdin_pipe := b, pr_stdout_node := c, pr_stdin_node := d\<rparr>"

lemma streams_twice:
  assumes "i < length (processes t)"
  shows "set_proc i (\<lambda>p. p\<lparr>pr_stdout_pipe := x\<rparr>) (set_proc i (streams a b c d) t) = set_proc i (streams x b c d) t"
    "set_proc i (\<lambda>p. p\<lparr>pr_stdin_pipe := x\<rparr>) (set_proc i (streams a b c d) t) = set_proc i (streams a x c d) t"
    "set_proc i (\<lambda>p. p\<lparr>pr_stdout_node := x\<rparr>) (set_proc i (streams a b c d) t) = set_proc i (streams a b x d) t"
    "set_proc i (\<lambda>p. p\<lparr>pr_stdin_node := x\<rparr>) (set_proc i (streams a b c d) t) = set_proc i (streams a b c x) t"
  using assms by (auto simp: set_proc_twice streams_def intro: set_proc_cong)

lemma close_std_streams_from:
  assumes i: "i < length (processes t)" and start: "k_table k = set_proc i (streams a b c d) t" and run: "close_std_streams pf i k = Some k'"
  shows "\<exists>a b c d. k_table k' = set_proc i (streams a b c d) t"
proof -
  obtain k1 k2 k3 where k: 
    "(if pr_stdout_pipe (kproc k i) \<noteq> NULL then map_option (upd_proc i (\<lambda>p. p\<lparr>pr_stdout_pipe := NULL\<rparr>)) (do_pipe (pipe_close_write (pr_stdout_pipe (kproc k i))) k) else Some k) = Some k1"
    "(if pr_stdin_pipe (kproc k1 i) \<noteq> NULL then map_option (upd_proc i (\<lambda>p. p\<lparr>pr_stdin_pipe := NULL\<rparr>)) (do_pipe (pipe_close_read (pr_stdin_pipe (kproc k1 i))) k1) else Some k1) = Some k2"
    "(if pr_stdout_node (kproc k2 i) \<noteq> NULL then map_option (upd_proc i (\<lambda>p. p\<lparr>pr_stdout_node := NULL\<rparr>)) (do_fs (close_fs (pf_drivers pf) (pr_stdout_node (kproc k2 i))) k2) else Some k2) = Some k3"
    "(if pr_stdin_node (kproc k3 i) \<noteq> NULL then map_option (upd_proc i (\<lambda>p. p\<lparr>pr_stdin_node := NULL\<rparr>)) (do_fs (close_fs (pf_drivers pf) (pr_stdin_node (kproc k3 i))) k3) else Some k3) = Some k'"
    using run unfolding close_std_streams_def Let_def bind_eq_Some_conv by blast
  let ?P = "\<lambda>ka. \<exists>a b c d. k_table ka = set_proc i (streams a b c d) t"
  have "?P k1" using k(1) start by (cases "pr_stdout_pipe (kproc k i) = NULL") (auto simp: streams_twice [OF i] dest!: do_pipe_table, blast)
  then have "?P k2" using k(2) by (cases "pr_stdin_pipe (kproc k1 i) = NULL") (auto simp: streams_twice [OF i] dest!: do_pipe_table, blast)
  then have "?P k3" using k(3) by (cases "pr_stdout_node (kproc k2 i) = NULL") (auto simp: streams_twice [OF i] dest!: do_fs_table, blast)
  then show ?thesis using k(4) by (cases "pr_stdin_node (kproc k3 i) = NULL") (auto simp: streams_twice [OF i] dest!: do_fs_table, blast)
qed

lemma close_std_streams_table:
  assumes "i < length (processes (k_table k))" "close_std_streams pf i k = Some k'"
  shows "\<exists>a b c d. k_table k' = set_proc i (streams a b c d) (k_table k)"
proof -
  let ?p = "kproc k i"
  have "k_table k = set_proc i (streams (pr_stdout_pipe ?p) (pr_stdin_pipe ?p) (pr_stdout_node ?p) (pr_stdin_node ?p)) (k_table k)"
    by (rule set_proc_id [symmetric]) (simp add: streams_def)
  from close_std_streams_from [OF assms(1) this assms(2)] show ?thesis .
qed

lemma harmless_streams: "harmless (streams a b c d)"
  by (auto simp: harmless_def process_ok_def streams_def)

lemma close_std_streams_slots:
  assumes "in_use (k_table k) i" "table_ok (k_table k)" "close_std_streams pf i k = Some k'"
  shows "same_slots (k_table k) (k_table k')"
proof -
  have "i < length (processes (k_table k))" using assms(1) table_okD(1) [OF assms(2)] by (simp add: in_use_def)
  from close_std_streams_table [OF this assms(3)] show ?thesis using harmless_step [OF assms(1) harmless_streams] by auto
qed

lemma notify_parent_slots: "notify_parent pf i k = Some k' \<Longrightarrow> same_slots (k_table k) (k_table k')"
  by (auto simp: notify_parent_def Let_def bind_eq_Some_conv split: if_splits option.splits dest!: send_signal_slots do_sched_table)

lemma finish_exit_ok:
  assumes ok: "table_ok (k_table k)" and i: "i < MAX_PROCESSES" "pr_state (kproc k i) = PROCESS_RUNNING"
    and run: "process_finish_exit pf i status k = Some k'"
  shows "table_ok (k_table k')"
proof -
  let ?k0 = "k\<lparr>k_table := reparent i (k_table k)\<rparr>"
  let ?fin = "\<lambda>p. p\<lparr>pr_address_space := NULL, pr_task := NULL, pr_exit_status := status, pr_state := PROCESS_ZOMBIE\<rparr>"
  obtain k1 k2 k3 k5 k6 where r: "close_std_streams pf i ?k0 = Some k1" "syscall_close_user_files pf i k1 = Some k2"
    "do_paging (paging_destroy_user_address_space (pr_address_space (kproc k2 i))) k2 = Some k3"
    "notify_parent pf i (upd_proc i ?fin k3) = Some k5" "do_sched (task_wake_all (proc_addr pf i)) k5 = Some k6"
    "k' = (if pr_auto_reap (kproc k6 i) then k6\<lparr>k_table := process_release i (k_table k6)\<rparr> else k6)"
    using run unfolding process_finish_exit_def Let_def bind_eq_Some_conv by auto
  have r0: "table_ok (k_table ?k0)" "in_use (k_table ?k0) i" using reparent_ok [OF ok i] i(1) by (simp_all add: in_use_def)
  have r1: "same_slots (k_table ?k0) (k_table k1)" using close_std_streams_slots [OF r0(2,1) r(1)] .
  have t3: "k_table k3 = k_table k1" using close_files_table [OF r(2)] do_paging_table [OF r(3)] by simp
  have "same_slots (k_table k3) (set_proc i ?fin (k_table k3))"
    using r0 r1 t3 by (intro harmless_step) (auto simp: same_slots_def)
  moreover have "same_slots (set_proc i ?fin (k_table k3)) (k_table k5)" using notify_parent_slots [OF r(4)] by simp
  moreover have "k_table k6 = k_table k5" using do_sched_table [OF r(5)] by simp
  ultimately have "table_ok (k_table k6)" using r0 r1 t3 by (auto simp: same_slots_def)
  then show ?thesis using r(6) release_ok [of "k_table k6" i] i(1) by auto
qed

section \<open>Ending tasks and waiting\<close>

lemma reap_tcb: "reap_retired_task s = Some s1 \<Longrightarrow> tcb s1 p = Some t \<Longrightarrow> tcb s p = Some t"
  by (auto simp: reap_retired_task_def Let_def split: if_splits option.splits)

lemma upd_task_process: "upd_task q f s = Some s1 \<Longrightarrow> (\<And>t. t_process (f t) = t_process t) \<Longrightarrow> map_option t_process (tcb s1 p) = map_option t_process (tcb s p)"
  by (auto simp: upd_task_def split: option.splits if_splits)

lemma activate_tcb: "activate_task n s = Some s1 \<Longrightarrow> tcb s1 = tcb s"
  by (auto simp: activate_task_def task_activate_space_def set_kernel_stack_def split: option.splits)

text \<open>The task that leaves is the current one, and still belongs to its process when the callback runs.\<close>

lemma task_leave_process:
  assumes "task_leave s = Some (Some (p, n, fn), s')"
  shows "p = current_task s \<and> p \<noteq> NULL \<and> (\<exists>t. tcb s p = Some t \<and> map_option t_process (tcb s' p) = Some (t_process t))"
proof -
  obtain previous s1 t s2 where r: "p = current_task s" "p \<noteq> NULL" "reap_retired_task s = Some s1" "tcb s1 p = Some t"
    "upd_task previous (\<lambda>q. q\<lparr>t_next := t_next t\<rparr>) s1 = Some s2"
    "activate_task (t_next t) ((if ready_queue s2 = p then s2\<lparr>ready_queue := t_next t\<rparr> else s2)\<lparr>current_task := t_next t, retired_task := p\<rparr>) = Some s'"
    using assms by (auto simp: task_leave_def Let_def bind_eq_Some_conv split: if_splits)
  have "map_option t_process (tcb s' p) = map_option t_process (tcb s1 p)"
    using activate_tcb [OF r(6)] upd_task_process [OF r(5), of p] by (simp split: if_splits)
  then show ?thesis using r(1,2,4) reap_tcb [OF r(3,4)] by simp
qed

definition current_running :: "'s platform \<Rightarrow> 's kernel \<Rightarrow> bool" where
  "current_running pf k \<longleftrightarrow> (\<forall>i. process_get_current pf k = Some (Some i) \<longrightarrow> pr_state (kproc k i) = PROCESS_RUNNING)"

lemma proc_ref_slot: "proc_ref pf p = Some (Some i) \<Longrightarrow> i < MAX_PROCESSES \<and> p = proc_addr pf i \<and> p \<noteq> NULL"
  by (auto simp: proc_ref_def find_Some_iff split: if_splits)

lemma current_slot: "process_get_current pf k = Some (Some i) \<Longrightarrow> i < MAX_PROCESSES"
  by (auto simp: process_get_current_def bind_eq_Some_conv split: if_splits dest: proc_ref_slot)

lemma current_in_use: "current_running pf k \<Longrightarrow> process_get_current pf k = Some (Some i) \<Longrightarrow> in_use (k_table k) i"
  using current_slot [of pf k i] by (auto simp: current_running_def in_use_def)

lemma callback_ok:
  assumes "table_ok (k_table k)" "\<And>i. proc_ref pf (t_process t) = Some (Some i) \<Longrightarrow> pr_state (kproc k i) = PROCESS_RUNNING"
    "tcb (k_sched k) task = Some t" "call_on_exit pf fn task status k = Some k'"
  shows "table_ok (k_table k')"
proof (cases "proc_ref pf (t_process t)")
  case None
  then show ?thesis using assms(3,4) by (auto simp: call_on_exit_def process_task_exit_def thread_on_exit_def split: if_splits)
next
  case (Some r)
  show ?thesis
  proof (cases r)
    case None
    then show ?thesis using Some assms by (auto simp: call_on_exit_def process_task_exit_def thread_on_exit_def split: if_splits)
  next
    case slot: (Some i)
    have i: "i < MAX_PROCESSES" "pr_state (kproc k i) = PROCESS_RUNNING" using proc_ref_slot assms(2) Some slot by auto
    then have u: "in_use (k_table k) i" by (simp add: in_use_def)
    have len: "i < length (processes (k_table k))" using i table_okD(1) [OF assms(1)] by simp
    consider "process_task_exit pf task status k = Some k'" | "thread_on_exit pf task status k = Some k'"
      using assms(4) by (auto simp: call_on_exit_def split: if_splits)
    then show ?thesis
    proof cases
      case 1
      then show ?thesis
        using assms(1,3) Some slot i harmless_ok [OF assms(1) u] finish_exit_ok [OF assms(1) i]
        by (auto simp: process_task_exit_def split: if_splits)
    next
      case 2
      let ?less = "\<lambda>p. p\<lparr>pr_thread_count := (if pr_thread_count p > 0 then pr_thread_count p - 1 else pr_thread_count p)\<rparr>"
      obtain k2 where k2: "do_sched (task_wake_all (proc_addr pf i + offset_thread_count)) (upd_proc i ?less k) = Some k2"
        "(if pr_thread_count (kproc k2 i) = 0 \<and> pr_main_exited (kproc k2 i) then process_finish_exit pf i (pr_exit_status (kproc k2 i)) k2 else Some k2) = Some k'"
        using 2 assms(3) Some slot by (auto simp: thread_on_exit_def Let_def bind_eq_Some_conv)
      have t2: "k_table k2 = set_proc i ?less (k_table k)" using do_sched_table [OF k2(1)] by simp
      then have "table_ok (k_table k2)" "pr_state (kproc k2 i) = PROCESS_RUNNING" using harmless_ok [OF assms(1) u, of ?less] i(2) len by simp_all
      then show ?thesis using k2(2) finish_exit_ok [OF _ i(1)] by (auto split: if_splits)
    qed
  qed
qed

lemma exit_task_ok:
  assumes ok: "table_ok (k_table k)" and cur: "current_running pf k" and run: "exit_task pf status k = Some k'"
  shows "table_ok (k_table k')"
proof -
  obtain r k1 where r: "run_sched task_leave k = Some (r, k1)"
    "(case r of None \<Rightarrow> Some (print (if current_task (k_sched k) = NULL then ''Cannot exit: tasking is not initialized.\<newline>'' else ''Last task exited. System halted.\<newline>'') k1)
      | Some (p, n, fn) \<Rightarrow> Option.bind (if fn \<noteq> NULL then call_on_exit pf fn p status k1 else Some k1) (do_sched (leave_for p n))) = Some k'"
    using run unfolding exit_task_def bind_eq_Some_conv by auto
  have t1: "k_table k1 = k_table k" using run_sched_table [OF r(1)] by simp
  show ?thesis
  proof (cases r)
    case None
    then show ?thesis using r(2) t1 ok by auto
  next
    case (Some x)
    obtain p n fn where x: "x = (p, n, fn)" by (cases x)
    obtain k2 where k2: "(if fn \<noteq> NULL then call_on_exit pf fn p status k1 else Some k1) = Some k2" "do_sched (leave_for p n) k2 = Some k'"
      using r(2) Some x by (auto simp: bind_eq_Some_conv)
    obtain s where s: "task_leave (sched_view k) = Some (Some (p, n, fn), s)" "k_sched k1 = s"
      using r(1) Some x by (auto simp: run_sched_def bind_eq_Some_conv Let_def)
    obtain t t1' where t: "p = current_task (k_sched k)" "p \<noteq> NULL" "tcb (k_sched k) p = Some t" "tcb s p = Some t1'" "t_process t1' = t_process t"
      using task_leave_process [OF s(1)] by (auto simp: sched_view_def)
    have "pr_state (kproc k1 i) = PROCESS_RUNNING" if "proc_ref pf (t_process t1') = Some (Some i)" for i
      using cur that t t1 by (auto simp: current_running_def process_get_current_def)
    then have "table_ok (k_table k2)" using k2(1) callback_ok [of k1 pf t1' p fn status k2] ok t1 t(4) s(2) by (auto split: if_splits)
    then show ?thesis using do_sched_table [OF k2(2)] by simp
  qed
qed

lemma park_ok: "table_ok (k_table k) \<Longrightarrow> current_running pf k \<Longrightarrow> park pf c f k = Some (r, k') \<Longrightarrow> table_ok (k_table k')"
  by (auto simp: park_def block_killable_def bind_eq_Some_conv split: if_splits dest: do_sched_table exit_task_ok)

lemma resumed_ok: "table_ok (k_table k) \<Longrightarrow> current_running pf k \<Longrightarrow> block_killable_resumed pf k = Some (d, k1) \<Longrightarrow>
    table_ok (k_table k1) \<and> (\<not> d \<longrightarrow> k1 = k)"
  by (auto simp: block_killable_resumed_def bind_eq_Some_conv split: if_splits dest: exit_task_ok)

section \<open>Launching and forking\<close>

lemma allocate_slots:
  assumes ok: "table_ok t" and r: "process_allocate ppid t = (r, t')"
  shows "table_ok t' \<and> (\<forall>i. r = Some i \<longrightarrow> in_use t' i \<and> \<not> in_use t i) \<and> (\<forall>j. in_use t j \<longrightarrow> in_use t' j \<and> proc t' j = proc t j)"
proof (cases "\<forall>i < MAX_PROCESSES. in_use t i")
  case True
  then show ?thesis using process_allocate_full [of t ppid] assms by auto
next
  case False
  then obtain f where "f < MAX_PROCESSES" "\<not> in_use t f" by blast
  from process_allocate_spec [OF ok this, of ppid] r have a: "\<exists>i. r = Some i \<and> i < MAX_PROCESSES \<and> \<not> in_use t i \<and> table_ok t' \<and>
    proc t' i = (zero_process i)\<lparr>pr_pid := pr_pid (proc t' i), pr_parent_pid := ppid, pr_state := PROCESS_RUNNING, pr_cwd := ''/''\<rparr> \<and>
    (\<forall>j. j \<noteq> i \<longrightarrow> proc t' j = proc t j)" by auto
  then obtain i where i: "r = Some i" "i < MAX_PROCESSES" "\<not> in_use t i" "table_ok t'"
    "proc t' i = (zero_process i)\<lparr>pr_pid := pr_pid (proc t' i), pr_parent_pid := ppid, pr_state := PROCESS_RUNNING, pr_cwd := ''/''\<rparr>"
    "\<forall>j. j \<noteq> i \<longrightarrow> proc t' j = proc t j" by blast
  have "pr_state (proc t' i) = PROCESS_RUNNING" by (subst i(5)) simp
  then have "in_use t' i" using i(2) by (simp add: in_use_def)
  moreover have "in_use t' j \<and> proc t' j = proc t j" if "in_use t j" for j
  proof -
    have "j \<noteq> i" using that i(3) by blast
    then show ?thesis using that i(6) by (auto simp: in_use_def)
  qed
  ultimately show ?thesis using i(1,3,4) by auto
qed

lemma note_peak_ok: "table_ok (note_peak t) = table_ok t"
  by (auto simp: note_peak_def Let_def table_ok_def in_use_def proc_def)

lemma launch_ok:
  assumes ok: "table_ok (k_table k)" and run: "process_launch pf e u sp n h k = Some (r, k')"
  shows "table_ok (k_table k')"
proof (cases "sp = NULL")
  case False
  obtain ppid where pp: "process_get_current_pid pf k = Some ppid"
    using run False by (cases "process_get_current_pid pf k") (auto simp: process_launch_def)
  obtain a t where a: "process_allocate ppid (k_table k) = (a, t)" by fastforce
  note s = allocate_slots [OF ok a]
  show ?thesis
  proof (cases a)
    case None
    then show ?thesis using run False pp a s by (auto simp: process_launch_def)
  next
    case (Some i)
    let ?fill = "\<lambda>p. p\<lparr>pr_entry_point := e, pr_user_stack := u, pr_address_space := sp, pr_heap_start := h, pr_heap_break := h, pr_name := process_copy_name n\<rparr>"
    obtain task k2 where k2: "run_sched (create_task (pf_process_task_runner pf) (pf_process_task_exit pf) sp (proc_addr pf i) 0 0) (upd_proc i ?fill (k\<lparr>k_table := t\<rparr>)) = Some (task, k2)"
      and res: "(r, k') = (let k3 = upd_proc i (\<lambda>p. p\<lparr>pr_task := task\<rparr>) k2 in
        if task = NULL then (- 1, k3\<lparr>k_table := process_release i (k_table k3)\<rparr>) else (pr_pid (kproc k3 i), k3\<lparr>k_table := note_peak (k_table k3)\<rparr>))"
      using run False pp a Some by (auto simp: process_launch_def bind_eq_Some_conv Let_def)
    have i: "in_use t i" "table_ok t" using s Some by auto
    have "same_slots t (set_proc i ?fill t)" using i(1) harmless_launch by (rule harmless_step)
    moreover have "k_table k2 = set_proc i ?fill t" using run_sched_table [OF k2] by simp
    ultimately have "table_ok (k_table k2)" "in_use (k_table k2) i" using i by (auto simp: same_slots_def)
    then have "table_ok (set_proc i (\<lambda>p. p\<lparr>pr_task := task\<rparr>) (k_table k2))" by (simp add: harmless_ok)
    then show ?thesis using res release_ok [of _ i] i(1) by (cases "task = NULL") (auto simp: note_peak_ok in_use_def Let_def)
  qed
qed (use assms in \<open>auto simp: process_launch_def\<close>)

lemma inherit_streams_slots:
  assumes "in_use (k_table k) c" "table_ok (k_table k)" "inherit_streams pf par c k = Some k'"
  shows "same_slots (k_table k) (k_table k')"
proof -
  let ?P = "\<lambda>ka. in_use (k_table ka) c \<and> table_ok (k_table ka) \<and> same_slots (k_table k) (k_table ka)"
  have step: "?P ka \<Longrightarrow> harmless f \<Longrightarrow> k_table kb = set_proc c f (k_table ka) \<Longrightarrow> ?P kb" for ka kb :: "'a kernel" and f
    using harmless_step [of "k_table ka" c f] same_slots_trans [of "k_table k" "k_table ka" "k_table kb"] by (auto simp: same_slots_def)
  let ?r = "kproc k par"
  obtain k2 k4 k6 where r:
    "(if pr_stdout_node ?r \<noteq> NULL then do_fs (open_fs (pf_drivers pf) (pr_stdout_node ?r)) (upd_proc c (\<lambda>p. p\<lparr>pr_stdout_node := pr_stdout_node ?r, pr_stdout_offset := pr_stdout_offset ?r\<rparr>) k) else Some (upd_proc c (\<lambda>p. p\<lparr>pr_stdout_node := pr_stdout_node ?r, pr_stdout_offset := pr_stdout_offset ?r\<rparr>) k)) = Some k2"
    "(if pr_stdin_node ?r \<noteq> NULL then do_fs (open_fs (pf_drivers pf) (pr_stdin_node ?r)) (upd_proc c (\<lambda>p. p\<lparr>pr_stdin_node := pr_stdin_node ?r, pr_stdin_offset := pr_stdin_offset ?r\<rparr>) k2) else Some (upd_proc c (\<lambda>p. p\<lparr>pr_stdin_node := pr_stdin_node ?r, pr_stdin_offset := pr_stdin_offset ?r\<rparr>) k2)) = Some k4"
    "(if pr_stdout_pipe ?r \<noteq> NULL then do_pipe (pipe_ref_write (pr_stdout_pipe ?r)) (upd_proc c (\<lambda>p. p\<lparr>pr_stdout_pipe := pr_stdout_pipe ?r\<rparr>) k4) else Some (upd_proc c (\<lambda>p. p\<lparr>pr_stdout_pipe := pr_stdout_pipe ?r\<rparr>) k4)) = Some k6"
    "(if pr_stdin_pipe ?r \<noteq> NULL then do_pipe (pipe_ref_read (pr_stdin_pipe ?r)) (upd_proc c (\<lambda>p. p\<lparr>pr_stdin_pipe := pr_stdin_pipe ?r\<rparr>) k6) else Some (upd_proc c (\<lambda>p. p\<lparr>pr_stdin_pipe := pr_stdin_pipe ?r\<rparr>) k6)) = Some k'"
    using assms(3) unfolding inherit_streams_def Let_def bind_eq_Some_conv by blast
  have "?P k" using assms by simp
  then have "?P k2" by (rule step [of k "\<lambda>p. p\<lparr>pr_stdout_node := pr_stdout_node ?r, pr_stdout_offset := pr_stdout_offset ?r\<rparr>"]) (use r(1) in \<open>auto split: if_splits dest: do_fs_table\<close>)
  then have "?P k4" by (rule step [of k2 "\<lambda>p. p\<lparr>pr_stdin_node := pr_stdin_node ?r, pr_stdin_offset := pr_stdin_offset ?r\<rparr>"]) (use r(2) in \<open>auto split: if_splits dest: do_fs_table\<close>)
  then have "?P k6" by (rule step [of k4 "\<lambda>p. p\<lparr>pr_stdout_pipe := pr_stdout_pipe ?r\<rparr>"]) (use r(3) in \<open>auto split: if_splits dest: do_pipe_table\<close>)
  then have "?P k'" by (rule step [of k6 "\<lambda>p. p\<lparr>pr_stdin_pipe := pr_stdin_pipe ?r\<rparr>"]) (use r(4) in \<open>auto split: if_splits dest: do_pipe_table\<close>)
  then show ?thesis by simp
qed

lemma fork_undo_table: "fork_undo pf c k = Some k' \<Longrightarrow> k_table k' = process_release c (k_table k)"
  by (auto simp: fork_undo_def Let_def bind_eq_Some_conv split: if_splits dest!: do_fs_table do_pipe_table close_files_table)

lemma fork_ok:
  assumes ok: "table_ok (k_table k)" and par: "in_use (k_table k) par" and run: "process_fork pf (Some par) sp (Some fr) k = Some (r, k')"
  shows "table_ok (k_table k')"
proof (cases "sp = NULL")
  case False
  obtain ppid where pp: "process_get_current_pid pf k = Some ppid"
    using run False by (cases "process_get_current_pid pf k") (auto simp: process_fork_def)
  obtain a t where a: "process_allocate ppid (k_table k) = (a, t)" by fastforce
  note s = allocate_slots [OF ok a]
  show ?thesis
  proof (cases a)
    case None
    then show ?thesis using run False pp a s by (auto simp: process_fork_def)
  next
    case (Some c)
    let ?fill = "inherit (proc t par) sp fr"
    let ?k1 = "upd_proc c ?fill (k\<lparr>k_table := t\<rparr>)"
    let ?mark = "\<lambda>task p. p\<lparr>pr_task := task\<rparr>"
    obtain k2 k3 task k4 where r: "syscall_copy_user_files pf par c ?k1 = Some k2" "inherit_streams pf par c k2 = Some k3"
      "run_sched (create_task (pf_fork_child_entry pf) (pf_process_task_exit pf) sp (proc_addr pf c) 0 0) k3 = Some (task, k4)"
      and res: "(let k5 = upd_proc c (?mark task) k4 in
        if task = NULL then map_option (Pair (- 1)) (fork_undo pf c k5) else Some (pr_pid (kproc k5 c), k5\<lparr>k_table := note_peak (k_table k5)\<rparr>)) = Some (r, k')"
      using run False pp a Some by (auto simp: process_fork_def bind_eq_Some_conv Let_def)
    have c: "in_use t c" "table_ok t" "in_use t par" using s Some par by auto
    have len: "c < length (processes t)" using c table_okD(1) [OF c(2)] by (simp add: in_use_def)
    have "process_ok c (?fill (proc t c)) \<and> pr_state (?fill (proc t c)) = pr_state (proc t c) \<and> pr_pid (?fill (proc t c)) = pr_pid (proc t c)"
      using c table_okD(4) [OF c(2)] by (intro inherit_ok) (auto simp: in_use_def)
    then have "table_ok (set_proc c ?fill t)" "in_use (set_proc c ?fill t) c"
      using set_proc_ok [OF c(2), of c ?fill] c len by (auto simp: in_use_def)
    then have k2: "table_ok (k_table k2)" "in_use (k_table k2) c" using copy_files_table [OF r(1)] by simp_all
    from inherit_streams_slots [OF k2(2,1) r(2)] k2 have "table_ok (k_table k3)" "in_use (k_table k3) c" by (auto simp: same_slots_def)
    then have "table_ok (k_table k4)" "in_use (k_table k4) c" using run_sched_table [OF r(3)] by simp_all
    then have "table_ok (set_proc c (?mark task) (k_table k4))" by (simp add: harmless_ok)
    then show ?thesis using res release_ok [of _ c] c(1) by (cases "task = NULL") (auto simp: note_peak_ok in_use_def Let_def dest!: fork_undo_table)
  qed
qed (use assms in \<open>auto simp: process_fork_def\<close>)

lemma exec_reset_ok:
  assumes ok: "table_ok (k_table k)" and cur: "current_running pf k" and run: "process_exec_reset pf sp h n k = Some (r, k')"
  shows "table_ok (k_table k')"
proof -
  let ?reset = "\<lambda>p. p\<lparr>pr_heap_start := h, pr_heap_break := h, pr_ext_map := replicate (USER_EXT_PAGES div 32) 0, pr_name := process_copy_name n,
             pr_sig_handler := replicate NSIG 0, pr_sig_pending := 0, pr_in_signal := False, pr_sig_trampoline := 0\<rparr>"
  obtain c where c: "process_get_current pf k = Some c" using run by (auto simp: process_exec_reset_def bind_eq_Some_conv)
  consider "k_table k' = k_table k" | i where "c = Some i" "k_table k' = set_proc i ?reset (set_proc i (\<lambda>p. p\<lparr>pr_address_space := sp\<rparr>) (k_table k))"
    using run c by (auto simp: process_exec_reset_def bind_eq_Some_conv Let_def split: option.splits if_splits dest!: do_paging_table)
  then show ?thesis
  proof cases
    case 2
    have u: "in_use (k_table k) i" using current_in_use [OF cur] c 2(1) by simp
    have "same_slots (k_table k) (set_proc i (\<lambda>p. p\<lparr>pr_address_space := sp\<rparr>) (k_table k))" by (simp add: harmless_step u)
    then have "table_ok (set_proc i (\<lambda>p. p\<lparr>pr_address_space := sp\<rparr>) (k_table k))" "in_use (set_proc i (\<lambda>p. p\<lparr>pr_address_space := sp\<rparr>) (k_table k)) i"
      using ok u by (auto simp: same_slots_def)
    then show ?thesis using 2(2) harmless_ok [OF _ _ harmless_reset] by simp
  qed (use ok in simp)
qed

lemma redirect_ok:
  assumes ok: "table_ok (k_table k)" and run: "process_redirect pf pid out off inn k = Some k'"
  shows "table_ok (k_table k')"
proof (cases "process_find pid (k_table k)")
  case (Some i)
  have u: "in_use (k_table k) i" using process_find_Some [OF Some] by simp
  let ?f = "\<lambda>p. p\<lparr>pr_stdout_node := out, pr_stdout_offset := off, pr_stdin_node := inn, pr_stdin_offset := 0\<rparr>"
  have len: "i < length (processes (k_table k))" using u table_okD(1) [OF ok] by (simp add: in_use_def)
  have "k_table k' = set_proc i (\<lambda>p. p\<lparr>pr_stdin_offset := 0\<rparr>) (set_proc i (\<lambda>p. p\<lparr>pr_stdin_node := inn\<rparr>)
      (set_proc i (\<lambda>p. p\<lparr>pr_stdout_offset := off\<rparr>) (set_proc i (\<lambda>p. p\<lparr>pr_stdout_node := out\<rparr>) (k_table k))))"
    using run Some by (auto simp: process_redirect_def bind_eq_Some_conv Let_def split: if_splits dest!: do_fs_table)
  also have "\<dots> = set_proc i ?f (k_table k)" by (simp add: set_proc_twice len)
  finally have "k_table k' = set_proc i ?f (k_table k)" .
  moreover have "harmless ?f" by (auto simp: harmless_def process_ok_def)
  ultimately show ?thesis using harmless_ok [OF ok u] by simp
qed (use assms in \<open>auto simp: process_redirect_def\<close>)

lemma process_wait_loop_ok:
  "table_ok (k_table k) \<Longrightarrow> current_running pf k \<Longrightarrow> fst f < MAX_PROCESSES \<Longrightarrow> process_wait_loop pf pid f k = Some (r, k') \<Longrightarrow> table_ok (k_table k')"
  by (auto simp: process_wait_loop_def Let_def split: prod.splits if_splits dest: park_ok intro: release_ok)

lemma wait_ok:
  assumes "table_ok (k_table k)" "current_running pf k" "process_wait pf pid k = Some (r, k')"
  shows "table_ok (k_table k')"
proof (cases "process_find pid (k_table k)")
  case (Some i)
  then have "i < MAX_PROCESSES" using process_find_Some by (auto simp: in_use_def)
  then show ?thesis using assms Some process_wait_loop_ok [of k pf "(i, _)"] by (auto simp: process_wait_def bind_eq_Some_conv split: if_splits)
qed (use assms in \<open>auto simp: process_wait_def bind_eq_Some_conv\<close>)

lemma wait_resumed_ok:
  assumes "table_ok (k_table k)" "current_running pf k" "fst f < MAX_PROCESSES" "process_wait_resumed pf pid f k = Some (r, k')"
  shows "table_ok (k_table k')"
proof -
  obtain d k1 where d: "block_killable_resumed pf k = Some (d, k1)" using assms(4) by (auto simp: process_wait_resumed_def bind_eq_Some_conv)
  from resumed_ok [OF assms(1,2) d] show ?thesis
    using assms d process_wait_loop_ok [of k pf f pid r k'] by (cases f) (auto simp: process_wait_resumed_def Let_def split: if_splits)
qed

lemma child_scan_slot: "set is \<subseteq> {..<MAX_PROCESSES} \<Longrightarrow> child_scan pid cp is h t = (b, Some z) \<Longrightarrow>
    z < MAX_PROCESSES \<and> pr_state (proc t z) = PROCESS_ZOMBIE \<and> pr_parent_pid (proc t z) = cp \<and> (pid > 0 \<longrightarrow> pr_pid (proc t z) = pid)"
  by (induction pid cp "is" h t rule: child_scan.induct) (auto split: if_splits)

lemma waitpid_loop_ok:
  assumes "table_ok (k_table k)" "current_running pf k" "waitpid_loop pf pid nh f k = Some (r, k')"
  shows "table_ok (k_table k')"
proof -
  obtain h z where s: "child_scan pid (snd f) [0..<MAX_PROCESSES] False (k_table k) = (h, z)" by fastforce
  show ?thesis
  proof (cases z)
    case None
    then show ?thesis using assms s by (auto simp: waitpid_loop_def split: if_splits dest: park_ok)
  next
    case (Some y)
    have "y < MAX_PROCESSES" using child_scan_slot [of "[0..<MAX_PROCESSES]" pid "snd f" False "k_table k" h y] s Some by (simp add: atLeast0LessThan)
    then show ?thesis using assms s Some release_ok by (auto simp: waitpid_loop_def)
  qed
qed

lemma waitpid_ok: "table_ok (k_table k) \<Longrightarrow> current_running pf k \<Longrightarrow> process_waitpid pf pid nh k = Some (r, k') \<Longrightarrow> table_ok (k_table k')"
  by (auto simp: process_waitpid_def bind_eq_Some_conv split: option.splits dest: waitpid_loop_ok)

lemma waitpid_resumed_ok: "table_ok (k_table k) \<Longrightarrow> current_running pf k \<Longrightarrow> process_waitpid_resumed pf pid nh f k = Some (r, k') \<Longrightarrow> table_ok (k_table k')"
  by (auto simp: process_waitpid_resumed_def bind_eq_Some_conv split: if_splits dest: waitpid_loop_ok resumed_ok)

lemma pause_loop_ok: "table_ok (k_table k) \<Longrightarrow> current_running pf k \<Longrightarrow> pause_loop pf i k = Some (r, k') \<Longrightarrow> table_ok (k_table k')"
  by (auto simp: pause_loop_def split: if_splits dest: park_ok)

lemma join_loop_ok: "table_ok (k_table k) \<Longrightarrow> current_running pf k \<Longrightarrow> join_loop pf i k = Some (r, k') \<Longrightarrow> table_ok (k_table k')"
  by (auto simp: join_loop_def split: if_splits dest: park_ok)

lemma thread_create_ok:
  assumes ok: "table_ok (k_table k)" and cur: "current_running pf k" and run: "process_thread_create pf e st k = Some (r, k')"
  shows "table_ok (k_table k')"
proof -
  let ?up = "\<lambda>p. p\<lparr>pr_thread_count := pr_thread_count p + 1\<rparr>"
  let ?down = "\<lambda>p. p\<lparr>pr_thread_count := pr_thread_count p - 1\<rparr>"
  obtain c where c: "process_get_current pf k = Some c" using run by (auto simp: process_thread_create_def bind_eq_Some_conv)
  consider "k_table k' = k_table k" | i where "c = Some i" "k_table k' = set_proc i ?up (k_table k) \<or> k_table k' = set_proc i ?down (set_proc i ?up (k_table k))"
    using run c by (auto simp: process_thread_create_def bind_eq_Some_conv Let_def split: option.splits if_splits dest!: run_sched_table)
  then show ?thesis
  proof cases
    case 2
    have u: "in_use (k_table k) i" using current_in_use [OF cur] c 2(1) by simp
    have "same_slots (k_table k) (set_proc i ?up (k_table k))" by (simp add: harmless_step u)
    then have t: "table_ok (set_proc i ?up (k_table k))" "in_use (set_proc i ?up (k_table k)) i" using ok u by (auto simp: same_slots_def)
    then have "table_ok (set_proc i ?down (set_proc i ?up (k_table k)))" by (simp add: harmless_ok)
    then show ?thesis using 2(2) t(1) by auto
  qed (use ok in simp)
qed

section \<open>Runs\<close>

text \<open>
  The operations other components and interrupts call, with the frames of calls that continue. The
  parent of a fork is the current process; the file-table, pipe, paging, console and scheduler activity
  in between leaves the process table alone.
\<close>

datatype process_op =
    Launch u32 u32 ptr "string option" u32 | Fork ptr fork_frame | Exec_Reset ptr u32 "string option" | Redirect int ptr u32 ptr
  | Wait int | Wait_Resumed int "nat \<times> int" | Waitpid int bool | Waitpid_Resumed int bool "nat \<times> int"
  | Pause | Pause_Resumed nat | Thread_Create u32 u32 | Thread_Join | Thread_Join_Resumed nat
  | Send_Signal int int | Kill int | Check_Alarms u32 | Check_Kill | Exit int
  | Detach int | Set_Cwd int "string option" | Pipe_Ends int ptr ptr | Account_Tick
  | Setenv "string option" "string option" | Ext_Alloc u32 | Ext_Free u32 u32

definition on_table :: "(process_table \<Rightarrow> 'a \<times> process_table) \<Rightarrow> 's kernel \<Rightarrow> 's kernel option" where
  "on_table f k = Some (k\<lparr>k_table := snd (f (k_table k))\<rparr>)"

definition with_current :: "'s platform \<Rightarrow> (nat option \<Rightarrow> 's kernel \<Rightarrow> 'a option) \<Rightarrow> 's kernel \<Rightarrow> 'a option" where
  "with_current pf f k = do { c \<leftarrow> process_get_current pf k; f c k }"

fun run_op :: "'s platform \<Rightarrow> process_op \<Rightarrow> 's kernel \<Rightarrow> 's kernel option" where
  "run_op pf (Launch e u sp n h) k = map_option snd (process_launch pf e u sp n h k)"
| "run_op pf (Fork sp fr) k = map_option snd (with_current pf (\<lambda>c. process_fork pf c sp (Some fr)) k)"
| "run_op pf (Exec_Reset sp h n) k = map_option snd (process_exec_reset pf sp h n k)"
| "run_op pf (Redirect pid out off inn) k = process_redirect pf pid out off inn k"
| "run_op pf (Wait pid) k = map_option snd (process_wait pf pid k)"
| "run_op pf (Wait_Resumed pid f) k = map_option snd (process_wait_resumed pf pid f k)"
| "run_op pf (Waitpid pid nh) k = map_option snd (process_waitpid pf pid nh k)"
| "run_op pf (Waitpid_Resumed pid nh f) k = map_option snd (process_waitpid_resumed pf pid nh f k)"
| "run_op pf Pause k = map_option snd (process_pause pf k)"
| "run_op pf (Pause_Resumed i) k = map_option snd (process_pause_resumed pf i k)"
| "run_op pf (Thread_Create e st) k = map_option snd (process_thread_create pf e st k)"
| "run_op pf Thread_Join k = map_option snd (process_thread_join pf k)"
| "run_op pf (Thread_Join_Resumed i) k = map_option snd (process_thread_join_resumed pf i k)"
| "run_op pf (Send_Signal pid sg) k = map_option snd (process_send_signal pid sg k)"
| "run_op pf (Kill pid) k = map_option snd (process_kill pf pid k)"
| "run_op pf (Check_Alarms tick) k = process_check_alarms tick k"
| "run_op pf Check_Kill k = map_option snd (process_check_kill pf k)"
| "run_op pf (Exit status) k = exit_task pf status k"
| "run_op pf (Detach pid) k = on_table (process_detach pid) k"
| "run_op pf (Set_Cwd pid cwd) k = on_table (Pair () \<circ> process_set_cwd pid cwd) k"
| "run_op pf (Pipe_Ends pid a b) k = on_table (Pair () \<circ> process_pipe pid a b) k"
| "run_op pf Account_Tick k = with_current pf (\<lambda>c. on_table (Pair () \<circ> process_account_tick c)) k"
| "run_op pf (Setenv key val) k = with_current pf (\<lambda>c. on_table (process_setenv c key val)) k"
| "run_op pf (Ext_Alloc n) k = with_current pf (\<lambda>c. on_table (process_ext_alloc c n)) k"
| "run_op pf (Ext_Free a n) k = with_current pf (\<lambda>c. on_table (process_ext_free c a n)) k"

text \<open>The frames of \<open>process_wait\<close> hold a slot of the table.\<close>

fun frame_fits :: "process_op \<Rightarrow> bool" where
  "frame_fits (Wait_Resumed pid f) = (fst f < MAX_PROCESSES)"
| "frame_fits _ = True"

lemma detach_ok: "table_ok t \<Longrightarrow> table_ok (snd (process_detach pid t))"
  by (auto simp: process_detach_def split: option.split dest!: process_find_Some intro: release_ok harmless_ok simp: in_use_def)

lemma set_cwd_ok: "table_ok t \<Longrightarrow> table_ok (process_set_cwd pid cwd t)"
  by (auto simp: process_set_cwd_def split: option.split dest!: process_find_Some intro!: harmless_ok)
    (auto simp: harmless_def process_ok_def PROCESS_CWD_MAX_def)

lemma pipe_ends_ok: "table_ok t \<Longrightarrow> table_ok (process_pipe pid a b t)"
  by (auto simp: process_pipe_def split: option.split dest!: process_find_Some intro!: harmless_ok)

lemma tick_ok: "table_ok t \<Longrightarrow> (\<And>i. c = Some i \<Longrightarrow> in_use t i) \<Longrightarrow> table_ok (process_account_tick c t)"
  by (auto simp: process_account_tick_def split: option.split intro!: harmless_ok)

lemma setenv_ok:
  assumes "table_ok t" "\<And>i. c = Some i \<Longrightarrow> in_use t i"
  shows "table_ok (snd (process_setenv c key val t))"
proof (cases "\<exists>s k v. c = Some s \<and> key = Some k \<and> val = Some v")
  case True
  then obtain s k v where e: "c = Some s" "key = Some k" "val = Some v" by blast
  then show ?thesis using process_setenv_spec [OF assms(1) assms(2) [OF e(1)], of k v] by auto
qed (use assms(1) in \<open>auto simp: process_setenv_def split: option.splits\<close>)

lemma ext_alloc_ok:
  assumes ok: "table_ok t" and c: "\<And>i. c = Some i \<Longrightarrow> in_use t i"
  shows "table_ok (snd (process_ext_alloc c n t))"
proof (cases c)
  case (Some s)
  show ?thesis
  proof (cases "n = 0 \<or> ext_scan (proc t s) (unat n) [0..<USER_EXT_PAGES] 0 = None")
    case True
    then show ?thesis using ok Some by (auto simp: process_ext_alloc_def)
  next
    case False
    then obtain f where f: "ext_scan (proc t s) (unat n) [0..<USER_EXT_PAGES] 0 = Some f" "0 < unat n" by (auto simp: unat_gt_0)
    then have "free_at (proc t s) (unat n) f" using ext_scan_first [OF f(2), of "proc t s"] by simp
    from ext_alloc_taken [OF ok c [OF Some] f(2) this f(1)] show ?thesis using Some by auto
  qed
qed (use ok in \<open>simp add: process_ext_alloc_def\<close>)

lemma ext_free_ok:
  assumes ok: "table_ok t" and c: "\<And>i. c = Some i \<Longrightarrow> in_use t i"
  shows "table_ok (snd (process_ext_free c a n t))"
proof (cases "snd (process_ext_free c a n t) = t")
  case False
  then obtain s where s: "c = Some s" by (cases c) (auto simp: process_ext_free_def)
  let ?first = "unat (drop_bit 12 (a - USER_EXT_BASE))"
  let ?f = "fold (\<lambda>i. ext_bit_set i False) [?first..<?first + unat n]"
  have r: "\<not> unat n > USER_EXT_PAGES - ?first" "snd (process_ext_free c a n t) = set_proc s ?f t" "n \<noteq> 0"
    using False s by (auto simp: process_ext_free_def Let_def split: if_splits)
  have fit: "?first + unat n \<le> USER_EXT_PAGES" using r(1,3) by (simp add: unat_eq_0 [symmetric])
  have len: "length (pr_ext_map (proc t s)) = USER_EXT_PAGES div 32" using table_okD(4) [OF ok, of s] c [OF s] by (simp add: in_use_def process_ok_def)
  note q = ext_fold_page [OF len fit, where v = False]
  have "?f (proc t s) = (proc t s)\<lparr>pr_ext_map := pr_ext_map (?f (proc t s))\<rparr>" using q(2) by (rule same_but_map)
  then have "set_proc s ?f t = set_proc s (\<lambda>p. p\<lparr>pr_ext_map := (if p = proc t s then pr_ext_map (?f (proc t s)) else pr_ext_map p)\<rparr>) t" by (intro set_proc_cong) simp
  moreover have "table_ok \<dots>" using ok c [OF s] q(1) by (intro harmless_ok harmless_map) auto
  ultimately show ?thesis using r(2) by simp
qed (use ok in simp)

lemma run_op_ok:
  assumes ok: "table_ok (k_table k)" and cur: "current_running pf k" and fits: "frame_fits op" and run: "run_op pf op k = Some k'"
  shows "table_ok (k_table k')"
proof -
  have u: "in_use (k_table k) i" if "process_get_current pf k = Some (Some i)" for i using current_in_use [OF cur that] .
  show ?thesis
  proof (cases op)
    case (Fork sp fr)
    then obtain c r where c: "process_get_current pf k = Some c" "process_fork pf c sp (Some fr) k = Some (r, k')"
      using run by (auto simp: with_current_def bind_eq_Some_conv)
    then show ?thesis using fork_ok [OF ok u] ok by (cases c) (auto simp: process_fork_def)
  next
    case Pause
    then show ?thesis using run ok by (auto simp: process_pause_def bind_eq_Some_conv split: option.splits dest: pause_loop_ok [OF ok cur])
  next
    case (Pause_Resumed i)
    then show ?thesis using run ok by (auto simp: process_pause_resumed_def bind_eq_Some_conv split: if_splits dest: resumed_ok [OF ok cur] pause_loop_ok [OF ok cur])
  next
    case Thread_Join
    then show ?thesis using run ok by (auto simp: process_thread_join_def bind_eq_Some_conv split: option.splits dest: join_loop_ok [OF ok cur])
  next
    case (Thread_Join_Resumed i)
    then show ?thesis using run ok by (auto simp: process_thread_join_resumed_def bind_eq_Some_conv split: if_splits dest: resumed_ok [OF ok cur] join_loop_ok [OF ok cur])
  next
    case (Send_Signal pid sg)
    then show ?thesis using run ok by (auto simp: same_slots_def dest!: send_signal_slots)
  next
    case (Kill pid)
    then show ?thesis using run ok by (auto simp: process_kill_def split: option.splits if_splits dest!: request_kill_table)
  next
    case (Check_Alarms tick)
    then show ?thesis using run ok by (auto simp: same_slots_def dest!: check_alarms_slots)
  next
    case Check_Kill
    then show ?thesis using run ok exit_task_ok [OF ok cur] by (auto simp: process_check_kill_def bind_eq_Some_conv split: if_splits)
  qed (use run fits ok cur in \<open>auto simp: with_current_def on_table_def bind_eq_Some_conv
      intro!: tick_ok [OF ok] setenv_ok [OF ok] ext_alloc_ok [OF ok] ext_free_ok [OF ok] intro: detach_ok set_cwd_ok pipe_ends_ok u
      dest: launch_ok exec_reset_ok redirect_ok wait_ok wait_resumed_ok waitpid_ok waitpid_resumed_ok thread_create_ok exit_task_ok\<close>)
qed

inductive process_reach :: "'s platform \<Rightarrow> 's kernel \<Rightarrow> bool" for pf where
  boot: "k_table k = boot_table \<Longrightarrow> process_reach pf k"
| step: "process_reach pf k \<Longrightarrow> current_running pf k \<Longrightarrow> frame_fits op \<Longrightarrow> run_op pf op k = Some k' \<Longrightarrow> process_reach pf k'"
| other: "process_reach pf k \<Longrightarrow> k_table k' = k_table k \<Longrightarrow> process_reach pf k'"

section \<open>From exit to wait\<close>

text \<open>What identifies a process to its parent, and what ending leaves unchanged in the other slots.\<close>

definition ident :: "process \<Rightarrow> int \<times> int \<times> process_state \<times> int \<times> bool" where
  "ident p = (pr_pid p, pr_parent_pid p, pr_state p, pr_exit_status p, pr_auto_reap p)"

definition same_ids :: "process_table \<Rightarrow> process_table \<Rightarrow> bool" where
  "same_ids t t' \<longleftrightarrow> length (processes t') = length (processes t) \<and> (\<forall>j. ident (proc t' j) = ident (proc t j))"

lemma same_ids_refl [simp]: "same_ids t t"
  by (simp add: same_ids_def)

lemma same_ids_trans: "same_ids t t1 \<Longrightarrow> same_ids t1 t2 \<Longrightarrow> same_ids t t2"
  by (simp add: same_ids_def)

lemma set_proc_ids: "(\<And>p. ident (f p) = ident p) \<Longrightarrow> same_ids t (set_proc i f t)"
  by (cases "i < length (processes t)") (auto simp: same_ids_def set_proc_def proc_def nth_list_update not_less list_update_beyond)

lemma send_signal_ids: "process_send_signal pid sg k = Some (r, k') \<Longrightarrow> same_ids (k_table k) (k_table k')"
  by (auto simp: process_send_signal_def Let_def bind_eq_Some_conv ident_def split: option.splits if_splits dest!: do_sched_table intro!: set_proc_ids)

lemma notify_parent_ids: "notify_parent pf i k = Some k' \<Longrightarrow> same_ids (k_table k) (k_table k')"
  by (auto simp: notify_parent_def Let_def bind_eq_Some_conv split: if_splits option.splits dest!: send_signal_ids do_sched_table)

lemma close_std_streams_ids: "i < length (processes (k_table k)) \<Longrightarrow> close_std_streams pf i k = Some k' \<Longrightarrow> same_ids (k_table k) (k_table k')"
  by (drule (1) close_std_streams_table) (auto intro!: set_proc_ids simp: ident_def streams_def)

lemma finish_exit_ids:
  assumes ok: "table_ok (k_table k)" and i: "i < MAX_PROCESSES" "pr_state (kproc k i) = PROCESS_RUNNING" "\<not> pr_auto_reap (kproc k i)"
    and self: "pr_parent_pid (kproc k i) \<noteq> pr_pid (kproc k i)"
    and run: "process_finish_exit pf i status k = Some k'"
  shows "ident (kproc k' i) = (pr_pid (kproc k i), pr_parent_pid (kproc k i), PROCESS_ZOMBIE, status, False) \<and>
    (\<forall>j < MAX_PROCESSES. j \<noteq> i \<longrightarrow> ident (kproc k' j) = ident (orphan (pr_pid (kproc k i)) (kproc k j)))"
proof -
  let ?k0 = "k\<lparr>k_table := reparent i (k_table k)\<rparr>"
  let ?fin = "\<lambda>p. p\<lparr>pr_address_space := NULL, pr_task := NULL, pr_exit_status := status, pr_state := PROCESS_ZOMBIE\<rparr>"
  obtain k1 k2 k3 k5 k6 where r: "close_std_streams pf i ?k0 = Some k1" "syscall_close_user_files pf i k1 = Some k2"
    "do_paging (paging_destroy_user_address_space (pr_address_space (kproc k2 i))) k2 = Some k3"
    "notify_parent pf i (upd_proc i ?fin k3) = Some k5" "do_sched (task_wake_all (proc_addr pf i)) k5 = Some k6"
    "k' = (if pr_auto_reap (kproc k6 i) then k6\<lparr>k_table := process_release i (k_table k6)\<rparr> else k6)"
    using run unfolding process_finish_exit_def Let_def bind_eq_Some_conv by auto
  have rep: "kproc ?k0 j = orphan (pr_pid (kproc k i)) (kproc k j)" "length (processes (k_table ?k0)) = MAX_PROCESSES" if "j < MAX_PROCESSES" for j
    using reparent_spec [OF table_okD(1) [OF ok] i(1,2), of j] that by simp_all
  have own: "kproc ?k0 i = kproc k i" using rep(1) [OF i(1)] self by (simp add: orphan_def)
  have t3: "k_table k3 = k_table k1" using close_files_table [OF r(2)] do_paging_table [OF r(3)] by simp
  have s1: "same_ids (k_table ?k0) (k_table k3)" using close_std_streams_ids [OF _ r(1)] rep(2) [OF i(1)] i(1) t3 by simp
  have len: "i < length (processes (k_table k3))" using s1 rep(2) [OF i(1)] i(1) by (simp add: same_ids_def)
  have t6: "k_table k6 = k_table k5" using do_sched_table [OF r(5)] by simp
  have s5: "same_ids (set_proc i ?fin (k_table k3)) (k_table k6)" using notify_parent_ids [OF r(4)] t6 by simp
  have "ident (kproc k6 i) = (pr_pid (kproc k i), pr_parent_pid (kproc k i), PROCESS_ZOMBIE, status, False)"
    using s5 s1 own len i(3) by (auto simp: same_ids_def ident_def)
  moreover from this have "k' = k6" using r(6) by (auto simp: ident_def)
  moreover have "ident (kproc k6 j) = ident (orphan (pr_pid (kproc k i)) (kproc k j))" if "j < MAX_PROCESSES" "j \<noteq> i" for j
    using s5 s1 rep(1) [OF that(1)] that(2) len by (auto simp: same_ids_def)
  ultimately show ?thesis by simp
qed

lemma child_scan_pid:
  assumes "0 < pid" "z \<in> set is" "pr_state (proc t z) = PROCESS_ZOMBIE" "pr_parent_pid (proc t z) = cp" "pr_pid (proc t z) = pid"
    "\<And>j. j \<in> set is \<Longrightarrow> pr_state (proc t j) \<noteq> PROCESS_UNUSED \<Longrightarrow> pr_pid (proc t j) = pid \<Longrightarrow> j = z"
  shows "child_scan pid cp is h t = (True, Some z)"
  using assms(2,6)
proof (induction "is" arbitrary: h)
  case (Cons i "is")
  show ?case
  proof (cases "i = z")
    case True
    then show ?thesis using assms(1,3-5) by simp
  next
    case False
    then have "pr_state (proc t i) = PROCESS_UNUSED \<or> pr_pid (proc t i) \<noteq> pid" using Cons.prems(2) [of i] by auto
    moreover have "child_scan pid cp is h t = (True, Some z)" using Cons.IH [of h] Cons.prems False by simp
    ultimately show ?thesis using assms(1) by auto
  qed
qed simp

section \<open>Properties of processes\<close>


text \<open>
  C9. A process that ends leaves its exit status for its parent: whatever runs in between without
  touching the process table, \<open>process_waitpid\<close> of the parent returns the pid and the status of the
  child at once, and the slot of the child is free afterwards.
\<close>

theorem exit_status_reaches_parent:
  assumes ok: "table_ok (k_table k)" and i: "i < MAX_PROCESSES" "pr_state (kproc k i) = PROCESS_RUNNING" "\<not> pr_auto_reap (kproc k i)"
    and q: "in_use (k_table k) q" "pr_pid (kproc k q) = pr_parent_pid (kproc k i)" "q \<noteq> i" "pr_parent_pid (kproc k q) \<noteq> pr_pid (kproc k i)"
    and run: "process_finish_exit pf i status k = Some k1"
    and later: "k_table k2 = k_table k1" "process_get_current pf k2 = Some (Some q)"
  shows "\<exists>k3. process_waitpid pf (pr_pid (kproc k i)) nohang k2 = Some (Finished (pr_pid (kproc k i), Some status), k3) \<and>
    k_table k3 = process_release i (k_table k2) \<and> \<not> in_use (k_table k3) i \<and> (\<forall>j. j \<noteq> i \<longrightarrow> kproc k3 j = kproc k2 j)"
proof -
  let ?pid = "pr_pid (kproc k i)"
  have u: "in_use (k_table k) i" using i(1,2) by (simp add: in_use_def)
  then have self: "pr_parent_pid (kproc k i) \<noteq> ?pid" using table_okD(5) [OF ok q(1), of i] q(2,3) by auto
  note e = finish_exit_ids [OF ok i self run]
  have z: "pr_pid (kproc k2 i) = ?pid" "pr_parent_pid (kproc k2 i) = pr_parent_pid (kproc k i)" "pr_state (kproc k2 i) = PROCESS_ZOMBIE" "pr_exit_status (kproc k2 i) = status"
    using e later(1) by (auto simp: ident_def)
  have ok2: "table_ok (k_table k2)" using finish_exit_ok [OF ok i(1,2) run] later(1) by simp
  have "ident (kproc k2 q) = ident (kproc k q)" using e q later(1) by (auto simp: orphan_def in_use_def)
  then have qp: "pr_pid (kproc k2 q) = pr_parent_pid (kproc k i)" using q(2) by (simp add: ident_def)
  have ui: "in_use (k_table k2) i" using z(3) i(1) by (simp add: in_use_def)
  have "child_scan ?pid (pr_pid (kproc k2 q)) [0..<MAX_PROCESSES] False (k_table k2) = (True, Some i)"
    using in_use_pid [OF ok u] i(1) z qp table_okD(5) [OF ok2 _ ui] by (intro child_scan_pid) (auto simp: in_use_def)
  moreover have "i < length (processes (k_table k2))" using i(1) table_okD(1) [OF ok2] by simp
  ultimately show ?thesis using later(2) z
    by (auto simp: process_waitpid_def waitpid_loop_def process_release_def in_use_def)
qed

section \<open>A parent and a child\<close>

definition platform_demo :: "unit platform" where
  "platform_demo = \<lparr>pf_drivers = \<lparr>node_at = \<lambda>_ _. None, root_at = \<lambda>_. 0, call_read = \<lambda>_ _ _ _ s. Some ([], s), call_write = \<lambda>_ _ _ _ s. Some (0, s),
     call_open = \<lambda>_ _ s. Some s, call_close = \<lambda>_ _ s. Some s, call_readdir = \<lambda>_ _ _ s. Some (None, s), call_finddir = \<lambda>_ _ _ s. Some (0, s),
     call_create = \<lambda>_ _ _ s. Some (0, s), call_unlink = \<lambda>_ _ _ s. Some (- 1, s), call_mkdir = \<lambda>_ _ _ s. Some (- 1, s), call_rmdir = \<lambda>_ _ _ s. Some (- 1, s)\<rparr>,
     pf_processes = 0x100000, pf_process_task_runner = 0x200000, pf_fork_child_entry = 0x200010, pf_thread_trampoline = 0x200020,
     pf_process_task_exit = 0x200030, pf_thread_on_exit = 0x200040\<rparr>"

text \<open>The parent in slot 0 is the process of the only task.\<close>

definition sched_parent :: "pmm_state \<Rightarrow> sched" where
  "sched_parent m = \<lparr>tcb = [0x5000 \<mapsto> \<lparr>t_esp = 0, t_next = 0x5000, t_blocked_next = 0, t_id = 0, t_stack_bottom = 0, t_kernel_stack_top = 0x90000,
     t_address_space = 0, t_process = 0x100000, t_on_exit = 0x200030, t_wait_channel = 0, t_state = TASK_READY, t_user_entry = 0, t_user_stack = 0,
     t_kill_pending = False\<rparr>], current_task = 0x5000, ready_queue = 0x5000, next_pid = 1, retired_task = 0, blocked_tasks = 0, kmem = \<lambda>_. 0,
     cpu = \<lparr>edi = 0, esi = 0, ebx = 0, ebp = 0, esp = 0, eip = 0\<rparr>, tss_esp0 = 0x90000, kernel_space = 0, active_space = 0, halted = False, task_pmm = m\<rparr>"

definition table_two :: process_table where
  "table_two = snd (process_allocate 1 table_one)"

definition kernel_demo :: "unit kernel" where
  "kernel_demo = \<lparr>k_table = table_two, k_files = replicate MAX_PROCESSES (replicate MAX_OPEN_FILES closed_file),
     k_sched = sched_parent (heap_pmm (pg_heap paging_one)), k_paging = paging_one, k_pipes = \<lambda>_. None, k_fs = (),
     k_term = \<lparr>terminal_row = 0, terminal_column = 0, terminal_color = 7, terminal_buffer = replicate 2000 0, debug_port = []\<rparr>\<rparr>"

lemma wake_nobody: "blocked_tasks (k_sched k) = NULL \<Longrightarrow> \<exists>k'. do_sched (task_wake_all c) k = Some k' \<and> k_table k' = k_table k \<and> k_files k' = k_files k \<and> blocked_tasks (k_sched k') = NULL"
  by (auto simp: do_sched_def run_sched_def task_wake_all_def wake_all_loop.simps [of c NULL] read_link_def sched_view_def Let_def)

lemma close_no_files: "\<forall>j \<in> set is. of_kind (kfile k s j) = OF_NONE \<Longrightarrow> close_files_loop pf s is k = Some k"
  by (induction "is") auto

text \<open>A process without streams, files, memory and waiting tasks around ends without touching any of them.\<close>

lemma finish_exit_quiet:
  assumes i: "i < MAX_PROCESSES" "length (processes (k_table k)) = MAX_PROCESSES" "pr_state (kproc k i) = PROCESS_RUNNING" "pr_parent_pid (kproc k i) \<noteq> pr_pid (kproc k i)"
    and p: "streams 0 0 0 0 (kproc k i) = kproc k i" "pr_address_space (kproc k i) = NULL"
    and f: "\<forall>j < MAX_OPEN_FILES. of_kind (kfile k (pr_slot (kproc k i)) j) = OF_NONE"
    and t: "\<forall>j < MAX_PROCESSES. pr_task (kproc k j) = NULL" and b: "blocked_tasks (k_sched k) = NULL"
  shows "process_finish_exit pf i status k \<noteq> None"
proof -
  let ?k0 = "k\<lparr>k_table := reparent i (k_table k)\<rparr>"
  let ?fin = "\<lambda>p. p\<lparr>pr_address_space := NULL, pr_task := NULL, pr_exit_status := status, pr_state := PROCESS_ZOMBIE\<rparr>"
  let ?k4 = "upd_proc i ?fin ?k0"
  have rep: "kproc ?k0 j = orphan (pr_pid (kproc k i)) (kproc k j)" "length (processes (k_table ?k0)) = MAX_PROCESSES" if "j < MAX_PROCESSES" for j
    using reparent_spec [OF i(2,1,3), of j] that by simp_all
  have own: "kproc ?k0 i = kproc k i" using rep(1) [OF i(1)] i(4) by (simp add: orphan_def)
  have p0: "pr_stdout_pipe (kproc ?k0 i) = 0" "pr_stdin_pipe (kproc ?k0 i) = 0" "pr_stdout_node (kproc ?k0 i) = 0" "pr_stdin_node (kproc ?k0 i) = 0"
    unfolding own by (subst p(1) [symmetric], simp add: streams_def)+
  have s1: "close_std_streams pf i ?k0 = Some ?k0" using p0 by (simp add: close_std_streams_def Let_def)
  have s2: "syscall_close_user_files pf i ?k0 = Some ?k0"
    using f own by (auto simp: syscall_close_user_files_def kfile_def intro: close_no_files)
  have s3: "do_paging (paging_destroy_user_address_space (pr_address_space (kproc ?k0 i))) ?k0 = Some ?k0"
    using p(2) own by (simp add: do_paging_def paging_destroy_user_address_space_def)
  have task: "pr_task (kproc ?k4 j) = NULL" if "j < MAX_PROCESSES" for j
    using t that rep [OF that] i(1) by (auto simp: orphan_def zero_process_def)
  have "\<exists>k5. notify_parent pf i ?k4 = Some k5 \<and> blocked_tasks (k_sched k5) = NULL"
  proof (cases "pr_parent_pid (kproc ?k4 i) > 0")
    case True
    let ?pp = "pr_parent_pid (kproc ?k4 i)"
    have b4: "blocked_tasks (k_sched ?k4) = NULL" using b by (simp add: upd_proc_def)
    have "\<exists>r k5. process_send_signal ?pp (int SIGCHLD) ?k4 = Some (r, k5) \<and> blocked_tasks (k_sched k5) = NULL"
    proof (cases "process_find ?pp (k_table ?k4)")
      case (Some q)
      have q: "q < MAX_PROCESSES" using process_find_Some [OF Some] by (simp add: in_use_def)
      let ?sig = "\<lambda>p. p\<lparr>pr_sig_pending := pr_sig_pending p OR push_bit (nat (int SIGCHLD)) 1\<rparr>"
      have "pr_task (kproc (upd_proc q ?sig ?k4) q) = NULL" using task [OF q] q rep(2) [OF i(1)] by simp
      then show ?thesis using Some b4 by (simp add: process_send_signal_def SIGCHLD_def NSIG_def Let_def upd_proc_def)
    qed (use b4 in \<open>simp add: process_send_signal_def\<close>)
    then obtain r k5 where k5: "process_send_signal ?pp (int SIGCHLD) ?k4 = Some (r, k5)" "blocked_tasks (k_sched k5) = NULL" by blast
    then show ?thesis using True wake_nobody [OF k5(2)] by (auto simp: notify_parent_def Let_def split: option.split)
  qed (use b in \<open>simp add: notify_parent_def Let_def upd_proc_def\<close>)
  then obtain k5 where k5: "notify_parent pf i ?k4 = Some k5" "blocked_tasks (k_sched k5) = NULL" by blast
  obtain k6 where "do_sched (task_wake_all (proc_addr pf i)) k5 = Some k6" using wake_nobody [OF k5(2)] by blast
  then show ?thesis using s1 s2 s3 k5(1) by (simp add: process_finish_exit_def Let_def)
qed

lemma demo_fields [simp]: "k_table kernel_demo = table_two" "k_files kernel_demo = replicate MAX_PROCESSES (replicate MAX_OPEN_FILES closed_file)"
    "blocked_tasks (k_sched kernel_demo) = 0"
  by (simp_all add: kernel_demo_def sched_parent_def)

lemma table_two_ok: "table_ok table_two"
  using allocate_slots [OF table_one_ok(1), of 1 "fst (process_allocate 1 table_one)" table_two] by (simp add: table_two_def)

lemma demo_parent: "pr_pid (proc table_two 0) = 1" "pr_parent_pid (proc table_two 0) = 0" "pr_state (proc table_two 0) = PROCESS_RUNNING"
  by code_simp+

lemma demo_child: "pr_pid (proc table_two (Suc 0)) = 2" "pr_parent_pid (proc table_two (Suc 0)) = 1" "pr_state (proc table_two (Suc 0)) = PROCESS_RUNNING"
    "\<not> pr_auto_reap (proc table_two (Suc 0))" "pr_slot (proc table_two (Suc 0)) = 1" "pr_address_space (proc table_two (Suc 0)) = 0"
    "pr_stdout_pipe (proc table_two (Suc 0)) = 0" "pr_stdin_pipe (proc table_two (Suc 0)) = 0" "pr_stdout_node (proc table_two (Suc 0)) = 0" "pr_stdin_node (proc table_two (Suc 0)) = 0"
  by code_simp+

lemma demo_tasks: "list_all (\<lambda>j. pr_task (proc table_two j) = 0) [0..<MAX_PROCESSES]"
  by code_simp

lemma demo_exit: "\<exists>k1. process_finish_exit platform_demo 1 7 kernel_demo = Some k1"
proof -
  have "process_finish_exit platform_demo 1 7 kernel_demo \<noteq> None"
  proof (rule finish_exit_quiet)
    show "length (processes (k_table kernel_demo)) = MAX_PROCESSES" using table_okD(1) [OF table_two_ok] by simp
    show "streams 0 0 0 0 (kproc kernel_demo 1) = kproc kernel_demo 1" using demo_child(7-10) by (simp add: streams_def)
    show "\<forall>j < MAX_PROCESSES. pr_task (kproc kernel_demo j) = NULL" using demo_tasks by (simp add: list_all_iff)
  qed (use demo_child in \<open>simp_all add: MAX_PROCESSES_def kfile_def closed_file_def\<close>)
  then show ?thesis by auto
qed

lemma demo_current: "process_get_current platform_demo (kernel_demo\<lparr>k_table := t\<rparr>) = Some (Some 0)"
  by (simp add: process_get_current_def kernel_demo_def sched_parent_def proc_ref_def platform_demo_def proc_addr_def MAX_PROCESSES_def upt_conv_Cons)

theorem exit_status_reaches_parent_witness:
  "\<exists>k1 k3. process_finish_exit platform_demo 1 7 kernel_demo = Some k1 \<and>
     process_waitpid platform_demo 2 True (kernel_demo\<lparr>k_table := k_table k1\<rparr>) = Some (Finished (2, Some 7), k3) \<and> \<not> in_use (k_table k3) 1"
proof -
  obtain k1 where k1: "process_finish_exit platform_demo 1 7 kernel_demo = Some k1" using demo_exit by blast
  have q: "in_use (k_table kernel_demo) 0" using demo_parent(3) by (simp add: in_use_def MAX_PROCESSES_def)
  from exit_status_reaches_parent [OF _ _ _ _ q _ _ _ k1 _ demo_current [of "k_table k1"], where nohang = True] show ?thesis
    using k1 table_two_ok demo_parent demo_child by (auto simp: MAX_PROCESSES_def)
qed

text \<open>Before tasking is set up a launch finds no run queue: the slot is taken and given back.\<close>

definition kernel_boot :: "unit kernel" where
  "kernel_boot = kernel_demo\<lparr>k_table := boot_table, k_sched := (k_sched kernel_demo)\<lparr>tcb := Map.empty, current_task := 0, ready_queue := 0\<rparr>\<rparr>"

lemma boot_launch: "\<exists>k'. run_op platform_demo (Launch 0x300000 0x3EFFF0 0x1000 (Some ''sh'') 0x301000) kernel_boot = Some k'"
proof -
  have c: "process_get_current_pid platform_demo kernel_boot = Some 0" by (simp add: process_get_current_pid_def process_get_current_def kernel_boot_def)
  have none: "\<exists>k2. run_sched (create_task e f sp p 0 0) (upd_proc i g (kernel_boot\<lparr>k_table := t\<rparr>)) = Some (NULL, k2)" for e f sp p i g t
    by (simp add: run_sched_def create_task_def kernel_boot_def upd_proc_def sched_view_def Let_def)
  obtain a t where a: "process_allocate 0 (k_table kernel_boot) = (a, t)" by fastforce
  show ?thesis
  proof (cases a)
    case (Some i)
    obtain k2 where "run_sched (create_task (pf_process_task_runner platform_demo) (pf_process_task_exit platform_demo) 0x1000 (proc_addr platform_demo i) 0 0)
        (upd_proc i (\<lambda>p. p\<lparr>pr_entry_point := 0x300000, pr_user_stack := 0x3EFFF0, pr_address_space := 0x1000, pr_heap_start := 0x301000,
           pr_heap_break := 0x301000, pr_name := process_copy_name (Some ''sh'')\<rparr>) (kernel_boot\<lparr>k_table := t\<rparr>)) = Some (NULL, k2)"
      using none by blast
    then show ?thesis using c a Some by (simp add: process_launch_def Let_def)
  qed (use c a in \<open>simp add: process_launch_def\<close>)
qed


end
