(* ===== verification/Spec2Isabelle.thy ===== *)
theory Spec2Isabelle
  imports Utils Sem Rtc Ramfs Elf_Load Process_Inv
begin

text \<open>
  A verification development for miniOS, a 32-bit x86 kernel in C and assembly under src/.

  \<^bold>\<open>The program.\<close> The kernel starts from a multiboot loader, sets up physical memory, paging and
  tasking, mounts file systems, and runs a shell that starts user programs. Its parts and how they lean
  on each other: the page allocator (src/pmm.c) hands out 4 KiB frames; the kernel heap (src/heap.c)
  takes runs of frames from it; the scheduler (src/task.c, src/switch_s.s) keeps task control blocks and
  kernel stacks in frames; semaphores (src/sem.c) and pipes (src/pipe.c) block and wake tasks on
  addresses; paging (src/paging.c) builds address spaces from frames and heap objects and shares pages
  copy on write; the virtual file system layer (src/fs.c) dispatches to drivers such as the in-memory
  file system (src/ramfs.c); the ELF loader (src/elf_loader.c) reads a file through that layer into a
  fresh address space; processes (src/process.c) tie tasks, address spaces, descriptors and pipes
  together; the console (src/vga.c), the clock (src/rtc.c) and the helpers (src/utils.c) serve all.

  \<^bold>\<open>How C is modelled.\<close> A 32-bit unsigned integer is a \<^typ>\<open>32 word\<close>, a pointer is such a word with 0
  for the null pointer, and an object reached through pointers lives in a store from addresses to
  records. An operation takes the state of its component, a record, and returns the new one. A result
  inside \<open>option\<close> is \<open>None\<close> exactly when the code would follow a null or dangling pointer, index out of
  range or loop forever (unbounded loops are \<open>partial_function (option)\<close>); the theorems show that this
  does not happen, so they are about total correctness. Errors of the code are ordinary results. Code
  that runs with interrupts disabled is one transition. A call that may give up the processor is split
  into the part up to the context switch and a part with suffix \<open>_resumed\<close>; between the two anything the
  step relations allow may happen. No fuel is used anywhere.

  \<^bold>\<open>Theories.\<close>

  \<^item> \<open>Kernel_Prelude\<close>: machine types, the shared collections, words, folds, bytes in buffers. \<open>Linked\<close>:
    paths and rings through a store, used by the scheduler and the heap.
  \<^item> \<open>Utils\<close> (src/utils.c): \<open>memset\<close>, \<open>memcpy\<close> with their word loops, the string functions and
    \<open>int_to_ascii\<close> over a byte memory; equivalence with byte-wise definitions, and the decimal text of
    the least integer, which is wrong.
  \<^item> \<open>Pmm\<close> (src/pmm.c): the bitmap. First fit, round trip, the free counter in all reachable states.
    Locale \<open>frame_allocator\<close>, interpreted on the definitions.
  \<^item> \<open>Heap\<close> (src/heap.c): block headers in a store, refined to a list of blocks. Allocations are
    disjoint and live, \<open>kfree\<close> undoes \<open>kmalloc\<close>, exact failure conditions. Locale \<open>byte_allocator\<close>.
  \<^item> \<open>Task\<close> and \<open>Scheduler\<close> (src/task.c, src/switch_s.s): the run ring and the wait queue as pointer
    structures with their abstract lists, the stack effect of the context switch. Invariant of all
    reachable states, first-in first-out wake-up, round robin, kill marks. Locale \<open>wait_channels\<close>, the
    contract semaphores and pipes rely on.
  \<^item> \<open>Sem\<close> (src/sem.c): units are conserved along every run; a posted unit can be lost to a killed waiter.
  \<^item> \<open>Pipe\<close> (src/pipe.c): the ring refines a byte queue under every interleaving; life time under
    descriptors and calls in flight; no lost wake-up.
  \<^item> \<open>Vga\<close> (src/vga.c), \<open>Rtc\<close> (src/rtc.c): the screen and what the printers show; decoding of the clock
    registers and that a snapshot is never torn.
  \<^item> \<open>Fs\<close> (src/fs.c): dispatch over arbitrary drivers, path normalisation against a reference on lists of
    names, and that normalised paths walk the tree. \<open>Ramfs\<close> (src/ramfs.c): the node table as a tree over
    live heap blocks, contents under reads and writes, create and unlink.
  \<^item> \<open>Paging\<close> (src/paging.c, src/paging_s.s): page tables, directories, address-space objects, frame
    contents, sharing counts, the translation cache, the page-fault handler. \<open>Paging_Refs\<close>: counting
    references to frames. \<open>Paging_Inv\<close>: the invariant, faults and copy on write. \<open>Paging_Spaces\<close>:
    creating, cloning and destroying address spaces. \<open>Paging_Views\<close>: memory as programs see it; isolation
    of stores, equality of a clone, exact release, and that no sequence of operations gets stuck.
    \<open>User_Memory\<close>: bytes of an address space, for code that fills one.
  \<^item> \<open>Elf\<close> (src/elf_loader.c): the checks of the headers, segments, arguments, the whole load, over any
    drivers: a file may change between two reads. \<open>Elf_Load\<close>: a load ends, touches no other program,
    leaves nothing behind when it fails, and what the memory and the stack hold when it succeeds.
  \<^item> \<open>Process_Table\<close> (src/process.c): the slots, numbering, the \<open>mmap\<close> bitmap, the environment. \<open>Process\<close>
    (src/process.c, the descriptors of src/syscall.c, spawning in src/elf_loader.c): the state of the
    whole kernel and the life of a process on it. \<open>Process_Inv\<close>: the table is well formed in every
    reachable state, and an exit status reaches the parent.

  \<^bold>\<open>Interfaces.\<close> Each of the three locales has the operations a client calls as parameters and the laws
  its provider keeps as assumptions, and is interpreted in the theory of the provider on the modelled
  code. Code outside src/ does not occur; hardware is a parameter where it chooses values (the clock
  chip in \<open>Rtc\<close>, the initial contents of memory in \<open>Pipe\<close> and \<open>Ramfs\<close>).

  \<^bold>\<open>Shared state.\<close> In \<open>Process\<close> the page frames and the active address space are kept once, with the
  paging state; the glue runs an operation of the scheduler or of the pipes on that copy and writes it
  back. The memory of the file systems is part of the driver state, which is any type.

  \<^bold>\<open>Not modelled.\<close> Most system calls (src/syscall.c) and the shell (src/kernel.c): they move data between
  user memory and the operations modelled here. The disk driver and the file systems on it (src/ata.c,
  src/diskfs.c, src/fat16.c) and the process file system (src/procfs.c): drivers behind the layer of
  src/fs.c, for which the model allows any. The keyboard and the timer (src/kb.c, src/timer.c).
  Boot code, descriptor tables and interrupt entry (src/boot.s, src/gdt.c, src/idt.c, src/isr.c,
  src/interrupt.s, src/usermode_s.s): they set hardware state that has no counterpart here. The user
  programs (src/user), host tests (src/tests) and build tools (src/tools).
\<close>

end
